(* ===== verification/Prelude.thy ===== *)
theory Prelude
  imports Main "HOL-Library.Word" "HOL-Library.AList" "HOL-Library.Monad_Syntax"
begin

text \<open>
  Shared material of the ProvidAPT development: the Go data the components use (byte strings with
  the functions of \<^verbatim>\<open>strings\<close>, \<^verbatim>\<open>strconv\<close> and \<^verbatim>\<open>fmt\<close> the sources call, UTF-8 decoding,
  maps), the collections of simplification rules, and the generic interfaces (key-value store,
  guarded step system, worklist search) as locales.

  Go strings are byte sequences, so they are \<^typ>\<open>string\<close>, whose characters are bytes.
  A Go map is an association list with distinct keys; the order of the list stands for the order in
  which a \<^verbatim>\<open>range\<close> loop happens to visit it, which Go leaves open, so a theorem about an arbitrary
  list is a theorem about every order. A value of type \<^verbatim>\<open>time.Time\<close> or \<^verbatim>\<open>time.Duration\<close> is a number
  of nanoseconds of type \<^typ>\<open>int\<close>. A Go run-time panic is \<^const>\<open>None\<close> where an operation can
  panic.
\<close>

section \<open>Collections and types\<close>

named_theorems go_simps \<open>characteristic equations of the Go library functions\<close>
named_theorems wf_intros \<open>preservation of the components' invariants\<close>

type_synonym u8 = "8 word"
type_synonym u16 = "16 word"
type_synonym u32 = "32 word"
type_synonym u64 = "64 word"
type_synonym bytes = "u8 list"
type_synonym time = int
type_synonym duration = int

abbreviation second :: duration where
  "second \<equiv> 1000000000"

abbreviation minute :: duration where
  "minute \<equiv> 60 * second"

text \<open>The zero value of \<^verbatim>\<open>time.Time\<close>, which \<^verbatim>\<open>IsZero\<close> tests: the first of January of the year 1.\<close>

definition zeroTime :: time where
  "zeroTime = - 62135596800 * second"

text \<open>A value of Go's 64-bit \<^verbatim>\<open>int\<close> after an operation that may overflow.\<close>

definition wrap64 :: "int \<Rightarrow> int" where
  "wrap64 i = (i + 2 ^ 63) mod 2 ^ 64 - 2 ^ 63"

lemma wrap64_id [simp]: "- (2 ^ 63) \<le> i \<Longrightarrow> i < 2 ^ 63 \<Longrightarrow> wrap64 i = i"
  by (simp add: wrap64_def)

text \<open>\<^verbatim>\<open>t.Sub(u)\<close> saturates at the bounds of an \<^verbatim>\<open>int64\<close>.\<close>

definition timeSub :: "time \<Rightarrow> time \<Rightarrow> duration" where
  "timeSub t u = max (- (2 ^ 63)) (min (2 ^ 63 - 1) (t - u))"

lemma timeSub_le [simp]: "0 \<le> d \<Longrightarrow> t - u \<le> d \<Longrightarrow> timeSub t u \<le> d"
  by (simp add: timeSub_def)

lemma timeSub_geD: "- (2 ^ 63) < d \<Longrightarrow> d \<le> timeSub t u \<Longrightarrow> d \<le> t - u"
  by (auto simp: timeSub_def)

section \<open>Go strings\<close>

text \<open>\<^verbatim>\<open>strings.HasPrefix(s, p)\<close>, \<^verbatim>\<open>HasSuffix\<close>, \<^verbatim>\<open>TrimPrefix\<close>, \<^verbatim>\<open>TrimSuffix\<close>, \<^verbatim>\<open>Contains\<close>.\<close>

definition hasPrefix :: "string \<Rightarrow> string \<Rightarrow> bool" where
  "hasPrefix s p = (take (length p) s = p)"

definition hasSuffix :: "string \<Rightarrow> string \<Rightarrow> bool" where
  "hasSuffix s p = (length p \<le> length s \<and> drop (length s - length p) s = p)"

definition trimPrefix :: "string \<Rightarrow> string \<Rightarrow> string" where
  "trimPrefix s p = (if hasPrefix s p then drop (length p) s else s)"

definition trimSuffix :: "string \<Rightarrow> string \<Rightarrow> string" where
  "trimSuffix s p = (if hasSuffix s p then take (length s - length p) s else s)"

fun containsStr :: "string \<Rightarrow> string \<Rightarrow> bool" where
  "containsStr [] sub = (sub = [])"
| "containsStr (c # s) sub = (hasPrefix (c # s) sub \<or> containsStr s sub)"

text \<open>\<^verbatim>\<open>strings.Join\<close>.\<close>

fun joinWith :: "string \<Rightarrow> string list \<Rightarrow> string" where
  "joinWith sep [] = []"
| "joinWith sep [s] = s"
| "joinWith sep (s # t # ss) = s @ sep @ joinWith sep (t # ss)"

lemma hasPrefix_iff [go_simps]: "hasPrefix s p \<longleftrightarrow> (\<exists>r. s = p @ r)"
  unfolding hasPrefix_def by (metis append_eq_conv_conj append_take_drop_id)

lemma hasPrefix_append [simp]: "hasPrefix (p @ r) p"
  by (simp add: hasPrefix_def)

lemma hasSuffix_iff [go_simps]: "hasSuffix s p \<longleftrightarrow> (\<exists>r. s = r @ p)"
proof
  assume "hasSuffix s p"
  then show "\<exists>r. s = r @ p"
    unfolding hasSuffix_def by (metis append_take_drop_id)
qed (auto simp: hasSuffix_def)

lemma containsStr_iff [go_simps]: "containsStr s sub \<longleftrightarrow> (\<exists>l r. s = l @ sub @ r)"
proof (induction s)
  case Nil
  then show ?case by simp
next
  case (Cons c s)
  have "(\<exists>l r. c # s = l @ sub @ r) \<longleftrightarrow> (\<exists>r. c # s = sub @ r) \<or> (\<exists>l r. s = l @ sub @ r)"
    by (metis append_Cons append_Nil list.exhaust list.inject)
  with Cons.IH show ?case by (simp add: hasPrefix_iff)
qed

lemma trimPrefix_append [simp]: "trimPrefix (p @ r) p = r"
  by (simp add: trimPrefix_def)

text \<open>
  \<^verbatim>\<open>strings.ToUpper\<close>, \<^verbatim>\<open>ToLower\<close> and \<^verbatim>\<open>EqualFold\<close> on ASCII letters. The Unicode case tables are
  not modelled: a byte of a non-ASCII character is left as it is.
\<close>

definition upperChar :: "char \<Rightarrow> char" where
  "upperChar c = (let n = (of_char c :: nat) in if 97 \<le> n \<and> n \<le> 122 then char_of (n - 32) else c)"

definition lowerChar :: "char \<Rightarrow> char" where
  "lowerChar c = (let n = (of_char c :: nat) in if 65 \<le> n \<and> n \<le> 90 then char_of (n + 32) else c)"

definition toUpper :: "string \<Rightarrow> string" where
  "toUpper s = map upperChar s"

definition toLower :: "string \<Rightarrow> string" where
  "toLower s = map lowerChar s"

definition equalFold :: "string \<Rightarrow> string \<Rightarrow> bool" where
  "equalFold s t = (toLower s = toLower t)"

section \<open>Decimal and other numerals\<close>

text \<open>The digits of \<^verbatim>\<open>fmt\<close>'s \<^verbatim>\<open>%d\<close>, \<^verbatim>\<open>%o\<close> and \<^verbatim>\<open>%x\<close> for unsigned values.\<close>

definition digitChar :: "nat \<Rightarrow> char" where
  "digitChar d = (if d < 10 then char_of (48 + d) else char_of (87 + d))"

fun showBase :: "nat \<Rightarrow> nat \<Rightarrow> string" where
  "showBase b n =
     (if b < 2 \<or> n < b then [digitChar n] else showBase b (n div b) @ [digitChar (n mod b)])"

declare showBase.simps [simp del]

abbreviation showNat :: "nat \<Rightarrow> string" where
  "showNat \<equiv> showBase 10"

definition showInt :: "int \<Rightarrow> string" where
  "showInt i = (if i < 0 then ''-'' @ showNat (nat (- i)) else showNat (nat i))"

abbreviation showU :: "'a::len word \<Rightarrow> string" where
  "showU w \<equiv> showNat (unat w)"

lemma of_digitChar: "d < 16 \<Longrightarrow> (of_char (digitChar d) :: nat) = (if d < 10 then 48 + d else 87 + d)"
  by (simp add: digitChar_def)

definition isDigit :: "char \<Rightarrow> bool" where
  "isDigit c = (48 \<le> (of_char c :: nat) \<and> (of_char c :: nat) \<le> 57)"

lemma isDigit_digitChar: "d < 10 \<Longrightarrow> isDigit (digitChar d)"
  by (simp add: isDigit_def of_digitChar)

lemma showNat_digits: "\<forall>c \<in> set (showNat n). isDigit c"
proof (induction "10::nat" n rule: showBase.induct)
  case (1 n)
  then show ?case
    by (cases "n < 10") (auto simp: showBase.simps [of 10 n] isDigit_digitChar)
qed

lemma showBase_nonempty [simp]: "showBase b n \<noteq> []"
  by (subst showBase.simps) simp

text \<open>Reading the digits back gives the number, so distinct numbers print differently.\<close>

definition readNat :: "string \<Rightarrow> nat" where
  "readNat s = foldl (\<lambda>acc c. 10 * acc + (of_char c - 48)) 0 s"

lemma readNat_showNat [simp]: "readNat (showNat n) = n"
proof (induction "10::nat" n rule: showBase.induct)
  case (1 n)
  then show ?case
    by (cases "n < 10") (auto simp: showBase.simps [of 10 n] readNat_def of_digitChar)
qed

lemma showNat_inj [simp]: "showNat m = showNat n \<longleftrightarrow> m = n"
  by (metis readNat_showNat)

lemma showU_inj [simp]: "unat (v :: 'a::len word) = unat w \<longleftrightarrow> v = w"
  by (rule word_unat_eq_iff [symmetric])

lemma showInt_inj: "showInt v = showInt w \<longleftrightarrow> v = w"
proof -
  have m: "CHR ''-'' \<notin> set (showNat n)" for n
    using showNat_digits [of n] by (force simp: isDigit_def)
  have "showNat n \<noteq> CHR ''-'' # xs" for n xs
    using m [of n] by force
  then have "showNat n \<noteq> CHR ''-'' # xs" "CHR ''-'' # xs \<noteq> showNat n" for n xs
    by metis+
  then show ?thesis by (auto simp: showInt_def)
qed

lemma showInt_no_colon: "CHR '':'' \<notin> set (showInt v)"
proof -
  have "CHR '':'' \<notin> set (showNat n)" for n using showNat_digits [of n] by (force simp: isDigit_def)
  then show ?thesis by (simp add: showInt_def)
qed

lemma split_first:
  assumes "xs @ a # ys = xs' @ a # ys'" and "a \<notin> set xs" and "a \<notin> set xs'"
  shows "xs = xs' \<and> ys = ys'"
  using assms
proof (induction xs arbitrary: xs')
  case Nil then show ?case by (cases xs') auto
next
  case (Cons x xs) then show ?case by (cases xs') auto
qed

section \<open>UTF-8\<close>

text \<open>
  \<^verbatim>\<open>utf8.DecodeRuneInString\<close>: the first code point and its width in bytes; an invalid or truncated
  sequence is the replacement character U+FFFD with width 1.
\<close>

definition runeError :: nat where
  "runeError = 65533"

definition contByte :: "nat \<Rightarrow> bool" where
  "contByte b = (128 \<le> b \<and> b \<le> 191)"

definition decodeRune :: "nat list \<Rightarrow> nat \<times> nat" where
  "decodeRune bs = (case bs of
      [] \<Rightarrow> (runeError, 0)
    | b0 # r \<Rightarrow>
        if b0 < 128 then (b0, 1)
        else case r of [] \<Rightarrow> (runeError, 1)
        | b1 # r1 \<Rightarrow>
          if 194 \<le> b0 \<and> b0 \<le> 223 then
            (if contByte b1 then ((b0 - 192) * 64 + (b1 - 128), 2) else (runeError, 1))
          else case r1 of [] \<Rightarrow> (runeError, 1)
          | b2 # r2 \<Rightarrow>
            if 224 \<le> b0 \<and> b0 \<le> 239 then
              (if contByte b1 \<and> contByte b2 \<and> (b0 = 224 \<longrightarrow> 160 \<le> b1) \<and> (b0 = 237 \<longrightarrow> b1 \<le> 159)
               then ((b0 - 224) * 4096 + (b1 - 128) * 64 + (b2 - 128), 3) else (runeError, 1))
            else case r2 of [] \<Rightarrow> (runeError, 1)
            | b3 # _ \<Rightarrow>
              if 240 \<le> b0 \<and> b0 \<le> 244 \<and> contByte b1 \<and> contByte b2 \<and> contByte b3
                 \<and> (b0 = 240 \<longrightarrow> 144 \<le> b1) \<and> (b0 = 244 \<longrightarrow> b1 \<le> 143)
              then ((b0 - 240) * 262144 + (b1 - 128) * 4096 + (b2 - 128) * 64 + (b3 - 128), 4)
              else (runeError, 1))"

lemma decodeRune_width: "bs \<noteq> [] \<Longrightarrow> 1 \<le> snd (decodeRune bs)"
  by (auto simp: decodeRune_def split: list.splits)

text \<open>The string cut into its runes, each with the bytes it takes.\<close>

function runes :: "string \<Rightarrow> (nat \<times> string) list" where
  "runes s = (if s = [] then []
     else let (r, w) = decodeRune (map of_char s) in (r, take w s) # runes (drop w s))"
  by pat_completeness auto
termination
proof (relation "measure length", goal_cases)
  case (2 s x r w)
  then have "1 \<le> w"
    using decodeRune_width [of "map of_char s"] by (metis map_is_Nil_conv snd_conv)
  with 2 show ?case by (cases s) auto
qed simp

declare runes.simps [simp del]

text \<open>\<^verbatim>\<open>unicode.IsSpace\<close> (the White Space property) and \<^verbatim>\<open>strings.TrimSpace\<close>.\<close>

definition isSpaceRune :: "nat \<Rightarrow> bool" where
  "isSpaceRune r = ((9 \<le> r \<and> r \<le> 13) \<or> r = 32 \<or> r = 133 \<or> r = 160 \<or> r = 5760
     \<or> (8192 \<le> r \<and> r \<le> 8202) \<or> r = 8232 \<or> r = 8233 \<or> r = 8239 \<or> r = 8287 \<or> r = 12288)"

definition trimSpace :: "string \<Rightarrow> string" where
  "trimSpace s = concat (map snd
     (rev (dropWhile (isSpaceRune \<circ> fst) (rev (dropWhile (isSpaceRune \<circ> fst) (runes s))))))"

text \<open>
  \<^verbatim>\<open>strings.ContainsRune(s, utf8.RuneError)\<close> also finds every invalid byte, since Go decodes it to
  that rune.
\<close>

definition containsRune :: "string \<Rightarrow> nat \<Rightarrow> bool" where
  "containsRune s r = (r \<in> set (map fst (runes s)))"

text \<open>
  \<^verbatim>\<open>fmt\<close>'s \<^verbatim>\<open>%q\<close>. The table of \<^verbatim>\<open>unicode.IsPrint\<close> is not modelled: a valid character outside ASCII is left as it is.
\<close>

definition hex2 :: "nat \<Rightarrow> string" where
  "hex2 n = [digitChar (n div 16), digitChar (n mod 16)]"

definition quoteRune :: "nat \<times> string \<Rightarrow> string" where
  "quoteRune rw = (case rw of (r, w) \<Rightarrow>
     if r = runeError \<and> length w = 1 then CHR 0x5C # ''x'' @ hex2 (of_char (hd w))
     else if r = 34 \<or> r = 92 then CHR 0x5C # w
     else if r = 7 then CHR 0x5C # ''a''
     else if r = 8 then CHR 0x5C # ''b''
     else if r = 12 then CHR 0x5C # ''f''
     else if r = 10 then CHR 0x5C # ''n''
     else if r = 13 then CHR 0x5C # ''r''
     else if r = 9 then CHR 0x5C # ''t''
     else if r = 11 then CHR 0x5C # ''v''
     else if r < 32 \<or> r = 127 then CHR 0x5C # ''x'' @ hex2 r
     else w)"

definition goQuote :: "string \<Rightarrow> string" where
  "goQuote s = CHR 0x22 # concat (map quoteRune (runes s)) @ [CHR 0x22]"

end
