(* ===== verification/Interfaces.thy ===== *)
theory Interfaces
  imports Prelude
begin

text \<open>
  The interfaces several components rely on, each as a locale: a key-value store (the contract of a
  Go map), and a system of guarded steps (the contract of a component whose operations keep an
  invariant). The key-value store is interpreted here on association lists, the model of Go maps;
  the components interpret the step system on their own operations.
\<close>

section \<open>Key-value stores\<close>

locale kv_store =
  fixes empty :: 'm
    and lookup :: "'m \<Rightarrow> 'k \<Rightarrow> 'v option"
    and put :: "'k \<Rightarrow> 'v \<Rightarrow> 'm \<Rightarrow> 'm"
    and del :: "'k \<Rightarrow> 'm \<Rightarrow> 'm"
    and invar :: "'m \<Rightarrow> bool"
  assumes invar_empty: "invar empty"
    and invar_put: "invar m \<Longrightarrow> invar (put k v m)"
    and invar_del: "invar m \<Longrightarrow> invar (del k m)"
    and lookup_empty: "lookup empty k = None"
    and lookup_put: "invar m \<Longrightarrow> lookup (put k v m) x = (if x = k then Some v else lookup m x)"
    and lookup_del: "invar m \<Longrightarrow> lookup (del k m) x = (if x = k then None else lookup m x)"
begin

text \<open>Get-or-create: the entry is written only when the key is missing.\<close>

lemma invar_ensure: "invar m \<Longrightarrow> invar (if lookup m k = None then put k v m else m)"
  by (simp add: invar_put)

lemma lookup_ensure:
  "invar m \<Longrightarrow> lookup (if lookup m k = None then put k v m else m) x =
     (if x = k \<and> lookup m k = None then Some v else lookup m x)"
  by (simp add: lookup_put)

lemma ensure_present:
  "invar m \<Longrightarrow> lookup (if lookup m k = None then put k v m else m) k \<noteq> None"
  by (simp add: lookup_put)

text \<open>Update through a pointer held in the map: the entry changes when the key is present.\<close>

lemma invar_alter:
  "invar m \<Longrightarrow> invar (case lookup m k of None \<Rightarrow> m | Some v \<Rightarrow> put k (f v) m)"
  by (simp add: invar_put split: option.split)

lemma lookup_alter:
  "invar m \<Longrightarrow> lookup (case lookup m k of None \<Rightarrow> m | Some v \<Rightarrow> put k (f v) m) x =
     (if x = k then map_option f (lookup m k) else lookup m x)"
  by (simp add: lookup_put split: option.split)

lemma put_del_lookup:
  "invar m \<Longrightarrow> lookup (del k (put k v m)) x = lookup (del k m) x"
  by (simp add: lookup_del lookup_put invar_put)

end

text \<open>Go maps: association lists with distinct keys.\<close>

interpretation gomap: kv_store "[]" map_of AList.update AList.delete "\<lambda>m. distinct (map fst m)"
  by unfold_locales
    (simp_all add: update_conv' delete_conv' distinct_update distinct_delete)

definition mensure :: "'k \<Rightarrow> 'v \<Rightarrow> ('k \<times> 'v) list \<Rightarrow> ('k \<times> 'v) list" where
  "mensure k v m = (if map_of m k = None then AList.update k v m else m)"

definition malter :: "'k \<Rightarrow> ('v \<Rightarrow> 'v) \<Rightarrow> ('k \<times> 'v) list \<Rightarrow> ('k \<times> 'v) list" where
  "malter k f m = (case map_of m k of None \<Rightarrow> m | Some v \<Rightarrow> AList.update k (f v) m)"

text \<open>\<^verbatim>\<open>m[k]\<close> with the zero value for a missing key.\<close>

definition mget0 :: "'v \<Rightarrow> ('k \<times> 'v) list \<Rightarrow> 'k \<Rightarrow> 'v" where
  "mget0 z m k = (case map_of m k of None \<Rightarrow> z | Some v \<Rightarrow> v)"

lemma map_of_update [simp]: "map_of (AList.update k v m) = (map_of m)(k \<mapsto> v)"
  by (rule update_conv')

lemma map_of_delete [simp]: "map_of (AList.delete k m) = (map_of m)(k := None)"
  by (rule delete_conv')

lemma map_of_mensure: "map_of (mensure k v m) =
    (if map_of m k = None then (map_of m)(k \<mapsto> v) else map_of m)"
  by (simp add: mensure_def)

lemma map_of_malter: "map_of (malter k f m) = (map_of m)(k := map_option f (map_of m k))"
  by (auto simp: malter_def split: option.split)

lemma distinct_mensure [wf_intros]:
  "distinct (map fst m) \<Longrightarrow> distinct (map fst (mensure k v m))"
  unfolding mensure_def by (rule gomap.invar_ensure)

lemma distinct_malter [wf_intros]:
  "distinct (map fst m) \<Longrightarrow> distinct (map fst (malter k f m))"
  unfolding malter_def by (rule gomap.invar_alter)

lemma distinct_mput [wf_intros]:
  "distinct (map fst m) \<Longrightarrow> distinct (map fst (AList.update k v m))"
  by (rule gomap.invar_put)

lemma distinct_mdel [wf_intros]:
  "distinct (map fst m) \<Longrightarrow> distinct (map fst (AList.delete k m))"
  by (rule gomap.invar_del)

lemma keys_mput: "set (map fst (AList.update k v m)) = insert k (set (map fst m))"
  by (metis dom_map_of_conv_image_fst image_set map_of_update dom_fun_upd option.distinct(1))

lemma keys_malter [simp]: "fst ` set (malter k f m) = fst ` set m"
proof -
  have "dom (map_of (malter k f m)) = dom (map_of m)"
    by (auto simp: map_of_malter split: if_splits)
  then show ?thesis by (simp add: dom_map_of_conv_image_fst)
qed

lemma keys_mensure [simp]: "fst ` set (mensure k v m) = insert k (fst ` set m)"
proof -
  have "dom (map_of (mensure k v m)) = insert k (dom (map_of m))"
    by (auto simp: map_of_mensure split: if_splits)
  then show ?thesis by (simp add: dom_map_of_conv_image_fst)
qed

lemma keys_iff: "k \<in> fst ` set m \<longleftrightarrow> map_of m k \<noteq> None"
  by (metis dom_map_of_conv_image_fst domIff)

lemma assoc_sum_delete:
  "distinct (map fst al) \<Longrightarrow> map_of al k = Some v \<Longrightarrow>
     sum_list (map (f \<circ> snd) al) = f v + sum_list (map (f \<circ> snd) (AList.delete k al))"
  for f :: "'v \<Rightarrow> 'n::comm_monoid_add"
proof (induction al)
  case (Cons p al)
  show ?case
  proof (cases "fst p = k")
    case True
    then have "k \<notin> fst ` set al" using Cons.prems(1) by auto
    then have "AList.delete k al = al" by simp
    then show ?thesis using True Cons.prems by (cases p) simp
  next
    case False
    then show ?thesis using Cons by (cases p) (auto simp: add_ac)
  qed
qed simp

lemma assoc_sum_update:
  "distinct (map fst al) \<Longrightarrow> sum_list (map (f \<circ> snd) (AList.update k w al)) =
     f w + sum_list (map (f \<circ> snd) (AList.delete k al))"
  for f :: "'v \<Rightarrow> 'n::comm_monoid_add"
  using assoc_sum_delete [of "AList.update k w al" k w f]
  by (simp add: distinct_mput) (metis delete_update_same)

section \<open>Systems of guarded steps\<close>

text \<open>
  A component as its operations on its state; \<^const>\<open>None\<close> is a Go panic, after which there is no
  next state.
\<close>

fun runOps :: "('op \<Rightarrow> 's \<Rightarrow> 's option) \<Rightarrow> 'op list \<Rightarrow> 's \<Rightarrow> 's option" where
  "runOps step [] s = Some s"
| "runOps step (op # ops) s = (case step op s of None \<Rightarrow> None | Some s' \<Rightarrow> runOps step ops s')"

lemma runOps_append: "runOps step (xs @ ys) s = (case runOps step xs s of None \<Rightarrow> None | Some t \<Rightarrow> runOps step ys t)"
  by (induction xs arbitrary: s) (auto split: option.splits)

locale guarded_system =
  fixes step :: "'op \<Rightarrow> 's \<Rightarrow> 's option"
    and inv :: "'s \<Rightarrow> bool"
  assumes step_inv: "inv s \<Longrightarrow> step op s = Some s' \<Longrightarrow> inv s'"
begin

lemma run_inv: "inv s \<Longrightarrow> runOps step ops s = Some s' \<Longrightarrow> inv s'"
  by (induction ops arbitrary: s) (auto split: option.splits dest: step_inv)

end

text \<open>A system whose operations never panic from a state of the invariant.\<close>

locale total_system = guarded_system +
  assumes step_total: "inv s \<Longrightarrow> step op s \<noteq> None"
begin

lemma run_total: "inv s \<Longrightarrow> \<exists>s'. runOps step ops s = Some s' \<and> inv s'"
proof (induction ops arbitrary: s)
  case Nil
  then show ?case by simp
next
  case (Cons op ops)
  from step_total [OF Cons.prems] obtain t where "step op s = Some t" by blast
  with Cons show ?case by (auto dest: step_inv)
qed

end

text \<open>
  A component whose operations always succeed but whose callers owe a precondition: the invariant holds along every run that
  keeps the preconditions.
\<close>

fun runAll :: "('op \<Rightarrow> 's \<Rightarrow> 's) \<Rightarrow> 'op list \<Rightarrow> 's \<Rightarrow> 's" where
  "runAll step [] s = s"
| "runAll step (p # ps) s = runAll step ps (step p s)"

fun okRun :: "('op \<Rightarrow> 's \<Rightarrow> bool) \<Rightarrow> ('op \<Rightarrow> 's \<Rightarrow> 's) \<Rightarrow> 'op list \<Rightarrow> 's \<Rightarrow> bool" where
  "okRun ok step [] s = True"
| "okRun ok step (p # ps) s = (ok p s \<and> okRun ok step ps (step p s))"

locale client_protocol =
  fixes ok :: "'op \<Rightarrow> 's \<Rightarrow> bool"
    and step :: "'op \<Rightarrow> 's \<Rightarrow> 's"
    and inv :: "'s \<Rightarrow> bool"
  assumes step_keeps: "inv s \<Longrightarrow> ok p s \<Longrightarrow> inv (step p s)"
begin

lemma runAll_inv: "inv s \<Longrightarrow> okRun ok step ps s \<Longrightarrow> inv (runAll step ps s)"
  by (induction ps arbitrary: s) (auto simp: step_keeps)

text \<open>A quantity that no operation changes is the same at the end.\<close>

lemma runAll_const: "(\<And>p s. f (step p s) = f s) \<Longrightarrow> f (runAll step ps s) = f s"
  by (induction ps arbitrary: s) auto

end

text \<open>
  A component that keeps books: every operation adds its own credit to a balance, so that the balance of a run is the sum
  of what was put in.
\<close>

locale ledger = client_protocol +
  fixes balance :: "'b \<Rightarrow> 'c::comm_monoid_add"
    and credit :: "'a \<Rightarrow> 'c"
  assumes step_credit: "inv s \<Longrightarrow> ok p s \<Longrightarrow> balance (step p s) = balance s + credit p"
begin

lemma runAll_balance:
  "inv s \<Longrightarrow> okRun ok step ps s \<Longrightarrow> balance (runAll step ps s) = balance s + sum_list (map credit ps)"
  by (induction ps arbitrary: s) (auto simp: step_credit step_keeps add.assoc)

end

end
