(* ===== verification/Events.thy ===== *)
theory Events
  imports Interfaces
begin

unbundle bit_operations_syntax

text \<open>
  The kernel event: the table of event types (\<^verbatim>\<open>internal/engine/syscall/syscall_table.go\<close>) and the
  decoder of the eBPF ring-buffer record (\<^verbatim>\<open>internal/engine/collector/ringbuf.go\<close>). An event type
  is a \<^verbatim>\<open>uint32\<close> that may hold any value, so it is a 32-bit word and the named types are constants.
\<close>

section \<open>Event types\<close>

definition EventFlagExecSetuid :: u32 where
  "EventFlagExecSetuid = push_bit 2 1"

abbreviation (input) EventProcessFork :: u32 where "EventProcessFork \<equiv> 1"
abbreviation (input) EventProcessExec :: u32 where "EventProcessExec \<equiv> 2"
abbreviation (input) EventProcessExit :: u32 where "EventProcessExit \<equiv> 3"
abbreviation (input) EventFileOpen :: u32 where "EventFileOpen \<equiv> 10"
abbreviation (input) EventFileCreate :: u32 where "EventFileCreate \<equiv> 11"
abbreviation (input) EventFileModify :: u32 where "EventFileModify \<equiv> 12"
abbreviation (input) EventFileDelete :: u32 where "EventFileDelete \<equiv> 13"
abbreviation (input) EventFileRename :: u32 where "EventFileRename \<equiv> 14"
abbreviation (input) EventNetConnect :: u32 where "EventNetConnect \<equiv> 20"
abbreviation (input) EventNetAccept :: u32 where "EventNetAccept \<equiv> 21"
abbreviation (input) EventNetSend :: u32 where "EventNetSend \<equiv> 22"
abbreviation (input) EventNetRecv :: u32 where "EventNetRecv \<equiv> 23"
abbreviation (input) EventCredSetuid :: u32 where "EventCredSetuid \<equiv> 40"
abbreviation (input) EventCredCapable :: u32 where "EventCredCapable \<equiv> 41"
abbreviation (input) EventMemfdCreate :: u32 where "EventMemfdCreate \<equiv> 50"
abbreviation (input) EventMprotectRX :: u32 where "EventMprotectRX \<equiv> 51"
abbreviation (input) EventPipeWrite :: u32 where "EventPipeWrite \<equiv> 52"
abbreviation (input) EventPipeRead :: u32 where "EventPipeRead \<equiv> 53"

definition eventTypeString :: "u32 \<Rightarrow> string" where
  "eventTypeString et =
    (if et = EventProcessFork then ''proc_fork''
     else if et = EventProcessExec then ''proc_exec''
     else if et = EventProcessExit then ''proc_exit''
     else if et = EventFileOpen then ''file_open''
     else if et = EventFileCreate then ''file_create''
     else if et = EventFileModify then ''file_modify''
     else if et = EventFileDelete then ''file_delete''
     else if et = EventFileRename then ''file_rename''
     else if et = EventNetConnect then ''net_connect''
     else if et = EventNetAccept then ''net_accept''
     else if et = EventNetSend then ''net_send''
     else if et = EventNetRecv then ''net_recv''
     else if et = EventCredSetuid then ''cred_setuid''
     else if et = EventCredCapable then ''cred_capable''
     else if et = EventMemfdCreate then ''memfd_create''
     else if et = EventMprotectRX then ''mprotect_rx''
     else if et = EventPipeWrite then ''pipe_write''
     else if et = EventPipeRead then ''pipe_read''
     else ''unknown'')"

section \<open>The event record\<close>

record event =
  evType :: u32
  evFlags :: u32
  evTimestampNS :: u64
  evPID :: u32
  evTID :: u32
  evPPID :: u32
  evUID :: u32
  evGID :: u32
  evInode :: u64
  evDevMajor :: u32
  evDevMinor :: u32
  evMode :: u32
  evFFlags :: u32
  evChildPID :: u32
  evSampleHookID :: u32
  evSampleCount :: u32
  evSaddr :: u32
  evDaddr :: u32
  evSport :: u16
  evDport :: u16
  evProtocol :: u8
  evComm :: string
  evPathname :: string
  evExePath :: string
  evCmdline :: string
  evCmdlineSource :: string
  evCwd :: string

section \<open>Decoding the ring-buffer record\<close>

abbreviation (input) eventTotalSize :: nat where "eventTotalSize \<equiv> 340"
abbreviation (input) sampleHookIDOffset :: nat where "sampleHookIDOffset \<equiv> 60"
abbreviation (input) sampleCountOffset :: nat where "sampleCountOffset \<equiv> 64"
abbreviation (input) commOffset :: nat where "commOffset \<equiv> 68"
abbreviation (input) commSize :: nat where "commSize \<equiv> 16"
abbreviation (input) pathnameOffset :: nat where "pathnameOffset \<equiv> 84"
abbreviation (input) pathnameSize :: nat where "pathnameSize \<equiv> 256"
abbreviation (input) childPidOffset :: nat where "childPidOffset \<equiv> 36"
abbreviation (input) inodeOffset :: nat where "inodeOffset \<equiv> 36"
abbreviation (input) saddrOffset :: nat where "saddrOffset \<equiv> 36"
abbreviation (input) daddrOffset :: nat where "daddrOffset \<equiv> 40"
abbreviation (input) sportOffset :: nat where "sportOffset \<equiv> 44"
abbreviation (input) dportOffset :: nat where "dportOffset \<equiv> 46"
abbreviation (input) protocolOffset :: nat where "protocolOffset \<equiv> 48"
abbreviation (input) devMajorOffset :: nat where "devMajorOffset \<equiv> 44"
abbreviation (input) devMinorOffset :: nat where "devMinorOffset \<equiv> 48"
abbreviation (input) modeOffset :: nat where "modeOffset \<equiv> 52"
abbreviation (input) fFlagsOffset :: nat where "fFlagsOffset \<equiv> 56"

text \<open>
  \<^verbatim>\<open>data[a:b]\<close>, and \<^verbatim>\<open>binary.LittleEndian.Uint16/32/64\<close> as one function of the result's width.
\<close>

definition slice :: "nat \<Rightarrow> nat \<Rightarrow> 'a list \<Rightarrow> 'a list" where
  "slice a b xs = take (b - a) (drop a xs)"

definition leNat :: "bytes \<Rightarrow> nat" where
  "leNat bs = foldr (\<lambda>b acc. unat b + 256 * acc) bs 0"

definition leWord :: "bytes \<Rightarrow> 'a::len word" where
  "leWord bs = word_of_nat (leNat bs)"

definition cString :: "bytes \<Rightarrow> string" where
  "cString buf = map (\<lambda>b. char_of (unat b)) (takeWhile (\<lambda>b. b \<noteq> 0) buf)"

definition isPathBackedEvent :: "u32 \<Rightarrow> bool" where
  "isPathBackedEvent typ = (typ \<in> {EventProcessExec, EventFileOpen, EventFileCreate,
     EventFileModify, EventFileDelete, EventFileRename})"

definition pathUnavailable :: "string \<Rightarrow> bool" where
  "pathUnavailable pathname = (let p = trimSpace pathname in
     p = [] \<or> p = ''?'' \<or> p = [CHR 0xE2, CHR 0x80, CHR 0xA6] \<or> containsRune p runeError)"

definition normalizePathname :: "event \<Rightarrow> event" where
  "normalizePathname e =
    (if \<not> isPathBackedEvent (evType e) \<or> \<not> pathUnavailable (evPathname e) then e
     else if evInode e = 0 then e
     else e\<lparr>evPathname := ''inode://'' @ showU (evDevMajor e) @ '':'' @ showU (evDevMinor e)
              @ ''/'' @ showU (evInode e)\<rparr>)"

datatype parse_error = EventTooShort nat

definition ParseRawEvent :: "bytes \<Rightarrow> parse_error + event" where
  "ParseRawEvent data =
    (if length data < eventTotalSize then Inl (EventTooShort (length data))
     else Inr (normalizePathname
       \<lparr>evType = leWord (slice 0 4 data),
        evFlags = leWord (slice 4 8 data),
        evTimestampNS = leWord (slice 8 16 data),
        evPID = leWord (slice 16 20 data),
        evTID = leWord (slice 20 24 data),
        evPPID = leWord (slice 24 28 data),
        evUID = leWord (slice 28 32 data),
        evGID = leWord (slice 32 36 data),
        evInode = leWord (slice inodeOffset (inodeOffset + 8) data),
        evDevMajor = leWord (slice devMajorOffset (devMajorOffset + 4) data),
        evDevMinor = leWord (slice devMinorOffset (devMinorOffset + 4) data),
        evMode = leWord (slice modeOffset (modeOffset + 4) data),
        evFFlags = leWord (slice fFlagsOffset (fFlagsOffset + 4) data),
        evChildPID = leWord (slice childPidOffset (childPidOffset + 4) data),
        evSampleHookID = leWord (slice sampleHookIDOffset (sampleHookIDOffset + 4) data),
        evSampleCount = leWord (slice sampleCountOffset (sampleCountOffset + 4) data),
        evSaddr = leWord (slice saddrOffset (saddrOffset + 4) data),
        evDaddr = leWord (slice daddrOffset (daddrOffset + 4) data),
        evSport = leWord (slice sportOffset (sportOffset + 2) data),
        evDport = leWord (slice dportOffset (dportOffset + 2) data),
        evProtocol = data ! protocolOffset,
        evComm = cString (slice commOffset (commOffset + commSize) data),
        evPathname = cString (slice pathnameOffset (pathnameOffset + pathnameSize) data),
        evExePath = [], evCmdline = [], evCmdlineSource = [], evCwd = []\<rparr>))"

section \<open>The wire format\<close>

text \<open>
  The layout the kernel side writes, from the comment that opens \<^verbatim>\<open>ringbuf.go\<close> (the file-oriented
  reading of the union): the specification the decoder is checked against.
\<close>

fun leBytes :: "nat \<Rightarrow> nat \<Rightarrow> bytes" where
  "leBytes 0 n = []"
| "leBytes (Suc k) n = word_of_nat (n mod 256) # leBytes k (n div 256)"

definition cField :: "nat \<Rightarrow> string \<Rightarrow> bytes" where
  "cField k s = map (\<lambda>c. word_of_nat (of_char c)) s @ replicate (k - length s) 0"

definition wireEvent :: "event \<Rightarrow> bytes" where
  "wireEvent e =
     leBytes 4 (unat (evType e)) @ leBytes 4 (unat (evFlags e)) @ leBytes 8 (unat (evTimestampNS e))
     @ leBytes 4 (unat (evPID e)) @ leBytes 4 (unat (evTID e)) @ leBytes 4 (unat (evPPID e))
     @ leBytes 4 (unat (evUID e)) @ leBytes 4 (unat (evGID e))
     @ leBytes 8 (unat (evInode e)) @ leBytes 4 (unat (evDevMajor e)) @ leBytes 4 (unat (evDevMinor e))
     @ leBytes 4 (unat (evMode e)) @ leBytes 4 (unat (evFFlags e))
     @ leBytes 4 (unat (evSampleHookID e)) @ leBytes 4 (unat (evSampleCount e))
     @ cField commSize (evComm e) @ cField pathnameSize (evPathname e)"

lemma length_leBytes [simp]: "length (leBytes k n) = k"
  by (induction k arbitrary: n) auto

lemma leNat_Nil [simp]: "leNat [] = 0"
  and leNat_Cons [simp]: "leNat (b # bs) = unat b + 256 * leNat bs"
  by (simp_all add: leNat_def)

lemma leNat_leBytes: "leNat (leBytes k n) = n mod 256 ^ k"
proof (induction k arbitrary: n)
  case 0
  then show ?case by simp
next
  case (Suc k)
  have "unat (word_of_nat (n mod 256) :: u8) = n mod 256"
    by (simp add: unat_of_nat)
  moreover have "n mod 256 + 256 * (n div 256 mod 256 ^ k) = n mod 256 ^ Suc k"
    by (simp add: mod_mult2_eq)
  ultimately show ?case using Suc.IH by simp
qed

lemma leWord_leBytes:
  fixes w :: "'a::len word"
  assumes "LENGTH('a) = 8 * k"
  shows "leWord (leBytes k (unat w)) = w"
proof -
  have "unat w < 256 ^ k"
    using unsigned_less [of w] assms by (simp add: power_mult)
  then show ?thesis by (simp add: leWord_def leNat_leBytes)
qed

lemma slice_append [simp]: "length xs \<le> a \<Longrightarrow> slice a b (xs @ ys) = slice (a - length xs) (b - length xs) ys"
  by (simp add: slice_def)

lemma slice_front [simp]: "length xs = b \<Longrightarrow> slice 0 b (xs @ ys) = xs"
  by (simp add: slice_def)

lemma length_cField: "length s \<le> k \<Longrightarrow> length (cField k s) = k"
  by (simp add: cField_def)

lemma cString_padded:
  "(0::nat) \<notin> of_char ` set s \<Longrightarrow> cString (map (\<lambda>c. word_of_nat (of_char c)) s @ replicate n 0) = s"
proof (induction s)
  case Nil
  have "takeWhile (\<lambda>b::u8. b \<noteq> 0) (replicate n 0) = []"
    by (cases n) auto
  then show ?case by (simp add: cString_def)
next
  case (Cons c s)
  have "(of_char c :: nat) < 256"
    using range_nat_of_char by (metis atLeastLessThan_iff rangeI)
  then have u: "unat (word_of_nat (of_char c) :: u8) = of_char c"
    by (simp add: unat_of_nat)
  then have "(word_of_nat (of_char c) :: u8) \<noteq> 0"
    using Cons.prems by auto
  with Cons u show ?case by (simp add: cString_def)
qed

lemma cString_cField: "(0::nat) \<notin> of_char ` set s \<Longrightarrow> cString (cField k s) = s"
  unfolding cField_def by (rule cString_padded)

lemma leBytes_add: "leBytes (j + k) n = leBytes j n @ leBytes k (n div 256 ^ j)"
  by (induction j arbitrary: n) (auto simp: div_mult2_eq)

lemma leWord_leBytes_ucast:
  fixes w :: "'b::len word"
  assumes "LENGTH('a::len) = 8 * k"
  shows "(leWord (leBytes k (unat w div 2 ^ m)) :: 'a word) = ucast (drop_bit m w)"
proof -
  have "unat w div 2 ^ m = unat (drop_bit m w)"
    by (metis drop_bit_eq_div unat_drop_bit_eq)
  moreover have "(256 :: nat) ^ k = 2 ^ LENGTH('a)"
    using assms by (simp add: power_mult)
  ultimately show ?thesis
    by (simp add: leWord_def leNat_leBytes word_unat_eq_iff unat_of_nat unsigned_ucast_eq take_bit_eq_mod)
qed

lemma slice_prefix: "b \<le> length xs \<Longrightarrow> slice a b (xs @ ys) = slice a b xs"
  by (simp add: slice_def)

lemma slice_leBytes:
  "a + j \<le> k \<Longrightarrow> slice a (a + j) (leBytes k n) = leBytes j (n div 256 ^ a)"
proof -
  assume "a + j \<le> k"
  then obtain m where k: "k = a + (j + m)" by (metis add.assoc le_iff_add)
  show ?thesis
    unfolding k leBytes_add [of a "j + m" n] leBytes_add [of j m "n div 256 ^ a"]
    by simp
qed

lemma length_wireEvent:
  "length (evComm e) \<le> commSize \<Longrightarrow> length (evPathname e) \<le> pathnameSize \<Longrightarrow>
     length (wireEvent e) = eventTotalSize"
  by (simp add: wireEvent_def length_cField)

text \<open>
  The fields of the union that overlap the file payload: the decoder reads all of them, whatever the
  event's type.
\<close>

definition unionView :: "event \<Rightarrow> event" where
  "unionView e = e\<lparr>evChildPID := ucast (evInode e), evSaddr := ucast (evInode e),
     evDaddr := ucast (drop_bit 32 (evInode e)), evSport := ucast (evDevMajor e),
     evDport := ucast (drop_bit 16 (evDevMajor e)), evProtocol := ucast (evDevMinor e),
     evExePath := [], evCmdline := [], evCmdlineSource := [], evCwd := []\<rparr>"

lemma wire_union:
  "(leWord (slice 36 40 (wireEvent e @ rest)) :: u32) = ucast (evInode e)"
  "(leWord (slice 40 44 (wireEvent e @ rest)) :: u32) = ucast (drop_bit 32 (evInode e))"
  "(leWord (slice 44 46 (wireEvent e @ rest)) :: u16) = ucast (evDevMajor e)"
  "(leWord (slice 46 48 (wireEvent e @ rest)) :: u16) = ucast (drop_bit 16 (evDevMajor e))"
  using slice_leBytes [of 0 4 8 "unat (evInode e)"] slice_leBytes [of 4 4 8 "unat (evInode e)"]
    slice_leBytes [of 0 2 4 "unat (evDevMajor e)"] slice_leBytes [of 2 2 4 "unat (evDevMajor e)"]
    leWord_leBytes_ucast [where 'a = 32, of 4 "evInode e" 0]
    leWord_leBytes_ucast [where 'a = 32, of 4 "evInode e" 32]
    leWord_leBytes_ucast [where 'a = 16, of 2 "evDevMajor e" 0]
    leWord_leBytes_ucast [where 'a = 16, of 2 "evDevMajor e" 16]
  by (simp_all add: wireEvent_def slice_prefix flip: numeral_2_eq_2)

lemma nth_slice: "a < b \<Longrightarrow> a < length xs \<Longrightarrow> xs ! a = hd (slice a b xs)"
  by (simp add: slice_def hd_drop_conv_nth)

lemma hd_leBytes: "0 < k \<Longrightarrow> hd (leBytes k n) = word_of_nat (n mod 256)"
  by (cases k) auto

lemma wire_protocol:
  assumes "length (evComm e) \<le> commSize" and "length (evPathname e) \<le> pathnameSize"
  shows "(wireEvent e @ rest) ! protocolOffset = ucast (evDevMinor e)"
proof -
  have "(wireEvent e @ rest) ! protocolOffset = hd (slice 48 52 (wireEvent e @ rest))"
    using assms by (intro nth_slice) (simp_all add: length_wireEvent)
  also have "\<dots> = hd (leBytes 4 (unat (evDevMinor e)))"
    by (simp add: wireEvent_def)
  also have "\<dots> = ucast (evDevMinor e)"
    by (simp add: hd_leBytes word_unat_eq_iff unat_of_nat unsigned_ucast_eq take_bit_eq_mod)
  finally show ?thesis .
qed

text \<open>
  C1. Decoding inverts the wire format: for every event whose names fit their fixed-size fields, a
  record laid out as the kernel writes it (with or without trailing bytes) decodes, without an error,
  to the same fields, the overlapping views of the union, and the normalised path name.
\<close>

theorem ParseRawEvent_wireEvent:
  assumes "length (evComm e) \<le> commSize" and "length (evPathname e) \<le> pathnameSize"
    and "(0::nat) \<notin> of_char ` set (evComm e)" and "(0::nat) \<notin> of_char ` set (evPathname e)"
  shows "ParseRawEvent (wireEvent e @ rest) = Inr (normalizePathname (unionView e))"
  unfolding ParseRawEvent_def unionView_def
  using assms wire_union [of e rest] wire_protocol [of e rest]
  by (cases e, simp add: length_wireEvent)
     (simp add: wireEvent_def leWord_leBytes length_cField cString_cField)

text \<open>An event with every field zero, from which the examples are built.\<close>

definition zeroEvent :: event where
  "zeroEvent = \<lparr>evType = 0, evFlags = 0, evTimestampNS = 0, evPID = 0, evTID = 0, evPPID = 0,
     evUID = 0, evGID = 0, evInode = 0, evDevMajor = 0, evDevMinor = 0, evMode = 0, evFFlags = 0,
     evChildPID = 0, evSampleHookID = 0, evSampleCount = 0, evSaddr = 0, evDaddr = 0, evSport = 0,
     evDport = 0, evProtocol = 0, evComm = [], evPathname = [], evExePath = [], evCmdline = [],
     evCmdlineSource = [], evCwd = []\<rparr>"

theorem ParseRawEvent_wireEvent_witness:
  "ParseRawEvent (wireEvent (zeroEvent\<lparr>evType := EventFileOpen, evInode := 4294967297,
      evComm := ''bash'', evPathname := ''/etc/shadow''\<rparr>) @ [7]) =
   Inr (normalizePathname (unionView (zeroEvent\<lparr>evType := EventFileOpen, evInode := 4294967297,
      evComm := ''bash'', evPathname := ''/etc/shadow''\<rparr>)))"
  by (rule ParseRawEvent_wireEvent) (simp_all add: zeroEvent_def)

end
