(* ===== verification/ProvIds.thy ===== *)
theory ProvIds
  imports Events
begin

text \<open>
  The vocabulary of the provenance graph (\<^verbatim>\<open>internal/engine/provenance\<close>): nodes (\<^verbatim>\<open>node.go\<close>), edges
  (\<^verbatim>\<open>edge.go\<close>), the PROV constants and identifiers (\<^verbatim>\<open>prov.go\<close>), and the three trackers the graph
  owns: file versions (\<^verbatim>\<open>version.go\<close>), credentials (\<^verbatim>\<open>credential.go\<close>) and process parents
  (\<^verbatim>\<open>identity.go\<close>). The trackers' own mutexes are always taken inside the graph's, so their
  operations are functions on their state.
\<close>

section \<open>Nodes and edges\<close>

datatype attr = AStr string | AU32 u32 | AU64 u64 | ABool bool

type_synonym attrs = "(string \<times> attr) list"

record node =
  nID :: string
  nProvType :: string
  nSubtype :: string
  nLabel :: string
  nFirstSeen :: time
  nLastSeen :: time
  nAttributes :: attrs

definition newNode :: "string \<Rightarrow> string \<Rightarrow> string \<Rightarrow> string \<Rightarrow> time \<Rightarrow> node" where
  "newNode i provType subtype label ts =
     \<lparr>nID = i, nProvType = provType, nSubtype = subtype, nLabel = label,
      nFirstSeen = ts, nLastSeen = ts, nAttributes = []\<rparr>"

definition touch :: "time \<Rightarrow> node \<Rightarrow> node" where
  "touch ts n = (if nLastSeen n < ts then n\<lparr>nLastSeen := ts\<rparr> else n)"

definition setAttr :: "string \<Rightarrow> attr \<Rightarrow> node \<Rightarrow> node" where
  "setAttr k v n = (if map_of (nAttributes n) k = None
     then n\<lparr>nAttributes := AList.update k v (nAttributes n)\<rparr> else n)"

definition upsertAttr :: "string \<Rightarrow> attr \<Rightarrow> node \<Rightarrow> node" where
  "upsertAttr k v n = n\<lparr>nAttributes := AList.update k v (nAttributes n)\<rparr>"

record edge =
  eID :: string
  eSource :: string
  eTarget :: string
  eRelation :: string
  eTimestamp :: time
  eCount :: int
  eAttributes :: attrs

definition newEdge :: "string \<Rightarrow> string \<Rightarrow> string \<Rightarrow> string \<Rightarrow> time \<Rightarrow> edge" where
  "newEdge i relation source target ts =
     \<lparr>eID = i, eSource = source, eTarget = target, eRelation = relation,
      eTimestamp = ts, eCount = 1, eAttributes = []\<rparr>"

definition mergeEdge :: "time \<Rightarrow> edge \<Rightarrow> edge" where
  "mergeEdge ts e = (let e' = e\<lparr>eCount := eCount e + 1\<rparr> in
     if eTimestamp e' < ts then e'\<lparr>eTimestamp := ts\<rparr> else e')"

section \<open>PROV constants and identifiers\<close>

abbreviation (input) ProvActivity :: string where "ProvActivity \<equiv> ''prov:Activity''"
abbreviation (input) ProvEntity :: string where "ProvEntity \<equiv> ''prov:Entity''"
abbreviation (input) ProvUsed :: string where "ProvUsed \<equiv> ''prov:used''"
abbreviation (input) ProvWasGeneratedBy :: string where "ProvWasGeneratedBy \<equiv> ''prov:wasGeneratedBy''"
abbreviation (input) ProvWasInformedBy :: string where "ProvWasInformedBy \<equiv> ''prov:wasInformedBy''"
abbreviation (input) ProvWasDerivedFrom :: string where "ProvWasDerivedFrom \<equiv> ''prov:wasDerivedFrom''"
abbreviation (input) ProvHadSecurityContext :: string where
  "ProvHadSecurityContext \<equiv> ''prov:hadSecurityContext''"
abbreviation (input) SubProcess :: string where "SubProcess \<equiv> ''process''"
abbreviation (input) SubFile :: string where "SubFile \<equiv> ''file''"
abbreviation (input) SubNet :: string where "SubNet \<equiv> ''network''"
abbreviation (input) SubCredential :: string where "SubCredential \<equiv> ''credential''"

text \<open>\<^verbatim>\<open>nodeID(kind, parts...)\<close>; the parts are given as \<^verbatim>\<open>fmt.Sprint\<close> prints them.\<close>

definition nodeID :: "string \<Rightarrow> string list \<Rightarrow> string" where
  "nodeID kind parts = foldl (\<lambda>s p. s @ '':'' @ p) kind parts"

definition NodeIDProcess :: "u32 \<Rightarrow> string" where
  "NodeIDProcess pid = nodeID ''p'' [showU pid]"

definition NodeIDFile :: "u64 \<Rightarrow> u32 \<Rightarrow> u32 \<Rightarrow> string" where
  "NodeIDFile inode major minor = nodeID ''f'' [showU inode, showU major, showU minor]"

text \<open>FNV-1a over the bytes of the string, in 64-bit arithmetic.\<close>

definition hashStr :: "string \<Rightarrow> u64" where
  "hashStr s = foldl (\<lambda>h c. (h XOR word_of_nat (of_char c)) * 1099511628211) 14695981039346656037 s"

definition NodeIDFilePath :: "string \<Rightarrow> string" where
  "NodeIDFilePath path = nodeID ''f'' [''path'', showU (hashStr path)]"

definition xmlSafe :: "char \<Rightarrow> bool" where
  "xmlSafe c = (let n = (of_char c :: nat) in
     (97 \<le> n \<and> n \<le> 122) \<or> (65 \<le> n \<and> n \<le> 90) \<or> (48 \<le> n \<and> n \<le> 57)
     \<or> c = CHR ''_'' \<or> c = CHR ''-'' \<or> c = CHR '':'')"

definition edgeID :: "string \<Rightarrow> string \<Rightarrow> string \<Rightarrow> string" where
  "edgeID relation source target =
     (let raw = relation @ '':'' @ source @ ''->'' @ target;
          buf = map (\<lambda>c. if xmlSafe c then c else CHR ''_'') raw
      in if length buf > 80 then take 80 buf else buf)"

section \<open>File versions\<close>

record version_tracker =
  vtLatest :: "(string \<times> int) list"
  vtCreated :: "(string \<times> bool) list"

definition NewVersionTracker :: version_tracker where
  "NewVersionTracker = \<lparr>vtLatest = [], vtCreated = []\<rparr>"

definition versionedID :: "string \<Rightarrow> int \<Rightarrow> string" where
  "versionedID baseID version = baseID @ ''#v'' @ showInt version"

definition InitVersion :: "string \<Rightarrow> version_tracker \<Rightarrow> string \<times> version_tracker" where
  "InitVersion baseID vt = (let vt' = vt\<lparr>vtLatest := mensure baseID 1 (vtLatest vt)\<rparr> in
     (versionedID baseID (mget0 0 (vtLatest vt') baseID), vt'))"

definition NextVersion :: "string \<Rightarrow> version_tracker \<Rightarrow> (string \<times> string) \<times> version_tracker" where
  "NextVersion baseID vt =
     (let prev0 = mget0 0 (vtLatest vt) baseID;
          prev = (if prev0 = 0 then 1 else prev0);
          latest1 = (if prev0 = 0 then AList.update baseID 1 (vtLatest vt) else vtLatest vt);
          prevID = versionedID baseID prev;
          latest2 = AList.update baseID (mget0 0 latest1 baseID + 1) latest1;
          newID = versionedID baseID (mget0 0 latest2 baseID)
      in ((prevID, newID), vt\<lparr>vtLatest := latest2, vtCreated := AList.update newID True (vtCreated vt)\<rparr>))"

definition LatestVersion :: "string \<Rightarrow> version_tracker \<Rightarrow> string" where
  "LatestVersion baseID vt =
     (let ver = mget0 0 (vtLatest vt) baseID in versionedID baseID (if ver = 0 then 1 else ver))"

definition IsVersioned :: "string \<Rightarrow> version_tracker \<Rightarrow> bool" where
  "IsVersioned i vt = mget0 False (vtCreated vt) i"

fun stripLoop :: "string \<Rightarrow> nat \<Rightarrow> string" where
  "stripLoop i 0 = i"
| "stripLoop i (Suc k) = (if i ! k = CHR ''#'' then take k i else stripLoop i k)"

definition StripVersion :: "string \<Rightarrow> string" where
  "StripVersion i = stripLoop i (length i)"

section \<open>Credentials\<close>

record security_context =
  scPID :: u32
  scUID :: u32
  scEUID :: u32
  scHasSetuid :: bool
  scPrevUID :: u32

type_synonym cred_tracker = "(u32 \<times> security_context) list"

definition NewCredTracker :: cred_tracker where
  "NewCredTracker = []"

definition isSetuidExec :: "event \<Rightarrow> bool" where
  "isSetuidExec evt = (evFlags evt AND EventFlagExecSetuid \<noteq> 0)"

definition OnExec :: "event \<Rightarrow> time \<Rightarrow> cred_tracker \<Rightarrow> (string \<times> u32) \<times> cred_tracker" where
  "OnExec evt ts ct =
     (let pid = evPID evt;
          prev = map_of ct pid;
          ct' = AList.update pid \<lparr>scPID = pid, scUID = evUID evt, scEUID = evUID evt,
                  scHasSetuid = isSetuidExec evt, scPrevUID = 0\<rparr> ct
      in if \<not> isSetuidExec evt then (([], 0), ct')
         else ((''c:'' @ showU pid @ '':'' @ showInt ts,
                case prev of None \<Rightarrow> 0 | Some p \<Rightarrow> scUID p), ct'))"

definition GetContext :: "u32 \<Rightarrow> cred_tracker \<Rightarrow> security_context option" where
  "GetContext pid ct = map_of ct pid"

section \<open>Process parents\<close>

record process_store =
  psParentOf :: "(u32 \<times> u32) list"
  psKnownPIDs :: "(u32 \<times> bool) list"

definition NewProcessStore :: process_store where
  "NewProcessStore = \<lparr>psParentOf = [], psKnownPIDs = []\<rparr>"

definition RecordFork :: "u32 \<Rightarrow> u32 \<Rightarrow> process_store \<Rightarrow> process_store" where
  "RecordFork parentPID childPID ps = ps\<lparr>psParentOf := AList.update childPID parentPID (psParentOf ps),
     psKnownPIDs := AList.update childPID True (AList.update parentPID True (psKnownPIDs ps))\<rparr>"

definition RecordProcess :: "u32 \<Rightarrow> process_store \<Rightarrow> process_store" where
  "RecordProcess pid ps = ps\<lparr>psKnownPIDs := AList.update pid True (psKnownPIDs ps)\<rparr>"

definition ResolveParent :: "u32 \<Rightarrow> process_store \<Rightarrow> u32" where
  "ResolveParent pid ps = mget0 0 (psParentOf ps) pid"

definition IsOrphan :: "u32 \<Rightarrow> process_store \<Rightarrow> bool" where
  "IsOrphan pid ps = (case map_of (psParentOf ps) pid of
      None \<Rightarrow> True
    | Some parent \<Rightarrow> \<not> mget0 False (psKnownPIDs ps) parent)"

definition inheritedKeys :: "string list" where
  "inheritedKeys = [''identity'', ''session_id'', ''source_ip'', ''auth_method'', ''taint'', ''monitor_level'']"

text \<open>\<^verbatim>\<open>InheritParentContext(child, parent)\<close>: the parent's attributes, then the child node.\<close>

definition InheritParentContext :: "attrs \<Rightarrow> node \<Rightarrow> node" where
  "InheritParentContext parentAttrs child =
     fold (\<lambda>key n. case map_of parentAttrs key of None \<Rightarrow> n | Some v \<Rightarrow> upsertAttr key v n)
       inheritedKeys child"

text \<open>
  \<^verbatim>\<open>readStartTime\<close>: the argument \<open>rf\<close> is \<^verbatim>\<open>os.ReadFile\<close>, \<^const>\<open>None\<close> for an error. The result is
  \<^const>\<open>None\<close> where the slice expression \<^verbatim>\<open>raw[closeParen+2:]\<close> panics.
\<close>

fun fieldsLoop :: "(nat \<times> string) list \<Rightarrow> string \<Rightarrow> string list" where
  "fieldsLoop [] cur = (if cur = [] then [] else [cur])"
| "fieldsLoop ((r, bs) # rs) cur =
     (if isSpaceRune r then (if cur = [] then fieldsLoop rs [] else cur # fieldsLoop rs [])
      else fieldsLoop rs (cur @ bs))"

definition stringFields :: "string \<Rightarrow> string list" where
  "stringFields s = fieldsLoop (runes s) []"

fun lastIndexLoop :: "char \<Rightarrow> string \<Rightarrow> nat \<Rightarrow> nat option" where
  "lastIndexLoop c s 0 = None"
| "lastIndexLoop c s (Suc k) = (if s ! k = c then Some k else lastIndexLoop c s k)"

definition parseUint64 :: "string \<Rightarrow> u64 option" where
  "parseUint64 s = (if s \<noteq> [] \<and> list_all isDigit s \<and> readNat s < 2 ^ 64
     then Some (word_of_nat (readNat s)) else None)"

definition readStartTime :: "(string \<Rightarrow> string option) \<Rightarrow> u32 \<Rightarrow> u64 option" where
  "readStartTime rf pid =
    (case rf (''/proc/'' @ showU pid @ ''/stat'') of
       None \<Rightarrow> Some 0
     | Some raw \<Rightarrow>
         if length (stringFields raw) < 22 then Some 0
         else case lastIndexLoop (CHR '')'') raw (length raw) of
           None \<Rightarrow> Some 0
         | Some closeParen \<Rightarrow>
             if length raw < closeParen + 2 then None
             else let parts = stringFields (drop (closeParen + 2) raw) in
               if length parts < 20 then Some 0
               else case parseUint64 (parts ! 19) of None \<Rightarrow> Some 0 | Some v \<Rightarrow> Some v)"

section \<open>Facts about identifiers\<close>

lemma nodeID_Nil [simp]: "nodeID kind [] = kind"
  and nodeID_snoc: "nodeID kind (ps @ [p]) = nodeID kind ps @ '':'' @ p"
  by (simp_all add: nodeID_def)

lemma stripLoop_hit:
  "k < length i \<Longrightarrow> i ! k = CHR ''#'' \<Longrightarrow> k < m \<Longrightarrow> m \<le> length i \<Longrightarrow>
     (\<forall>j. k < j \<and> j < m \<longrightarrow> i ! j \<noteq> CHR ''#'') \<Longrightarrow> stripLoop i m = take k i"
proof (induction m)
  case (Suc m)
  then show ?case by (cases "k = m") auto
qed simp

lemma showInt_no_hash: "CHR ''#'' \<notin> set (showInt v)"
proof -
  have "\<not> isDigit (CHR ''#'')" by (simp add: isDigit_def)
  then have "CHR ''#'' \<notin> set (showNat n)" for n
    using showNat_digits by blast
  then show ?thesis by (simp add: showInt_def)
qed

lemma StripVersion_versionedID [simp]: "StripVersion (versionedID b v) = b"
proof -
  let ?i = "versionedID b v"
  have n: "CHR ''#'' \<notin> set (CHR ''v'' # showInt v)"
    using showInt_no_hash by simp
  have i: "?i = b @ CHR ''#'' # CHR ''v'' # showInt v"
    by (simp add: versionedID_def)
  have "stripLoop ?i (length ?i) = take (length b) ?i"
  proof (rule stripLoop_hit)
    show "\<forall>j. length b < j \<and> j < length ?i \<longrightarrow> ?i ! j \<noteq> CHR ''#''"
    proof (intro allI impI)
      fix j assume j: "length b < j \<and> j < length ?i"
      then have "?i ! j = (CHR ''v'' # showInt v) ! (j - length b - 1)"
        unfolding i by (simp add: nth_append nth_Cons')
      moreover have "j - length b - 1 < length (CHR ''v'' # showInt v)"
        using j unfolding i by auto
      ultimately show "?i ! j \<noteq> CHR ''#''" using n by (metis nth_mem)
    qed
  qed (simp_all add: i)
  then show ?thesis by (simp add: StripVersion_def i)
qed

lemma versionedID_inj [simp]: "versionedID b v = versionedID c w \<longleftrightarrow> b = c \<and> v = w"
proof
  assume eq: "versionedID b v = versionedID c w"
  then have "b = c" by (metis StripVersion_versionedID)
  with eq show "b = c \<and> v = w" by (simp add: versionedID_def showInt_inj)
qed simp

end
