(* ===== verification/ProvGraph.thy ===== *)
theory ProvGraph
  imports ProvIds
begin

text \<open>
  The in-memory provenance graph (\<^verbatim>\<open>internal/engine/provenance/graph.go\<close>, with its parts in
  \<^verbatim>\<open>version.go\<close>, \<^verbatim>\<open>identity.go\<close> and \<^verbatim>\<open>memory.go\<close>): the state behind the graph's mutex as a record,
  one definition per handler, and \<open>AddEvent\<close>, which composes them. A node pointer held by a handler
  is the identifier under which the graph stores the node; writing through the pointer is
  \<open>updNode\<close>. Updates of the Prometheus gauges and log lines are left out.
  \<open>rf\<close> is \<^verbatim>\<open>os.ReadFile\<close>, through which \<^verbatim>\<open>readStartTime\<close> reads \<^verbatim>\<open>/proc\<close>; \<^const>\<open>None\<close> is a panic.
\<close>

section \<open>State\<close>

record graph =
  gNodes :: "(string \<times> node) list"
  gEdges :: "(string \<times> edge) list"
  gEdgeOrder :: "string list"
  gFirstTS :: u64
  gStartTime :: time
  gVersions :: version_tracker
  gCreds :: cred_tracker
  gProcs :: process_store

definition NewGraph :: "time \<Rightarrow> graph" where
  "NewGraph now = \<lparr>gNodes = [], gEdges = [], gEdgeOrder = [], gFirstTS = 0, gStartTime = now,
     gVersions = NewVersionTracker, gCreds = NewCredTracker, gProcs = NewProcessStore\<rparr>"

section \<open>Node and edge helpers\<close>

definition getOrCreateNode ::
    "string \<Rightarrow> string \<Rightarrow> string \<Rightarrow> string \<Rightarrow> time \<Rightarrow> graph \<Rightarrow> graph" where
  "getOrCreateNode i provType subtype label ts g =
     g\<lparr>gNodes := mensure i (newNode i provType subtype label ts) (gNodes g)\<rparr>"

definition updNode :: "string \<Rightarrow> (node \<Rightarrow> node) \<Rightarrow> graph \<Rightarrow> graph" where
  "updNode i f g = g\<lparr>gNodes := malter i f (gNodes g)\<rparr>"

definition putNode :: "string \<Rightarrow> node \<Rightarrow> graph \<Rightarrow> graph" where
  "putNode i n g = g\<lparr>gNodes := AList.update i n (gNodes g)\<rparr>"

definition addEdge :: "string \<Rightarrow> string \<Rightarrow> string \<Rightarrow> time \<Rightarrow> attrs \<Rightarrow> graph \<Rightarrow> graph" where
  "addEdge relation source target ts as g =
     (let i = edgeID relation source target in
      if map_of (gEdges g) i \<noteq> None then g\<lparr>gEdges := malter i (mergeEdge ts) (gEdges g)\<rparr>
      else let e = (newEdge i relation source target ts)\<lparr>eAttributes := as\<rparr> in
        g\<lparr>gEdges := AList.update i e (gEdges g), gEdgeOrder := gEdgeOrder g @ [i]\<rparr>)"

definition annotateProcessNode :: "event \<Rightarrow> node \<Rightarrow> node" where
  "annotateProcessNode evt n =
     (let n = upsertAttr ''pid'' (AU32 (evPID evt)) n;
          n = upsertAttr ''tid'' (AU32 (evTID evt)) n;
          n = upsertAttr ''ppid'' (AU32 (evPPID evt)) n;
          n = upsertAttr ''uid'' (AU32 (evUID evt)) n;
          n = upsertAttr ''gid'' (AU32 (evGID evt)) n;
          n = upsertAttr ''comm'' (AStr (evComm evt)) n;
          n = (if evExePath evt \<noteq> [] then upsertAttr ''exe_path'' (AStr (evExePath evt)) n else n)
      in if evCmdline evt \<noteq> [] then upsertAttr ''cmdline'' (AStr (evCmdline evt)) n else n)"

definition fileID :: "event \<Rightarrow> string" where
  "fileID evt = (if 0 < evInode evt then NodeIDFile (evInode evt) (evDevMajor evt) (evDevMinor evt)
     else NodeIDFilePath (evPathname evt))"

definition recordFirstTS :: "u64 \<Rightarrow> graph \<Rightarrow> graph" where
  "recordFirstTS ts g =
     (if gFirstTS g = 0 \<or> ts < gFirstTS g then g\<lparr>gFirstTS := ts\<rparr> else g)"

definition nsToTime :: "u64 \<Rightarrow> graph \<Rightarrow> time" where
  "nsToTime ns g = (if gFirstTS g = 0 then gStartTime g else gStartTime g + sint (ns - gFirstTS g))"

section \<open>File versions in the graph\<close>

definition updateFileNodeAttrs :: "event \<Rightarrow> node \<Rightarrow> node" where
  "updateFileNodeAttrs evt n =
     (let n = (if evPathname evt \<noteq> [] \<and> evPathname evt \<noteq> ''?''
               then upsertAttr ''pathname'' (AStr (evPathname evt)) (n\<lparr>nLabel := evPathname evt\<rparr>)
               else n);
          n = upsertAttr ''inode'' (AU64 (evInode evt)) n;
          n = upsertAttr ''dev_major'' (AU32 (evDevMajor evt)) n;
          n = upsertAttr ''dev_minor'' (AU32 (evDevMinor evt)) n;
          n = upsertAttr ''device'' (AStr (showU (evDevMajor evt) @ '':'' @ showU (evDevMinor evt))) n
      in upsertAttr ''mode'' (AStr (showBase 8 (unat (evMode evt)))) n)"

definition getOrCreateBaseFileNode :: "event \<Rightarrow> time \<Rightarrow> graph \<Rightarrow> string \<times> graph" where
  "getOrCreateBaseFileNode evt ts g =
     (let baseID = fileID evt;
          vt = snd (InitVersion baseID (gVersions g));
          vID = LatestVersion baseID vt;
          g = g\<lparr>gVersions := vt\<rparr>;
          g = getOrCreateNode vID ProvEntity SubFile (evPathname evt) ts g;
          g = updNode vID (updateFileNodeAttrs evt) g
      in (vID, updNode vID (touch ts) g))"

definition createNextFileVersion :: "event \<Rightarrow> time \<Rightarrow> graph \<Rightarrow> (string \<times> string) \<times> graph" where
  "createNextFileVersion evt ts g =
     (let baseID = fileID evt;
          ((prevID, newID), vt) = NextVersion baseID (gVersions g);
          g = g\<lparr>gVersions := vt\<rparr>;
          g = getOrCreateNode prevID ProvEntity SubFile (evPathname evt) ts g;
          g = updNode prevID (updateFileNodeAttrs evt) g;
          g = updNode prevID (touch ts) g;
          n = newNode newID ProvEntity SubFile (evPathname evt) ts;
          n = updateFileNodeAttrs evt n;
          n = upsertAttr ''version'' (AStr (LatestVersion baseID (gVersions g))) n;
          g = putNode newID n g;
          g = (if prevID \<noteq> newID then addEdge ProvWasDerivedFrom newID prevID ts [] g else g)
      in ((prevID, newID), g))"

section \<open>Parents\<close>

abbreviation (input) unknownParentID :: string where
  "unknownParentID \<equiv> ''p:0:unknown_parent''"

definition EnsureParentNode :: "u32 \<Rightarrow> time \<Rightarrow> graph \<Rightarrow> graph" where
  "EnsureParentNode pid ts g =
     (let parentPID = ResolveParent pid (gProcs g) in
      if parentPID = 0
      then getOrCreateNode unknownParentID ProvActivity SubProcess ''unknown_parent'' ts g
      else if map_of (gNodes g) (NodeIDProcess parentPID) = None
      then updNode unknownParentID (upsertAttr ''original_parent_pid'' (AU32 parentPID))
             (getOrCreateNode unknownParentID ProvActivity SubProcess ''unknown_parent'' ts g)
      else g)"

section \<open>Handlers\<close>

definition setStartTime :: "(string \<Rightarrow> string option) \<Rightarrow> u32 \<Rightarrow> string \<Rightarrow> graph \<Rightarrow> graph option" where
  "setStartTime rf pid i g = do {
     st \<leftarrow> readStartTime rf pid;
     Some (if st \<noteq> 0 then updNode i (setAttr ''start_time'' (AU64 st)) g else g)
   }"

definition addFork :: "(string \<Rightarrow> string option) \<Rightarrow> event \<Rightarrow> time \<Rightarrow> graph \<Rightarrow> graph option" where
  "addFork rf evt ts g = do {
     let g = g\<lparr>gProcs := RecordFork (evPID evt) (evChildPID evt) (gProcs g)\<rparr>;
     let parentID = NodeIDProcess (evPID evt);
     let childID = NodeIDProcess (evChildPID evt);
     let g = getOrCreateNode parentID ProvActivity SubProcess (evComm evt) ts g;
     let g = updNode parentID (setAttr ''pid'' (AU32 (evPID evt))) g;
     let g = updNode parentID (setAttr ''uid'' (AU32 (evUID evt))) g;
     g \<leftarrow> setStartTime rf (evPID evt) parentID g;
     let g = updNode parentID (touch ts) g;
     let g = getOrCreateNode childID ProvActivity SubProcess (evComm evt) ts g;
     let g = updNode childID (setAttr ''pid'' (AU32 (evChildPID evt))) g;
     g \<leftarrow> setStartTime rf (evChildPID evt) childID g;
     let g = updNode childID (touch ts) g;
     let parentAttrs = (case map_of (gNodes g) parentID of None \<Rightarrow> [] | Some p \<Rightarrow> nAttributes p);
     let g = updNode childID (InheritParentContext parentAttrs) g;
     Some (addEdge ProvWasInformedBy childID parentID ts
       [(''pid'', AU32 (evPID evt)), (''child_pid'', AU32 (evChildPID evt)),
        (''event'', AStr (eventTypeString (evType evt))), (''comm'', AStr (evComm evt))] g)
   }"

definition hasPath :: "event \<Rightarrow> bool" where
  "hasPath evt = (evPathname evt \<noteq> [] \<and> evPathname evt \<noteq> ''?'')"

definition addCredential :: "event \<Rightarrow> time \<Rightarrow> string \<Rightarrow> graph \<Rightarrow> graph" where
  "addCredential evt ts procID g =
     (let ((credID, prevUID), ct) = OnExec evt ts (gCreds g);
          g = g\<lparr>gCreds := ct\<rparr>
      in if credID = [] then g
         else let g = updNode procID (upsertAttr ''credential'' (AStr credID)) g;
                  n = newNode credID ProvEntity SubCredential
                        (''setuid: '' @ showU prevUID @ [CHR 0xE2, CHR 0x86, CHR 0x92] @ showU (evUID evt)) ts;
                  n = setAttr ''pid'' (AU32 (evPID evt)) n;
                  n = setAttr ''prev_uid'' (AU32 prevUID) n;
                  n = setAttr ''new_uid'' (AU32 (evUID evt)) n;
                  g = putNode credID n g
              in addEdge ProvHadSecurityContext procID credID ts
                   [(''prev_uid'', AU32 prevUID), (''new_uid'', AU32 (evUID evt)),
                    (''event'', AStr (eventTypeString (evType evt))), (''pid'', AU32 (evPID evt)),
                    (''comm'', AStr (evComm evt))] g)"

definition addExec :: "(string \<Rightarrow> string option) \<Rightarrow> event \<Rightarrow> time \<Rightarrow> graph \<Rightarrow> graph option" where
  "addExec rf evt ts g = do {
     let procID = NodeIDProcess (evPID evt);
     let g = getOrCreateNode procID ProvActivity SubProcess (evComm evt) ts g;
     let g = updNode procID (\<lambda>n. n\<lparr>nLabel := evComm evt\<rparr>) g;
     let g = updNode procID (annotateProcessNode evt) g;
     g \<leftarrow> setStartTime rf (evPID evt) procID g;
     let g = (if isSetuidExec evt then updNode procID (upsertAttr ''setuid'' (ABool True)) g else g);
     let g = updNode procID (touch ts) g;
     let g = EnsureParentNode (evPID evt) ts g;
     let g = addCredential evt ts procID g;
     Some (if hasPath evt
       then let (fID, g) = getOrCreateBaseFileNode evt ts g;
                g = updNode fID (touch ts) g
            in addEdge ProvUsed procID fID ts
              [(''type'', AStr ''exec''), (''event'', AStr (eventTypeString (evType evt))),
               (''pid'', AU32 (evPID evt)), (''comm'', AStr (evComm evt)),
               (''cmdline'', AStr (evCmdline evt)), (''path'', AStr (evPathname evt)),
               (''inode'', AU64 (evInode evt))] g
       else g)
   }"

definition fileEdgeAttrs :: "event \<Rightarrow> attrs" where
  "fileEdgeAttrs evt =
     [(''event'', AStr (eventTypeString (evType evt))), (''pid'', AU32 (evPID evt)),
      (''comm'', AStr (evComm evt)), (''cmdline'', AStr (evCmdline evt)),
      (''path'', AStr (evPathname evt)), (''inode'', AU64 (evInode evt)),
      (''f_flags'', AU32 (evFFlags evt))]"

definition addFileUse :: "event \<Rightarrow> time \<Rightarrow> graph \<Rightarrow> graph" where
  "addFileUse evt ts g =
     (if \<not> hasPath evt then g
      else let procID = NodeIDProcess (evPID evt);
               g = getOrCreateNode procID ProvActivity SubProcess (evComm evt) ts g;
               g = updNode procID (annotateProcessNode evt) g;
               g = updNode procID (touch ts) g;
               (fID, g) = getOrCreateBaseFileNode evt ts g
           in addEdge ProvUsed procID fID ts (fileEdgeAttrs evt) g)"

definition addFileGenerate :: "event \<Rightarrow> time \<Rightarrow> graph \<Rightarrow> graph" where
  "addFileGenerate evt ts g =
     (if \<not> hasPath evt then g
      else let procID = NodeIDProcess (evPID evt);
               g = getOrCreateNode procID ProvActivity SubProcess (evComm evt) ts g;
               g = updNode procID (annotateProcessNode evt) g;
               g = updNode procID (touch ts) g;
               ((prevID, newID), g) = createNextFileVersion evt ts g
           in addEdge ProvWasGeneratedBy newID procID ts
                (fileEdgeAttrs evt @ [(''prev'', AStr prevID)]) g)"

definition addMemoryEvent :: "event \<Rightarrow> time \<Rightarrow> graph \<Rightarrow> graph" where
  "addMemoryEvent evt ts g =
     (let procID = nodeID ''p'' [showU (evPID evt)];
          g = getOrCreateNode procID ProvActivity SubProcess (evComm evt) ts g;
          g = updNode procID (upsertAttr ''pid'' (AU32 (evPID evt))) g;
          g = updNode procID (upsertAttr ''uid'' (AU32 (evUID evt))) g;
          g = updNode procID (touch ts) g;
          g = updNode procID (upsertAttr ''memory_op'' (AStr (eventTypeString (evType evt)))) g;
          (entityID, subtype, label, mark) =
            (if evType evt = EventMemfdCreate then
               (nodeID ''memfd'' [showU (evPID evt), showU (evTimestampNS evt)], ''file'',
                if evPathname evt = [] then ''anonymous'' else evPathname evt, Some ''fileless'')
             else if evType evt = EventMprotectRX then
               (nodeID ''rx'' [showU (evInode evt), showU (evPID evt)], ''memory'',
                ''rw'' @ [CHR 0xE2, CHR 0x86, CHR 0x92] @ ''rx @0x'' @ showBase 16 (unat (evInode evt)),
                Some ''shellcode'')
             else if evType evt = EventPipeWrite then
               (nodeID ''pipe'' [showU (evPID evt), showU (evTimestampNS evt)], ''pipe'',
                ''pipe:write'', Some ''pipe_writer'')
             else if evType evt = EventPipeRead then
               (nodeID ''pipe'' [showU (evPID evt), showU (evTimestampNS evt)], ''pipe'',
                ''pipe:read'', Some ''pipe_reader'')
             else ([], [], [], None));
          g = (case mark of None \<Rightarrow> g | Some k \<Rightarrow> updNode procID (upsertAttr k (ABool True)) g);
          g = getOrCreateNode entityID ProvEntity subtype label ts g;
          g = updNode entityID (upsertAttr ''event'' (AStr (eventTypeString (evType evt)))) g;
          g = updNode entityID (upsertAttr ''addr'' (AU64 (evInode evt))) g;
          g = updNode entityID (touch ts) g
      in addEdge ProvUsed procID entityID ts
           [(''event'', AStr (eventTypeString (evType evt))), (''flags'', AU32 (evFFlags evt))] g)"

definition AddEvent :: "(string \<Rightarrow> string option) \<Rightarrow> event \<Rightarrow> graph \<Rightarrow> graph option" where
  "AddEvent rf evt g =
     (let g = recordFirstTS (evTimestampNS evt) g;
          ts = nsToTime (evTimestampNS evt) g;
          g = (if 0 < evPID evt then g\<lparr>gProcs := RecordProcess (evPID evt) (gProcs g)\<rparr> else g);
          ty = evType evt
      in if ty = EventProcessFork then addFork rf evt ts g
         else if ty = EventProcessExec then addExec rf evt ts g
         else if ty = EventFileOpen then Some (addFileUse evt ts g)
         else if ty = EventFileCreate \<or> ty = EventFileModify then Some (addFileGenerate evt ts g)
         else if ty = EventFileDelete then Some (addFileUse evt ts g)
         else if ty = EventMemfdCreate \<or> ty = EventMprotectRX \<or> ty = EventPipeWrite
                 \<or> ty = EventPipeRead then Some (addMemoryEvent evt ts g)
         else Some g)"

section \<open>Queries\<close>

record graph_stats =
  stNodes :: nat
  stEdges :: nat

definition graphStats :: "graph \<Rightarrow> graph_stats" where
  "graphStats g = \<lparr>stNodes = length (gNodes g), stEdges = length (gEdges g)\<rparr>"

definition graphNodes :: "graph \<Rightarrow> node list" where
  "graphNodes g = map snd (gNodes g)"

definition graphEdges :: "graph \<Rightarrow> edge list" where
  "graphEdges g = List.map_filter (\<lambda>i. map_of (gEdges g) i) (gEdgeOrder g)"

definition LookupNode :: "string \<Rightarrow> graph \<Rightarrow> node option" where
  "LookupNode i g = map_of (gNodes g) i"

end
