(* ===== verification/ProvGraphInv.thy ===== *)
theory ProvGraphInv
  imports ProvGraph
begin

text \<open>
  The invariant of the provenance graph and its preservation by every handler: identifiers index
  their own nodes and edges, edges join nodes of the graph, and the insertion order lists every edge
  exactly once. One lemma per primitive update, then one per handler, then \<open>AddEvent\<close>.
\<close>

section \<open>The invariant\<close>

definition nodeKeys :: "graph \<Rightarrow> string set" where
  "nodeKeys g = fst ` set (gNodes g)"

definition node_ok :: "string \<times> node \<Rightarrow> bool" where
  "node_ok p = (nID (snd p) = fst p \<and> nFirstSeen (snd p) \<le> nLastSeen (snd p))"

definition edge_ok :: "string set \<Rightarrow> string \<times> edge \<Rightarrow> bool" where
  "edge_ok K p = (eID (snd p) = fst p
     \<and> fst p = edgeID (eRelation (snd p)) (eSource (snd p)) (eTarget (snd p))
     \<and> 1 \<le> eCount (snd p) \<and> eSource (snd p) \<in> K \<and> eTarget (snd p) \<in> K)"

definition wf_graph :: "graph \<Rightarrow> bool" where
  "wf_graph g \<longleftrightarrow>
     distinct (map fst (gNodes g)) \<and> list_all node_ok (gNodes g)
   \<and> distinct (map fst (gEdges g)) \<and> list_all (edge_ok (nodeKeys g)) (gEdges g)
   \<and> distinct (gEdgeOrder g) \<and> set (gEdgeOrder g) = fst ` set (gEdges g)"

section \<open>Predicates on association lists\<close>

lemma set_mput_subset: "set (AList.update k v m) \<subseteq> insert (k, v) (set m)"
  by (induction m) auto

lemma list_all_mput: "list_all P m \<Longrightarrow> P (k, v) \<Longrightarrow> list_all P (AList.update k v m)"
  using set_mput_subset [of k v m] by (auto simp: list_all_iff)

lemma list_all_mensure: "list_all P m \<Longrightarrow> P (k, v) \<Longrightarrow> list_all P (mensure k v m)"
  by (simp add: mensure_def list_all_mput)

lemma list_all_malter:
  assumes "list_all P m" and "\<And>v. P (k, v) \<Longrightarrow> P (k, f v)"
  shows "list_all P (malter k f m)"
proof (cases "map_of m k")
  case None
  with assms show ?thesis by (simp add: malter_def)
next
  case (Some v)
  then have "P (k, v)" using assms(1) by (auto simp: list_all_iff dest: map_of_SomeD)
  with assms Some show ?thesis by (simp add: malter_def list_all_mput)
qed

lemma list_all_edge_ok_mono: "K \<subseteq> L \<Longrightarrow> list_all (edge_ok K) es \<Longrightarrow> list_all (edge_ok L) es"
  by (auto simp: list_all_iff edge_ok_def)

section \<open>Updates of one node\<close>

text \<open>What a write through a node pointer may not change.\<close>

definition keeps :: "(node \<Rightarrow> node) \<Rightarrow> bool" where
  "keeps f \<longleftrightarrow> (\<forall>n. nID (f n) = nID n \<and>
     (nFirstSeen n \<le> nLastSeen n \<longrightarrow> nFirstSeen (f n) \<le> nLastSeen (f n)))"

lemma upsertAttr_fields [simp]:
  "nID (upsertAttr k v n) = nID n" "nFirstSeen (upsertAttr k v n) = nFirstSeen n"
  "nLastSeen (upsertAttr k v n) = nLastSeen n" "nSubtype (upsertAttr k v n) = nSubtype n"
  "nLabel (upsertAttr k v n) = nLabel n" "nProvType (upsertAttr k v n) = nProvType n"
  by (simp_all add: upsertAttr_def)

lemma keeps_basic [simp]:
  "keeps (touch ts)" "keeps (setAttr k v)" "keeps (upsertAttr k v)" "keeps (\<lambda>n. n\<lparr>nLabel := l\<rparr>)"
  by (auto simp: keeps_def touch_def setAttr_def upsertAttr_def)

lemma keeps_comp: "keeps f \<Longrightarrow> keeps h \<Longrightarrow> keeps (\<lambda>n. f (h n))"
  by (simp add: keeps_def)

lemma keeps_annotateProcessNode [simp]: "keeps (annotateProcessNode evt)"
  by (simp add: keeps_def annotateProcessNode_def Let_def)

lemma keeps_updateFileNodeAttrs [simp]: "keeps (updateFileNodeAttrs evt)"
  by (simp add: keeps_def updateFileNodeAttrs_def Let_def)

lemma keeps_InheritParentContext [simp]: "keeps (InheritParentContext as)"
proof -
  have "keeps (\<lambda>n. fold (\<lambda>key n. case map_of as key of None \<Rightarrow> n | Some v \<Rightarrow> upsertAttr key v n) ks n)" for ks
    by (induction ks) (auto simp: keeps_def split: option.splits)
  then show ?thesis by (simp add: keeps_def InheritParentContext_def)
qed

lemma newNode_ok [simp]: "node_ok (i, newNode i pt st l ts)"
  by (simp add: node_ok_def newNode_def)

lemma node_ok_keeps: "keeps f \<Longrightarrow> node_ok (i, n) \<Longrightarrow> node_ok (i, f n)"
  by (simp add: node_ok_def keeps_def)

section \<open>Primitive updates of the graph\<close>

lemma nodeKeys_simps [simp]:
  "nodeKeys (getOrCreateNode i pt st l ts g) = insert i (nodeKeys g)"
  "nodeKeys (updNode i f g) = nodeKeys g"
  "nodeKeys (putNode i n g) = insert i (nodeKeys g)"
  "nodeKeys (addEdge r s t ts as g) = nodeKeys g"
  "nodeKeys (g\<lparr>gVersions := v\<rparr>) = nodeKeys g"
  "nodeKeys (g\<lparr>gCreds := c\<rparr>) = nodeKeys g"
  "nodeKeys (g\<lparr>gProcs := p\<rparr>) = nodeKeys g"
  "nodeKeys (g\<lparr>gFirstTS := ft\<rparr>) = nodeKeys g"
  using keys_mput [of i n "gNodes g"]
  by (simp_all add: nodeKeys_def getOrCreateNode_def updNode_def putNode_def addEdge_def Let_def)

lemma wf_trackers [simp]:
  "wf_graph (g\<lparr>gVersions := v\<rparr>) = wf_graph g"
  "wf_graph (g\<lparr>gCreds := c\<rparr>) = wf_graph g"
  "wf_graph (g\<lparr>gProcs := p\<rparr>) = wf_graph g"
  "wf_graph (g\<lparr>gFirstTS := t\<rparr>) = wf_graph g"
  by (simp_all add: wf_graph_def nodeKeys_def)

lemma wf_getOrCreateNode [simp, wf_intros]:
  assumes "wf_graph g" shows "wf_graph (getOrCreateNode i pt st l ts g)"
proof -
  have "list_all (edge_ok (nodeKeys (getOrCreateNode i pt st l ts g))) (gEdges g)"
    by (rule list_all_edge_ok_mono [of "nodeKeys g"]) (use assms in \<open>auto simp: wf_graph_def\<close>)
  with assms show ?thesis
    by (auto simp: wf_graph_def getOrCreateNode_def distinct_mensure list_all_mensure)
qed

lemma wf_updNode [simp, wf_intros]:
  assumes "wf_graph g" and "keeps f" shows "wf_graph (updNode i f g)"
proof -
  have "list_all node_ok (malter i f (gNodes g))"
    using assms by (intro list_all_malter) (auto simp: wf_graph_def node_ok_keeps)
  moreover have "nodeKeys (updNode i f g) = nodeKeys g" by simp
  ultimately show ?thesis using assms
    by (simp add: wf_graph_def updNode_def distinct_malter)
qed

lemma wf_putNode [simp, wf_intros]:
  assumes "wf_graph g" and "node_ok (i, n)" shows "wf_graph (putNode i n g)"
proof -
  have "list_all (edge_ok (nodeKeys (putNode i n g))) (gEdges g)"
    by (rule list_all_edge_ok_mono [of "nodeKeys g"]) (use assms in \<open>auto simp: wf_graph_def\<close>)
  with assms show ?thesis
    by (simp add: wf_graph_def putNode_def distinct_mput list_all_mput)
qed

lemma mergeEdge_fields [simp]:
  "eID (mergeEdge ts e) = eID e" "eSource (mergeEdge ts e) = eSource e"
  "eTarget (mergeEdge ts e) = eTarget e" "eRelation (mergeEdge ts e) = eRelation e"
  "eCount (mergeEdge ts e) = eCount e + 1"
  by (simp_all add: mergeEdge_def Let_def)

lemma addEdge_new:
  "map_of (gEdges g) (edgeID r s t) = None \<Longrightarrow> addEdge r s t ts as g =
     g\<lparr>gEdges := AList.update (edgeID r s t) ((newEdge (edgeID r s t) r s t ts)\<lparr>eAttributes := as\<rparr>) (gEdges g),
       gEdgeOrder := gEdgeOrder g @ [edgeID r s t]\<rparr>"
  by (simp add: addEdge_def Let_def)

lemma addEdge_old:
  "map_of (gEdges g) (edgeID r s t) = Some e \<Longrightarrow> addEdge r s t ts as g =
     g\<lparr>gEdges := malter (edgeID r s t) (mergeEdge ts) (gEdges g)\<rparr>"
  by (simp add: addEdge_def Let_def)

lemma wf_addEdge [simp, wf_intros]:
  assumes wf: "wf_graph g" and keys: "s \<in> nodeKeys g" "t \<in> nodeKeys g"
  shows "wf_graph (addEdge r s t ts as g)"
proof -
  let ?g = "addEdge r s t ts as g" and ?i = "edgeID r s t"
  have K: "nodeKeys ?g = nodeKeys g" by simp
  show ?thesis
  proof (cases "map_of (gEdges g) ?i")
    case None
    then have "?i \<notin> fst ` set (gEdges g)" by (simp add: map_of_eq_None_iff)
    moreover have "set (map fst (AList.update ?i x (gEdges g))) = insert ?i (fst ` set (gEdges g))" for x
      using keys_mput by (metis list.set_map)
    ultimately show ?thesis
      unfolding wf_graph_def K using None wf keys
      by (simp add: addEdge_new wf_graph_def distinct_mput list_all_mput edge_ok_def newEdge_def)
  next
    case (Some e)
    have "list_all (edge_ok (nodeKeys g)) (malter ?i (mergeEdge ts) (gEdges g))"
      using wf by (intro list_all_malter) (auto simp: wf_graph_def edge_ok_def)
    with Some show ?thesis
      unfolding wf_graph_def K using wf
      by (simp add: addEdge_old wf_graph_def distinct_malter)
  qed
qed

section \<open>Handlers\<close>

lemma wf_NewGraph [wf_intros]: "wf_graph (NewGraph now)"
  by (simp add: wf_graph_def NewGraph_def)

lemma getOrCreateBaseFileNode_wf [simp]:
  "wf_graph g \<Longrightarrow> wf_graph (snd (getOrCreateBaseFileNode evt ts g))"
  "nodeKeys (snd (getOrCreateBaseFileNode evt ts g)) =
     insert (fst (getOrCreateBaseFileNode evt ts g)) (nodeKeys g)"
  by (simp_all add: getOrCreateBaseFileNode_def Let_def)

lemma createNextFileVersion_wf [simp]:
  "wf_graph g \<Longrightarrow> wf_graph (snd (createNextFileVersion evt ts g))"
  "nodeKeys (snd (createNextFileVersion evt ts g)) =
     insert (snd (fst (createNextFileVersion evt ts g)))
       (insert (fst (fst (createNextFileVersion evt ts g))) (nodeKeys g))"
  by (simp_all add: createNextFileVersion_def Let_def case_prod_beta node_ok_keeps)

lemma wf_EnsureParentNode [simp]: "wf_graph g \<Longrightarrow> wf_graph (EnsureParentNode pid ts g)"
  by (simp add: EnsureParentNode_def Let_def)

lemma nodeKeys_EnsureParentNode [simp]:
  "i \<in> nodeKeys g \<Longrightarrow> i \<in> nodeKeys (EnsureParentNode pid ts g)"
  by (auto simp: EnsureParentNode_def Let_def)

lemma addCredential_wf [simp]:
  "wf_graph g \<Longrightarrow> p \<in> nodeKeys g \<Longrightarrow> wf_graph (addCredential evt ts p g)"
  "i \<in> nodeKeys g \<Longrightarrow> i \<in> nodeKeys (addCredential evt ts p g)"
  by (simp_all add: addCredential_def Let_def node_ok_keeps case_prod_beta)

lemma setStartTime_D:
  "setStartTime rf pid i g = Some g' \<Longrightarrow> (wf_graph g \<longrightarrow> wf_graph g') \<and> nodeKeys g' = nodeKeys g"
  by (auto simp: setStartTime_def split: Option.bind_splits if_splits)

lemma wf_addFileUse: "wf_graph g \<Longrightarrow> wf_graph (addFileUse evt ts g)"
  by (simp add: addFileUse_def Let_def case_prod_beta)

lemma wf_addFileGenerate: "wf_graph g \<Longrightarrow> wf_graph (addFileGenerate evt ts g)"
  by (simp add: addFileGenerate_def Let_def case_prod_beta)

lemma wf_addMemoryEvent: "wf_graph g \<Longrightarrow> wf_graph (addMemoryEvent evt ts g)"
  by (simp add: addMemoryEvent_def Let_def)

lemma wf_addFork: "wf_graph g \<Longrightarrow> addFork rf evt ts g = Some g' \<Longrightarrow> wf_graph g'"
  by (auto simp: addFork_def Let_def dest!: setStartTime_D split: Option.bind_splits)

lemma wf_addExec: "wf_graph g \<Longrightarrow> addExec rf evt ts g = Some g' \<Longrightarrow> wf_graph g'"
  by (auto simp: addExec_def Let_def case_prod_beta dest!: setStartTime_D split: Option.bind_splits)

lemma wf_recordFirstTS [simp]: "wf_graph g \<Longrightarrow> wf_graph (recordFirstTS ts g)"
  by (simp add: recordFirstTS_def)

lemma wf_AddEvent: "wf_graph g \<Longrightarrow> AddEvent rf evt g = Some g' \<Longrightarrow> wf_graph g'"
  unfolding AddEvent_def Let_def
  by (auto split: if_splits dest: wf_addFork [rotated] wf_addExec [rotated]
      intro: wf_addFileUse wf_addFileGenerate wf_addMemoryEvent)

end
