(* ===== verification/ProvGraphProps.thy ===== *)
theory ProvGraphProps
  imports ProvGraphInv
begin

text \<open>
  What the provenance graph promises about files: a read, an execution or a deletion of a file is
  linked to the version its last write created, and a write never overwrites a node the graph already
  holds. Both rest on how the handlers move the version tracker.
\<close>

section \<open>The version tracker\<close>

definition latestOf :: "string \<Rightarrow> graph \<Rightarrow> int" where
  "latestOf b g = (let v = mget0 0 (vtLatest (gVersions g)) b in if v = 0 then 1 else v)"

definition writesFile :: "string \<Rightarrow> event \<Rightarrow> bool" where
  "writesFile b e = ((evType e = EventFileCreate \<or> evType e = EventFileModify) \<and> hasPath e \<and> fileID e = b)"

lemma LatestVersion_latestOf: "LatestVersion b (gVersions g) = versionedID b (latestOf b g)"
  by (simp add: LatestVersion_def latestOf_def Let_def)

lemma gVersions_simps [simp]:
  "gVersions (getOrCreateNode i pt st l ts g) = gVersions g"
  "gVersions (updNode i f g) = gVersions g"
  "gVersions (putNode i n g) = gVersions g"
  "gVersions (addEdge r s t ts as g) = gVersions g"
  "gVersions (EnsureParentNode pid ts g) = gVersions g"
  "gVersions (addCredential evt ts p g) = gVersions g"
  "gVersions (recordFirstTS fts g) = gVersions g"
  by (simp_all add: getOrCreateNode_def updNode_def putNode_def addEdge_def Let_def
      EnsureParentNode_def addCredential_def recordFirstTS_def case_prod_beta)

lemma setStartTime_frame:
  "setStartTime rf pid i g = Some g' \<Longrightarrow>
     gVersions g' = gVersions g \<and> nodeKeys g' = nodeKeys g \<and> (\<forall>b. latestOf b g' = latestOf b g)"
  by (auto simp: setStartTime_def latestOf_def split: Option.bind_splits if_splits)

lemma latestOf_cong: "gVersions g = gVersions h \<Longrightarrow> latestOf b g = latestOf b h"
  by (simp add: latestOf_def)

lemma mget0_mensure: "mget0 z (mensure k v m) x = (if x = k \<and> map_of m k = None then v else mget0 z m x)"
  by (simp add: mget0_def map_of_mensure)

lemma mget0_mput [simp]: "mget0 z (AList.update k v m) x = (if x = k then v else mget0 z m x)"
  by (simp add: mget0_def)

text \<open>Looking a file up does not move its version; a write moves the version of its own file by one.\<close>

lemma latestOf_read [simp]:
  "latestOf b (snd (getOrCreateBaseFileNode evt ts g)) = latestOf b g"
  by (auto simp: getOrCreateBaseFileNode_def InitVersion_def Let_def latestOf_def mget0_mensure)
    (simp add: mget0_def)

lemma getOrCreateBaseFileNode_id:
  "fst (getOrCreateBaseFileNode evt ts g) = versionedID (fileID evt) (latestOf (fileID evt) g)"
  by (auto simp: getOrCreateBaseFileNode_def InitVersion_def Let_def latestOf_def LatestVersion_def
      mget0_mensure) (simp add: mget0_def)+

lemma createNextFileVersion_ids:
  "fst (createNextFileVersion evt ts g) =
     (versionedID (fileID evt) (latestOf (fileID evt) g),
      versionedID (fileID evt) (latestOf (fileID evt) g + 1))"
  by (simp add: createNextFileVersion_def NextVersion_def Let_def case_prod_beta latestOf_def)

lemma latestOf_write:
  "0 \<le> latestOf (fileID evt) g \<Longrightarrow>
   latestOf b (snd (createNextFileVersion evt ts g)) =
     (if b = fileID evt then latestOf b g + 1 else latestOf b g)"
  by (auto simp: createNextFileVersion_def NextVersion_def Let_def case_prod_beta latestOf_def)

section \<open>No node runs ahead of its version\<close>

definition versions_pos :: "version_tracker \<Rightarrow> bool" where
  "versions_pos vt = list_all (\<lambda>p. 1 \<le> snd p) (vtLatest vt)"

definition ver_inv :: "graph \<Rightarrow> bool" where
  "ver_inv g \<longleftrightarrow> versions_pos (gVersions g) \<and>
     (\<forall>b v. versionedID b v \<in> nodeKeys g \<longrightarrow> v \<le> latestOf b g)"

lemma latestOf_pos: "versions_pos (gVersions g) \<Longrightarrow> 1 \<le> latestOf b g"
  by (auto simp: versions_pos_def latestOf_def Let_def mget0_def list_all_iff
      split: option.splits dest!: map_of_SomeD)

lemma versions_pos_InitVersion [simp]:
  "versions_pos vt \<Longrightarrow> versions_pos (snd (InitVersion b vt))"
  by (simp add: versions_pos_def InitVersion_def Let_def list_all_mensure)

lemma versions_pos_NextVersion [simp]:
  assumes "versions_pos vt"
  shows "versions_pos (snd (NextVersion b vt))"
proof -
  have "0 \<le> mget0 0 (vtLatest vt) b"
    using assms by (auto simp: versions_pos_def mget0_def list_all_iff split: option.splits
        dest!: map_of_SomeD)
  with assms show ?thesis
    by (simp add: versions_pos_def NextVersion_def Let_def list_all_mput)
qed

lemma versionedID_hash: "CHR ''#'' \<in> set (versionedID b v)"
  by (simp add: versionedID_def)

lemma no_hash_ids [simp]:
  "CHR ''#'' \<notin> set (showNat n)"
  "CHR ''#'' \<notin> set (showInt k)"
  "CHR ''#'' \<notin> set (nodeID kind parts) \<longleftrightarrow>
     CHR ''#'' \<notin> set kind \<and> (\<forall>p \<in> set parts. CHR ''#'' \<notin> set p)"
proof -
  show "CHR ''#'' \<notin> set (showNat n)"
    using showNat_digits [of n] by (force simp: isDigit_def)
  show "CHR ''#'' \<notin> set (showInt k)" by (rule showInt_no_hash)
  show "CHR ''#'' \<notin> set (nodeID kind parts) \<longleftrightarrow>
      CHR ''#'' \<notin> set kind \<and> (\<forall>p \<in> set parts. CHR ''#'' \<notin> set p)"
    by (induction parts rule: rev_induct) (auto simp: nodeID_snoc)
qed

lemma hash_nodeID [simp]:
  "CHR ''#'' \<in> set (nodeID kind parts) \<longleftrightarrow>
     CHR ''#'' \<in> set kind \<or> (\<exists>p \<in> set parts. CHR ''#'' \<in> set p)"
  using no_hash_ids(3) [of kind parts] by blast

text \<open>
  The nodes an operation adds either carry no version or the latest one: the form in which each
  handler keeps the invariant.
\<close>

lemma ver_inv_grow:
  assumes "ver_inv g" and "versions_pos (gVersions g')"
    and "\<And>b. latestOf b g \<le> latestOf b g'"
    and "nodeKeys g' \<subseteq> nodeKeys g \<union> N"
    and "\<And>i. i \<in> N \<Longrightarrow> CHR ''#'' \<notin> set i \<or> (\<exists>b v. i = versionedID b v \<and> v \<le> latestOf b g')"
  shows "ver_inv g'"
  unfolding ver_inv_def
proof (intro conjI allI impI)
  fix b v assume "versionedID b v \<in> nodeKeys g'"
  then consider "versionedID b v \<in> nodeKeys g" | "versionedID b v \<in> N" using assms(4) by blast
  then show "v \<le> latestOf b g'"
  proof cases
    case 1
    with assms(1) assms(3) [of b] show ?thesis unfolding ver_inv_def by (meson order_trans)
  next
    case 2
    then show ?thesis using assms(5) versionedID_hash by fastforce
  qed
qed (rule assms(2))

lemma nodeKeys_EnsureParentNode_sub:
  "nodeKeys (EnsureParentNode pid ts g) \<subseteq> nodeKeys g \<union> {unknownParentID}"
  by (auto simp: EnsureParentNode_def Let_def)

lemma nodeKeys_addCredential_sub:
  "nodeKeys (addCredential evt ts p g) \<subseteq> nodeKeys g \<union> {''c:'' @ showU (evPID evt) @ '':'' @ showInt ts}"
  by (auto simp: addCredential_def OnExec_def Let_def case_prod_beta split: if_splits)

lemma versions_pos_read [simp]:
  "versions_pos (gVersions g) \<Longrightarrow> versions_pos (gVersions (snd (getOrCreateBaseFileNode evt ts g)))"
  by (simp add: getOrCreateBaseFileNode_def Let_def)

lemma versions_pos_write [simp]:
  "versions_pos (gVersions g) \<Longrightarrow> versions_pos (gVersions (snd (createNextFileVersion evt ts g)))"
  by (simp add: createNextFileVersion_def Let_def case_prod_beta)

section \<open>The handlers\<close>

lemma latestOf_upd [simp]:
  "latestOf b (getOrCreateNode i pt st l ts g) = latestOf b g"
  "latestOf b (updNode i f g) = latestOf b g"
  "latestOf b (putNode i n g) = latestOf b g"
  "latestOf b (addEdge r s t ts as g) = latestOf b g"
  "latestOf b (EnsureParentNode pid ts g) = latestOf b g"
  "latestOf b (addCredential evt ts p g) = latestOf b g"
  "latestOf b (recordFirstTS fts g) = latestOf b g"
  "latestOf b (g\<lparr>gProcs := ps\<rparr>) = latestOf b g"
  by (rule latestOf_cong; simp)+

lemma no_hash_process [simp]: "CHR ''#'' \<notin> set (NodeIDProcess pid)"
  by (simp add: NodeIDProcess_def)

lemma latestOf_addFileUse [simp]: "latestOf b (addFileUse evt ts g) = latestOf b g"
  by (simp add: addFileUse_def Let_def case_prod_beta)

lemma ver_inv_addFileUse: "ver_inv g \<Longrightarrow> ver_inv (addFileUse evt ts g)"
  by (rule ver_inv_grow [where N = "{NodeIDProcess (evPID evt), versionedID (fileID evt) (latestOf (fileID evt) g)}"])
    (auto simp: addFileUse_def Let_def case_prod_beta ver_inv_def getOrCreateBaseFileNode_id)

lemma latestOf_addFileGenerate:
  "versions_pos (gVersions g) \<Longrightarrow> latestOf b (addFileGenerate evt ts g) =
     (if hasPath evt \<and> b = fileID evt then latestOf b g + 1 else latestOf b g)"
  using latestOf_pos [of g "fileID evt"]
  by (auto simp: addFileGenerate_def Let_def case_prod_beta latestOf_write)

lemma ver_inv_addFileGenerate:
  assumes "ver_inv g" shows "ver_inv (addFileGenerate evt ts g)"
proof (rule ver_inv_grow [where N = "{NodeIDProcess (evPID evt),
      versionedID (fileID evt) (latestOf (fileID evt) g), versionedID (fileID evt) (latestOf (fileID evt) g + 1)}
      \<inter> nodeKeys (addFileGenerate evt ts g)"], rule assms)
  have pos: "versions_pos (gVersions g)" using assms by (simp add: ver_inv_def)
  then show "versions_pos (gVersions (addFileGenerate evt ts g))"
    by (simp add: addFileGenerate_def Let_def case_prod_beta)
  show "latestOf b g \<le> latestOf b (addFileGenerate evt ts g)" for b
    by (simp add: latestOf_addFileGenerate [OF pos])
  show "nodeKeys (addFileGenerate evt ts g) \<subseteq> nodeKeys g \<union> {NodeIDProcess (evPID evt),
      versionedID (fileID evt) (latestOf (fileID evt) g), versionedID (fileID evt) (latestOf (fileID evt) g + 1)}
      \<inter> nodeKeys (addFileGenerate evt ts g)"
    by (auto simp: addFileGenerate_def Let_def case_prod_beta createNextFileVersion_ids)
  fix i assume i: "i \<in> {NodeIDProcess (evPID evt), versionedID (fileID evt) (latestOf (fileID evt) g),
      versionedID (fileID evt) (latestOf (fileID evt) g + 1)} \<inter> nodeKeys (addFileGenerate evt ts g)"
  show "CHR ''#'' \<notin> set i \<or> (\<exists>b v. i = versionedID b v \<and> v \<le> latestOf b (addFileGenerate evt ts g))"
  proof (cases "hasPath evt")
    case True
    with i show ?thesis by (auto simp: latestOf_addFileGenerate [OF pos])
  next
    case False
    with i assms show ?thesis by (auto simp: addFileGenerate_def ver_inv_def)
  qed
qed

lemma gVersions_addMemoryEvent [simp]: "gVersions (addMemoryEvent evt ts g) = gVersions g"
  by (simp add: addMemoryEvent_def Let_def case_prod_beta split: option.split)

lemma latestOf_addMemoryEvent [simp]: "latestOf b (addMemoryEvent evt ts g) = latestOf b g"
  by (rule latestOf_cong) simp

lemma nodeKeys_addMemoryEvent:
  "i \<in> nodeKeys (addMemoryEvent evt ts g) \<Longrightarrow> i \<in> nodeKeys g \<or> CHR ''#'' \<notin> set i"
  by (auto simp: addMemoryEvent_def Let_def split: if_splits)

lemma ver_inv_addMemoryEvent: "ver_inv g \<Longrightarrow> ver_inv (addMemoryEvent evt ts g)"
  by (rule ver_inv_grow [where N = "nodeKeys (addMemoryEvent evt ts g) - nodeKeys g"])
    (auto simp: ver_inv_def dest: nodeKeys_addMemoryEvent)

lemma addFork_frame:
  "addFork rf evt ts g = Some g' \<Longrightarrow>
     gVersions g' = gVersions g \<and>
     nodeKeys g' = {NodeIDProcess (evPID evt), NodeIDProcess (evChildPID evt)} \<union> nodeKeys g"
  by (auto simp: addFork_def Let_def dest!: setStartTime_frame split: Option.bind_splits)

lemma ver_inv_frame:
  assumes "ver_inv g" and "gVersions g' = gVersions g"
    and "nodeKeys g' \<subseteq> nodeKeys g \<union> N" and "\<And>i. i \<in> N \<Longrightarrow> CHR ''#'' \<notin> set i"
  shows "ver_inv g'"
proof (rule ver_inv_grow [OF assms(1) _ _ assms(3)])
  show "versions_pos (gVersions g')" using assms by (simp add: ver_inv_def)
  show "latestOf b g \<le> latestOf b g'" for b using assms(2) latestOf_cong by (metis order_refl)
qed (use assms(4) in blast)

lemma ver_inv_addFork: "ver_inv g \<Longrightarrow> addFork rf evt ts g = Some g' \<Longrightarrow> ver_inv g'"
  by (drule addFork_frame,
      rule ver_inv_frame [where N = "{NodeIDProcess (evPID evt), NodeIDProcess (evChildPID evt)}"])
    auto

lemma addExec_frame:
  "addExec rf evt ts g = Some g' \<Longrightarrow>
     (versions_pos (gVersions g) \<longrightarrow> versions_pos (gVersions g')) \<and> (\<forall>b. latestOf b g' = latestOf b g) \<and>
     nodeKeys g' \<subseteq> nodeKeys g \<union> {NodeIDProcess (evPID evt), unknownParentID,
       ''c:'' @ showU (evPID evt) @ '':'' @ showInt ts, versionedID (fileID evt) (latestOf (fileID evt) g)}"
  by (auto simp: addExec_def Let_def case_prod_beta getOrCreateBaseFileNode_id
      dest!: setStartTime_frame subsetD [OF nodeKeys_EnsureParentNode_sub]
        subsetD [OF nodeKeys_addCredential_sub]
      split: Option.bind_splits if_splits)

lemma ver_inv_addExec:
  assumes "ver_inv g" and "addExec rf evt ts g = Some g'" shows "ver_inv g'"
proof (rule ver_inv_grow [OF assms(1)])
  note frame = addExec_frame [OF assms(2)]
  show "versions_pos (gVersions g')" using frame assms(1) by (simp add: ver_inv_def)
  show "latestOf b g \<le> latestOf b g'" for b using frame by simp
  show "nodeKeys g' \<subseteq> nodeKeys g \<union> {NodeIDProcess (evPID evt), unknownParentID,
       ''c:'' @ showU (evPID evt) @ '':'' @ showInt ts, versionedID (fileID evt) (latestOf (fileID evt) g)}"
    using frame by blast
  fix i assume "i \<in> {NodeIDProcess (evPID evt), unknownParentID,
       ''c:'' @ showU (evPID evt) @ '':'' @ showInt ts, versionedID (fileID evt) (latestOf (fileID evt) g)}"
  then show "CHR ''#'' \<notin> set i \<or> (\<exists>b v. i = versionedID b v \<and> v \<le> latestOf b g')"
    using frame by auto
qed

lemma nodeKeys_recordFirstTS [simp]: "nodeKeys (recordFirstTS ts g) = nodeKeys g"
  by (simp add: recordFirstTS_def)

lemma ver_inv_entry [simp]:
  "ver_inv (recordFirstTS ts g) = ver_inv g" "ver_inv (g\<lparr>gProcs := ps\<rparr>) = ver_inv g"
  by (simp_all add: ver_inv_def)

lemma ver_inv_NewGraph: "ver_inv (NewGraph now)"
  by (simp add: ver_inv_def NewGraph_def versions_pos_def NewVersionTracker_def nodeKeys_def)

lemma ver_inv_AddEvent: "ver_inv g \<Longrightarrow> AddEvent rf evt g = Some g' \<Longrightarrow> ver_inv g'"
  unfolding AddEvent_def Let_def
  by (auto split: if_splits dest: ver_inv_addFork [rotated] ver_inv_addExec [rotated]
      intro: ver_inv_addFileUse ver_inv_addFileGenerate ver_inv_addMemoryEvent)

lemma latestOf_addFork: "addFork rf evt ts g = Some g' \<Longrightarrow> latestOf b g' = latestOf b g"
  by (drule addFork_frame) (auto intro: latestOf_cong)

lemma latestOf_addExec: "addExec rf evt ts g = Some g' \<Longrightarrow> latestOf b g' = latestOf b g"
  by (drule addExec_frame) auto

lemma latestOf_AddEvent:
  "ver_inv g \<Longrightarrow> AddEvent rf evt g = Some g' \<Longrightarrow>
   latestOf b g' = (if writesFile b evt then latestOf b g + 1 else latestOf b g)"
  unfolding AddEvent_def Let_def writesFile_def
  by (auto split: if_splits dest!: latestOf_addFork latestOf_addExec
      simp: latestOf_addFileGenerate ver_inv_def)

section \<open>Edges are never lost by an event\<close>

definition edgeKeys :: "graph \<Rightarrow> string set" where
  "edgeKeys g = fst ` set (gEdges g)"

definition readsFile :: "string \<Rightarrow> event \<Rightarrow> bool" where
  "readsFile b e = ((evType e = EventFileOpen \<or> evType e = EventFileDelete \<or> evType e = EventProcessExec)
     \<and> hasPath e \<and> fileID e = b)"

lemma edgeKeys_simps [simp]:
  "edgeKeys (getOrCreateNode i pt st l ts g) = edgeKeys g"
  "edgeKeys (updNode i f g) = edgeKeys g"
  "edgeKeys (putNode i n g) = edgeKeys g"
  "edgeKeys (g\<lparr>gVersions := v\<rparr>) = edgeKeys g"
  "edgeKeys (g\<lparr>gCreds := c\<rparr>) = edgeKeys g"
  "edgeKeys (g\<lparr>gProcs := p\<rparr>) = edgeKeys g"
  "edgeKeys (recordFirstTS fts g) = edgeKeys g"
  "edgeKeys (EnsureParentNode pid ts g) = edgeKeys g"
  by (simp_all add: edgeKeys_def getOrCreateNode_def updNode_def putNode_def recordFirstTS_def
      EnsureParentNode_def Let_def)

lemma edgeKeys_addEdge [simp]:
  "edgeKeys (addEdge r s t ts as g) = insert (edgeID r s t) (edgeKeys g)"
proof (cases "map_of (gEdges g) (edgeID r s t)")
  case None
  then show ?thesis
    using keys_mput [of "edgeID r s t" _ "gEdges g"] by (simp add: addEdge_new edgeKeys_def)
next
  case (Some e)
  then have "edgeID r s t \<in> fst ` set (gEdges g)" by (simp add: keys_iff)
  with Some show ?thesis by (auto simp: addEdge_old edgeKeys_def)
qed

lemma edgeKeys_read [simp]: "edgeKeys (snd (getOrCreateBaseFileNode evt ts g)) = edgeKeys g"
  by (simp add: getOrCreateBaseFileNode_def Let_def)

lemma edgeKeys_write [simp]:
  "edgeKeys (snd (createNextFileVersion evt ts g)) =
     insert (edgeID ProvWasDerivedFrom (versionedID (fileID evt) (latestOf (fileID evt) g + 1))
       (versionedID (fileID evt) (latestOf (fileID evt) g))) (edgeKeys g)"
  using createNextFileVersion_ids [of evt ts g]
  by (auto simp: createNextFileVersion_def Let_def case_prod_beta)

lemma edgeKeys_addCredential: "i \<in> edgeKeys g \<Longrightarrow> i \<in> edgeKeys (addCredential evt ts p g)"
  by (simp add: addCredential_def Let_def case_prod_beta)

lemma edgeKeys_setStartTime:
  "setStartTime rf pid i g = Some g' \<Longrightarrow> edgeKeys g' = edgeKeys g \<and> (\<forall>b. latestOf b g' = latestOf b g)"
  by (auto simp: setStartTime_def split: Option.bind_splits if_splits)

lemma edgeKeys_addFork:
  "addFork rf evt ts g = Some g' \<Longrightarrow> edgeKeys g' =
     insert (edgeID ProvWasInformedBy (NodeIDProcess (evChildPID evt)) (NodeIDProcess (evPID evt))) (edgeKeys g)"
  by (auto simp: addFork_def Let_def dest!: edgeKeys_setStartTime split: Option.bind_splits)

lemma edgeKeys_addExec:
  "addExec rf evt ts g = Some g' \<Longrightarrow> edgeKeys g \<subseteq> edgeKeys g' \<and>
     (hasPath evt \<longrightarrow> edgeID ProvUsed (NodeIDProcess (evPID evt))
        (versionedID (fileID evt) (latestOf (fileID evt) g)) \<in> edgeKeys g')"
  by (auto simp: addExec_def Let_def case_prod_beta getOrCreateBaseFileNode_id edgeKeys_addCredential
      dest!: edgeKeys_setStartTime split: Option.bind_splits if_splits)

lemma edgeKeys_file:
  "edgeKeys g \<subseteq> edgeKeys (addFileUse evt ts g)" "edgeKeys g \<subseteq> edgeKeys (addFileGenerate evt ts g)"
  by (auto simp: addFileUse_def addFileGenerate_def Let_def case_prod_beta)

lemma edgeKeys_addMemoryEvent: "edgeKeys g \<subseteq> edgeKeys (addMemoryEvent evt ts g)"
  by (auto simp: addMemoryEvent_def Let_def case_prod_beta split: option.split)

text \<open>What an event does to the edges, by the handler it is dispatched to.\<close>

definition entryState :: "event \<Rightarrow> graph \<Rightarrow> graph" where
  "entryState evt g = (let g = recordFirstTS (evTimestampNS evt) g in
     if 0 < evPID evt then g\<lparr>gProcs := RecordProcess (evPID evt) (gProcs g)\<rparr> else g)"

lemma entryState_frame [simp]:
  "edgeKeys (entryState evt g) = edgeKeys g" "latestOf b (entryState evt g) = latestOf b g"
  "nodeKeys (entryState evt g) = nodeKeys g"
  by (simp_all add: entryState_def Let_def)

lemma AddEvent_entry:
  "AddEvent rf evt g =
     (let ts = nsToTime (evTimestampNS evt) (recordFirstTS (evTimestampNS evt) g);
          h = entryState evt g; ty = evType evt
      in if ty = EventProcessFork then addFork rf evt ts h
         else if ty = EventProcessExec then addExec rf evt ts h
         else if ty = EventFileOpen then Some (addFileUse evt ts h)
         else if ty = EventFileCreate \<or> ty = EventFileModify then Some (addFileGenerate evt ts h)
         else if ty = EventFileDelete then Some (addFileUse evt ts h)
         else if ty = EventMemfdCreate \<or> ty = EventMprotectRX \<or> ty = EventPipeWrite
                 \<or> ty = EventPipeRead then Some (addMemoryEvent evt ts h)
         else Some h)"
  by (simp only: AddEvent_def entryState_def Let_def)

lemma AddEvent_handler:
  assumes "AddEvent rf evt g = Some g'"
  obtains ts where "evType evt = EventProcessFork" "addFork rf evt ts (entryState evt g) = Some g'"
  | ts where "evType evt = EventProcessExec" "addExec rf evt ts (entryState evt g) = Some g'"
  | ts where "evType evt = EventFileOpen \<or> evType evt = EventFileDelete" "g' = addFileUse evt ts (entryState evt g)"
  | ts where "evType evt = EventFileCreate \<or> evType evt = EventFileModify"
      "g' = addFileGenerate evt ts (entryState evt g)"
  | ts where "evType evt \<in> {EventMemfdCreate, EventMprotectRX, EventPipeWrite, EventPipeRead}"
      "g' = addMemoryEvent evt ts (entryState evt g)"
  | "g' = entryState evt g" "\<not> readsFile b evt" "\<not> writesFile b evt"
  using assms unfolding AddEvent_entry Let_def readsFile_def writesFile_def
  by (simp split: if_split_asm) blast+

lemma edgeKeys_AddEvent:
  assumes "AddEvent rf evt g = Some g'" shows "edgeKeys g \<subseteq> edgeKeys g'"
  using assms
proof (cases rule: AddEvent_handler)
  case (1 ts) then show ?thesis by (auto dest: edgeKeys_addFork)
next
  case (2 ts) then show ?thesis by (auto dest!: edgeKeys_addExec)
next
  case (3 ts) then show ?thesis using edgeKeys_file(1) [of "entryState evt g"] by simp
next
  case (4 ts) then show ?thesis using edgeKeys_file(2) [of "entryState evt g"] by simp
next
  case (5 ts) then show ?thesis using edgeKeys_addMemoryEvent [of "entryState evt g"] by simp
qed simp

lemma AddEvent_read:
  assumes "readsFile b evt" and "AddEvent rf evt g = Some g'"
  shows "edgeID ProvUsed (NodeIDProcess (evPID evt)) (versionedID b (latestOf b g)) \<in> edgeKeys g'"
  using assms(2)
proof (cases rule: AddEvent_handler [where b = b])
  case (2 ts)
  then show ?thesis using assms(1) by (auto simp: readsFile_def dest: edgeKeys_addExec)
next
  case (3 ts)
  then show ?thesis
    using assms(1) by (auto simp: readsFile_def addFileUse_def Let_def case_prod_beta getOrCreateBaseFileNode_id)
qed (use assms(1) in \<open>auto simp: readsFile_def\<close>)

lemma AddEvent_write:
  assumes "writesFile b evt" and "AddEvent rf evt g = Some g'"
  shows "edgeID ProvWasGeneratedBy (versionedID b (latestOf b g + 1)) (NodeIDProcess (evPID evt)) \<in> edgeKeys g'"
    and "edgeID ProvWasDerivedFrom (versionedID b (latestOf b g + 1)) (versionedID b (latestOf b g)) \<in> edgeKeys g'"
proof -
  obtain ts where g': "g' = addFileGenerate evt ts (entryState evt g)" and e: "hasPath evt" "fileID evt = b"
    using assms(2) by (cases rule: AddEvent_handler [where b = b]) (use assms(1) in \<open>auto simp: writesFile_def\<close>)
  show "edgeID ProvWasGeneratedBy (versionedID b (latestOf b g + 1)) (NodeIDProcess (evPID evt)) \<in> edgeKeys g'"
    "edgeID ProvWasDerivedFrom (versionedID b (latestOf b g + 1)) (versionedID b (latestOf b g)) \<in> edgeKeys g'"
    using e by (auto simp: g' addFileGenerate_def Let_def case_prod_beta createNextFileVersion_ids)
qed

end
