(* ===== verification/Pruner.thy ===== *)
theory Pruner
  imports ProvGraphProps
begin

text \<open>
  Pruning of the provenance graph (\<^verbatim>\<open>internal/engine/provenance/pruner.go\<close>): the default test for
  interesting nodes and the mark-and-sweep of \<open>Prune\<close>. The Go maps are association lists; the set
  that the marking computes is shown not to depend on their order. The ticker loop around \<open>Prune\<close> and
  its log lines are left out.
\<close>

section \<open>Model\<close>

definition sensitivePrefixes :: "string list" where
  "sensitivePrefixes = [''/etc/shadow'', ''/etc/passwd'', ''/etc/sudoers'', ''/etc/ssh/'', ''/root/'',
     ''/.ssh/'', ''/var/log/auth.log'', ''/var/log/secure'']"

definition isPathSensitive :: "string \<Rightarrow> bool" where
  "isPathSensitive path = list_ex (\<lambda>p. length p \<le> length path \<and> take (length p) path = p) sensitivePrefixes"

definition DefaultInterestingChecker :: "node \<Rightarrow> bool" where
  "DefaultInterestingChecker n =
     (if nSubtype n = ''network'' then True
      else if nSubtype n = ''credential'' then True
      else if nSubtype n = ''file'' \<and> isPathSensitive (nLabel n) then True
      else case map_of (nAttributes n) ''setuid'' of Some (ABool b) \<Rightarrow> b | _ \<Rightarrow> False)"

text \<open>One inner loop of the marking: the unmarked ones of the ids are marked and queued.\<close>

fun pushAll :: "string list \<Rightarrow> string set \<times> string list \<Rightarrow> string set \<times> string list" where
  "pushAll [] (reachable, queue) = (reachable, queue)"
| "pushAll (t # ts) (reachable, queue) =
     (if t \<in> reachable then pushAll ts (reachable, queue)
      else pushAll ts (insert t reachable, queue @ [t]))"

definition targetsOf :: "edge list \<Rightarrow> string \<Rightarrow> string list" where
  "targetsOf es i = map eTarget (filter (\<lambda>e. eSource e = i) es)"

definition reverseIdx :: "edge list \<Rightarrow> string \<Rightarrow> string list" where
  "reverseIdx es i = map eSource (filter (\<lambda>e. eTarget e = i) es)"

definition endpoints :: "edge list \<Rightarrow> string set" where
  "endpoints es = eSource ` set es \<union> eTarget ` set es"

lemma finite_endpoints [simp]: "finite (endpoints es)"
  by (simp add: endpoints_def)

lemma neighbours_sub [simp]: "set (targetsOf es i) \<subseteq> endpoints es" "set (reverseIdx es i) \<subseteq> endpoints es"
  by (auto simp: targetsOf_def reverseIdx_def endpoints_def)

lemma pushAll_reachable [simp]: "fst (pushAll ts rq) = fst rq \<union> set ts"
  by (induction ts rq rule: pushAll.induct) auto

lemma pushAll_queue: "set (snd (pushAll ts rq)) = set (snd rq) \<union> (set ts - fst rq)"
  by (induction ts rq rule: pushAll.induct) auto

lemma pushAll_measure:
  "finite E \<Longrightarrow> set ts \<subseteq> E \<Longrightarrow>
   card (E - fst (pushAll ts rq)) + length (snd (pushAll ts rq)) = card (E - fst rq) + length (snd rq)"
proof (induction ts rq rule: pushAll.induct)
  case (2 t ts r q)
  show ?case
  proof (cases "t \<in> r")
    case True
    with 2 show ?thesis by (simp add: insert_absorb)
  next
    case False
    have "E - insert t r = (E - r) - {t}" by blast
    moreover have "0 < card (E - r)" using False 2(3,4) by (auto simp: card_gt_0_iff)
    ultimately show ?thesis
      using 2(2) [OF False] 2(3,4) False by (simp add: card_Diff_singleton)
  qed
qed simp

function bfs :: "edge list \<Rightarrow> string set \<Rightarrow> string list \<Rightarrow> string set" where
  "bfs es reachable [] = reachable"
| "bfs es reachable (i # queue) =
     (let rq = pushAll (targetsOf es i) (reachable, queue);
          rq = pushAll (reverseIdx es i) rq
      in bfs es (fst rq) (snd rq))"
  by pat_completeness auto
termination
proof (relation "measure (\<lambda>(es, r, q). card (endpoints es - r) + length q)")
  fix es r i q rq rq'
  assume "rq = pushAll (targetsOf es i) (r, q)" and "rq' = pushAll (reverseIdx es i) rq"
  then show "((es, fst rq', snd rq'), es, r, i # q) \<in> measure (\<lambda>(es, r, q). card (endpoints es - r) + length q)"
    using pushAll_measure [of "endpoints es" "reverseIdx es i" rq]
      pushAll_measure [of "endpoints es" "targetsOf es i" "(r, q)"]
    by (simp add: case_prod_beta del: pushAll_reachable)
qed simp

definition interestingIDs :: "(string \<times> bool) list \<Rightarrow> (node \<Rightarrow> bool) option \<Rightarrow> graph \<Rightarrow> string list" where
  "interestingIDs pruneSet checker g =
     map fst (filter (\<lambda>(i, n). mget0 False pruneSet i \<or> (case checker of None \<Rightarrow> False | Some c \<Rightarrow> c n)) (gNodes g))"

definition Prune :: "(string \<times> bool) list \<Rightarrow> (node \<Rightarrow> bool) option \<Rightarrow> graph \<Rightarrow> nat \<times> graph" where
  "Prune pruneSet checker g =
     (if gNodes g = [] then (0, g)
      else let interesting = interestingIDs pruneSet checker g in
        if interesting = [] then (0, g)
        else let reachable = bfs (map snd (gEdges g)) (set interesting) interesting;
                 nodes = filter (\<lambda>(i, n). i \<in> reachable) (gNodes g);
                 removedNodes = length (filter (\<lambda>(i, n). i \<notin> reachable) (gNodes g));
                 edges = filter (\<lambda>(i, e). eSource e \<in> reachable \<and> eTarget e \<in> reachable) (gEdges g);
                 newOrder = filter (\<lambda>i. map_of edges i \<noteq> None) (gEdgeOrder g)
             in (removedNodes, g\<lparr>gNodes := nodes, gEdges := edges, gEdgeOrder := newOrder\<rparr>))"

section \<open>The marking computes connected components\<close>

text \<open>The relation the marking follows: the edges, in both directions.\<close>

definition linked :: "edge list \<Rightarrow> (string \<times> string) set" where
  "linked es = {(a, b). \<exists>e \<in> set es. (eSource e = a \<and> eTarget e = b) \<or> (eTarget e = a \<and> eSource e = b)}"

lemma linked_image: "linked es `` {i} = set (targetsOf es i) \<union> set (reverseIdx es i)"
  by (auto simp: linked_def targetsOf_def reverseIdx_def)

lemma linked_sym: "sym (linked es)"
  by (auto simp: linked_def sym_def)

lemma bfs_closed:
  "set q \<subseteq> r \<Longrightarrow> linked es `` (r - set q) \<subseteq> r \<Longrightarrow> r \<subseteq> bfs es r q \<and> linked es `` bfs es r q \<subseteq> bfs es r q"
proof (induction es r q rule: bfs.induct)
  case (2 es r i q)
  let ?rq = "pushAll (targetsOf es i) (r, q)"
  let ?rq' = "pushAll (reverseIdx es i) ?rq"
  have r': "fst ?rq' = r \<union> linked es `` {i}" by (auto simp: linked_image)
  have q': "set (snd ?rq') = set q \<union> (linked es `` {i} - r)"
    by (auto simp: pushAll_queue linked_image)
  have "set (snd ?rq') \<subseteq> fst ?rq'" using 2(2) unfolding q' r' by auto
  moreover have "linked es `` (fst ?rq' - set (snd ?rq')) \<subseteq> fst ?rq'"
    using 2(3) unfolding q' r' by (auto simp: Image_def)
  ultimately have "fst ?rq' \<subseteq> bfs es r (i # q) \<and> linked es `` bfs es r (i # q) \<subseteq> bfs es r (i # q)"
    using 2(1) [OF refl refl] by (simp add: Let_def del: pushAll_reachable)
  then show ?case using r' by blast
qed simp

lemma rtrancl_Image_closed: "A \<subseteq> R\<^sup>* `` B \<Longrightarrow> R\<^sup>* `` A \<subseteq> R\<^sup>* `` B"
  by (blast intro: rtrancl_trans)

lemma bfs_sound: "bfs es r q \<subseteq> (linked es)\<^sup>* `` (r \<union> set q)"
proof (induction es r q rule: bfs.induct)
  case (2 es r i q)
  let ?rq' = "pushAll (reverseIdx es i) (pushAll (targetsOf es i) (r, q))"
  have "fst ?rq' \<union> set (snd ?rq') \<subseteq> (linked es)\<^sup>* `` (r \<union> set (i # q))"
    using linked_image [of es i] by (auto simp: pushAll_queue)
  then have "(linked es)\<^sup>* `` (fst ?rq' \<union> set (snd ?rq')) \<subseteq> (linked es)\<^sup>* `` (r \<union> set (i # q))"
    by (rule rtrancl_Image_closed)
  then show ?case using 2(1) [OF refl refl] by (simp add: Let_def del: pushAll_reachable)
qed auto

lemma bfs_component:
  assumes "set q = r" shows "bfs es r q = (linked es)\<^sup>* `` r"
proof
  show "bfs es r q \<subseteq> (linked es)\<^sup>* `` r" using bfs_sound [of es r q] assms by simp
  have c: "r \<subseteq> bfs es r q" "linked es `` bfs es r q \<subseteq> bfs es r q"
    using bfs_closed [of q r es] assms by auto
  show "(linked es)\<^sup>* `` r \<subseteq> bfs es r q"
  proof
    fix x assume "x \<in> (linked es)\<^sup>* `` r"
    then obtain a where "a \<in> r" "(a, x) \<in> (linked es)\<^sup>*" by blast
    from this(2,1) show "x \<in> bfs es r q" by (induction rule: rtrancl_induct) (use c in blast)+
  qed
qed

section \<open>What pruning keeps\<close>

text \<open>The nodes connected to an interesting one, by a path of edges taken in either direction.\<close>

definition keepSet :: "(string \<times> bool) list \<Rightarrow> (node \<Rightarrow> bool) option \<Rightarrow> graph \<Rightarrow> string set" where
  "keepSet pruneSet checker g =
     (linked (map snd (gEdges g)))\<^sup>* `` set (interestingIDs pruneSet checker g)"

lemma Prune_eq:
  "interestingIDs ps ck g \<noteq> [] \<Longrightarrow> Prune ps ck g =
     (length (filter (\<lambda>(i, n). i \<notin> keepSet ps ck g) (gNodes g)),
      g\<lparr>gNodes := filter (\<lambda>(i, n). i \<in> keepSet ps ck g) (gNodes g),
        gEdges := filter (\<lambda>(i, e). eSource e \<in> keepSet ps ck g \<and> eTarget e \<in> keepSet ps ck g) (gEdges g),
        gEdgeOrder := filter (\<lambda>i. map_of (filter (\<lambda>(i, e). eSource e \<in> keepSet ps ck g \<and> eTarget e \<in> keepSet ps ck g)
            (gEdges g)) i \<noteq> None) (gEdgeOrder g)\<rparr>)"
  by (auto simp: Prune_def Let_def bfs_component keepSet_def interestingIDs_def)

lemma Prune_none: "interestingIDs ps ck g = [] \<Longrightarrow> Prune ps ck g = (0, g)"
  by (simp add: Prune_def)

lemma keepSet_edge:
  "e \<in> snd ` set (gEdges g) \<Longrightarrow> eSource e \<in> keepSet ps ck g \<longleftrightarrow> eTarget e \<in> keepSet ps ck g"
proof -
  assume "e \<in> snd ` set (gEdges g)"
  then have "(eSource e, eTarget e) \<in> linked (map snd (gEdges g))"
    "(eTarget e, eSource e) \<in> linked (map snd (gEdges g))" by (auto simp: linked_def)
  then show ?thesis unfolding keepSet_def by (blast intro: rtrancl.rtrancl_into_rtrancl)
qed

lemma map_of_filter_key: "map_of (filter (\<lambda>(i, n). i \<in> K) m) i = (if i \<in> K then map_of m i else None)"
  by (induction m) auto

lemma nodeKeys_Prune: "nodeKeys (snd (Prune ps ck g)) \<subseteq> nodeKeys g"
  by (cases "interestingIDs ps ck g = []") (auto simp: Prune_none Prune_eq nodeKeys_def)

lemma wf_Prune:
  assumes "wf_graph g" shows "wf_graph (snd (Prune ps ck g))"
proof (cases "interestingIDs ps ck g = []")
  case False
  let ?K = "keepSet ps ck g"
  let ?es = "filter (\<lambda>(i, e). eSource e \<in> ?K \<and> eTarget e \<in> ?K) (gEdges g)"
  note wf = assms [unfolded wf_graph_def]
  have d: "distinct (map fst (filter P m))" if "distinct (map fst m)" for P and m :: "(string \<times> 'x) list"
    using that by (induction m) auto
  have es: "list_all (edge_ok (nodeKeys (snd (Prune ps ck g)))) ?es"
    using wf False by (auto simp: list_all_iff edge_ok_def Prune_eq nodeKeys_def) force+
  have ord: "set (filter (\<lambda>i. map_of ?es i \<noteq> None) (gEdgeOrder g)) = fst ` set ?es"
    unfolding set_filter [of _ "gEdgeOrder g"] keys_iff [symmetric] using wf by auto
  show ?thesis
    using wf False es ord by (auto simp: wf_graph_def Prune_eq d list_all_iff)
qed (simp add: Prune_none assms)

lemma ver_inv_Prune: "ver_inv g \<Longrightarrow> ver_inv (snd (Prune ps ck g))"
proof -
  have "gVersions (snd (Prune ps ck g)) = gVersions g"
    by (cases "interestingIDs ps ck g = []") (auto simp: Prune_none Prune_eq)
  then show "ver_inv g \<Longrightarrow> ver_inv (snd (Prune ps ck g))"
    using nodeKeys_Prune [of ps ck g] by (auto intro!: ver_inv_frame [where N = "{}" and g = g])
qed

end
