(* ===== verification/GraphTheorems.thy ===== *)
theory GraphTheorems
  imports Pruner
begin

text \<open>
  The provenance graph as a system of operations, and what every run of them guarantees: the graph
  stays well formed, reads are linked to the version the last write created, writes never reuse a
  node, pruning keeps exactly the components of the interesting nodes, and deduplication merges only
  equal edges.
\<close>

section \<open>The graph as a system\<close>

datatype graph_op =
    OpEvent event
  | OpPrune "(string \<times> bool) list" "(node \<Rightarrow> bool) option"

definition graphStep :: "(string \<Rightarrow> string option) \<Rightarrow> graph_op \<Rightarrow> graph \<Rightarrow> graph option" where
  "graphStep rf op g = (case op of OpEvent e \<Rightarrow> AddEvent rf e g
     | OpPrune ps ck \<Rightarrow> Some (snd (Prune ps ck g)))"

definition graph_inv :: "graph \<Rightarrow> bool" where
  "graph_inv g \<longleftrightarrow> wf_graph g \<and> ver_inv g"

interpretation gsys: guarded_system "graphStep rf" graph_inv for rf
  by unfold_locales
    (auto simp: graphStep_def graph_inv_def wf_Prune ver_inv_Prune split: graph_op.splits
      dest: wf_AddEvent ver_inv_AddEvent)

lemma graph_inv_NewGraph: "graph_inv (NewGraph now)"
  by (simp add: graph_inv_def wf_NewGraph ver_inv_NewGraph)

text \<open>Where \<^verbatim>\<open>/proc\<close> cannot be read, no event panics.\<close>

lemma readStartTime_unreadable [simp]: "readStartTime (\<lambda>_. None) pid = Some 0"
  by (simp add: readStartTime_def)

lemma setStartTime_unreadable [simp]: "setStartTime (\<lambda>_. None) pid i g = Some g"
  by (simp add: setStartTime_def)

lemma AddEvent_unreadable: "\<exists>g'. AddEvent (\<lambda>_. None) evt g = Some g'"
  by (simp add: AddEvent_entry Let_def addFork_def addExec_def)

interpretation usys: total_system "graphStep (\<lambda>_. None)" graph_inv
  by unfold_locales (auto simp: graphStep_def AddEvent_unreadable split: graph_op.splits)

section \<open>Runs of events\<close>

lemma run_events:
  assumes "graph_inv g" and "runOps (AddEvent rf) es g = Some g'" and "\<forall>e \<in> set es. \<not> writesFile b e"
  shows "graph_inv g' \<and> latestOf b g' = latestOf b g \<and> edgeKeys g \<subseteq> edgeKeys g'"
  using assms
proof (induction es arbitrary: g)
  case (Cons e es)
  then obtain h where h: "AddEvent rf e g = Some h" "runOps (AddEvent rf) es h = Some g'"
    by (auto split: option.splits)
  have "graph_inv h" using h(1) Cons.prems(1) by (auto simp: graph_inv_def dest: wf_AddEvent ver_inv_AddEvent)
  moreover have "latestOf b h = latestOf b g"
    using latestOf_AddEvent [OF _ h(1)] Cons.prems by (simp add: graph_inv_def)
  ultimately show ?case
    using Cons.IH [OF _ h(2)] Cons.prems(3) edgeKeys_AddEvent [OF h(1)] by auto
qed simp

text \<open>A create and an open of one file by two processes, used by the examples.\<close>

definition exCreate :: event where
  "exCreate = zeroEvent\<lparr>evType := EventFileCreate, evPID := 10, evInode := 5, evPathname := ''/tmp/x''\<rparr>"

definition exOpen :: event where
  "exOpen = zeroEvent\<lparr>evType := EventFileOpen, evPID := 20, evInode := 5, evPathname := ''/tmp/x''\<rparr>"

lemma ex_file:
  "writesFile (NodeIDFile 5 0 0) exCreate" "readsFile (NodeIDFile 5 0 0) exOpen"
  "evPID exCreate = 10" "evPID exOpen = 20"
  by (simp_all add: writesFile_def readsFile_def exCreate_def exOpen_def zeroEvent_def hasPath_def fileID_def)

text \<open>
  C2. Every graph that a sequence of events and prunings builds from an empty graph is well formed
  (nodes and edges are stored under their own identifiers, no edge dangles, the insertion order lists
  every edge once, counts are positive) and no file node carries a version ahead of the tracker.
\<close>

theorem graph_runs_well_formed:
  assumes "runOps (graphStep rf) ops (NewGraph now) = Some g"
  shows "wf_graph g \<and> ver_inv g"
  using gsys.run_inv [OF graph_inv_NewGraph assms] by (simp add: graph_inv_def)

theorem graph_runs_well_formed_witness:
  "\<exists>g. runOps (graphStep (\<lambda>_. None)) [OpEvent exCreate, OpPrune [] (Some DefaultInterestingChecker), OpEvent exOpen]
     (NewGraph 0) = Some g \<and> wf_graph g \<and> ver_inv g"
  using usys.run_total [OF graph_inv_NewGraph] graph_runs_well_formed by metis

text \<open>
  C3. A process that opens, deletes or executes a file is linked to the version created by the last
  write to it: after a write to a file, any events that do not write to it, and an access, the graph
  holds the edge from the new version to the writer, the derivation from the version before, and the
  \<open>used\<close> edge from the accessing process to that version.
\<close>

theorem access_links_last_write:
  assumes "runOps (graphStep rf) ops (NewGraph now) = Some g"
    and "writesFile b w" and "AddEvent rf w g = Some g1"
    and "\<forall>e \<in> set es. \<not> writesFile b e" and "runOps (AddEvent rf) es g1 = Some g2"
    and "readsFile b r" and "AddEvent rf r g2 = Some g3"
  shows "\<exists>v. edgeID ProvWasGeneratedBy (versionedID b (v + 1)) (NodeIDProcess (evPID w)) \<in> edgeKeys g3
       \<and> edgeID ProvWasDerivedFrom (versionedID b (v + 1)) (versionedID b v) \<in> edgeKeys g3
       \<and> edgeID ProvUsed (NodeIDProcess (evPID r)) (versionedID b (v + 1)) \<in> edgeKeys g3"
proof -
  have g: "graph_inv g" using gsys.run_inv [OF graph_inv_NewGraph assms(1)] .
  then have g1: "graph_inv g1" using assms(3) by (auto simp: graph_inv_def dest: wf_AddEvent ver_inv_AddEvent)
  have "latestOf b g1 = latestOf b g + 1"
    using latestOf_AddEvent [OF _ assms(3)] g assms(2) by (simp add: graph_inv_def)
  then have "latestOf b g2 = latestOf b g + 1" and "edgeKeys g1 \<subseteq> edgeKeys g2"
    using run_events [OF g1 assms(5,4)] by simp_all
  moreover have "edgeKeys g2 \<subseteq> edgeKeys g3" by (rule edgeKeys_AddEvent [OF assms(7)])
  ultimately show ?thesis
    using AddEvent_write [OF assms(2,3)] AddEvent_read [OF assms(6,7)]
    by (intro exI [of _ "latestOf b g"]) auto
qed

theorem access_links_last_write_witness:
  "\<exists>v g1 g2. AddEvent (\<lambda>_. None) exCreate (NewGraph 0) = Some g1 \<and> AddEvent (\<lambda>_. None) exOpen g1 = Some g2
     \<and> edgeID ProvWasGeneratedBy (versionedID (NodeIDFile 5 0 0) (v + 1)) (NodeIDProcess 10) \<in> edgeKeys g2
     \<and> edgeID ProvUsed (NodeIDProcess 20) (versionedID (NodeIDFile 5 0 0) (v + 1)) \<in> edgeKeys g2"
proof -
  obtain g1 where g1: "AddEvent (\<lambda>_. None) exCreate (NewGraph 0) = Some g1" using AddEvent_unreadable by blast
  obtain g2 where g2: "AddEvent (\<lambda>_. None) exOpen g1 = Some g2" using AddEvent_unreadable by blast
  have "runOps (graphStep (\<lambda>_. None)) [] (NewGraph 0) = Some (NewGraph 0)"
    and "runOps (AddEvent (\<lambda>_. None)) [] g1 = Some g1" by simp_all
  from access_links_last_write [OF this(1) ex_file(1) g1 _ this(2) ex_file(2) g2] g1 g2
  show ?thesis by (auto simp: ex_file)
qed

text \<open>
  C4. A write never overwrites a node: in every graph built by a sequence of operations, the version
  a write creates is new, the write keeps every node of the graph and adds that version.
\<close>

theorem write_creates_fresh_version:
  assumes "runOps (graphStep rf) ops (NewGraph now) = Some g"
    and "writesFile b w" and "AddEvent rf w g = Some g'"
  shows "versionedID b (latestOf b g + 1) \<notin> nodeKeys g \<and> versionedID b (latestOf b g + 1) \<in> nodeKeys g'
       \<and> nodeKeys g \<subseteq> nodeKeys g'"
proof -
  have "ver_inv g" using gsys.run_inv [OF graph_inv_NewGraph assms(1)] by (simp add: graph_inv_def)
  then have "versionedID b (latestOf b g + 1) \<notin> nodeKeys g" by (force simp: ver_inv_def)
  moreover obtain ts where "g' = addFileGenerate w ts (entryState w g)" and "hasPath w" "fileID w = b"
    using assms(3) by (cases rule: AddEvent_handler [where b = b]) (use assms(2) in \<open>auto simp: writesFile_def\<close>)
  ultimately show ?thesis
    by (auto simp: addFileGenerate_def Let_def case_prod_beta createNextFileVersion_ids)
qed

theorem write_creates_fresh_version_witness:
  "\<exists>g g'. runOps (graphStep (\<lambda>_. None)) [OpEvent exOpen] (NewGraph 0) = Some g
     \<and> AddEvent (\<lambda>_. None) exCreate g = Some g'
     \<and> versionedID (NodeIDFile 5 0 0) (latestOf (NodeIDFile 5 0 0) g + 1) \<notin> nodeKeys g
     \<and> versionedID (NodeIDFile 5 0 0) (latestOf (NodeIDFile 5 0 0) g + 1) \<in> nodeKeys g'"
proof -
  obtain g where g: "runOps (graphStep (\<lambda>_. None)) [OpEvent exOpen] (NewGraph 0) = Some g"
    using usys.run_total [OF graph_inv_NewGraph] by blast
  obtain g' where g': "AddEvent (\<lambda>_. None) exCreate g = Some g'" using AddEvent_unreadable by blast
  from write_creates_fresh_version [OF g ex_file(1) g'] g g' show ?thesis by blast
qed

section \<open>Pruning\<close>

lemma set_graphEdges: "wf_graph g \<Longrightarrow> set (graphEdges g) = snd ` set (gEdges g)"
  unfolding wf_graph_def graphEdges_def List.map_filter_def
  by (force simp: image_iff Bex_def dest: map_of_SomeD map_of_is_SomeI)

text \<open>A second pruning finds the same interesting nodes and the same connections among what is left.\<close>

lemma keepSet_Prune:
  assumes ne: "interestingIDs ps ck g \<noteq> []"
  shows "interestingIDs ps ck (snd (Prune ps ck g)) = interestingIDs ps ck g"
    and "keepSet ps ck g \<subseteq> keepSet ps ck (snd (Prune ps ck g))"
proof -
  let ?g = "snd (Prune ps ck g)" and ?K = "keepSet ps ck g"
  have "set (interestingIDs ps ck g) \<subseteq> ?K" by (auto simp: keepSet_def)
  then show I: "interestingIDs ps ck ?g = interestingIDs ps ck g"
    using ne by (auto simp: Prune_eq interestingIDs_def comp_def intro!: arg_cong [of _ _ "map fst"] filter_cong)
  have kept: "(a, b) \<in> linked (map snd (gEdges ?g))" if "(a, b) \<in> linked (map snd (gEdges g))" "a \<in> ?K" for a b
  proof -
    from that(1) obtain i e where e: "(i, e) \<in> set (gEdges g)"
      "(eSource e = a \<and> eTarget e = b) \<or> (eTarget e = a \<and> eSource e = b)" by (auto simp: linked_def)
    then have "eSource e \<in> ?K" "eTarget e \<in> ?K" using that(2) keepSet_edge [of e g ps ck] by force+
    with e ne show ?thesis by (force simp: linked_def Prune_eq)
  qed
  show "?K \<subseteq> keepSet ps ck ?g"
  proof
    fix x assume "x \<in> ?K"
    then obtain a where a: "a \<in> set (interestingIDs ps ck g)" "(a, x) \<in> (linked (map snd (gEdges g)))\<^sup>*"
      by (auto simp: keepSet_def)
    from a(2) have "x \<in> ?K \<and> (a, x) \<in> (linked (map snd (gEdges ?g)))\<^sup>*"
    proof (induction rule: rtrancl_induct)
      case base then show ?case using a(1) by (auto simp: keepSet_def)
    next
      case (step y z)
      then have "z \<in> ?K" unfolding keepSet_def by (blast intro: rtrancl.rtrancl_into_rtrancl)
      with step kept show ?case by (blast intro: rtrancl.rtrancl_into_rtrancl)
    qed
    then show "x \<in> keepSet ps ck ?g" using a(1) I by (auto simp: keepSet_def)
  qed
qed


text \<open>
  Pruning is idempotent: a second pruning with the same criteria removes no node.
\<close>

lemma Prune_idempotent:
  "fst (Prune ps ck (snd (Prune ps ck g))) = 0"
proof (cases "interestingIDs ps ck g = []")
  case True then show ?thesis by (simp add: Prune_none)
next
  case False
  let ?g = "snd (Prune ps ck g)"
  have "i \<in> keepSet ps ck ?g" if "(i, n) \<in> set (gNodes ?g)" for i n
    using that keepSet_Prune(2) [OF False] False by (auto simp: Prune_eq)
  moreover have "interestingIDs ps ck ?g \<noteq> []" using keepSet_Prune(1) [OF False] False by simp
  ultimately show ?thesis by (subst Prune_eq) (auto simp: filter_empty_conv)
qed


section \<open>Deduplication of edges\<close>

definition idChar :: "char \<Rightarrow> bool" where
  "idChar c \<longleftrightarrow> (let n = (of_char c :: nat) in (97 \<le> n \<and> n \<le> 122) \<or> (65 \<le> n \<and> n \<le> 90) \<or> (48 \<le> n \<and> n \<le> 57))
     \<or> c = CHR '':'' \<or> c = CHR ''#''"

lemma append_split_unique:
  assumes "s @ x # t = s' @ x # t'" and "x \<notin> set s" and "x \<notin> set s'" shows "s = s' \<and> t = t'"
  using assms
proof (induction s arbitrary: s')
  case Nil then show ?case by (cases s') auto
next
  case (Cons a s) then show ?case by (cases s') auto
qed

definition sanitize :: "char \<Rightarrow> char" where
  "sanitize c = (if xmlSafe c then c else CHR ''_'')"

lemma sanitize_idChar: "idChar c \<Longrightarrow> sanitize c = (if c = CHR ''#'' then CHR ''_'' else c)"
  by (auto simp: idChar_def sanitize_def xmlSafe_def Let_def)

lemma sanitize_not_dash: "idChar c \<Longrightarrow> sanitize c \<noteq> CHR ''-''"
  by (auto simp: sanitize_idChar idChar_def)

lemma sanitize_inj: "idChar c \<Longrightarrow> idChar d \<Longrightarrow> sanitize c = sanitize d \<Longrightarrow> c = d"
  by (auto simp: sanitize_idChar idChar_def split: if_splits)

lemma map_sanitize_inj:
  "list_all idChar s \<Longrightarrow> list_all idChar t \<Longrightarrow> map sanitize s = map sanitize t \<Longrightarrow> s = t"
  by (rule map_inj_on [of sanitize]) (auto simp: list_all_iff inj_on_def sanitize_inj)

lemma edgeID_short:
  "length r + length s + length t \<le> 77 \<Longrightarrow>
   edgeID r s t = map sanitize r @ CHR '':'' # map sanitize s @ CHR ''-'' # CHR ''_'' # map sanitize t"
  by (simp add: edgeID_def Let_def sanitize_def [abs_def] xmlSafe_def)

text \<open>
  C7. Deduplication merges only equal edges: for identifiers over the alphabet the graph uses
  (letters, digits, colon and the version mark) that fit the 80 byte limit together, two edges of one
  relation get the same identifier only if they join the same source and target, although the version
  mark is rewritten and longer identifiers are cut.
\<close>

theorem edgeID_inj:
  assumes "list_all idChar s" and "list_all idChar t" and "list_all idChar s'" and "list_all idChar t'"
    and "length r + length s + length t \<le> 77" and "length r + length s' + length t' \<le> 77"
  shows "edgeID r s t = edgeID r s' t' \<longleftrightarrow> s = s' \<and> t = t'"
proof
  assume "edgeID r s t = edgeID r s' t'"
  then have "map sanitize s @ CHR ''-'' # CHR ''_'' # map sanitize t =
      map sanitize s' @ CHR ''-'' # CHR ''_'' # map sanitize t'"
    using assms(5,6) by (simp add: edgeID_short)
  moreover have "CHR ''-'' \<notin> set (map sanitize s)" "CHR ''-'' \<notin> set (map sanitize s')"
    using assms(1,3) sanitize_not_dash by (auto simp: list_all_iff) metis+
  ultimately have "map sanitize s = map sanitize s' \<and> map sanitize t = map sanitize t'"
    using append_split_unique [of "map sanitize s" "CHR ''-''" "CHR ''_'' # map sanitize t"
        "map sanitize s'" "CHR ''_'' # map sanitize t'"] by simp
  with assms(1-4) show "s = s' \<and> t = t'" using map_sanitize_inj by blast
qed simp

theorem edgeID_inj_witness:
  "edgeID ProvUsed ''p:20'' ''f:5:0:0#v2'' = edgeID ProvUsed ''p:20'' ''f:5:0:0#v3'' \<longleftrightarrow>
   ''p:20'' = ''p:20'' \<and> ''f:5:0:0#v2'' = ''f:5:0:0#v3''"
  by (rule edgeID_inj) (simp_all add: idChar_def)

end
