(* ===== verification/GraphTypes.thy ===== *)
theory GraphTypes
  imports GraphTheorems
begin

text \<open>
  The typing of the provenance graph. The prefix of an identifier (\<^verbatim>\<open>p:\<close>, \<^verbatim>\<open>f:\<close>, \<^verbatim>\<open>c:\<close>, \<^verbatim>\<open>memfd:\<close>, \<^verbatim>\<open>rx:\<close>,
  \<^verbatim>\<open>pipe:\<close>, \<^verbatim>\<open>internal/engine/provenance/prov.go\<close>, \<^verbatim>\<open>credential.go\<close> and \<^verbatim>\<open>memory.go\<close>) determines the PROV type and
  the subtype of its node, and every PROV relation joins nodes of the types that the PROV data model
  allows. One lemma per primitive update, then one per handler, as for well-formedness.
\<close>

section \<open>Types of identifiers and signatures of relations\<close>

definition idKind :: "string \<Rightarrow> string" where
  "idKind i = takeWhile (\<lambda>c. c \<noteq> CHR '':'') i"

definition nodeType :: "string \<Rightarrow> (string \<times> string) option" where
  "nodeType i = map_of [(''p'', ProvActivity, SubProcess), (''f'', ProvEntity, SubFile),
     (''c'', ProvEntity, SubCredential), (''memfd'', ProvEntity, SubFile),
     (''rx'', ProvEntity, ''memory''), (''pipe'', ProvEntity, ''pipe'')] (idKind i)"

definition relTyped :: "string \<Rightarrow> string \<times> string \<Rightarrow> string \<times> string \<Rightarrow> bool" where
  "relTyped r s t =
     (let proc = (ProvActivity, SubProcess); file = (ProvEntity, SubFile) in
      if r = ProvUsed then s = proc \<and> t \<in> {file, (ProvEntity, ''memory''), (ProvEntity, ''pipe'')}
      else if r = ProvWasGeneratedBy then s = file \<and> t = proc
      else if r = ProvWasDerivedFrom then s = file \<and> t = file
      else if r = ProvWasInformedBy then s = proc \<and> t = proc
      else r = ProvHadSecurityContext \<and> s = proc \<and> t = (ProvEntity, SubCredential))"

definition typed_node :: "string \<times> node \<Rightarrow> bool" where
  "typed_node p = (nodeType (fst p) = Some (nProvType (snd p), nSubtype (snd p)))"

definition edgeTyped :: "string \<Rightarrow> string \<Rightarrow> string \<Rightarrow> bool" where
  "edgeTyped r s t = (case (nodeType s, nodeType t) of
     (Some a, Some b) \<Rightarrow> relTyped r a b | _ \<Rightarrow> False)"

definition typed_edge :: "string \<times> edge \<Rightarrow> bool" where
  "typed_edge p = edgeTyped (eRelation (snd p)) (eSource (snd p)) (eTarget (snd p))"

definition typed_graph :: "graph \<Rightarrow> bool" where
  "typed_graph g \<longleftrightarrow> list_all typed_node (gNodes g) \<and> list_all typed_edge (gEdges g)"

section \<open>Types of the identifiers the handlers build\<close>

lemma nodeID_single [simp]: "nodeID k [a] = k @ '':'' @ a"
  and nodeID_pair [simp]: "nodeID k [a, b] = k @ '':'' @ a @ '':'' @ b"
  by (simp_all add: nodeID_def)

lemma nodeType_process [simp]: "nodeType (NodeIDProcess pid) = Some (ProvActivity, SubProcess)"
  by (simp add: nodeType_def idKind_def NodeIDProcess_def)

lemma nodeType_unknown [simp]: "nodeType unknownParentID = Some (ProvActivity, SubProcess)"
  by (simp add: nodeType_def idKind_def)

lemma nodeType_version [simp]: "nodeType (versionedID (fileID evt) v) = Some (ProvEntity, SubFile)"
  by (simp add: nodeType_def idKind_def versionedID_def fileID_def NodeIDFile_def NodeIDFilePath_def nodeID_def)

lemma nodeType_cred [simp]: "nodeType (CHR ''c'' # CHR '':'' # x) = Some (ProvEntity, SubCredential)"
  by (simp add: nodeType_def idKind_def)

lemma nodeType_memory [simplified append_Cons append_Nil, simp]:
  "nodeType (CHR ''p'' # CHR '':'' # x) = Some (ProvActivity, SubProcess)"
  "nodeType (''memfd:'' @ x) = Some (ProvEntity, SubFile)"
  "nodeType (''rx:'' @ x) = Some (ProvEntity, ''memory'')"
  "nodeType (''pipe:'' @ x) = Some (ProvEntity, ''pipe'')"
  by (simp_all add: nodeType_def idKind_def)

section \<open>Primitive updates\<close>

text \<open>A write through a node pointer never changes the type of the node.\<close>

definition keepsType :: "(node \<Rightarrow> node) \<Rightarrow> bool" where
  "keepsType f \<longleftrightarrow> (\<forall>n. nProvType (f n) = nProvType n \<and> nSubtype (f n) = nSubtype n)"

lemma keepsType_basic [simp]:
  "keepsType (touch ts)" "keepsType (setAttr k v)" "keepsType (upsertAttr k v)" "keepsType (\<lambda>n. n\<lparr>nLabel := l\<rparr>)"
  by (auto simp: keepsType_def touch_def setAttr_def upsertAttr_def)

lemma keepsType_composed [simp]:
  "keepsType (annotateProcessNode evt)" "keepsType (updateFileNodeAttrs evt)"
  by (simp_all add: keepsType_def annotateProcessNode_def updateFileNodeAttrs_def Let_def)

lemma keepsType_InheritParentContext [simp]: "keepsType (InheritParentContext as)"
proof -
  have "keepsType (fold (\<lambda>key n. case map_of as key of None \<Rightarrow> n | Some v \<Rightarrow> upsertAttr key v n) ks)" for ks
    by (induction ks) (auto simp: keepsType_def split: option.splits)
  then show ?thesis by (simp add: keepsType_def InheritParentContext_def)
qed

lemma typed_node_keeps: "keepsType f \<Longrightarrow> typed_node (i, n) \<Longrightarrow> typed_node (i, f n)"
  by (simp add: typed_node_def keepsType_def)

lemma typed_newNode [simp]: "typed_node (i, newNode i pt st l ts) \<longleftrightarrow> nodeType i = Some (pt, st)"
  by (simp add: typed_node_def newNode_def)

lemma typed_trackers [simp]:
  "typed_graph (g\<lparr>gVersions := v\<rparr>) = typed_graph g" "typed_graph (g\<lparr>gCreds := c\<rparr>) = typed_graph g"
  "typed_graph (g\<lparr>gProcs := p\<rparr>) = typed_graph g" "typed_graph (g\<lparr>gFirstTS := t\<rparr>) = typed_graph g"
  by (simp_all add: typed_graph_def)

lemma typed_getOrCreateNode [simp]:
  "typed_graph g \<Longrightarrow> nodeType i = Some (pt, st) \<Longrightarrow> typed_graph (getOrCreateNode i pt st l ts g)"
  by (simp add: typed_graph_def getOrCreateNode_def list_all_mensure)

lemma typed_updNode [simp]:
  assumes "typed_graph g" and "keepsType f" shows "typed_graph (updNode i f g)"
proof -
  have "list_all typed_node (malter i f (gNodes g))"
    using assms by (intro list_all_malter) (auto simp: typed_graph_def typed_node_keeps)
  with assms(1) show ?thesis by (simp add: typed_graph_def updNode_def)
qed

lemma typed_putNode [simp]: "typed_graph g \<Longrightarrow> typed_node (i, n) \<Longrightarrow> typed_graph (putNode i n g)"
  by (simp add: typed_graph_def putNode_def list_all_mput)

lemma typed_addEdge [simp]:
  assumes "typed_graph g" and "edgeTyped r s t" shows "typed_graph (addEdge r s t ts as g)"
proof (cases "map_of (gEdges g) (edgeID r s t)")
  case None
  with assms show ?thesis
    by (simp add: typed_graph_def addEdge_new list_all_mput typed_edge_def newEdge_def)
next
  case (Some e)
  have "list_all typed_edge (malter (edgeID r s t) (mergeEdge ts) (gEdges g))"
    using assms(1) by (intro list_all_malter) (auto simp: typed_graph_def typed_edge_def)
  with Some assms(1) show ?thesis by (simp add: typed_graph_def addEdge_old)
qed

section \<open>Handlers\<close>

lemma typed_NewGraph: "typed_graph (NewGraph now)"
  by (simp add: typed_graph_def NewGraph_def)

lemma typed_base [simp]:
  "typed_graph g \<Longrightarrow> typed_graph (snd (getOrCreateBaseFileNode evt ts g))"
  by (simp add: getOrCreateBaseFileNode_def Let_def LatestVersion_def)

lemma typed_next [simp]:
  "typed_graph g \<Longrightarrow> typed_graph (snd (createNextFileVersion evt ts g))"
  by (simp add: createNextFileVersion_def Let_def case_prod_beta NextVersion_def typed_node_keeps
      edgeTyped_def relTyped_def)

lemma typed_EnsureParentNode [simp]: "typed_graph g \<Longrightarrow> typed_graph (EnsureParentNode pid ts g)"
  by (simp add: EnsureParentNode_def Let_def)

lemma typed_addCredential [simp]:
  "typed_graph g \<Longrightarrow> typed_graph (addCredential evt ts (NodeIDProcess pid) g)"
  by (simp add: addCredential_def OnExec_def Let_def typed_node_keeps edgeTyped_def relTyped_def)

lemma typed_setStartTime: "setStartTime rf pid i g = Some g' \<Longrightarrow> typed_graph g \<Longrightarrow> typed_graph g'"
  by (auto simp: setStartTime_def split: Option.bind_splits if_splits)

lemma typed_addFileUse: "typed_graph g \<Longrightarrow> typed_graph (addFileUse evt ts g)"
  by (simp add: addFileUse_def Let_def case_prod_beta getOrCreateBaseFileNode_id edgeTyped_def relTyped_def)

lemma typed_addFileGenerate: "typed_graph g \<Longrightarrow> typed_graph (addFileGenerate evt ts g)"
  by (simp add: addFileGenerate_def Let_def case_prod_beta createNextFileVersion_ids edgeTyped_def relTyped_def)

text \<open>The memory handler types its entity only for the four event types that \<open>AddEvent\<close> sends to it.\<close>

lemma typed_addMemoryEvent:
  "typed_graph g \<Longrightarrow>
   evType evt \<in> {EventMemfdCreate, EventMprotectRX, EventPipeWrite, EventPipeRead} \<Longrightarrow>
   typed_graph (addMemoryEvent evt ts g)"
  by (auto simp: addMemoryEvent_def Let_def edgeTyped_def relTyped_def)

lemma typed_addFork:
  assumes "typed_graph g" and "addFork rf evt ts g = Some g'" shows "typed_graph g'"
  using assms
  by (auto simp: addFork_def Let_def edgeTyped_def relTyped_def dest!: typed_setStartTime
      split: Option.bind_splits)

lemma typed_addExec:
  assumes "typed_graph g" and "addExec rf evt ts g = Some g'" shows "typed_graph g'"
  using assms
  by (auto simp: addExec_def Let_def case_prod_beta getOrCreateBaseFileNode_id edgeTyped_def relTyped_def
      dest!: typed_setStartTime split: Option.bind_splits)

lemma typed_AddEvent: "typed_graph g \<Longrightarrow> AddEvent rf evt g = Some g' \<Longrightarrow> typed_graph g'"
  unfolding AddEvent_def Let_def
  by (auto simp: recordFirstTS_def split: if_splits dest: typed_addFork [rotated] typed_addExec [rotated]
      intro: typed_addFileUse typed_addFileGenerate typed_addMemoryEvent)

lemma typed_Prune: "typed_graph g \<Longrightarrow> typed_graph (snd (Prune ps ck g))"
  by (cases "interestingIDs ps ck g = []") (auto simp: Prune_none Prune_eq typed_graph_def list_all_iff)

interpretation tsys: guarded_system "graphStep rf" "\<lambda>g. graph_inv g \<and> typed_graph g" for rf
  by unfold_locales
    (auto simp: graphStep_def graph_inv_def wf_Prune ver_inv_Prune typed_Prune split: graph_op.splits
      dest: wf_AddEvent ver_inv_AddEvent typed_AddEvent)

section \<open>The typing of every run\<close>

lemma LookupNode_endpoint:
  assumes "wf_graph g" and "i \<in> nodeKeys g"
  obtains n where "LookupNode i g = Some n" and "(i, n) \<in> set (gNodes g)"
  using assms by (auto simp: LookupNode_def nodeKeys_def wf_graph_def dest: map_of_is_SomeI)

lemma edge_types:
  assumes "wf_graph g" and "typed_graph g" and "e \<in> set (graphEdges g)"
  shows "\<exists>s t. LookupNode (eSource e) g = Some s \<and> LookupNode (eTarget e) g = Some t
       \<and> relTyped (eRelation e) (nProvType s, nSubtype s) (nProvType t, nSubtype t)"
proof -
  obtain i where e: "(i, e) \<in> set (gEdges g)"
    using assms(3) by (fastforce simp: graphEdges_def List.map_filter_def dest: map_of_SomeD)
  then have K: "eSource e \<in> nodeKeys g" "eTarget e \<in> nodeKeys g"
    using assms(1) by (auto simp: wf_graph_def list_all_iff edge_ok_def)
  obtain s where s: "LookupNode (eSource e) g = Some s" "(eSource e, s) \<in> set (gNodes g)"
    using LookupNode_endpoint [OF assms(1) K(1)] .
  obtain t where t: "LookupNode (eTarget e) g = Some t" "(eTarget e, t) \<in> set (gNodes g)"
    using LookupNode_endpoint [OF assms(1) K(2)] .
  have "nodeType (eSource e) = Some (nProvType s, nSubtype s)" "nodeType (eTarget e) = Some (nProvType t, nSubtype t)"
    using assms(2) s(2) t(2) by (auto simp: typed_graph_def list_all_iff typed_node_def)
  moreover have "typed_edge (i, e)" using assms(2) e by (auto simp: typed_graph_def list_all_iff)
  ultimately show ?thesis using s(1) t(1) by (auto simp: typed_edge_def edgeTyped_def)
qed

text \<open>
  C12. Every graph that a sequence of events and prunings builds from an empty graph is typed: the
  prefix of an identifier determines the PROV type and the subtype of its node, and both ends of every
  edge are nodes of the graph with the types of the signature of its relation (a process uses a file, a
  memory region or a pipe; a file is generated by a process and derived from a file; a process is
  informed by a process and has a credential as its security context).
\<close>

theorem graph_typed:
  assumes "runOps (graphStep rf) ops (NewGraph now) = Some g"
  shows "(\<forall>n \<in> set (graphNodes g). nodeType (nID n) = Some (nProvType n, nSubtype n))
       \<and> (\<forall>e \<in> set (graphEdges g). \<exists>s t. LookupNode (eSource e) g = Some s \<and> LookupNode (eTarget e) g = Some t
            \<and> relTyped (eRelation e) (nProvType s, nSubtype s) (nProvType t, nSubtype t))"
proof -
  have g: "wf_graph g" "typed_graph g"
    using tsys.run_inv [OF conjI [OF graph_inv_NewGraph typed_NewGraph] assms] by (simp_all add: graph_inv_def)
  then have "\<forall>n \<in> set (graphNodes g). nodeType (nID n) = Some (nProvType n, nSubtype n)"
    by (fastforce simp: graphNodes_def wf_graph_def typed_graph_def list_all_iff node_ok_def typed_node_def)
  with edge_types [OF g] show ?thesis by blast
qed

theorem graph_typed_witness:
  "\<exists>g. runOps (graphStep (\<lambda>_. None)) [OpEvent exCreate, OpEvent exOpen] (NewGraph 0) = Some g
     \<and> (\<forall>n \<in> set (graphNodes g). nodeType (nID n) = Some (nProvType n, nSubtype n))
     \<and> (\<forall>e \<in> set (graphEdges g). \<exists>s t. LookupNode (eSource e) g = Some s \<and> LookupNode (eTarget e) g = Some t
            \<and> relTyped (eRelation e) (nProvType s, nSubtype s) (nProvType t, nSubtype t))"
proof -
  obtain g where g: "runOps (graphStep (\<lambda>_. None)) [OpEvent exCreate, OpEvent exOpen] (NewGraph 0) = Some g"
    using usys.run_total [OF graph_inv_NewGraph] by blast
  with graph_typed [OF g] show ?thesis by blast
qed

end
