(* ===== verification/Sigma.thy ===== *)
theory Sigma
  imports GraphTypes
begin

text \<open>
  Sigma rules over the provenance graph (\<^verbatim>\<open>internal/policy/sigma/sigma.go\<close>): the rules, the four kinds of
  matching, field values, wildcards and findings. A rule comes out of the YAML library, which is an argument
  of \<open>ParseRule\<close> and \<open>LoadRules\<close>; the raw copy of the YAML document in a rule is never read and left out.
  Maps of selections and criteria are association lists, \<^const>\<open>None\<close> the nil map. Scores are whole numbers.
\<close>

section \<open>Rules\<close>

record log_source =
  lsCategory :: string
  lsProduct :: string
  lsService :: string

type_synonym selections = "(string \<times> (string \<times> string) list) list"

record detection =
  dtSelections :: "selections option"
  dtCondition :: string

record sigma_rule =
  srTitle :: string
  srID :: string
  srDescription :: string
  srAuthor :: string
  srDate :: string
  srLevel :: string
  srTags :: "string list"
  srLogSource :: log_source
  srDetection :: detection
  srFalsePositives :: "string list"

record sigma_plugin =
  spName :: string
  spRules :: "sigma_rule list"

record plugin_finding =
  pfPluginName :: string
  pfTitle :: string
  pfSeverity :: string
  pfScore :: int
  pfNodeIDs :: "string list"

section \<open>Wildcards\<close>

text \<open>
  \<^verbatim>\<open>regexp.QuoteMeta\<close>, the replacement of every quoted star by \<^verbatim>\<open>.*\<close>, and the fragment of \<^verbatim>\<open>regexp\<close> these
  two produce: literals, quoted literals and \<^verbatim>\<open>.*\<close> between the anchors of the whole text. Matching works on
  code points, an invalid byte of the text counts as U+FFFD, and a pattern that is not valid UTF-8 does
  not compile.
\<close>

definition isMeta :: "char \<Rightarrow> bool" where
  "isMeta c = (c \<in> set (CHR 0x5C # ''.+*?()|[]{}^$''))"

fun quoteMeta :: "string \<Rightarrow> string" where
  "quoteMeta [] = []"
| "quoteMeta (c # s) = (if isMeta c then CHR 0x5C # c # quoteMeta s else c # quoteMeta s)"

fun replaceStar :: "string \<Rightarrow> string" where
  "replaceStar (a # b # s) =
     (if a = CHR 0x5C \<and> b = CHR ''*'' then ''.*'' @ replaceStar s else a # replaceStar (b # s))"
| "replaceStar s = s"

datatype re_item = ReLit nat | ReAnyStar

fun parseItems :: "nat list \<Rightarrow> re_item list" where
  "parseItems [] = []"
| "parseItems [c] = [ReLit c]"
| "parseItems (c # d # r) =
     (if c = 92 then ReLit d # parseItems r
      else if c = 46 \<and> d = 42 then ReAnyStar # parseItems r
      else ReLit c # parseItems (d # r))"

fun matchItems :: "re_item list \<Rightarrow> nat list \<Rightarrow> bool" where
  "matchItems [] vs = (vs = [])"
| "matchItems (ReLit c # is) [] = False"
| "matchItems (ReLit c # is) (v # vs) = (v = c \<and> matchItems is vs)"
| "matchItems (ReAnyStar # is) [] = matchItems is []"
| "matchItems (ReAnyStar # is) (v # vs) =
     (matchItems is (v # vs) \<or> (v \<noteq> 10 \<and> matchItems (ReAnyStar # is) vs))"

definition validUTF8 :: "string \<Rightarrow> bool" where
  "validUTF8 s = list_all (\<lambda>(r, w). \<not> (r = runeError \<and> length w = 1)) (runes s)"

definition runeValues :: "string \<Rightarrow> nat list" where
  "runeValues s = map fst (runes s)"

definition sigmaWildcard :: "string \<Rightarrow> string \<Rightarrow> bool" where
  "sigmaWildcard pattern value =
     (if pattern = [] then True
      else let pattern = quoteMeta pattern;
               pattern = replaceStar pattern
           in validUTF8 pattern \<and> matchItems (parseItems (runeValues pattern)) (runeValues value))"

section \<open>Matching\<close>

text \<open>\<^verbatim>\<open>fmt.Sprintf("%v", v)\<close> on an attribute.\<close>

definition attrText :: "attr \<Rightarrow> string" where
  "attrText v = (case v of AStr s \<Rightarrow> s | AU32 w \<Rightarrow> showU w | AU64 w \<Rightarrow> showU w
     | ABool b \<Rightarrow> if b then ''true'' else ''false'')"

definition attrValue :: "node \<Rightarrow> string \<Rightarrow> string" where
  "attrValue n k = (case map_of (nAttributes n) k of None \<Rightarrow> [] | Some v \<Rightarrow> attrText v)"

definition findNode :: "node list \<Rightarrow> string \<Rightarrow> node option" where
  "findNode nodes i = find (\<lambda>n. nID n = i) nodes"

fun parentLabel :: "node \<Rightarrow> node list \<Rightarrow> edge list \<Rightarrow> string" where
  "parentLabel n nodes [] = []"
| "parentLabel n nodes (e # es) =
     (if eSource e = nID n \<and> eRelation e = ProvWasInformedBy
      then case find (\<lambda>pn. nID pn = eTarget e) nodes of
          Some pn \<Rightarrow> nLabel pn
        | None \<Rightarrow> parentLabel n nodes es
      else parentLabel n nodes es)"

definition targetFields :: "string list" where
  "targetFields = [''target'', ''dest'', ''dhost'']"

definition fieldValue :: "node \<Rightarrow> string \<Rightarrow> node list \<Rightarrow> edge list \<Rightarrow> string" where
  "fieldValue n field nodes edges =
     (let f = toLower field in
      if f \<in> {''image'', ''process'', ''commandline''} then nLabel n
      else if f = ''pid'' then attrValue n ''pid''
      else if f = ''uid'' then attrValue n ''uid''
      else if f \<in> {''parentpid'', ''ppid''} then attrValue n ''ppid''
      else if f = ''comm'' then attrValue n ''comm''
      else if f = ''parent'' then parentLabel n nodes edges
      else if f \<in> set targetFields then nLabel n
      else if f \<in> {''filepath'', ''path''} then nLabel n
      else attrValue n field)"

definition matchSelection :: "selections \<Rightarrow> node \<Rightarrow> node list \<Rightarrow> edge list \<Rightarrow> bool" where
  "matchSelection sel n nodes edges = list_all (\<lambda>(name, criteria). list_all (\<lambda>(field, expected).
     toLower field \<in> set targetFields \<or> sigmaWildcard expected (fieldValue n field nodes edges)) criteria) sel"

definition matchTargetSelection :: "selections \<Rightarrow> node \<Rightarrow> bool" where
  "matchTargetSelection sel n = list_all (\<lambda>(name, criteria). list_all (\<lambda>(field, expected).
     toLower field \<notin> set targetFields \<or> sigmaWildcard expected (nLabel n)) criteria) sel"

definition matchProcess :: "sigma_rule \<Rightarrow> node list \<Rightarrow> edge list \<Rightarrow> string list list" where
  "matchProcess rule nodes edges = (case dtSelections (srDetection rule) of None \<Rightarrow> []
     | Some sel \<Rightarrow> map (\<lambda>n. [nID n])
         (filter (\<lambda>n. nSubtype n = ''process'' \<and> matchSelection sel n nodes edges) nodes))"

text \<open>The loops over edges of \<^verbatim>\<open>matchFileAccess\<close> and \<^verbatim>\<open>matchNetwork\<close>: one edge, the wanted subtype of its target.\<close>

definition matchEdge ::
    "selections \<Rightarrow> string \<Rightarrow> node list \<Rightarrow> edge list \<Rightarrow> edge \<Rightarrow> string list option" where
  "matchEdge sel subtype nodes edges e = do {
     srcNode \<leftarrow> findNode nodes (eSource e);
     tgtNode \<leftarrow> findNode nodes (eTarget e);
     if nSubtype srcNode \<noteq> ''process'' \<or> nSubtype tgtNode \<noteq> subtype then None
     else if \<not> matchSelection sel srcNode nodes edges then None
     else if \<not> matchTargetSelection sel tgtNode then None
     else Some [nID srcNode, nID tgtNode, eID e]
   }"

definition matchFileAccess :: "sigma_rule \<Rightarrow> node list \<Rightarrow> edge list \<Rightarrow> string list list" where
  "matchFileAccess rule nodes edges = (case dtSelections (srDetection rule) of None \<Rightarrow> []
     | Some sel \<Rightarrow> List.map_filter (\<lambda>e.
         if eRelation e \<noteq> ProvUsed \<and> eRelation e \<noteq> ProvWasGeneratedBy then None
         else matchEdge sel ''file'' nodes edges e) edges)"

definition matchNetwork :: "sigma_rule \<Rightarrow> node list \<Rightarrow> edge list \<Rightarrow> string list list" where
  "matchNetwork rule nodes edges = (case dtSelections (srDetection rule) of None \<Rightarrow> []
     | Some sel \<Rightarrow> List.map_filter (\<lambda>e.
         if eRelation e \<noteq> ProvUsed then None else matchEdge sel ''network'' nodes edges e) edges)"

definition matchGeneric :: "sigma_rule \<Rightarrow> node list \<Rightarrow> edge list \<Rightarrow> string list list" where
  "matchGeneric rule nodes edges = (case dtSelections (srDetection rule) of None \<Rightarrow> []
     | Some sel \<Rightarrow> map (\<lambda>n. [nID n]) (filter (\<lambda>n. matchSelection sel n nodes edges) nodes))"

definition EvaluateRule :: "sigma_rule \<Rightarrow> node list \<Rightarrow> edge list \<Rightarrow> string list list" where
  "EvaluateRule rule nodes edges =
     (let c = lsCategory (srLogSource rule) in
      if c = ''process'' then matchProcess rule nodes edges
      else if c = ''file_access'' then matchFileAccess rule nodes edges
      else if c = ''network'' then matchNetwork rule nodes edges
      else matchGeneric rule nodes edges)"

definition sigmaEvaluate :: "sigma_rule \<Rightarrow> graph \<Rightarrow> string list list" where
  "sigmaEvaluate rule snap =
     (let nodes = graphNodes snap; edges = graphEdges snap; c = lsCategory (srLogSource rule) in
      if c = ''process'' then matchProcess rule nodes edges
      else if c = ''file_access'' then matchFileAccess rule nodes edges
      else if c = ''network'' then matchNetwork rule nodes edges
      else matchGeneric rule nodes edges)"

definition mapLevel :: "string \<Rightarrow> string" where
  "mapLevel level =
     (let l = toLower level in
      if l = ''low'' then ''LOW'' else if l = ''medium'' then ''MEDIUM''
      else if l = ''high'' then ''HIGH'' else if l = ''critical'' then ''CRITICAL'' else ''MEDIUM'')"

definition scoreFromLevel :: "string \<Rightarrow> int" where
  "scoreFromLevel level =
     (let l = toLower level in
      if l = ''low'' then 2 else if l = ''medium'' then 5
      else if l = ''high'' then 8 else if l = ''critical'' then 10 else 3)"

definition Analyse :: "graph \<Rightarrow> sigma_plugin \<Rightarrow> plugin_finding list" where
  "Analyse snap p = concat (map (\<lambda>rule. map (\<lambda>match.
     \<lparr>pfPluginName = spName p, pfTitle = ''Sigma: '' @ srTitle rule, pfSeverity = mapLevel (srLevel rule),
      pfScore = scoreFromLevel (srLevel rule), pfNodeIDs = match\<rparr>) (sigmaEvaluate rule snap)) (spRules p))"

section \<open>Loading\<close>

text \<open>\<open>unmarshal\<close> is \<^verbatim>\<open>yaml.Unmarshal\<close>, \<open>docs\<close> what the successive calls of the YAML decoder return.\<close>

definition ParseRule :: "(string \<Rightarrow> string + sigma_rule) \<Rightarrow> string \<Rightarrow> string + sigma_rule" where
  "ParseRule unmarshal data = (case unmarshal data of
      Inl err \<Rightarrow> Inl (''sigma parse: '' @ err)
    | Inr rule \<Rightarrow> if srTitle rule = [] then Inl ''sigma rule missing title'' else Inr rule)"

fun loadLoop :: "(string + sigma_rule) list \<Rightarrow> sigma_rule list" where
  "loadLoop (Inr rule # ds) = (if srTitle rule \<noteq> [] then rule # loadLoop ds else loadLoop ds)"
| "loadLoop ds = []"

definition LoadRules :: "(string \<Rightarrow> (string + sigma_rule) list) \<Rightarrow> string \<Rightarrow> string + sigma_rule list" where
  "LoadRules docs data = (let rules = loadLoop (docs data) in
     if rules = [] then Inl ''no valid Sigma rules found'' else Inr rules)"

section \<open>Wildcards are globs\<close>

text \<open>
  The specification: a star stands for any sequence of characters without a line break, every other
  character for itself.
\<close>

definition globPiece :: "nat \<Rightarrow> nat list \<Rightarrow> bool" where
  "globPiece p w = (if p = 42 then 10 \<notin> set w else w = [p])"

definition globMatches :: "nat list \<Rightarrow> nat list \<Rightarrow> bool" where
  "globMatches ps vs \<longleftrightarrow> (\<exists>ws. vs = concat ws \<and> list_all2 globPiece ps ws)"

lemma globMatches_Nil [simp]: "globMatches [] vs \<longleftrightarrow> vs = []"
  by (auto simp: globMatches_def)

lemma globMatches_Cons:
  "globMatches (p # ps) vs \<longleftrightarrow> (\<exists>w us. vs = w @ us \<and> globPiece p w \<and> globMatches ps us)"
  unfolding globMatches_def list_all2_Cons1 by auto (metis concat.simps(2))+

definition reItem :: "nat \<Rightarrow> re_item" where
  "reItem r = (if r = 42 then ReAnyStar else ReLit r)"

lemma matchItems_star:
  "matchItems (ReAnyStar # is) vs \<longleftrightarrow> (\<exists>w us. vs = w @ us \<and> 10 \<notin> set w \<and> matchItems is us)"
proof (induction vs)
  case (Cons v vs)
  have "(\<exists>w us. v # vs = w @ us \<and> 10 \<notin> set w \<and> matchItems is us) \<longleftrightarrow>
      matchItems is (v # vs) \<or> (\<exists>w us. v # vs = (v # w) @ us \<and> 10 \<notin> set (v # w) \<and> matchItems is us)"
    by (metis append_Nil Cons_eq_append_conv empty_iff empty_set)
  then show ?case unfolding matchItems.simps Cons by auto
qed simp

lemma matchItems_glob: "matchItems (map reItem ps) vs \<longleftrightarrow> globMatches ps vs"
proof (induction ps arbitrary: vs)
  case (Cons p ps)
  show ?case
  proof (cases "p = 42")
    case True
    then show ?thesis using Cons by (simp add: reItem_def matchItems_star globMatches_Cons globPiece_def)
  next
    case False
    then show ?thesis using Cons by (cases vs) (auto simp: reItem_def globMatches_Cons globPiece_def)
  qed
qed simp

section \<open>Quoting and decoding\<close>

text \<open>The regular expression text of a pattern, character by character.\<close>

definition reText :: "char \<Rightarrow> string" where
  "reText c = (if c = CHR ''*'' then ''.*'' else if isMeta c then [CHR 0x5C, c] else [c])"

lemma quoteMeta_hd: "quoteMeta s = c # r \<Longrightarrow> c \<noteq> CHR ''*''"
  by (cases s) (auto simp: isMeta_def split: if_splits)

lemma replaceStar_Cons:
  "a \<noteq> CHR 0x5C \<or> (\<forall>r. s \<noteq> CHR ''*'' # r) \<Longrightarrow> replaceStar (a # s) = a # replaceStar s"
  by (cases s) auto

lemma replaceStar_quoteMeta: "replaceStar (quoteMeta s) = concat (map reText s)"
proof (induction s)
  case (Cons c s)
  have Q: "replaceStar (a # quoteMeta s) = a # replaceStar (quoteMeta s)" for a
    using quoteMeta_hd by (intro replaceStar_Cons) blast
  show ?case
  proof (cases "isMeta c")
    case True
    then show ?thesis using Cons Q [of c] by (auto simp: reText_def)
  next
    case False
    then have "c \<noteq> CHR ''*''" by (auto simp: isMeta_def)
    with False show ?thesis using Cons Q [of c] by (simp add: reText_def)
  qed
qed simp

text \<open>Decoding looks at the bytes of one character only.\<close>

lemma decodeRune_ascii: "b < 128 \<Longrightarrow> decodeRune (b # bs) = (b, 1)"
  by (simp add: decodeRune_def)

definition stops :: "nat list \<Rightarrow> bool" where
  "stops t = (case t of [] \<Rightarrow> True | b # _ \<Rightarrow> \<not> contByte b)"

lemma decodeRune_local:
  "128 \<le> b0 \<Longrightarrow> stops t \<Longrightarrow> decodeRune (b0 # t) = (runeError, 1)"
  "stops t \<Longrightarrow> decodeRune (b0 # b1 # t) = decodeRune [b0, b1]"
  "stops t \<Longrightarrow> decodeRune (b0 # b1 # b2 # t) = decodeRune [b0, b1, b2]"
  "decodeRune (b0 # b1 # b2 # b3 # t) = decodeRune [b0, b1, b2, b3]"
  by (auto simp: decodeRune_def stops_def split: list.splits)

lemma decodeRune_high:
  assumes "128 \<le> b0" and "decodeRune (b0 # t) = (r, w)"
  shows "w \<le> length (b0 # t) \<and> (\<forall>b \<in> set (take w (b0 # t)). 128 \<le> b) \<and> 128 \<le> r"
  using assms by (auto simp: decodeRune_def contByte_def runeError_def split: list.splits if_splits)

abbreviation (input) codes :: "string \<Rightarrow> nat list" where
  "codes s \<equiv> map of_char s"

abbreviation (input) reTexts :: "string \<Rightarrow> string" where
  "reTexts s \<equiv> concat (map reText s)"

lemma isMeta_ascii: "isMeta c \<Longrightarrow> (of_char c :: nat) < 128"
  by (auto simp: isMeta_def)

lemma reText_high: "128 \<le> (of_char c :: nat) \<Longrightarrow> reText c = [c]"
  using isMeta_ascii [of c] by (auto simp: reText_def)

lemma reTexts_high: "\<forall>c \<in> set h. 128 \<le> (of_char c :: nat) \<Longrightarrow> reTexts (h @ t) = h @ reTexts t"
  by (induction h) (auto simp: reText_high)

lemma reText_low: "(of_char c :: nat) < 128 \<Longrightarrow> \<exists>a r. reText c = a # r \<and> (of_char a :: nat) < 128"
  by (auto simp: reText_def)

lemma reTexts_stops: "stops (codes s) \<Longrightarrow> stops (codes (reTexts s))"
proof (cases s)
  case (Cons c t)
  assume "stops (codes s)"
  then show ?thesis using reText_low [of c] reText_high [of c] Cons
    by (cases "(of_char c :: nat) < 128") (auto simp: stops_def contByte_def)
qed (simp add: stops_def)

lemma not_stops:
  assumes "\<not> stops (codes s)"
  obtains c t where "s = c # t" and "reTexts s = c # reTexts t"
  using assms reText_high by (cases s) (auto simp: stops_def contByte_def)

lemma decodeRune_reTexts:
  assumes "128 \<le> (of_char c :: nat)"
  shows "decodeRune (codes (c # reTexts s)) = decodeRune (codes (c # s))"
proof (cases "stops (codes s)")
  case True
  then show ?thesis using assms reTexts_stops [OF True] by (simp add: decodeRune_local(1))
next
  case False
  then obtain c1 s1 where s1: "s = c1 # s1" "reTexts s = c1 # reTexts s1" by (rule not_stops)
  show ?thesis
  proof (cases "stops (codes s1)")
    case True
    then show ?thesis using reTexts_stops [OF True] s1 by (simp add: decodeRune_local(2))
  next
    case False
    then obtain c2 s2 where s2: "s1 = c2 # s2" "reTexts s1 = c2 # reTexts s2" by (rule not_stops)
    show ?thesis
    proof (cases "stops (codes s2)")
      case True
      then show ?thesis using reTexts_stops [OF True] s1 s2 by (simp add: decodeRune_local(3))
    next
      case False
      then obtain c3 s3 where "s2 = c3 # s3" "reTexts s2 = c3 # reTexts s3" by (rule not_stops)
      moreover have "decodeRune (codes (c # c1 # c2 # c3 # u)) = decodeRune (codes (c # c1 # c2 # c3 # v))" for u v
        unfolding list.map using decodeRune_local(4) [THEN trans [OF _ sym], OF decodeRune_local(4)] .
      ultimately show ?thesis using s1 s2 by (simp only:)
    qed
  qed
qed

lemma runes_Nil [simp]: "runes [] = []"
  by (simp add: runes.simps)

lemma runes_ascii: "(of_char c :: nat) < 128 \<Longrightarrow> runes (c # s) = (of_char c, [c]) # runes s"
  by (subst runes.simps) (simp add: decodeRune_ascii)

text \<open>The characters of the regular expression text, in terms of those of the pattern.\<close>

definition reRune :: "nat \<times> string \<Rightarrow> (nat \<times> string) list" where
  "reRune rw = (if fst rw = 42 then [(46, ''.''), (42, ''*'')]
     else if fst rw < 128 \<and> isMeta (char_of (fst rw)) then [(92, [CHR 0x5C]), rw] else [rw])"

lemma runes_reTexts: "runes (reTexts s) = concat (map reRune (runes s))"
proof (induction s rule: length_induct)
  case (1 s)
  show ?case
  proof (cases s)
    case (Cons c t)
    show ?thesis
    proof (cases "(of_char c :: nat) < 128")
      case True
      have "runes (reTexts t) = concat (map reRune (runes t))" using 1 Cons by simp
      moreover have "(of_char c :: nat) = 42 \<longleftrightarrow> c = CHR ''*''"
        using of_char_eq_iff [of c "CHR ''*''", where ?'a = nat] by simp
      ultimately show ?thesis
        using True Cons by (simp add: runes_ascii reText_def [of c] reRune_def [of "(of_char c, [c])"])
    next
      case False
      obtain r w where d: "decodeRune (codes (c # t)) = (r, w)" by fastforce
      have h: "w \<le> length (c # t)" "\<forall>b \<in> set (take w (codes (c # t))). 128 \<le> b" "128 \<le> r"
        using decodeRune_high [of "of_char c" "codes t" r w] d False by auto
      have w: "1 \<le> w" using decodeRune_width [of "codes (c # t)"] d by simp
      define h where "h = take w (c # t)"
      have "c # t = h @ drop w (c # t)" by (simp add: h_def)
      moreover have "\<forall>b \<in> set h. 128 \<le> (of_char b :: nat)" using h(2) unfolding h_def take_map by simp
      ultimately have R: "reTexts (c # t) = h @ reTexts (drop w (c # t))" using reTexts_high by metis
      have lh: "length h = w" using h(1) by (simp add: h_def)
      have "decodeRune (codes (reTexts (c # t))) = (r, w)"
        using decodeRune_reTexts [of c t] d False by (simp add: reText_high)
      moreover have "reTexts (c # t) \<noteq> []" using R lh w by auto
      ultimately have "runes (reTexts (c # t)) = (r, h) # runes (reTexts (drop w (c # t)))"
        using R lh by (subst runes.simps) (simp del: concat.simps list.map)
      moreover have "runes (c # t) = (r, h) # runes (drop w (c # t))"
        using d by (subst runes.simps) (simp add: h_def)
      moreover have "runes (reTexts (drop w (c # t))) = concat (map reRune (runes (drop w (c # t))))"
        using 1 Cons w by auto
      ultimately show ?thesis using h(3) Cons by (simp add: reRune_def [of "(r, h)"])
    qed
  qed simp
qed

lemma meta_codes: "isMeta (char_of (92 :: nat))" "isMeta (char_of (46 :: nat))"
  by (simp_all add: char_of_def isMeta_def bit_0)

lemma parseItems_literal: "r \<noteq> 92 \<Longrightarrow> r \<noteq> 46 \<Longrightarrow> parseItems (r # rs) = ReLit r # parseItems rs"
  by (cases rs) auto

lemma parseItems_reRune:
  "parseItems (map fst (reRune rw) @ rs) = reItem (fst rw) # parseItems rs"
proof (cases "fst rw < 128 \<and> isMeta (char_of (fst rw))")
  case True
  then show ?thesis by (simp add: reRune_def reItem_def)
next
  case False
  have "fst rw \<noteq> 92" "fst rw \<noteq> 46" using False meta_codes by auto
  with False show ?thesis by (auto simp: reRune_def reItem_def parseItems_literal)
qed

lemma parseItems_runes: "parseItems (map fst (concat (map reRune rws))) = map reItem (map fst rws)"
  by (induction rws) (simp_all add: parseItems_reRune)

definition validRune :: "nat \<times> string \<Rightarrow> bool" where
  "validRune rw = (\<not> (fst rw = runeError \<and> length (snd rw) = 1))"

lemma validUTF8_runes: "validUTF8 s = list_all validRune (runes s)"
  by (auto simp: validUTF8_def validRune_def list_all_iff)

lemma validRune_reRune [simp]: "list_all validRune (reRune rw) = validRune rw"
  by (auto simp: reRune_def validRune_def runeError_def)

lemma validUTF8_reTexts: "validUTF8 (reTexts s) = validUTF8 s"
proof -
  have "list_all validRune (concat (map reRune rws)) = list_all validRune rws" for rws
    by (induction rws) simp_all
  then show ?thesis by (simp add: validUTF8_runes runes_reTexts)
qed

text \<open>The specification of a wildcard match.\<close>

definition sigmaGlob :: "string \<Rightarrow> string \<Rightarrow> bool" where
  "sigmaGlob pattern value \<longleftrightarrow>
     pattern = [] \<or> (validUTF8 pattern \<and> globMatches (runeValues pattern) (runeValues value))"

lemma sigmaWildcard_glob: "sigmaWildcard pattern value = sigmaGlob pattern value"
  by (simp add: sigmaWildcard_def sigmaGlob_def replaceStar_quoteMeta validUTF8_reTexts Let_def
      runeValues_def runes_reTexts parseItems_runes matchItems_glob flip: map_map)

section \<open>Rules on the graph\<close>

text \<open>
  What a rule that looks at an edge asks of its two nodes: each criterion matches the label of the target
  if it names one of the target fields, and the value of the field of the source otherwise.
\<close>

definition ruleHolds :: "selections \<Rightarrow> graph \<Rightarrow> node \<Rightarrow> node \<Rightarrow> bool" where
  "ruleHolds sel g s t \<longleftrightarrow> (\<forall>(name, criteria) \<in> set sel. \<forall>(field, expected) \<in> set criteria.
     sigmaGlob expected (if toLower field \<in> set targetFields then nLabel t
       else fieldValue s field (graphNodes g) (graphEdges g)))"

lemma selections_hold:
  "matchSelection sel s (graphNodes g) (graphEdges g) \<and> matchTargetSelection sel t \<longleftrightarrow> ruleHolds sel g s t"
  unfolding matchSelection_def matchTargetSelection_def ruleHolds_def sigmaWildcard_glob list_all_iff
  by (fastforce split: if_splits)

lemma findNode_LookupNode:
  assumes "wf_graph g" shows "findNode (graphNodes g) i = LookupNode i g"
proof -
  have "find (\<lambda>n. nID n = i) (map snd m) = map_of m i" if "list_all node_ok m" for m
    using that by (induction m) (auto simp: node_ok_def)
  with assms show ?thesis by (simp add: findNode_def graphNodes_def LookupNode_def wf_graph_def)
qed

lemma LookupNode_nID: "wf_graph g \<Longrightarrow> LookupNode i g = Some n \<Longrightarrow> nID n = i"
  by (auto simp: LookupNode_def wf_graph_def list_all_iff node_ok_def dest!: map_of_SomeD)

lemma in_map_filter: "y \<in> set (List.map_filter f xs) \<longleftrightarrow> (\<exists>x \<in> set xs. f x = Some y)"
  by (force simp: List.map_filter_def)

lemma matchEdge_Some:
  assumes "wf_graph g"
  shows "matchEdge sel subtype (graphNodes g) (graphEdges g) e = Some m \<longleftrightarrow>
    (\<exists>s t. LookupNode (eSource e) g = Some s \<and> LookupNode (eTarget e) g = Some t
       \<and> nSubtype s = ''process'' \<and> nSubtype t = subtype \<and> ruleHolds sel g s t
       \<and> m = [eSource e, eTarget e, eID e])"
  using LookupNode_nID [OF assms]
  by (auto simp: matchEdge_def findNode_LookupNode [OF assms] bind_eq_Some_conv selections_hold [symmetric])

text \<open>What the typing of the graph says about the edges a rule looks at.\<close>

lemma relTyped_subtypes:
  "relTyped ProvUsed a b \<Longrightarrow> snd a = ''process'' \<and> snd b \<noteq> ''network''"
  "relTyped ProvWasGeneratedBy a b \<Longrightarrow> snd a \<noteq> ''process''"
  by (auto simp: relTyped_def)

lemma run_wf_typed:
  assumes "runOps (graphStep rf) ops (NewGraph now) = Some g" shows "wf_graph g" and "typed_graph g"
  using tsys.run_inv [OF conjI [OF graph_inv_NewGraph typed_NewGraph] assms] by (simp_all add: graph_inv_def)

lemma edge_subtypes:
  assumes "wf_graph g" and "typed_graph g" and "e \<in> set (graphEdges g)"
    and "LookupNode (eSource e) g = Some s" and "LookupNode (eTarget e) g = Some t"
  shows "eRelation e = ProvUsed \<Longrightarrow> nSubtype s = ''process'' \<and> nSubtype t \<noteq> ''network''"
    and "eRelation e = ProvWasGeneratedBy \<Longrightarrow> nSubtype s \<noteq> ''process''"
  using edge_types [OF assms(1-3)] assms(4,5) relTyped_subtypes by fastforce+


text \<open>An open of the shadow file and the built-in rule for it.\<close>

definition shadowRule :: sigma_rule where
  "shadowRule = \<lparr>srTitle = ''Suspicious Shadow File Access'', srID = ''rule-shadow-001'', srDescription = [],
     srAuthor = [], srDate = [], srLevel = ''high'', srTags = [],
     srLogSource = \<lparr>lsCategory = ''file_access'', lsProduct = [], lsService = []\<rparr>,
     srDetection = \<lparr>dtSelections = Some [(''selection'', [(''target'', ''/etc/shadow'')])], dtCondition = ''selection''\<rparr>,
     srFalsePositives = []\<rparr>"

definition shadowOpen :: event where
  "shadowOpen = zeroEvent\<lparr>evType := EventFileOpen, evPID := 7, evInode := 9, evPathname := ''/etc/shadow''\<rparr>"

definition shadowGraph :: graph where
  "shadowGraph = the (AddEvent (\<lambda>_. None) shadowOpen (NewGraph 0))"

lemma globMatches_literal: "42 \<notin> set ps \<Longrightarrow> globMatches ps ps"
  by (induction ps) (auto simp: globMatches_Cons globPiece_def)

lemma shadow_glob: "sigmaGlob ''/etc/shadow'' ''/etc/shadow''"
  by (auto simp: sigmaGlob_def validUTF8_def runeValues_def runes_ascii runeError_def intro!: globMatches_literal)

lemma shadowGraph_edge:
  "map (\<lambda>e. (eSource e, eTarget e, eID e, eRelation e)) (graphEdges shadowGraph) =
     [(''p:7'', ''f:9:0:0#v1'', ''prov:used:p:7-_f:9:0:0_v1'', ''prov:used'')]"
  by code_simp

lemma shadowGraph_nodes:
  "map_option nSubtype (LookupNode ''p:7'' shadowGraph) = Some ''process''"
  "map_option (\<lambda>n. (nSubtype n, nLabel n)) (LookupNode ''f:9:0:0#v1'' shadowGraph) = Some (''file'', ''/etc/shadow'')"
  by code_simp+


text \<open>
  Rules for network connections are never reported: the graph has no node of subtype \<^verbatim>\<open>network\<close>, so the
  built-in rule \<^verbatim>\<open>rule-net-001\<close> is dead.
\<close>

lemma network_rules_never_match:
  assumes "runOps (graphStep rf) ops (NewGraph now) = Some g" and "lsCategory (srLogSource rule) = ''network''"
  shows "sigmaEvaluate rule g = []"
proof -
  note g = run_wf_typed [OF assms(1)]
  have "m \<notin> set (matchNetwork rule (graphNodes g) (graphEdges g))" for m
    using edge_subtypes [OF g]
    by (cases "dtSelections (srDetection rule)") (auto simp: matchNetwork_def in_map_filter matchEdge_Some [OF g(1)] split: if_splits)
  then have "matchNetwork rule (graphNodes g) (graphEdges g) = []" by (metis list.set_intros(1) neq_Nil_conv)
  then show ?thesis using assms(2) by (simp add: sigmaEvaluate_def Let_def)
qed

text \<open>The condition of a rule is not evaluated: all selections are joined by a conjunction, whatever it says.\<close>

lemma condition_ignored:
  "sigmaEvaluate (rule\<lparr>srDetection := (srDetection rule)\<lparr>dtCondition := c\<rparr>\<rparr>) g = sigmaEvaluate rule g"
  by (simp add: sigmaEvaluate_def matchProcess_def matchFileAccess_def matchNetwork_def matchGeneric_def Let_def)

text \<open>A rule without criteria matches every process of the graph; a rule without a selection map none.\<close>

lemma empty_selection_matches_all:
  "dtSelections (srDetection rule) = Some [] \<Longrightarrow>
     matchProcess rule nodes edges = map (\<lambda>n. [nID n]) (filter (\<lambda>n. nSubtype n = ''process'') nodes)"
  "dtSelections (srDetection rule) = None \<Longrightarrow> matchProcess rule nodes edges = []"
  by (simp_all add: matchProcess_def matchSelection_def)

text \<open>Loading stops at the first document that does not decode; the rules before it are kept.\<close>

lemma loadLoop_prefix:
  "loadLoop (map Inr rs @ ds) = filter (\<lambda>r. srTitle r \<noteq> []) rs @ loadLoop ds"
  "loadLoop (Inl err # ds) = []"
  by (induction rs) simp_all

end
