(* ===== verification/GoPath.thy ===== *)
theory GoPath
  imports Prelude
begin

text \<open>
  \<^verbatim>\<open>filepath.Match\<close> of the Go library on Unix: shell patterns with \<^verbatim>\<open>*\<close>, \<^verbatim>\<open>?\<close>, character classes and
  quoting, matched chunk by chunk. A malformed pattern is an error.
\<close>

definition ErrBadPattern :: string where
  "ErrBadPattern = ''syntax error in pattern''"

definition decodeStr :: "string \<Rightarrow> nat \<times> nat" where
  "decodeStr s = decodeRune (map of_char s)"

text \<open>The longest piece without a free star; \<open>inrange\<close> says that a class is open.\<close>

fun scanTo :: "bool \<Rightarrow> string \<Rightarrow> string \<times> string" where
  "scanTo inrange [] = ([], [])"
| "scanTo inrange [c] = (if c = CHR ''*'' \<and> \<not> inrange then ([], [c]) else ([c], []))"
| "scanTo inrange (c # d # s) =
     (if c = CHR 0x5C then (case scanTo inrange s of (a, b) \<Rightarrow> (c # d # a, b))
      else if c = CHR ''*'' \<and> \<not> inrange then ([], c # d # s)
      else case scanTo (c = CHR ''['' \<or> (inrange \<and> c \<noteq> CHR '']'')) (d # s) of (a, b) \<Rightarrow> (c # a, b))"

definition scanChunk :: "string \<Rightarrow> bool \<times> string \<times> string" where
  "scanChunk pattern =
     (let rest = dropWhile (\<lambda>c. c = CHR ''*'') pattern in (rest \<noteq> pattern, scanTo False rest))"

definition getEsc :: "string \<Rightarrow> string + (nat \<times> string)" where
  "getEsc chunk =
     (if chunk = [] \<or> hd chunk = CHR ''-'' \<or> hd chunk = CHR '']'' then Inl ErrBadPattern
      else let chunk = (if hd chunk = CHR 0x5C then tl chunk else chunk) in
        if chunk = [] then Inl ErrBadPattern
        else let (r, n) = decodeStr chunk in
          if (r = runeError \<and> n = 1) \<or> drop n chunk = [] then Inl ErrBadPattern
          else Inr (r, drop n chunk))"

lemma getEsc_shorter: "getEsc chunk = Inr (r, c') \<Longrightarrow> length c' < length chunk \<and> c' \<noteq> []"
proof -
  assume a: "getEsc chunk = Inr (r, c')"
  let ?c = "if hd chunk = CHR 0x5C then tl chunk else chunk"
  have "1 \<le> snd (decodeStr ?c)" if "?c \<noteq> []"
    unfolding decodeStr_def by (rule decodeRune_width) (simp only: map_is_Nil_conv that not_False_eq_True)
  moreover have "length ?c \<le> length chunk" by simp
  ultimately show ?thesis using a
    by (auto simp: getEsc_def Let_def case_prod_beta split: if_splits)
qed

function classLoop :: "nat \<Rightarrow> bool \<Rightarrow> bool \<Rightarrow> string \<Rightarrow> string + (bool \<times> string)" where
  "classLoop r matched started chunk =
     (if chunk \<noteq> [] \<and> hd chunk = CHR '']'' \<and> started then Inr (matched, tl chunk)
      else case getEsc chunk of
          Inl err \<Rightarrow> Inl err
        | Inr (lo, chunk1) \<Rightarrow>
            if hd chunk1 = CHR ''-'' then
              (case getEsc (tl chunk1) of
                 Inl err \<Rightarrow> Inl err
               | Inr (hi, chunk2) \<Rightarrow> classLoop r (matched \<or> (lo \<le> r \<and> r \<le> hi)) True chunk2)
            else classLoop r (matched \<or> lo = r) True chunk1)"
  by pat_completeness auto
termination
  by (relation "measure (\<lambda>(r, m, b, c). length c)") (auto dest!: getEsc_shorter)

declare classLoop.simps [simp del]

lemma classLoop_shorter:
  "classLoop r m b chunk = Inr (m', c') \<Longrightarrow> length c' < length chunk"
proof (induction "length chunk" arbitrary: r m b chunk rule: less_induct)
  case less
  note eq = less(2) [unfolded classLoop.simps [of r m b chunk]]
  show ?case
  proof (cases "chunk \<noteq> [] \<and> hd chunk = CHR '']'' \<and> b")
    case True
    with eq show ?thesis by (auto simp: neq_Nil_conv)
  next
    case False
    with eq obtain lo c1 where c1: "getEsc chunk = Inr (lo, c1)" by (auto split: sum.splits)
    note s1 = getEsc_shorter [OF c1]
    show ?thesis
    proof (cases "hd c1 = CHR ''-''")
      case True
      with eq False c1 obtain hi c2 where c2: "getEsc (tl c1) = Inr (hi, c2)"
        and "classLoop r (m \<or> (lo \<le> r \<and> r \<le> hi)) True c2 = Inr (m', c')" by (auto split: sum.splits)
      moreover have "length c2 < length chunk" using getEsc_shorter [OF c2] s1 by auto
      ultimately show ?thesis using less(1) by fastforce
    next
      case False
      with eq \<open>\<not> (chunk \<noteq> [] \<and> _)\<close> c1 have "classLoop r (m \<or> lo = r) True c1 = Inr (m', c')" by auto
      then show ?thesis using less(1) s1 by fastforce
    qed
  qed
qed

text \<open>After a failure the loop goes on over the pattern, to find errors, but reads the text no more.\<close>

function chunkLoop :: "bool \<Rightarrow> string \<Rightarrow> string \<Rightarrow> string + (string \<times> bool)" where
  "chunkLoop failed [] s = Inr (if failed then ([], False) else (s, True))"
| "chunkLoop failed (c # chunk) s =
     (let failed = (failed \<or> s = []) in
      if c = CHR ''['' then
        (let (r, n) = (if failed then (0, 0) else decodeStr s);
             negated = (chunk \<noteq> [] \<and> hd chunk = CHR ''^'')
         in case classLoop r False False (if negated then tl chunk else chunk) of
              Inl err \<Rightarrow> Inl err
            | Inr (matched, chunk) \<Rightarrow> chunkLoop (failed \<or> matched = negated) chunk (drop n s))
      else if c = CHR ''?'' then
        (if failed then chunkLoop True chunk s
         else chunkLoop (hd s = CHR ''/'') chunk (drop (snd (decodeStr s)) s))
      else if c = CHR 0x5C then
        (case chunk of [] \<Rightarrow> Inl ErrBadPattern
         | d # chunk \<Rightarrow> if failed then chunkLoop True chunk s else chunkLoop (d \<noteq> hd s) chunk (tl s))
      else if failed then chunkLoop True chunk s
      else chunkLoop (c \<noteq> hd s) chunk (tl s))"
  by pat_completeness auto
termination
  by (relation "measure (\<lambda>(f, c, s). length c)")
    (auto dest!: classLoop_shorter split: if_splits simp: less_Suc_eq_le intro: le_trans less_imp_le)

definition matchChunk :: "string \<Rightarrow> string \<Rightarrow> string + (string \<times> bool)" where
  "matchChunk chunk s = chunkLoop False chunk s"

fun skipLoop :: "string \<Rightarrow> bool \<Rightarrow> string \<Rightarrow> string + string option" where
  "skipLoop chunk isLast [] = Inr None"
| "skipLoop chunk isLast (c # s) =
     (if c = CHR ''/'' then Inr None
      else case matchChunk chunk s of
          Inl err \<Rightarrow> Inl err
        | Inr (t, ok) \<Rightarrow> if ok \<and> \<not> (isLast \<and> t \<noteq> []) then Inr (Some t) else skipLoop chunk isLast s)"

lemma scanTo_append: "scanTo b s = (c, r) \<Longrightarrow> s = c @ r"
  by (induction b s arbitrary: c r rule: scanTo.induct) (auto split: if_splits prod.splits)

lemma scanTo_consumes: "s \<noteq> [] \<Longrightarrow> hd s \<noteq> CHR ''*'' \<Longrightarrow> fst (scanTo b s) \<noteq> []"
  by (cases "(b, s)" rule: scanTo.cases) (auto split: prod.splits)

lemma scanChunk_shorter:
  assumes "scanChunk pattern = (star, chunk, rest)" and "pattern \<noteq> []"
  shows "length rest < length pattern"
proof -
  let ?p = "dropWhile (\<lambda>c. c = CHR ''*'') pattern"
  have star: "star = (?p \<noteq> pattern)" and sc: "scanTo False ?p = (chunk, rest)"
    using assms(1) by (simp_all add: scanChunk_def Let_def)
  have len: "length ?p = length chunk + length rest" using scanTo_append [OF sc] by (metis length_append)
  show ?thesis
  proof (cases "?p = pattern")
    case True
    then have "hd pattern \<noteq> CHR ''*''" using hd_dropWhile [of "\<lambda>c. c = CHR ''*''" pattern] assms(2) by simp
    then have "chunk \<noteq> []" using scanTo_consumes [of ?p False] True sc assms(2) by simp
    then show ?thesis using len True by (cases chunk) auto
  next
    case False
    let ?t = "takeWhile (\<lambda>c. c = CHR ''*'') pattern"
    have eq: "?t @ ?p = pattern" by (rule takeWhile_dropWhile_id)
    then have "?t \<noteq> []" using False by force
    with arg_cong [OF eq, of length] have "length ?p < length pattern" by (cases ?t) auto
    then show ?thesis using len by simp
  qed
qed

function checkRest :: "string \<Rightarrow> string + bool" where
  "checkRest pattern =
     (if pattern = [] then Inr False
      else case scanChunk pattern of (star, chunk, rest) \<Rightarrow>
        (case matchChunk chunk [] of Inl err \<Rightarrow> Inl err | Inr x \<Rightarrow> checkRest rest))"
  by pat_completeness auto
termination
  by (relation "measure length") (auto dest: scanChunk_shorter [OF sym])

function pathMatch :: "string \<Rightarrow> string \<Rightarrow> string + bool" where
  "pathMatch pattern name =
     (if pattern = [] then Inr (name = [])
      else case scanChunk pattern of (star, chunk, rest) \<Rightarrow>
        if star \<and> chunk = [] then Inr (CHR ''/'' \<notin> set name)
        else case matchChunk chunk name of
            Inl err \<Rightarrow> Inl err
          | Inr (t, ok) \<Rightarrow>
              if ok \<and> (t = [] \<or> rest \<noteq> []) then pathMatch rest t
              else if star then
                (case skipLoop chunk (rest = []) name of
                    Inl err \<Rightarrow> Inl err
                  | Inr (Some t) \<Rightarrow> pathMatch rest t
                  | Inr None \<Rightarrow> checkRest rest)
              else checkRest rest)"
  by pat_completeness auto
termination
  by (relation "measure (\<lambda>(p, n). length p)") (auto dest: scanChunk_shorter [OF sym])

declare checkRest.simps [simp del] pathMatch.simps [simp del]

section \<open>Patterns without special characters\<close>

definition plain :: "string \<Rightarrow> bool" where
  "plain p = list_all (\<lambda>c. c \<notin> {CHR ''*'', CHR ''?'', CHR ''['', CHR 0x5C}) p"

lemma plain_simps [simp]: "plain []"
  "plain (c # p) \<longleftrightarrow> c \<notin> {CHR ''*'', CHR ''?'', CHR ''['', CHR 0x5C} \<and> plain p"
  "plain (p @ q) \<longleftrightarrow> plain p \<and> plain q"
  by (simp_all add: plain_def)

lemma scanTo_cons_plain: "plain [c] \<Longrightarrow> scanTo False (c # s) = (c # fst (scanTo False s), snd (scanTo False s))"
  by (cases s) (auto split: prod.splits)

lemma scanTo_plain:
  assumes "plain p" shows "scanTo False (p @ CHR ''*'' # q) = (p, CHR ''*'' # q)" and "scanTo False p = (p, [])"
proof -
  have "scanTo False (CHR ''*'' # q) = ([], CHR ''*'' # q)" by (cases q) auto
  with assms show "scanTo False (p @ CHR ''*'' # q) = (p, CHR ''*'' # q)"
    by (induction p) (auto simp: scanTo_cons_plain)
  from assms show "scanTo False p = (p, [])" by (induction p) (auto simp: scanTo_cons_plain)
qed

lemma dropWhile_plain: "plain p \<Longrightarrow> p \<noteq> [] \<Longrightarrow> dropWhile (\<lambda>c. c = CHR ''*'') (p @ q) = p @ q"
  by (cases p) auto

lemma chunkLoop_failed: "plain p \<Longrightarrow> chunkLoop True p s = Inr ([], False)"
  by (induction p) auto

lemma matchChunk_plain:
  "plain p \<Longrightarrow> matchChunk p s = Inr (if hasPrefix s p then (drop (length p) s, True) else ([], False))"
  unfolding matchChunk_def
proof (induction p arbitrary: s)
  case (Cons c p)
  then show ?case
    by (cases s; cases "hd s = c") (auto simp: chunkLoop_failed hasPrefix_def)
qed (simp add: hasPrefix_def)

lemma pathMatch_plain:
  assumes "plain p" shows "pathMatch p s = Inr (s = p)"
proof (cases "p = []")
  case False
  then have "scanChunk p = (False, p, [])"
    using dropWhile_plain [of p "[]"] scanTo_plain(2) assms by (simp add: scanChunk_def)
  with False show ?thesis
    by (auto simp: pathMatch.simps [of p] pathMatch.simps [of "[]"] checkRest.simps [of "[]"] matchChunk_plain
        assms hasPrefix_iff)
qed (simp add: pathMatch.simps)

lemma pathMatch_prefix:
  assumes "plain p" shows "pathMatch (p @ ''*'') s = Inr True \<Longrightarrow> hasPrefix s p"
proof (cases "p = []")
  case False
  then have "scanChunk (p @ ''*'') = (False, p, ''*'')"
    using dropWhile_plain [of p "''*''"] scanTo_plain(1) [of p "[]"] assms by (simp add: scanChunk_def)
  moreover have "checkRest ''*'' = Inr False"
    by (simp add: checkRest.simps scanChunk_def matchChunk_def)
  ultimately show "pathMatch (p @ ''*'') s = Inr True \<Longrightarrow> hasPrefix s p"
    using False assms by (subst (asm) pathMatch.simps) (auto simp: matchChunk_plain split: if_splits)
qed (simp add: hasPrefix_def)

end
