(* ===== verification/GraphTaint.thy ===== *)
theory GraphTaint
  imports Sigma GoPath
begin

text \<open>
  Taint propagation over a snapshot of the graph (\<^verbatim>\<open>internal/engine/analyzer/taint.go\<close>): the seed lists, the
  indices of the engine, seeding, the worklist loop and the path to a tainted node. The package variables behind
  \<^verbatim>\<open>taintMu\<close> are a record; the getters, which copy them, are its fields. Both loops are partial
  functions, and it is a theorem that they return. The texts that \<^verbatim>\<open>Reasons\<close> collects are read by no operation and left out.
\<close>

section \<open>Seeds\<close>

abbreviation (input) TaintLow :: int where "TaintLow \<equiv> 1"
abbreviation (input) TaintMedium :: int where "TaintMedium \<equiv> 2"
abbreviation (input) TaintHigh :: int where "TaintHigh \<equiv> 3"
abbreviation (input) TaintCritical :: int where "TaintCritical \<equiv> 4"

definition taintLevelString :: "int \<Rightarrow> string" where
  "taintLevelString l =
     (if l = TaintLow then ''LOW'' else if l = TaintMedium then ''MEDIUM''
      else if l = TaintHigh then ''HIGH'' else if l = TaintCritical then ''CRITICAL'' else ''NONE'')"

record taint_seeds =
  tsUntrusted :: "(string \<times> bool) list"
  tsNetwork :: "(string \<times> bool) list"
  tsSensitive :: "string list"

definition defaultUntrustedComms :: "(string \<times> bool) list" where
  "defaultUntrustedComms = map (\<lambda>c. (c, True))
     [''nginx'', ''apache2'', ''httpd'', ''tomcat'', ''uwsgi'', ''gunicorn'', ''php-fpm'', ''php-cgi'', ''node'',
      ''sshd'', ''smtpd'', ''dovecot'', ''cupsd'', ''rpcbind'', ''dhclient'', ''systemd-resolve'']"

definition defaultNetworkTools :: "(string \<times> bool) list" where
  "defaultNetworkTools = map (\<lambda>c. (c, True))
     [''curl'', ''wget'', ''nc'', ''ncat'', ''socat'', ''tftp'', ''ftp'', ''scp'', ''sftp'', ''rsync'']"

definition defaultSensitivePaths :: "string list" where
  "defaultSensitivePaths = [''/etc/shadow'', ''/etc/passwd'', ''/etc/security'', ''/etc/sudoers'', ''/etc/sudoers.d'',
     ''/etc/ssh/'', ''/.ssh/'', ''/root/'', ''/var/log/auth.log'', ''/var/log/secure'', ''/var/log/syslog'',
     ''/etc/cron'', ''/var/spool/cron'']"

definition defaultSeeds :: taint_seeds where
  "defaultSeeds = \<lparr>tsUntrusted = defaultUntrustedComms, tsNetwork = defaultNetworkTools,
     tsSensitive = defaultSensitivePaths\<rparr>"

definition ReloadTaintSeeds ::
    "(string \<times> bool) list \<Rightarrow> (string \<times> bool) list \<Rightarrow> string list \<Rightarrow> taint_seeds \<Rightarrow> taint_seeds" where
  "ReloadTaintSeeds untrusted network sensitive ts =
     ts\<lparr>tsUntrusted := untrusted, tsNetwork := network, tsSensitive := sensitive\<rparr>"

definition AddUntrustedComm :: "string \<Rightarrow> taint_seeds \<Rightarrow> taint_seeds" where
  "AddUntrustedComm comm ts = ts\<lparr>tsUntrusted := AList.update comm True (tsUntrusted ts)\<rparr>"

definition RemoveUntrustedComm :: "string \<Rightarrow> taint_seeds \<Rightarrow> taint_seeds" where
  "RemoveUntrustedComm comm ts = ts\<lparr>tsUntrusted := AList.delete comm (tsUntrusted ts)\<rparr>"

section \<open>Engine\<close>

record taint_node =
  tnLevel :: int
  tnDepth :: int
  tnPrevID :: string
  tnPrevRel :: string

record prop_engine =
  peNodes :: "(string \<times> node) list"
  peForward :: "(string \<times> edge list) list"
  peReverse :: "(string \<times> edge list) list"
  peTainted :: "(string \<times> taint_node) list"

record graph_snapshot =
  gsNodes :: "node list"
  gsEdges :: "edge list"

definition SnapshotFromGraph :: "graph \<Rightarrow> graph_snapshot" where
  "SnapshotFromGraph g = \<lparr>gsNodes = graphNodes g, gsEdges = graphEdges g\<rparr>"

definition indexEdge :: "(edge \<Rightarrow> string) \<Rightarrow> edge \<Rightarrow> (string \<times> edge list) list \<Rightarrow> (string \<times> edge list) list" where
  "indexEdge key e m = AList.update (key e) (mget0 [] m (key e) @ [e]) m"

definition peIndexed :: "graph_snapshot \<Rightarrow> prop_engine" where
  "peIndexed snap = \<lparr>peNodes = fold (\<lambda>n. AList.update (nID n) n) (gsNodes snap) [],
     peForward = fold (indexEdge eSource) (gsEdges snap) [],
     peReverse = fold (indexEdge eTarget) (gsEdges snap) [], peTainted = []\<rparr>"

definition matchOK :: "string \<Rightarrow> string \<Rightarrow> bool" where
  "matchOK pattern path = (case pathMatch pattern path of Inl err \<Rightarrow> False | Inr m \<Rightarrow> m)"

definition teSensitivePath :: "taint_seeds \<Rightarrow> string \<Rightarrow> bool" where
  "teSensitivePath ts path = list_ex (\<lambda>p. matchOK p path \<or> hasPrefix path p
     \<or> matchOK (if hasSuffix p ''/'' then p @ ''*'' else p) path) (tsSensitive ts)"

definition isForkChild :: "prop_engine \<Rightarrow> string \<Rightarrow> bool" where
  "isForkChild te i = list_ex (\<lambda>e. eRelation e = ''prov:wasInformedBy'') (mget0 [] (peForward te) i)"

type_synonym taint_work = "(string \<times> taint_node) list \<times> string list"

definition addSeed :: "string \<Rightarrow> int \<Rightarrow> taint_work \<Rightarrow> taint_work" where
  "addSeed i level tw =
     (let tn = \<lparr>tnLevel = level, tnDepth = 0, tnPrevID = [], tnPrevRel = []\<rparr> in
      case map_of (fst tw) i of
        Some existing \<Rightarrow> if tnLevel existing \<ge> level then tw
          else (AList.update i tn (fst tw), snd tw @ [i])
      | None \<Rightarrow> (AList.update i tn (fst tw), snd tw @ [i]))"

definition seedNode :: "taint_seeds \<Rightarrow> prop_engine \<Rightarrow> string \<times> node \<Rightarrow> taint_work \<Rightarrow> taint_work" where
  "seedNode ts te p tw =
     (let (i, n) = p; comm = toLower (nLabel n) in
      if nSubtype n = ''process'' then
        (let tw = (if mget0 False (tsUntrusted ts) comm \<and> \<not> isForkChild te i
                   then addSeed i TaintCritical tw else tw)
         in if mget0 False (tsNetwork ts) comm then addSeed i TaintMedium tw else tw)
      else if nSubtype n = ''file'' then
        (if teSensitivePath ts comm then addSeed i TaintHigh tw else tw)
      else tw)"

definition seedTaints :: "taint_seeds \<Rightarrow> prop_engine \<Rightarrow> taint_work" where
  "seedTaints ts te = fold (seedNode ts te) (peNodes te) (peTainted te, [])"

definition tryTaint :: "string \<Rightarrow> string \<Rightarrow> string \<Rightarrow> int \<Rightarrow> taint_work \<Rightarrow> taint_work" where
  "tryTaint i prevID rel level tw =
     (let newDepth = (case map_of (fst tw) prevID of None \<Rightarrow> 0 | Some p \<Rightarrow> tnDepth p + 1);
          tn = \<lparr>tnLevel = level, tnDepth = newDepth, tnPrevID = prevID, tnPrevRel = rel\<rparr> in
      case map_of (fst tw) i of
        Some existing \<Rightarrow>
          if tnLevel existing > level then tw
          else if tnLevel existing = level \<and> tnDepth existing \<ge> newDepth then tw
          else (AList.update i tn (fst tw), snd tw @ [i])
      | None \<Rightarrow> (AList.update i tn (fst tw), snd tw @ [i]))"

definition taintNeighbours :: "prop_engine \<Rightarrow> string \<Rightarrow> int \<Rightarrow> taint_work \<Rightarrow> taint_work" where
  "taintNeighbours te i nextLevel tw =
     (let tw = fold (\<lambda>e. tryTaint (eTarget e) i (eRelation e) nextLevel) (mget0 [] (peForward te) i) tw
      in fold (\<lambda>e. tryTaint (eSource e) i (eRelation e) nextLevel) (mget0 [] (peReverse te) i) tw)"

partial_function (option) propagateLoop ::
    "prop_engine \<Rightarrow> taint_work \<Rightarrow> (string \<times> taint_node) list option" where
  "propagateLoop te tw = (case snd tw of
      [] \<Rightarrow> Some (fst tw)
    | i # worklist \<Rightarrow> (case map_of (fst tw) i of
          None \<Rightarrow> None
        | Some tn \<Rightarrow>
            if tnLevel tn - 1 < TaintLow then propagateLoop te (fst tw, worklist)
            else propagateLoop te (taintNeighbours te i (tnLevel tn - 1) (fst tw, worklist))))"

definition NewPropEngine :: "taint_seeds \<Rightarrow> graph_snapshot \<Rightarrow> prop_engine option" where
  "NewPropEngine ts snap = do {
     let te = peIndexed snap;
     tainted \<leftarrow> propagateLoop te (seedTaints ts te);
     Some (te\<lparr>peTainted := tainted\<rparr>)
   }"

partial_function (option) pathLoop :: "(string \<times> taint_node) list \<Rightarrow> string \<Rightarrow> string list option" where
  "pathLoop tainted cur =
     (if cur = [] then Some []
      else case map_of tainted cur of
          None \<Rightarrow> Some [cur]
        | Some n \<Rightarrow> do { path \<leftarrow> pathLoop tainted (tnPrevID n); Some (cur # path) })"

definition PropagationPath :: "prop_engine \<Rightarrow> string \<Rightarrow> string list option" where
  "PropagationPath te i = map_option rev (pathLoop (peTainted te) i)"

definition TaintedProcesses :: "prop_engine \<Rightarrow> string list" where
  "TaintedProcesses te = filter (\<lambda>i. case map_of (peNodes te) i of None \<Rightarrow> False
     | Some n \<Rightarrow> nSubtype n = ''process'') (map fst (peTainted te))"

definition TaintedNodes :: "prop_engine \<Rightarrow> string list" where
  "TaintedNodes te = map fst (peTainted te)"

end
