(* ===== verification/GraphTaintInv.thy ===== *)
theory GraphTaintInv
  imports GraphTaint
begin

text \<open>
  The worklist loop of taint propagation: what holds of the taint map while the loop runs, and why it
  ends. The locale states what the loop needs of the graph and of the seeds; the engine is an instance of it.
\<close>

section \<open>The order on taints\<close>

text \<open>
  \<open>reached tm i l d\<close>: the node has a taint of level \<open>l\<close> and depth \<open>d\<close> or a better one. Higher levels are better, and
  among equal levels the code prefers the greater depth.
\<close>

definition betterEq :: "int \<Rightarrow> int \<Rightarrow> taint_node \<Rightarrow> bool" where
  "betterEq l d tn \<longleftrightarrow> l < tnLevel tn \<or> (l = tnLevel tn \<and> d \<le> tnDepth tn)"

definition reached :: "(string \<times> taint_node) list \<Rightarrow> string \<Rightarrow> int \<Rightarrow> int \<Rightarrow> bool" where
  "reached tm i l d \<longleftrightarrow> (\<exists>tn. map_of tm i = Some tn \<and> betterEq l d tn)"

lemma reached_self: "map_of tm i = Some tn \<Longrightarrow> reached tm i (tnLevel tn) (tnDepth tn)"
  by (simp add: reached_def betterEq_def)

lemma tryTaint_eq:
  assumes "map_of tm p = Some pn"
  shows "tryTaint i p rel l (tm, wl) =
    (if reached tm i l (tnDepth pn + 1) then (tm, wl)
     else (AList.update i \<lparr>tnLevel = l, tnDepth = tnDepth pn + 1, tnPrevID = p, tnPrevRel = rel\<rparr> tm, wl @ [i]))"
  using assms by (auto simp: tryTaint_def Let_def reached_def betterEq_def split: option.splits)

lemma reached_update:
  assumes "\<not> reached tm i (tnLevel tn) (tnDepth tn)" and "reached tm x l d"
  shows "reached (AList.update i tn tm) x l d"
  using assms by (auto simp: reached_def betterEq_def split: if_splits)

section \<open>Propagation over a relation\<close>

text \<open>The neighbours of a node in the order in which the loop visits them.\<close>

definition neighbourList :: "prop_engine \<Rightarrow> string \<Rightarrow> (string \<times> string) list" where
  "neighbourList te i = map (\<lambda>e. (eTarget e, eRelation e)) (mget0 [] (peForward te) i)
     @ map (\<lambda>e. (eSource e, eRelation e)) (mget0 [] (peReverse te) i)"

definition teLink :: "prop_engine \<Rightarrow> (string \<times> string) set" where
  "teLink te = {(i, y). \<exists>rel. (y, rel) \<in> set (neighbourList te i)}"

lemma taintNeighbours_list:
  "taintNeighbours te i l tw = fold (\<lambda>(y, rel). tryTaint y i rel l) (neighbourList te i) tw"
  by (simp add: taintNeighbours_def neighbourList_def fold_map comp_def)

lemma teLink_neighbours: "(i, y) \<in> teLink te \<longleftrightarrow> (\<exists>rel. (y, rel) \<in> set (neighbourList te i))"
  by (simp add: teLink_def)

locale taint_flow =
  fixes R :: "(string \<times> string) set" and S :: "string \<Rightarrow> int option" and U :: "string set"
  assumes finU: "finite U" and RU: "(x, y) \<in> R \<Longrightarrow> y \<in> U"
    and seedU: "S s = Some L \<Longrightarrow> s \<in> U" and seedL: "S s = Some L \<Longrightarrow> 1 \<le> L \<and> L \<le> 4"
begin

definition cand :: "string \<Rightarrow> int \<Rightarrow> int \<Rightarrow> bool" where
  "cand x l d \<longleftrightarrow> 1 \<le> l \<and> 0 \<le> d \<and> (\<exists>s. S s = Some (l + d) \<and> (s, x) \<in> R ^^ nat d)"

lemma cand_le: "cand x l d \<Longrightarrow> 1 \<le> l \<and> 0 \<le> d \<and> l + d \<le> 4"
  using seedL by (auto simp: cand_def)

lemma cand_step:
  assumes "cand x l d" and "(x, y) \<in> R" and "2 \<le> l" shows "cand y (l - 1) (d + 1)"
proof -
  have "nat (d + 1) = Suc (nat d)" using assms(1) by (simp add: cand_def nat_add_distrib)
  then show ?thesis using assms by (auto simp: cand_def intro: relcompI)
qed

definition origin :: "(string \<times> taint_node) list \<Rightarrow> string \<Rightarrow> taint_node \<Rightarrow> bool" where
  "origin tm i tn \<longleftrightarrow> cand i (tnLevel tn) (tnDepth tn) \<and> i \<in> U \<and>
     ((tnDepth tn = 0 \<and> tnPrevID tn = [] \<and> S i = Some (tnLevel tn))
      \<or> (1 \<le> tnDepth tn \<and> (tnPrevID tn, i) \<in> R \<and> reached tm (tnPrevID tn) (tnLevel tn + 1) (tnDepth tn - 1)))"

text \<open>The invariant; \<open>X\<close> are the nodes whose taint may still have to be passed on.\<close>

definition flow_inv :: "string set \<Rightarrow> (string \<times> taint_node) list \<Rightarrow> bool" where
  "flow_inv X tm \<longleftrightarrow> distinct (map fst tm) \<and> (\<forall>s L. S s = Some L \<longrightarrow> reached tm s L 0)
     \<and> (\<forall>i tn. map_of tm i = Some tn \<longrightarrow> origin tm i tn)
     \<and> (\<forall>i tn x. map_of tm i = Some tn \<longrightarrow> i \<notin> X \<longrightarrow> 2 \<le> tnLevel tn \<longrightarrow> (i, x) \<in> R \<longrightarrow>
          reached tm x (tnLevel tn - 1) (tnDepth tn + 1))"

lemma flow_origin: "flow_inv X tm \<Longrightarrow> map_of tm i = Some tn \<Longrightarrow> origin tm i tn"
  by (simp add: flow_inv_def)

lemma flow_settle:
  assumes inv: "flow_inv (insert i X) tm" and tn: "map_of tm i = Some tn"
    and dn: "\<And>x. 2 \<le> tnLevel tn \<Longrightarrow> (i, x) \<in> R \<Longrightarrow> reached tm x (tnLevel tn - 1) (tnDepth tn + 1)"
  shows "flow_inv X tm"
proof -
  have "reached tm x (tnLevel tj - 1) (tnDepth tj + 1)"
    if "map_of tm j = Some tj" "j \<notin> X" "2 \<le> tnLevel tj" "(j, x) \<in> R" for j tj x
  proof (cases "j = i")
    case True
    with that tn dn show ?thesis by simp
  next
    case False
    with that inv show ?thesis unfolding flow_inv_def by blast
  qed
  with inv show ?thesis unfolding flow_inv_def by blast
qed

definition rank :: "taint_node option \<Rightarrow> nat" where
  "rank tno = (case tno of None \<Rightarrow> 0 | Some tn \<Rightarrow> nat (5 * tnLevel tn + tnDepth tn))"

definition slack :: "(string \<times> taint_node) list \<Rightarrow> nat" where
  "slack tm = (\<Sum>x \<in> U. 21 - rank (map_of tm x))"

lemma slack_update:
  assumes "x \<in> U" and "rank (map_of tm x) < rank (Some tn)" and "rank (Some tn) \<le> 21"
  shows "slack (AList.update x tn tm) < slack tm"
  unfolding slack_def using assms finU by (intro sum_strict_mono_ex1) (auto intro!: bexI [of _ x])

lemma origin_mono:
  assumes "origin tm i tn" and "\<And>x l d. reached tm x l d \<Longrightarrow> reached tm' x l d"
  shows "origin tm' i tn"
  using assms by (auto simp: origin_def)

text \<open>One improvement of a node.\<close>

lemma improve:
  assumes inv: "flow_inv X tm" and new: "\<not> reached tm y (tnLevel tn) (tnDepth tn)" and org: "origin tm y tn"
  shows "flow_inv (insert y X) (AList.update y tn tm)" and "slack (AList.update y tn tm) < slack tm"
proof -
  note mono = reached_update [OF new]
  have "origin (AList.update y tn tm) i ti" if "map_of tm i = Some ti" for i ti
    using inv that mono unfolding flow_inv_def by (blast intro: origin_mono)
  then show "flow_inv (insert y X) (AList.update y tn tm)"
    using inv mono origin_mono [OF org mono] unfolding flow_inv_def by (auto simp: distinct_mput split: if_splits)
  have c: "1 \<le> tnLevel tn" "0 \<le> tnDepth tn" "tnLevel tn + tnDepth tn \<le> 4" "y \<in> U"
    using org cand_le by (auto simp: origin_def)
  show "slack (AList.update y tn tm) < slack tm"
  proof (rule slack_update)
    show "rank (map_of tm y) < rank (Some tn)"
    proof (cases "map_of tm y")
      case (Some t0)
      have "1 \<le> tnLevel t0" "0 \<le> tnDepth t0" "tnLevel t0 + tnDepth t0 \<le> 4"
        using inv Some cand_le unfolding flow_inv_def origin_def by blast+
      moreover have "tnLevel t0 < tnLevel tn \<or> tnLevel t0 = tnLevel tn \<and> tnDepth t0 < tnDepth tn"
        using new Some by (auto simp: reached_def betterEq_def)
      ultimately show ?thesis using c Some by (auto simp: rank_def)
    qed (use c in \<open>simp add: rank_def\<close>)
  qed (use c in \<open>auto simp: rank_def\<close>)
qed

text \<open>Passing the taint of a node on to a list of neighbours.\<close>

lemma pass_on:
  assumes "flow_inv X tm" and "map_of tm p = Some pn" and "l = tnLevel pn - 1" and "1 \<le> l"
    and "\<forall>(y, rel) \<in> set ys. (p, y) \<in> R" and "fold (\<lambda>(y, rel). tryTaint y p rel l) ys (tm, wl) = (tm', wl')"
  shows "\<exists>new. wl' = wl @ new \<and> flow_inv (X \<union> set new) tm' \<and> set new \<subseteq> dom (map_of tm')
     \<and> map_of tm' p = Some pn \<and> dom (map_of tm) \<subseteq> dom (map_of tm')
     \<and> (\<forall>(y, rel) \<in> set ys. reached tm' y l (tnDepth pn + 1))
     \<and> (\<forall>x l d. reached tm x l d \<longrightarrow> reached tm' x l d) \<and> slack tm' + length new \<le> slack tm"
  using assms
proof (induction ys arbitrary: X tm wl)
  case (Cons yr ys)
  obtain y rel where yr: "yr = (y, rel)" by fastforce
  note pn = Cons.prems(2)
  have R: "\<forall>(y, rel) \<in> set ys. (p, y) \<in> R" using Cons.prems(5) by simp
  show ?case
  proof (cases "reached tm y l (tnDepth pn + 1)")
    case True
    then have "tryTaint y p rel l (tm, wl) = (tm, wl)" by (simp add: tryTaint_eq [OF pn])
    then have "fold (\<lambda>(y, rel). tryTaint y p rel l) ys (tm, wl) = (tm', wl')" using Cons.prems(6) yr by simp
    then obtain new where "wl' = wl @ new" "flow_inv (X \<union> set new) tm'" "set new \<subseteq> dom (map_of tm')"
      "map_of tm' p = Some pn" "dom (map_of tm) \<subseteq> dom (map_of tm')"
      "\<forall>(y, rel) \<in> set ys. reached tm' y l (tnDepth pn + 1)"
      "\<forall>x l d. reached tm x l d \<longrightarrow> reached tm' x l d" "slack tm' + length new \<le> slack tm"
      using Cons.IH [OF Cons.prems(1-4) R] by blast
    with True yr show ?thesis by auto
  next
    case False
    define tn where "tn = \<lparr>tnLevel = l, tnDepth = tnDepth pn + 1, tnPrevID = p, tnPrevRel = rel\<rparr>"
    define tm1 where "tm1 = AList.update y tn tm"
    have new: "\<not> reached tm y (tnLevel tn) (tnDepth tn)" using False by (simp add: tn_def)
    have py: "(p, y) \<in> R" using Cons.prems(5) yr by simp
    have cp: "cand p (tnLevel pn) (tnDepth pn)" using Cons.prems(1) pn by (simp add: flow_inv_def origin_def)
    have org: "origin tm y tn"
      using cand_step [OF cp py] cand_le [OF cp] Cons.prems(3,4) RU [OF py] py reached_self [OF pn]
      by (simp add: origin_def tn_def)
    have "y \<noteq> p" using False reached_self [OF pn] Cons.prems(3) pn by (auto simp: reached_def betterEq_def)
    then have p1: "map_of tm1 p = Some pn" using pn by (simp add: tm1_def)
    have f: "fold (\<lambda>(y, rel). tryTaint y p rel l) ys (tm1, wl @ [y]) = (tm', wl')"
      using Cons.prems(6) False yr by (simp add: tryTaint_eq [OF pn] tn_def tm1_def)
    have "flow_inv (insert y X) tm1" unfolding tm1_def by (rule improve(1) [OF Cons.prems(1) new org])
    from Cons.IH [OF this p1 Cons.prems(3,4) R f] obtain ns where ns: "wl' = wl @ y # ns"
      "flow_inv (insert y X \<union> set ns) tm'" "set ns \<subseteq> dom (map_of tm')"
      "map_of tm' p = Some pn" "dom (map_of tm1) \<subseteq> dom (map_of tm')"
      "\<forall>(y, rel) \<in> set ys. reached tm' y l (tnDepth pn + 1)"
      "\<forall>x l d. reached tm1 x l d \<longrightarrow> reached tm' x l d" "slack tm' + length ns \<le> slack tm1"
      by auto
    have m1: "reached tm1 x k d" if "reached tm x k d" for x k d
      unfolding tm1_def by (rule reached_update [OF new that])
    have "reached tm1 y l (tnDepth pn + 1)" using reached_self [of tm1 y tn] by (simp add: tm1_def tn_def)
    moreover have "slack tm1 < slack tm" unfolding tm1_def by (rule improve(2) [OF Cons.prems(1) new org])
    moreover have "dom (map_of tm) \<subseteq> dom (map_of tm')" "set (y # ns) \<subseteq> dom (map_of tm')"
      using ns(3,5) by (simp_all add: tm1_def)
    ultimately show ?thesis using ns m1 yr by (intro exI [of _ "y # ns"]) (auto simp del: domIff)
  qed
qed simp

text \<open>The loop returns, and at its end nothing is left to pass on.\<close>

lemma loop_returns:
  assumes "flow_inv (set wl) tm" and "set wl \<subseteq> dom (map_of tm)" and "teLink te = R"
  shows "\<exists>tm'. propagateLoop te (tm, wl) = Some tm' \<and> flow_inv {} tm'"
  using assms(1,2)
proof (induction "slack tm + length wl" arbitrary: tm wl rule: less_induct)
  case less
  show ?case
  proof (cases wl)
    case Nil
    with less.prems(1) show ?thesis by (simp add: propagateLoop.simps)
  next
    case (Cons i ws)
    then obtain tn where tn: "map_of tm i = Some tn" using less.prems(2) by auto
    show ?thesis
    proof (cases "tnLevel tn - 1 < 1")
      case True
      have "flow_inv (set ws) tm" by (rule flow_settle [OF _ tn]) (use less.prems(1) True Cons in auto)
      then have "\<exists>tm'. propagateLoop te (tm, ws) = Some tm' \<and> flow_inv {} tm'"
        using less.hyps [of tm ws] less.prems(2) Cons by auto
      then show ?thesis using True tn Cons by (simp add: propagateLoop.simps [of te "(tm, i # ws)"])
    next
      case False
      obtain tm' wl' where tw': "taintNeighbours te i (tnLevel tn - 1) (tm, ws) = (tm', wl')" by fastforce
      have "\<forall>(y, rel) \<in> set (neighbourList te i). (i, y) \<in> R"
        using assms(3) by (auto simp: neighbourList_def teLink_def)
      from pass_on [OF less.prems(1) tn refl _ this, of ws tm' wl'] tw' False obtain new where new:
        "wl' = ws @ new" "flow_inv (set wl \<union> set new) tm'" "set new \<subseteq> dom (map_of tm')"
        "map_of tm' i = Some tn" "dom (map_of tm) \<subseteq> dom (map_of tm')"
        "\<forall>(y, rel) \<in> set (neighbourList te i). reached tm' y (tnLevel tn - 1) (tnDepth tn + 1)"
        "slack tm' + length new \<le> slack tm" by (auto simp: taintNeighbours_list)
      have "reached tm' x (tnLevel tn - 1) (tnDepth tn + 1)" if "(i, x) \<in> R" for x
        using new(6) that assms(3) teLink_neighbours [of i x te] by fastforce
      moreover have "flow_inv (insert i (set wl')) tm'" using new(1,2) Cons by (simp add: Un_ac)
      ultimately have "flow_inv (set wl') tm'" by (blast intro: flow_settle [OF _ new(4)])
      moreover have "set wl' \<subseteq> dom (map_of tm')" using new(1,3,5) less.prems(2) Cons by (simp, blast)
      moreover have "slack tm' + length wl' < slack tm + length wl" using new(1,7) Cons by simp
      ultimately have "\<exists>tm''. propagateLoop te (tm', wl') = Some tm'' \<and> flow_inv {} tm''" by (rule less.hyps [rotated])
      then show ?thesis using False tn Cons tw' by (simp add: propagateLoop.simps [of te "(tm, i # ws)"])
    qed
  qed
qed

text \<open>At the end every node has the best taint that a walk from a seed gives it.\<close>

lemma final_complete:
  assumes "flow_inv {} tm" and "cand x l d" shows "reached tm x l d"
proof -
  have main: "reached tm x l (int n)" if "S s = Some (l + int n)" "(s, x) \<in> R ^^ n" "1 \<le> l" for s l n
    using that
  proof (induction n arbitrary: x l)
    case 0
    then show ?case using assms(1) by (auto simp: flow_inv_def)
  next
    case (Suc n)
    then obtain y where y: "(s, y) \<in> R ^^ n" "(y, x) \<in> R" by auto
    have "reached tm y (l + 1) (int n)" using Suc.IH [OF _ y(1), of "l + 1"] Suc.prems by (simp add: add_ac)
    then obtain tn where tn: "map_of tm y = Some tn" "betterEq (l + 1) (int n) tn" by (auto simp: reached_def)
    then have "reached tm x (tnLevel tn - 1) (tnDepth tn + 1)"
      using assms(1) y(2) Suc.prems(3) unfolding flow_inv_def betterEq_def by auto
    with tn(2) show ?case by (auto simp: reached_def betterEq_def)
  qed
  obtain s where "S s = Some (l + int (nat d))" "(s, x) \<in> R ^^ nat d" "1 \<le> l" "0 \<le> d"
    using assms(2) by (auto simp: cand_def)
  with main [of s l "nat d"] show ?thesis by simp
qed

lemma final_best:
  assumes "flow_inv {} tm"
  shows "map_option (\<lambda>tn. (tnLevel tn, tnDepth tn)) (map_of tm x) = Some (l, d) \<longleftrightarrow>
     cand x l d \<and> (\<forall>k e. cand x k e \<longrightarrow> k < l \<or> (k = l \<and> e \<le> d))"
proof
  assume "map_option (\<lambda>tn. (tnLevel tn, tnDepth tn)) (map_of tm x) = Some (l, d)"
  then obtain tn where tn: "map_of tm x = Some tn" "l = tnLevel tn" "d = tnDepth tn" by auto
  then have "cand x l d" using assms by (auto simp: flow_inv_def origin_def)
  moreover have "k < l \<or> (k = l \<and> e \<le> d)" if "cand x k e" for k e
    using final_complete [OF assms that] tn by (auto simp: reached_def betterEq_def)
  ultimately show "cand x l d \<and> (\<forall>k e. cand x k e \<longrightarrow> k < l \<or> (k = l \<and> e \<le> d))" by blast
next
  assume a: "cand x l d \<and> (\<forall>k e. cand x k e \<longrightarrow> k < l \<or> (k = l \<and> e \<le> d))"
  then obtain tn where tn: "map_of tm x = Some tn" "betterEq l d tn"
    using final_complete [OF assms, of x l d] by (auto simp: reached_def)
  then have "cand x (tnLevel tn) (tnDepth tn)" using assms by (auto simp: flow_inv_def origin_def)
  with a tn show "map_option (\<lambda>tn. (tnLevel tn, tnDepth tn)) (map_of tm x) = Some (l, d)"
    by (force simp: betterEq_def)
qed

text \<open>At the end the predecessor of a node is one level up and one step nearer to the seed.\<close>

lemma final_prev:
  assumes inv: "flow_inv {} tm" and x: "map_of tm x = Some tn" and d: "tnDepth tn \<noteq> 0"
  obtains pn where "map_of tm (tnPrevID tn) = Some pn" and "(tnPrevID tn, x) \<in> R"
    and "tnLevel pn = tnLevel tn + 1" and "tnDepth pn = tnDepth tn - 1"
proof -
  have org: "origin tm x tn" using inv x by (simp add: flow_inv_def)
  then obtain pn where pn: "map_of tm (tnPrevID tn) = Some pn" "betterEq (tnLevel tn + 1) (tnDepth tn - 1) pn"
    and r: "(tnPrevID tn, x) \<in> R" using d by (auto simp: origin_def reached_def)
  have "2 \<le> tnLevel pn" using org cand_le pn(2) by (force simp: origin_def betterEq_def)
  then have "reached tm x (tnLevel pn - 1) (tnDepth pn + 1)" using inv pn(1) r unfolding flow_inv_def by blast
  with x pn(2) have "tnLevel pn = tnLevel tn + 1 \<and> tnDepth pn = tnDepth tn - 1"
    by (auto simp: reached_def betterEq_def)
  with pn r that show thesis by blast
qed

lemma final_seed:
  assumes "flow_inv {} tm" and "map_of tm x = Some tn" and "tnDepth tn = 0"
  shows "tnPrevID tn = [] \<and> S x = Some (tnLevel tn)"
  using flow_origin [OF assms(1,2)] assms(3) by (auto simp: origin_def)

lemma path_returns:
  assumes inv: "flow_inv {} tm" and x: "map_of tm x = Some tn"
  shows "\<exists>path. pathLoop tm x = Some path \<and> length path \<le> nat (tnDepth tn) + 1 \<and>
     ([] \<notin> U \<longrightarrow> length path = nat (tnDepth tn) + 1 \<and> hd path = x
        \<and> S (last path) = Some (tnLevel tn + tnDepth tn) \<and> (\<forall>k < nat (tnDepth tn). (path ! Suc k, path ! k) \<in> R))"
  using x
proof (induction "nat (tnDepth tn)" arbitrary: x tn)
  case 0
  have "tnDepth tn = 0" using flow_origin [OF inv 0(2)] 0(1) cand_le by (force simp: origin_def)
  then have "tnPrevID tn = []" "S x = Some (tnLevel tn)" using final_seed [OF inv 0(2)] by auto
  then show ?case using 0 \<open>tnDepth tn = 0\<close>
    by (cases "x = []") (auto simp: pathLoop.simps [of tm x] pathLoop.simps [of tm "[]"] dest: seedU)
next
  case (Suc n)
  then obtain pn where pn: "map_of tm (tnPrevID tn) = Some pn" "(tnPrevID tn, x) \<in> R"
    "tnLevel pn = tnLevel tn + 1" "tnDepth pn = tnDepth tn - 1"
    using final_prev [OF inv Suc(3)] by force
  have n: "n = nat (tnDepth pn)" using Suc(2) pn(4) by simp
  then obtain path where path: "pathLoop tm (tnPrevID tn) = Some path" "length path \<le> n + 1"
    "[] \<notin> U \<Longrightarrow> length path = n + 1 \<and> hd path = tnPrevID tn
        \<and> S (last path) = Some (tnLevel tn + tnDepth tn) \<and> (\<forall>k < n. (path ! Suc k, path ! k) \<in> R)"
    using Suc(1) [OF n pn(1)] pn(3,4) by auto
  show ?case
  proof (cases "x = []")
    case True
    then show ?thesis using RU [OF pn(2)] by (simp add: pathLoop.simps)
  next
    case False
    then have "pathLoop tm x = Some (x # path)" using Suc(3) path(1) by (simp add: pathLoop.simps [of tm x])
    moreover have "((x # path) ! Suc k, (x # path) ! k) \<in> R" if "[] \<notin> U" "k < nat (tnDepth tn)" for k
    proof -
      have "path \<noteq> []" using path(3) [OF that(1)] by auto
      then show ?thesis using path(3) [OF that(1)] pn(2) that(2) Suc(2) by (cases k) (auto simp: hd_conv_nth)
    qed
    ultimately show ?thesis using path Suc(2) by auto
  qed
qed

end

end
