(* ===== verification/GraphTaintTheorems.thy ===== *)
theory GraphTaintTheorems
  imports GraphTaintInv
begin

text \<open>
  Taint propagation of the analyzer as an instance of the worklist loop: the indices hold the edges of the
  snapshot, the seeds are the suspicious nodes, and the loop computes the best taint that a walk gives to a node.
\<close>

section \<open>Indices\<close>

lemma mget0_update: "mget0 z (AList.update k v m) x = (if x = k then v else mget0 z m x)"
  by (simp add: mget0_def)

lemma mget0_indexed: "mget0 [] (fold (indexEdge key) es []) i = filter (\<lambda>e. key e = i) es"
proof -
  have "mget0 [] (fold (indexEdge key) es m) i = mget0 [] m i @ filter (\<lambda>e. key e = i) es" for m
    by (induction es arbitrary: m) (auto simp: indexEdge_def mget0_update)
  then show ?thesis by (simp add: mget0_def)
qed

lemma peIndexed_index [simp]:
  "mget0 [] (peForward (peIndexed snap)) i = filter (\<lambda>e. eSource e = i) (gsEdges snap)"
  "mget0 [] (peReverse (peIndexed snap)) i = filter (\<lambda>e. eTarget e = i) (gsEdges snap)"
  "peTainted (peIndexed snap) = []"
  by (simp_all add: peIndexed_def mget0_indexed)

lemma teLink_linked: "teLink (peIndexed snap) = linked (gsEdges snap)"
  by (auto simp: teLink_def neighbourList_def linked_def)

lemma distinct_peNodes: "distinct (map fst (peNodes (peIndexed snap)))"
proof -
  have "distinct (map fst m) \<Longrightarrow> distinct (map fst (fold (\<lambda>n. AList.update (nID n) n) ns m))" for ns :: "node list" and m
    by (induction ns arbitrary: m) (auto simp: distinct_mput)
  then show ?thesis by (simp add: peIndexed_def)
qed

section \<open>Seeds\<close>

definition seedOf :: "taint_seeds \<Rightarrow> prop_engine \<Rightarrow> string \<times> node \<Rightarrow> int option" where
  "seedOf ts te p = (let comm = toLower (nLabel (snd p)) in
     if nSubtype (snd p) = ''process'' then
       (if mget0 False (tsUntrusted ts) comm \<and> \<not> isForkChild te (fst p) then Some TaintCritical
        else if mget0 False (tsNetwork ts) comm then Some TaintMedium else None)
     else if nSubtype (snd p) = ''file'' \<and> teSensitivePath ts comm then Some TaintHigh else None)"

definition seedLevel :: "taint_seeds \<Rightarrow> prop_engine \<Rightarrow> string \<Rightarrow> int option" where
  "seedLevel ts te i = Option.bind (map_of (peNodes te) i) (\<lambda>n. seedOf ts te (i, n))"

lemma seedOf_tainted [simp]: "seedOf ts (te\<lparr>peTainted := tm\<rparr>) p = seedOf ts te p"
  by (simp add: seedOf_def Let_def isForkChild_def)

definition seedEntry :: "int \<Rightarrow> taint_node" where
  "seedEntry l = \<lparr>tnLevel = l, tnDepth = 0, tnPrevID = [], tnPrevRel = []\<rparr>"

lemma seedNode_eq:
  assumes "map_of (fst tw) i = None"
  shows "seedNode ts te (i, n) tw = (case seedOf ts te (i, n) of None \<Rightarrow> tw
     | Some l \<Rightarrow> (AList.update i (seedEntry l) (fst tw), snd tw @ [i]))"
  using assms by (auto simp: seedNode_def seedOf_def addSeed_def seedEntry_def Let_def)

lemma seed_fold:
  assumes "distinct (map fst ns)" and "\<forall>i \<in> fst ` set ns. map_of (fst tw) i = None"
  shows "map_of (fst (fold (seedNode ts te) ns tw)) i = (case map_of ns i of None \<Rightarrow> map_of (fst tw) i
       | Some n \<Rightarrow> map_option seedEntry (seedOf ts te (i, n)))"
    and "set (snd (fold (seedNode ts te) ns tw)) = set (snd tw) \<union> {fst p | p. p \<in> set ns \<and> seedOf ts te p \<noteq> None}"
  using assms
proof (induction ns arbitrary: tw)
  case (Cons p ns)
  obtain j n where p: "p = (j, n)" by fastforce
  define step where "step tw = (case seedOf ts te (j, n) of None \<Rightarrow> tw
     | Some l \<Rightarrow> (AList.update j (seedEntry l) (fst tw), snd tw @ [j]))" for tw
  { case 1
    then have j: "map_of (fst tw) j = None" "map_of ns j = None" using p by (auto simp: map_of_eq_None_iff)
    have "seedNode ts te p tw = (step tw)" using seedNode_eq [OF j(1)] p by (simp add: step_def)
    moreover have "\<forall>i \<in> fst ` set ns. map_of (fst (step tw)) i = None" and "distinct (map fst ns)"
      using 1 p by (auto simp: step_def split: option.splits)
    ultimately show ?case using Cons.IH(1) [of "step tw"] j p
      by (cases "seedOf ts te p"; cases "i = j"; cases "map_of ns i") (simp_all add: step_def)
  next
    case 2
    then have j: "map_of (fst tw) j = None" using p by auto
    have "seedNode ts te p tw = (step tw)" using seedNode_eq [OF j] p by (simp add: step_def)
    moreover have "\<forall>i \<in> fst ` set ns. map_of (fst (step tw)) i = None" and "distinct (map fst ns)"
      using 2 p by (auto simp: step_def split: option.splits)
    moreover have "set (snd (step tw)) = set (snd tw) \<union> {fst q | q. q = p \<and> seedOf ts te q \<noteq> None}"
      using p by (cases "seedOf ts te p") (auto simp: step_def)
    ultimately show ?case using Cons.IH(2) [of "step tw"] by auto
  }
qed simp_all

lemma seedTaints_spec:
  "map_of (fst (seedTaints ts (peIndexed snap))) i = map_option seedEntry (seedLevel ts (peIndexed snap) i)"
  "set (snd (seedTaints ts (peIndexed snap))) = {i. seedLevel ts (peIndexed snap) i \<noteq> None}"
proof -
  note f = seed_fold [OF distinct_peNodes, of snap "([], [])"]
  show "map_of (fst (seedTaints ts (peIndexed snap))) i = map_option seedEntry (seedLevel ts (peIndexed snap) i)"
    by (simp add: seedTaints_def seedLevel_def f(1) split: option.splits)
  have "{fst p | p. p \<in> set (peNodes (peIndexed snap)) \<and> seedOf ts (peIndexed snap) p \<noteq> None}
      = {i. seedLevel ts (peIndexed snap) i \<noteq> None}"
    using map_of_eq_Some_iff [OF distinct_peNodes [of snap]] by (fastforce simp: seedLevel_def bind_eq_Some_conv)
  then show "set (snd (seedTaints ts (peIndexed snap))) = {i. seedLevel ts (peIndexed snap) i \<noteq> None}"
    by (simp add: seedTaints_def f(2))
qed

section \<open>The engine is an instance of the loop\<close>

definition flowNodes :: "graph_snapshot \<Rightarrow> string set" where
  "flowNodes snap = endpoints (gsEdges snap) \<union> fst ` set (peNodes (peIndexed snap))"

interpretation flow: taint_flow "linked (gsEdges snap)" "seedLevel ts (peIndexed snap)" "flowNodes snap" for ts snap
proof
  show "finite (flowNodes snap)" by (simp add: flowNodes_def)
  show "(x, y) \<in> linked (gsEdges snap) \<Longrightarrow> y \<in> flowNodes snap" for x y
    by (auto simp: linked_def flowNodes_def endpoints_def)
  show "seedLevel ts (peIndexed snap) s = Some L \<Longrightarrow> s \<in> flowNodes snap" for s L
    by (auto simp: seedLevel_def flowNodes_def bind_eq_Some_conv dest!: map_of_SomeD intro: rev_image_eqI)
  show "seedLevel ts (peIndexed snap) s = Some L \<Longrightarrow> 1 \<le> L \<and> L \<le> 4" for s L
    by (auto simp: seedLevel_def seedOf_def Let_def bind_eq_Some_conv split: if_splits)
qed

lemma distinct_seedTaints: "distinct (map fst (fst (seedTaints ts (peIndexed snap))))"
proof -
  have "distinct (map fst (fst tw)) \<Longrightarrow> distinct (map fst (fst (fold (seedNode ts te) ns tw)))" for te ns tw
    by (induction ns arbitrary: tw)
      (auto simp: seedNode_def addSeed_def Let_def distinct_mput split: option.splits)
  then show ?thesis by (simp add: seedTaints_def)
qed

lemma seeded_inv:
  "flow.flow_inv snap ts (set (snd (seedTaints ts (peIndexed snap)))) (fst (seedTaints ts (peIndexed snap)))"
  unfolding flow.flow_inv_def flow.origin_def flow.cand_def
  using flow.seedL flow.seedU distinct_seedTaints
  by (auto simp: seedTaints_spec reached_def betterEq_def seedEntry_def)

lemma engine_returns:
  obtains tm where "NewPropEngine ts snap = Some ((peIndexed snap)\<lparr>peTainted := tm\<rparr>)"
    and "flow.flow_inv snap ts {} tm"
proof -
  let ?tw = "seedTaints ts (peIndexed snap)"
  have "set (snd ?tw) \<subseteq> dom (map_of (fst ?tw))" by (auto simp: seedTaints_spec)
  from flow.loop_returns [OF seeded_inv this teLink_linked] that show thesis
    by (auto simp: NewPropEngine_def)
qed

text \<open>No identifier of a graph is empty.\<close>

lemma nodeType_Nil: "nodeType [] = None"
  by (simp add: nodeType_def idKind_def)

lemma flowNodes_nonempty:
  assumes "runOps (graphStep rf) ops (NewGraph now) = Some g"
  shows "[] \<notin> flowNodes (SnapshotFromGraph g)"
proof
  note g = run_wf_typed [OF assms]
  have N: "fst ` set (fold (\<lambda>n. AList.update (nID n) n) ns m) \<subseteq> nID ` set ns \<union> fst ` set m" for ns :: "node list" and m
  proof (induction ns arbitrary: m)
    case (Cons n ns)
    have "fst ` set (AList.update (nID n) n m) \<subseteq> insert (nID n) (fst ` set m)"
      using set_mput_subset [of "nID n" n m] by force
    with Cons [of "AList.update (nID n) n m"] show ?case by auto
  qed simp
  have "[] \<notin> nodeKeys g" using g(2) nodeType_Nil by (auto simp: nodeKeys_def typed_graph_def list_all_iff typed_node_def)
  moreover have "nID ` set (graphNodes g) \<subseteq> nodeKeys g"
    using g(1) by (force simp: graphNodes_def nodeKeys_def wf_graph_def list_all_iff node_ok_def)
  moreover have "endpoints (graphEdges g) \<subseteq> nodeKeys g"
    using edge_types [OF g] unfolding nodeKeys_def dom_map_of_conv_image_fst [symmetric] by (fastforce simp: endpoints_def LookupNode_def)
  moreover assume "[] \<in> flowNodes (SnapshotFromGraph g)"
  ultimately show False
    using N [of "graphNodes g" "[]"] by (simp add: flowNodes_def SnapshotFromGraph_def peIndexed_def) blast
qed

section \<open>Termination\<close>

lemma engine_paths:
  assumes "NewPropEngine ts snap = Some te"
  shows "\<exists>path. PropagationPath te i = Some path \<and> length path \<le> 4"
proof -
  obtain tm where "NewPropEngine ts snap = Some ((peIndexed snap)\<lparr>peTainted := tm\<rparr>)"
    and inv: "flow.flow_inv snap ts {} tm" by (rule engine_returns)
  with assms have te: "te = (peIndexed snap)\<lparr>peTainted := tm\<rparr>" by simp
  have "\<exists>path. pathLoop tm i = Some path \<and> length path \<le> 4"
  proof (cases "map_of tm i")
    case None
    then show ?thesis by (simp add: pathLoop.simps)
  next
    case (Some tn)
    have "flow.cand snap ts i (tnLevel tn) (tnDepth tn)"
      using flow.flow_origin [OF inv Some] by (simp add: flow.origin_def)
    then have "tnDepth tn \<le> 3" using flow.cand_le by fastforce
    then show ?thesis using flow.path_returns [OF inv Some] by (auto intro: le_trans)
  qed
  then show ?thesis by (auto simp: te PropagationPath_def)
qed

lemma engine_depth:
  assumes "NewPropEngine ts snap = Some te" and "(i, tn) \<in> set (peTainted te)"
  shows "1 \<le> tnLevel tn \<and> 0 \<le> tnDepth tn \<and> tnLevel tn + tnDepth tn \<le> 4"
proof -
  obtain tm where "NewPropEngine ts snap = Some ((peIndexed snap)\<lparr>peTainted := tm\<rparr>)"
    and inv: "flow.flow_inv snap ts {} tm" by (rule engine_returns)
  with assms have "map_of tm i = Some tn" by (auto simp: flow.flow_inv_def)
  then have "flow.cand snap ts i (tnLevel tn) (tnDepth tn)"
    using flow.flow_origin [OF inv] by (simp add: flow.origin_def)
  then show ?thesis by (rule flow.cand_le)
qed

text \<open>
  C11. Taint propagation always ends, on every snapshot and under every list of seeds, although the
  worklist takes a node again whenever its taint improves; and so does the walk back to the seed from every node,
  which visits at most four nodes.
\<close>

theorem taint_propagation_terminates:
  "\<exists>te. NewPropEngine ts snap = Some te \<and> (\<forall>i. \<exists>path. PropagationPath te i = Some path \<and> length path \<le> 4)"
  using engine_returns [of ts snap] engine_paths by metis

section \<open>Levels and paths\<close>

text \<open>
  A walk of \<open>d\<close> steps, along or against the edges, from a seed of level \<open>l + d\<close> gives a node a taint of
  level \<open>l\<close> and depth \<open>d\<close>.
\<close>

definition walkTaint :: "taint_seeds \<Rightarrow> graph_snapshot \<Rightarrow> string \<Rightarrow> int \<Rightarrow> int \<Rightarrow> bool" where
  "walkTaint ts snap x l d \<longleftrightarrow> 1 \<le> l \<and> 0 \<le> d \<and>
     (\<exists>s. seedLevel ts (peIndexed snap) s = Some (l + d) \<and> (s, x) \<in> linked (gsEdges snap) ^^ nat d)"

lemma cand_walkTaint: "flow.cand snap ts = walkTaint ts snap"
  by (intro ext) (simp add: flow.cand_def walkTaint_def)

text \<open>
  C32. A node ends with the best taint that a walk from a seed gives it, whatever the order in which the maps
  are traversed: the highest level, and among walks of that level the longest; a node that no walk taints
  stays clean.
\<close>

theorem taint_is_best_walk:
  assumes "NewPropEngine ts snap = Some te"
  shows "map_option (\<lambda>tn. (tnLevel tn, tnDepth tn)) (map_of (peTainted te) x) = Some (l, d) \<longleftrightarrow>
     walkTaint ts snap x l d \<and> (\<forall>k e. walkTaint ts snap x k e \<longrightarrow> k < l \<or> (k = l \<and> e \<le> d))"
proof -
  obtain tm where "NewPropEngine ts snap = Some ((peIndexed snap)\<lparr>peTainted := tm\<rparr>)"
    and inv: "flow.flow_inv snap ts {} tm" by (rule engine_returns)
  with assms have "peTainted te = tm" by auto
  then show ?thesis using flow.final_best [OF inv] unfolding cand_walkTaint by simp
qed

text \<open>
  C18. On a graph built by events and prunings, the path that the engine gives for a tainted node explains its
  taint: it leads from a seed, whose level is the level plus the depth of the node, along edges of the graph to the
  node, and has as many steps as the depth says.
\<close>

theorem taint_paths_explain:
  assumes "runOps (graphStep rf) ops (NewGraph now) = Some g"
    and "NewPropEngine ts (SnapshotFromGraph g) = Some te" and "map_of (peTainted te) x = Some tn"
  shows "\<exists>path. PropagationPath te x = Some path \<and> length path = nat (tnDepth tn) + 1 \<and> last path = x
     \<and> seedLevel ts te (hd path) = Some (tnLevel tn + tnDepth tn)
     \<and> (\<forall>k < nat (tnDepth tn). (path ! k, path ! Suc k) \<in> linked (graphEdges g))"
proof -
  let ?s = "SnapshotFromGraph g"
  obtain tm where "NewPropEngine ts ?s = Some ((peIndexed ?s)\<lparr>peTainted := tm\<rparr>)"
    and inv: "flow.flow_inv ?s ts {} tm" by (rule engine_returns)
  with assms(2) have te: "te = (peIndexed ?s)\<lparr>peTainted := tm\<rparr>" by simp
  have x: "map_of tm x = Some tn" using assms(3) te by simp
  have "[] \<notin> flowNodes ?s" by (rule flowNodes_nonempty [OF assms(1)])
  then obtain p where p: "pathLoop tm x = Some p" "length p = nat (tnDepth tn) + 1" "hd p = x"
    "seedLevel ts (peIndexed ?s) (last p) = Some (tnLevel tn + tnDepth tn)"
    "\<forall>k < nat (tnDepth tn). (p ! Suc k, p ! k) \<in> linked (gsEdges ?s)"
    using flow.path_returns [OF inv x] by blast
  have "p \<noteq> []" using p(2) by auto
  have "(rev p ! k, rev p ! Suc k) \<in> linked (graphEdges g)" if "k < nat (tnDepth tn)" for k
  proof -
    have "rev p ! k = p ! Suc (nat (tnDepth tn) - Suc k)" "rev p ! Suc k = p ! (nat (tnDepth tn) - Suc k)"
      using that p(2) by (simp_all add: rev_nth Suc_diff_Suc)
    moreover have "nat (tnDepth tn) - Suc k < nat (tnDepth tn)" using that by simp
    ultimately show ?thesis using p(5) by (simp add: SnapshotFromGraph_def)
  qed
  moreover have "seedLevel ts te = seedLevel ts (peIndexed ?s)"
    by (intro ext) (simp add: te seedLevel_def)
  ultimately show ?thesis
    using p \<open>p \<noteq> []\<close> te by (intro exI [of _ "rev p"]) (simp add: PropagationPath_def hd_rev last_rev)
qed

section \<open>Examples\<close>

text \<open>A web server forks a shell.\<close>

definition webFork :: event where
  "webFork = zeroEvent\<lparr>evType := EventProcessFork, evPID := 1, evChildPID := 2, evComm := ''nginx''\<rparr>"

definition webGraph :: graph where
  "webGraph = the (AddEvent (\<lambda>_. None) webFork (NewGraph 0))"

lemma webGraph_run: "runOps (graphStep (\<lambda>_. None)) [OpEvent webFork] (NewGraph 0) = Some webGraph"
  using AddEvent_unreadable [of webFork "NewGraph 0"] by (auto simp: graphStep_def webGraph_def)

lemma webGraph_seeds:
  "seedLevel defaultSeeds (peIndexed (SnapshotFromGraph webGraph)) ''p:1'' = Some 4"
  "seedLevel defaultSeeds (peIndexed (SnapshotFromGraph webGraph)) ''p:2'' = None"
  "map (\<lambda>e. (eSource e, eTarget e)) (graphEdges webGraph) = [(''p:2'', ''p:1'')]"
  by code_simp+

lemma webGraph_shell:
  "walkTaint defaultSeeds (SnapshotFromGraph webGraph) ''p:2'' 3 1"
  "walkTaint defaultSeeds (SnapshotFromGraph webGraph) ''p:2'' k e \<Longrightarrow> k < 3 \<or> (k = 3 \<and> e \<le> 1)"
proof -
  have "(''p:1'', ''p:2'') \<in> linked (graphEdges webGraph)"
    using webGraph_seeds(3) by (auto simp: linked_def map_eq_Cons_conv)
  then show "walkTaint defaultSeeds (SnapshotFromGraph webGraph) ''p:2'' 3 1"
    using webGraph_seeds(1) by (auto simp: walkTaint_def SnapshotFromGraph_def)
  assume w: "walkTaint defaultSeeds (SnapshotFromGraph webGraph) ''p:2'' k e"
  then have "1 \<le> k \<and> 0 \<le> e \<and> k + e \<le> 4" using flow.cand_le unfolding cand_walkTaint by blast
  moreover have "e \<noteq> 0" using w webGraph_seeds(2) by (auto simp: walkTaint_def)
  ultimately show "k < 3 \<or> (k = 3 \<and> e \<le> 1)" by auto
qed

theorem taint_is_best_walk_witness:
  "\<exists>te. NewPropEngine defaultSeeds (SnapshotFromGraph webGraph) = Some te
     \<and> map_option (\<lambda>tn. (tnLevel tn, tnDepth tn)) (map_of (peTainted te) ''p:2'') = Some (3, 1)"
proof -
  obtain te where te: "NewPropEngine defaultSeeds (SnapshotFromGraph webGraph) = Some te"
    using engine_returns [of defaultSeeds "SnapshotFromGraph webGraph"] by metis
  with taint_is_best_walk [OF te, of "''p:2''" 3 1] webGraph_shell show ?thesis by blast
qed

lemma webGraph_tainted:
  "\<exists>te tn. NewPropEngine defaultSeeds (SnapshotFromGraph webGraph) = Some te
     \<and> map_of (peTainted te) ''p:2'' = Some tn \<and> tnLevel tn = 3 \<and> tnDepth tn = 1"
proof -
  obtain tm where te: "NewPropEngine defaultSeeds (SnapshotFromGraph webGraph)
      = Some ((peIndexed (SnapshotFromGraph webGraph))\<lparr>peTainted := tm\<rparr>)"
    and inv: "flow.flow_inv (SnapshotFromGraph webGraph) defaultSeeds {} tm" by (rule engine_returns)
  have "map_option (\<lambda>tn. (tnLevel tn, tnDepth tn)) (map_of tm ''p:2'') = Some (3, 1)"
    using flow.final_best [OF inv, of "''p:2''" 3 1] webGraph_shell unfolding cand_walkTaint by blast
  with te show ?thesis by auto
qed

theorem taint_paths_explain_witness:
  "\<exists>te path. NewPropEngine defaultSeeds (SnapshotFromGraph webGraph) = Some te
     \<and> PropagationPath te ''p:2'' = Some path \<and> length path = 2 \<and> last path = ''p:2''
     \<and> seedLevel defaultSeeds te (hd path) = Some 4"
proof -
  obtain te tn where te: "NewPropEngine defaultSeeds (SnapshotFromGraph webGraph) = Some te"
    and tn: "map_of (peTainted te) ''p:2'' = Some tn" "tnLevel tn = 3" "tnDepth tn = 1"
    using webGraph_tainted by blast
  from taint_paths_explain [OF webGraph_run te tn(1)] te tn(2,3) show ?thesis by auto
qed

section \<open>Sensitive paths\<close>

text \<open>
  With the built-in list, whose entries have no pattern characters, a path is sensitive exactly if it starts
  with an entry. The entry \<^verbatim>\<open>/.ssh/\<close> therefore covers no home directory.
\<close>

lemma default_sensitive: "teSensitivePath defaultSeeds path \<longleftrightarrow> (\<exists>p \<in> set defaultSensitivePaths. hasPrefix path p)"
proof -
  have plain: "plain p" if "p \<in> set defaultSensitivePaths" for p
    using that by (auto simp: defaultSensitivePaths_def)
  have "hasPrefix path p" if "p \<in> set defaultSensitivePaths" "matchOK p path \<or> matchOK (p @ ''*'') path" for p
    using that plain [OF that(1)] pathMatch_prefix [of p path]
    by (auto simp: matchOK_def pathMatch_plain hasPrefix_def split: sum.splits)
  then show ?thesis by (auto simp: teSensitivePath_def defaultSeeds_def list_ex_iff split: if_splits)
qed

lemma home_ssh_not_sensitive: "\<not> teSensitivePath defaultSeeds ''/home/user/.ssh/id_rsa''"
  by (simp add: default_sensitive defaultSensitivePaths_def hasPrefix_def)

end
