(* ===== verification/Analyzer.thy ===== *)
theory Analyzer
  imports GraphTaintTheorems
begin

text \<open>
  The analyzer (\<^verbatim>\<open>internal/engine/analyzer/patterns.go\<close>, \<^verbatim>\<open>alert.go\<close>, \<^verbatim>\<open>analyzer.go\<close>): the patterns checked after taint
  propagation, the subgraph attached to an alert, and the scan that composes graph, propagation, patterns and
  Sigma rules. The online model and the built-in rules, which come out of a model file and the YAML library, are
  arguments; a scan reads the clock once. JSON output and graph sketches are left out.
\<close>

section \<open>Alerts\<close>

abbreviation (input) SeverityLow :: int where "SeverityLow \<equiv> 20"
abbreviation (input) SeverityMedium :: int where "SeverityMedium \<equiv> 30"
abbreviation (input) SeverityHigh :: int where "SeverityHigh \<equiv> 40"
abbreviation (input) SeverityCritical :: int where "SeverityCritical \<equiv> 50"

abbreviation (input) PatSensitiveExfil :: string where "PatSensitiveExfil \<equiv> ''SENSITIVE_EXFIL''"
abbreviation (input) PatScriptChild :: string where "PatScriptChild \<equiv> ''SCRIPT_CHILD''"
abbreviation (input) PatDeepTaint :: string where "PatDeepTaint \<equiv> ''DEEP_TAINT_CHAIN''"
abbreviation (input) PatPrivEsc :: string where "PatPrivEsc \<equiv> ''PRIVILEGE_ESCALATION''"
abbreviation (input) PatMemoryAnomaly :: string where "PatMemoryAnomaly \<equiv> ''MEMORY_ANOMALY''"

definition severityString :: "int \<Rightarrow> string" where
  "severityString s =
     (if s = 10 then ''INFO'' else if s = SeverityLow then ''LOW'' else if s = SeverityMedium then ''MEDIUM''
      else if s = SeverityHigh then ''HIGH'' else if s = SeverityCritical then ''CRITICAL'' else ''UNKNOWN'')"

record alert_subgraph =
  asNodes :: "node list"
  asEdges :: "edge list"
  asPathNodeIDs :: "string list"
  asAlertNodeID :: string

record apt_alert =
  aaPattern :: string
  aaSeverity :: int
  aaHeadline :: string
  aaReason :: string
  aaNodeID :: string
  aaDetectedAt :: time
  aaSubgraph :: "alert_subgraph option"

definition newAlert :: "string \<Rightarrow> int \<Rightarrow> string \<Rightarrow> string \<Rightarrow> string \<Rightarrow> apt_alert" where
  "newAlert pattern severity headline node reason = \<lparr>aaPattern = pattern, aaSeverity = severity, aaHeadline = headline,
     aaReason = reason, aaNodeID = node, aaDetectedAt = zeroTime, aaSubgraph = None\<rparr>"

text \<open>The text \<^verbatim>\<open>%v\<close> gives a list of strings.\<close>

definition showStrings :: "string list \<Rightarrow> string" where
  "showStrings ss = ''['' @ joinWith '' '' ss @ '']''"

section \<open>Patterns\<close>

definition nodeLabel :: "prop_engine \<Rightarrow> string \<Rightarrow> string" where
  "nodeLabel te i = (case map_of (peNodes te) i of None \<Rightarrow> i | Some n \<Rightarrow> nLabel n)"

definition isProcess :: "prop_engine \<Rightarrow> string \<Rightarrow> bool" where
  "isProcess te i = (case map_of (peNodes te) i of None \<Rightarrow> False | Some n \<Rightarrow> nSubtype n = ''process'')"

definition forwardNodes :: "prop_engine \<Rightarrow> string \<Rightarrow> node list" where
  "forwardNodes te i = List.map_filter (\<lambda>e. map_of (peNodes te) (eTarget e)) (mget0 [] (peForward te) i)"

definition exfilAlert :: "taint_seeds \<Rightarrow> prop_engine \<Rightarrow> string \<Rightarrow> apt_alert option" where
  "exfilAlert ts te i = (case map_of (peTainted te) i of None \<Rightarrow> None
    | Some tn \<Rightarrow>
      if tnLevel tn < TaintMedium then None
      else let sensitiveFiles = map nLabel (filter (\<lambda>n. nSubtype n = ''file'' \<and> teSensitivePath ts (nLabel n)) (forwardNodes te i));
               netTargets = map nLabel (filter (\<lambda>n. nSubtype n = ''network'') (forwardNodes te i))
           in if sensitiveFiles \<noteq> [] \<and> netTargets \<noteq> []
              then Some (newAlert PatSensitiveExfil SeverityHigh
                (nodeLabel te i @ '' read '' @ hd sensitiveFiles @ '' and connected to '' @ hd netTargets) i
                (''Process '' @ i @ '' (taint='' @ taintLevelString (tnLevel tn) @ '', depth='' @ showInt (tnDepth tn)
                 @ '') accessed sensitive files '' @ showStrings sensitiveFiles
                 @ '' and network targets '' @ showStrings netTargets))
              else None)"

definition checkSensitiveExfil :: "taint_seeds \<Rightarrow> prop_engine \<Rightarrow> apt_alert list" where
  "checkSensitiveExfil ts te = List.map_filter (exfilAlert ts te) (TaintedProcesses te)"

definition writtenFiles :: "prop_engine \<Rightarrow> string \<times> taint_node \<Rightarrow> string list" where
  "writtenFiles te p = (case p of (i, tn) \<Rightarrow>
     if tnLevel tn < TaintLow \<or> \<not> isProcess te i then []
     else List.map_filter (\<lambda>e. if eRelation e \<noteq> ProvWasGeneratedBy then None
       else case map_of (peNodes te) (eSource e) of
           Some n \<Rightarrow> if nSubtype n = ''file'' then Some (nID n) else None
         | None \<Rightarrow> None) (mget0 [] (peReverse te) i))"

definition writtenByTaint :: "prop_engine \<Rightarrow> (string \<times> string) list" where
  "writtenByTaint te = fold (\<lambda>p m. fold (\<lambda>f. AList.update f (fst p)) (writtenFiles te p) m) (peTainted te) []"

definition scriptAlert :: "prop_engine \<Rightarrow> string \<Rightarrow> string \<Rightarrow> node \<Rightarrow> apt_alert" where
  "scriptAlert te fID writerID reader =
     (let wLabel = (case map_of (peNodes te) writerID of None \<Rightarrow> '' -> '' | Some n \<Rightarrow> nLabel n);
          fLabel = (case map_of (peNodes te) fID of None \<Rightarrow> '' -> '' | Some n \<Rightarrow> nLabel n)
      in newAlert PatScriptChild SeverityCritical
           (wLabel @ '' wrote '' @ fLabel @ '', then '' @ nLabel reader @ '' read it'') (nID reader)
           (''tainted process '' @ writerID @ '' wrote file '' @ fID @ '' (via wasGeneratedBy), later read by process ''
            @ nID reader @ '' (via used)''))"

definition readerAlerts :: "prop_engine \<Rightarrow> string \<times> string \<Rightarrow> apt_alert list" where
  "readerAlerts te fw = (case fw of (fID, writerID) \<Rightarrow>
     List.map_filter (\<lambda>e. if eRelation e \<noteq> ProvUsed then None
       else case map_of (peNodes te) (eSource e) of
           None \<Rightarrow> None
         | Some reader \<Rightarrow> if nSubtype reader \<noteq> ''process'' then None else Some (scriptAlert te fID writerID reader))
       (mget0 [] (peReverse te) fID))"

definition checkScriptChild :: "prop_engine \<Rightarrow> apt_alert list" where
  "checkScriptChild te = concat (map (readerAlerts te) (writtenByTaint te))"

definition pathLabel :: "prop_engine \<Rightarrow> string \<Rightarrow> string" where
  "pathLabel te p = (case map_of (peNodes te) p of None \<Rightarrow> p | Some n \<Rightarrow> nLabel n @ ''('' @ p @ '')'')"

definition deepAlert :: "prop_engine \<Rightarrow> int \<Rightarrow> string \<times> taint_node \<Rightarrow> apt_alert list option" where
  "deepAlert te minDepth p = (case p of (i, tn) \<Rightarrow>
     if tnDepth tn < minDepth then Some []
     else case map_of (peNodes te) i of
         None \<Rightarrow> Some []
       | Some n \<Rightarrow>
           if nSubtype n \<noteq> ''process'' then Some []
           else do {
             path \<leftarrow> PropagationPath te i;
             Some [newAlert PatDeepTaint SeverityMedium
               (nLabel n @ '' taint depth='' @ showInt (tnDepth tn) @ '': '' @ joinWith '' -> '' (map (pathLabel te) path)) i
               (''taint propagation depth='' @ showInt (tnDepth tn) @ '' from initial source; propagation path spans ''
                @ showNat (length path) @ '' nodes'')]
           })"

definition checkDeepTaint :: "prop_engine \<Rightarrow> int \<Rightarrow> apt_alert list option" where
  "checkDeepTaint te minDepth = map_option concat (those (map (deepAlert te minDepth) (peTainted te)))"

definition boolAttr :: "node \<Rightarrow> string \<Rightarrow> bool" where
  "boolAttr n k = (case map_of (nAttributes n) k of Some (ABool b) \<Rightarrow> b | _ \<Rightarrow> False)"

definition checkPrivEsc :: "prop_engine \<Rightarrow> apt_alert list" where
  "checkPrivEsc te = List.map_filter (\<lambda>(i, tn).
     if tnLevel tn < TaintMedium then None
     else case map_of (peNodes te) i of
         None \<Rightarrow> None
       | Some n \<Rightarrow>
           if nSubtype n = ''process'' \<and> boolAttr n ''setuid''
           then Some (newAlert PatPrivEsc SeverityHigh (nLabel n @ '' executed with setuid'') i
             (''tainted process '' @ i @ '' (level='' @ taintLevelString (tnLevel tn)
              @ '') had setuid attribute (uid/euid mismatch during exec)''))
           else None) (peTainted te)"

text \<open>The findings of one process: the reasons so far and the severity.\<close>

definition memoryFindings :: "node \<Rightarrow> string list \<times> int" where
  "memoryFindings n =
     (let (reasons, severity) = ([], SeverityMedium);
          (reasons, severity) = (if boolAttr n ''shellcode''
            then (reasons @ [''mprotect RW->RX (possible shellcode injection)''], SeverityCritical) else (reasons, severity));
          (reasons, severity) = (if boolAttr n ''fileless''
            then (reasons @ [''fileless execution (memfd_create)''], if severity < SeverityHigh then SeverityHigh else severity)
            else (reasons, severity));
          (reasons, severity) = (case map_of (nAttributes n) ''memory_op'' of
              Some (AStr s) \<Rightarrow>
                if s = ''mprotect_rx'' then (reasons @ [''memory protection changed RW->RX''],
                  if severity < SeverityCritical then SeverityCritical else severity)
                else if s = ''memfd_create'' then (reasons @ [''anonymous memory file created (memfd_create)''],
                  if severity < SeverityHigh then SeverityHigh else severity)
                else (reasons, severity)
            | _ \<Rightarrow> (reasons, severity));
          (reasons, severity) = (if boolAttr n ''pipe_reader''
            then (reasons @ [''pipe read - possible fileless chain''], if severity < SeverityMedium then SeverityMedium else severity)
            else (reasons, severity));
          reasons = (if boolAttr n ''pipe_writer'' then reasons @ [''pipe write''] else reasons)
      in (reasons, severity))"

definition memoryAlert :: "prop_engine \<Rightarrow> string \<Rightarrow> apt_alert option" where
  "memoryAlert te i = do {
     tn \<leftarrow> map_of (peTainted te) i;
     n \<leftarrow> map_of (peNodes te) i;
     let (reasons, severity) = memoryFindings n;
     if reasons = [] then None
     else Some (newAlert PatMemoryAnomaly severity (nLabel n @ '' memory anomaly: '' @ hd reasons) i
       (''process '' @ i @ '' (taint='' @ taintLevelString (tnLevel tn) @ '' depth='' @ showInt (tnDepth tn) @ ''): ''
        @ showStrings reasons))
   }"

definition checkMemoryAnomaly :: "prop_engine \<Rightarrow> apt_alert list" where
  "checkMemoryAnomaly te = List.map_filter (memoryAlert te) (TaintedProcesses te)"

section \<open>Subgraphs\<close>

fun dedupEdges :: "string set \<Rightarrow> edge list \<Rightarrow> edge list" where
  "dedupEdges seen [] = []"
| "dedupEdges seen (e # es) =
     (if eID e \<in> seen then dedupEdges seen es else e # dedupEdges (insert (eID e) seen) es)"

definition allEdges :: "prop_engine \<Rightarrow> edge list" where
  "allEdges te = dedupEdges {} (concat (map snd (peForward te)))"

definition contextIDs :: "prop_engine \<Rightarrow> string list \<Rightarrow> string list" where
  "contextIDs te pathIDs = filter (\<lambda>i. i \<notin> set pathIDs) (remdups (concat (map (\<lambda>i.
     map eTarget (mget0 [] (peForward te) i) @ map eSource (mget0 [] (peReverse te) i)) pathIDs)))"

definition keepEdge :: "string list \<Rightarrow> string list \<Rightarrow> edge \<Rightarrow> bool" where
  "keepEdge onPath ctx e =
     (let src = eSource e; tgt = eTarget e in
      src \<in> set onPath \<or> tgt \<in> set onPath \<or> (src \<in> set ctx \<and> tgt \<in> set onPath)
      \<or> (src \<in> set onPath \<and> tgt \<in> set ctx))"

definition ExtractSubgraph :: "prop_engine \<Rightarrow> apt_alert \<Rightarrow> apt_alert option" where
  "ExtractSubgraph te a = do {
     pathIDs \<leftarrow> PropagationPath te (aaNodeID a);
     let pathIDs = (if pathIDs = [] then [aaNodeID a] else pathIDs);
     let ctx = contextIDs te pathIDs;
     let nodes = List.map_filter (map_of (peNodes te)) (remdups (pathIDs @ ctx));
     let edges = dedupEdges {} (filter (keepEdge pathIDs ctx) (allEdges te));
     Some (a\<lparr>aaSubgraph := Some \<lparr>asNodes = nodes, asEdges = edges, asPathNodeIDs = pathIDs,
       asAlertNodeID = aaNodeID a\<rparr>\<rparr>)
   }"

section \<open>The analyzer\<close>

record apt_config =
  acScanInterval :: duration
  acDeepTaintThreshold :: int
  acEnablePatterns :: "string list"
  acQuiet :: bool

definition DefaultAnalyzerConfig :: apt_config where
  "DefaultAnalyzerConfig = \<lparr>acScanInterval = 30 * second, acDeepTaintThreshold = 3,
     acEnablePatterns = [PatSensitiveExfil, PatScriptChild, PatDeepTaint, PatPrivEsc, PatMemoryAnomaly],
     acQuiet = False\<rparr>"

record analyzer =
  anCfg :: apt_config
  anAlerts :: "apt_alert list"
  anAlertCh :: "apt_alert list"
  anSigmaRules :: "(string \<times> sigma_rule) list"

text \<open>The capacity of the alert channel.\<close>

definition alertChCap :: nat where
  "alertChCap = 128"

definition NewAnalyzer :: "sigma_rule list \<Rightarrow> apt_config option \<Rightarrow> analyzer" where
  "NewAnalyzer defaults cfg = \<lparr>anCfg = (case cfg of None \<Rightarrow> DefaultAnalyzerConfig | Some c \<Rightarrow> c),
     anAlerts = [], anAlertCh = [],
     anSigmaRules = fold (\<lambda>rule. AList.update (if srID rule = [] then srTitle rule else srID rule) rule) defaults []\<rparr>"

definition ReloadConfig :: "apt_config \<Rightarrow> analyzer \<Rightarrow> analyzer" where
  "ReloadConfig cfg a = a\<lparr>anCfg := cfg\<rparr>"

definition AddSigmaRule :: "string \<Rightarrow> sigma_rule \<Rightarrow> analyzer \<Rightarrow> analyzer" where
  "AddSigmaRule i rule a = a\<lparr>anSigmaRules := AList.update i rule (anSigmaRules a)\<rparr>"

definition RemoveSigmaRule :: "string \<Rightarrow> analyzer \<Rightarrow> analyzer" where
  "RemoveSigmaRule i a = a\<lparr>anSigmaRules := AList.delete i (anSigmaRules a)\<rparr>"

definition SigmaRuleIDs :: "analyzer \<Rightarrow> string list" where
  "SigmaRuleIDs a = map fst (anSigmaRules a)"

definition sigmaLevelToSeverity :: "string \<Rightarrow> int" where
  "sigmaLevelToSeverity level =
     (if level \<in> {''critical'', ''CRITICAL''} then SeverityCritical
      else if level \<in> {''high'', ''HIGH''} then SeverityHigh
      else if level \<in> {''medium'', ''MEDIUM''} then SeverityMedium
      else if level \<in> {''low'', ''LOW''} then SeverityLow else SeverityMedium)"

definition sigmaAlert :: "string \<Rightarrow> sigma_rule \<Rightarrow> string list \<Rightarrow> apt_alert option" where
  "sigmaAlert i rule match = (case match of [] \<Rightarrow> None
    | alertNodeID # _ \<Rightarrow> Some (newAlert (''SIGMA:'' @ i) (sigmaLevelToSeverity (srLevel rule))
        (''[Sigma] '' @ srTitle rule @ '': matched '' @ showNat (length match) @ '' nodes'') alertNodeID
        (''Sigma rule '' @ goQuote (srTitle rule) @ '' matched nodes '' @ showStrings match)))"

definition sigmaAlerts :: "graph_snapshot \<Rightarrow> string \<times> sigma_rule \<Rightarrow> apt_alert list option" where
  "sigmaAlerts snap ir = (case ir of (i, rule) \<Rightarrow>
     those (map (sigmaAlert i rule) (EvaluateRule rule (gsNodes snap) (gsEdges snap))))"

text \<open>All alerts of a scan, before they are deduplicated; \<open>ml\<close> is the scorer of the online model.\<close>

definition detect ::
    "taint_seeds \<Rightarrow> (graph_snapshot \<Rightarrow> prop_engine \<Rightarrow> apt_alert option) option \<Rightarrow>
     graph_snapshot \<Rightarrow> prop_engine \<Rightarrow> analyzer \<Rightarrow> apt_alert list option" where
  "detect ts ml snap te a = do {
     let enabled = set (acEnablePatterns (anCfg a));
     let exfil = (if PatSensitiveExfil \<in> enabled then checkSensitiveExfil ts te else []);
     let script = (if PatScriptChild \<in> enabled then checkScriptChild te else []);
     deep \<leftarrow> (if PatDeepTaint \<in> enabled then checkDeepTaint te (acDeepTaintThreshold (anCfg a)) else Some []);
     let priv = (if PatPrivEsc \<in> enabled then checkPrivEsc te else []);
     let mem = (if PatMemoryAnomaly \<in> enabled then checkMemoryAnomaly te else []);
     let scored = (case ml of None \<Rightarrow> [] | Some score \<Rightarrow> (case score snap te of None \<Rightarrow> [] | Some al \<Rightarrow> [al]));
     rules \<leftarrow> those (map (sigmaAlerts snap) (anSigmaRules a));
     Some (exfil @ script @ deep @ priv @ mem @ scored @ concat rules)
   }"

definition alertKey :: "apt_alert \<Rightarrow> string" where
  "alertKey al = aaPattern al @ '':'' @ aaNodeID al"

text \<open>One alert: the subgraph, the check whether its key was seen in this scan, and the two destinations.\<close>

fun emitAlerts :: "time \<Rightarrow> prop_engine \<Rightarrow> string set \<Rightarrow> apt_alert list \<Rightarrow> analyzer \<Rightarrow> analyzer option" where
  "emitAlerts now te seen [] a = Some a"
| "emitAlerts now te seen (al # als) a = do {
     al \<leftarrow> ExtractSubgraph te (al\<lparr>aaDetectedAt := now\<rparr>);
     if alertKey al \<in> seen then emitAlerts now te seen als a
     else emitAlerts now te (insert (alertKey al) seen) als
       (a\<lparr>anAlerts := anAlerts a @ [al],
          anAlertCh := (if length (anAlertCh a) < alertChCap then anAlertCh a @ [al] else anAlertCh a)\<rparr>)
   }"

definition scan ::
    "taint_seeds \<Rightarrow> (graph_snapshot \<Rightarrow> prop_engine \<Rightarrow> apt_alert option) option \<Rightarrow>
     time \<Rightarrow> graph \<Rightarrow> analyzer \<Rightarrow> analyzer option" where
  "scan ts ml now g a =
     (if stNodes (graphStats g) = 0 then Some a
      else do {
        let snap = SnapshotFromGraph g;
        te \<leftarrow> NewPropEngine ts snap;
        alerts \<leftarrow> detect ts ml snap te a;
        emitAlerts now te {} alerts a
      })"

section \<open>A scan returns\<close>

lemma those_Some: "(\<And>x. x \<in> set xs \<Longrightarrow> x \<noteq> None) \<Longrightarrow> \<exists>ys. those xs = Some ys"
proof (induction xs)
  case (Cons x xs)
  obtain y where "x = Some y" using Cons.prems [of x] by auto
  with Cons show ?case by force
qed simp

lemma EvaluateRule_nonempty: "m \<in> set (EvaluateRule rule nodes edges) \<Longrightarrow> m \<noteq> []"
  by (auto simp: EvaluateRule_def matchProcess_def matchFileAccess_def matchNetwork_def matchGeneric_def
      in_map_filter matchEdge_def Let_def bind_eq_Some_conv split: if_splits option.splits)

lemma sigmaAlerts_Some: "\<exists>als. sigmaAlerts snap ir = Some als"
  unfolding sigmaAlerts_def case_prod_beta
  by (rule those_Some) (auto simp: sigmaAlert_def dest!: EvaluateRule_nonempty split: list.splits)

lemma checkDeepTaint_Some:
  assumes "NewPropEngine ts snap = Some te" shows "\<exists>als. checkDeepTaint te d = Some als"
proof -
  have "deepAlert te d p \<noteq> None" for p
    using engine_paths [OF assms, of "fst p"]
    by (auto simp: deepAlert_def case_prod_beta split: option.splits)
  then have "\<exists>als. those (map (deepAlert te d) (peTainted te)) = Some als" by (intro those_Some) auto
  then show ?thesis by (auto simp: checkDeepTaint_def)
qed

lemma detect_Some:
  assumes "NewPropEngine ts snap = Some te" shows "\<exists>als. detect ts ml snap te a = Some als"
proof -
  obtain deep where deep: "checkDeepTaint te (acDeepTaintThreshold (anCfg a)) = Some deep"
    using checkDeepTaint_Some [OF assms] by blast
  have "\<exists>rules. those (map (sigmaAlerts snap) (anSigmaRules a)) = Some rules"
    using sigmaAlerts_Some by (intro those_Some) auto
  with deep show ?thesis by (auto simp: detect_def Let_def)
qed

lemma pathLoop_hd: "pathLoop tm i = Some p \<Longrightarrow> i \<noteq> [] \<Longrightarrow> p \<noteq> [] \<and> hd p = i"
  by (subst (asm) pathLoop.simps) (auto simp: bind_eq_Some_conv split: option.splits)

lemma ExtractSubgraph_Some:
  assumes "NewPropEngine ts snap = Some te"
  obtains sg where "ExtractSubgraph te al = Some (al\<lparr>aaSubgraph := Some sg\<rparr>)"
    and "last (asPathNodeIDs sg) = aaNodeID al"
proof -
  obtain path where p: "PropagationPath te (aaNodeID al) = Some path" using engine_paths [OF assms] by blast
  have "last path = aaNodeID al" if "path \<noteq> []"
    using p that pathLoop_hd [of "peTainted te" "aaNodeID al"]
    by (cases "aaNodeID al = []") (auto simp: PropagationPath_def last_rev pathLoop.simps [of _ "[]"])
  define ids where "ids = (if path = [] then [aaNodeID al] else path)"
  have "ExtractSubgraph te al = Some (al\<lparr>aaSubgraph := Some
      \<lparr>asNodes = List.map_filter (map_of (peNodes te)) (remdups (ids @ contextIDs te ids)),
       asEdges = dedupEdges {} (filter (keepEdge ids (contextIDs te ids)) (allEdges te)),
       asPathNodeIDs = ids, asAlertNodeID = aaNodeID al\<rparr>\<rparr>)"
    unfolding ExtractSubgraph_def p Let_def ids_def by simp
  from that [OF this] \<open>path \<noteq> [] \<Longrightarrow> last path = aaNodeID al\<close> show thesis by (simp add: ids_def)
qed

definition explained :: "apt_alert \<Rightarrow> bool" where
  "explained al = (case aaSubgraph al of None \<Rightarrow> False | Some sg \<Rightarrow> last (asPathNodeIDs sg) = aaNodeID al)"

lemma emitAlerts_spec:
  assumes "NewPropEngine ts snap = Some te"
  shows "\<exists>new. (\<forall>a. emitAlerts now te seen als a = Some (a\<lparr>anAlerts := anAlerts a @ new,
        anAlertCh := anAlertCh a @ take (alertChCap - length (anAlertCh a)) new\<rparr>))
     \<and> distinct (map alertKey new) \<and> set (map alertKey new) = set (map alertKey als) - seen
     \<and> list_all explained new"
proof (induction als arbitrary: seen)
  case (Cons al als)
  obtain sg where sg: "ExtractSubgraph te (al\<lparr>aaDetectedAt := now\<rparr>) = Some (al\<lparr>aaDetectedAt := now, aaSubgraph := Some sg\<rparr>)"
    "last (asPathNodeIDs sg) = aaNodeID al"
    using ExtractSubgraph_Some [OF assms, of "al\<lparr>aaDetectedAt := now\<rparr>"] by auto
  define al' where "al' = al\<lparr>aaDetectedAt := now, aaSubgraph := Some sg\<rparr>"
  have k: "alertKey al' = alertKey al" and x: "explained al'" using sg(2) by (simp_all add: al'_def alertKey_def explained_def)
  note step = sg(1) [folded al'_def]
  show ?case
  proof (cases "alertKey al \<in> seen")
    case True
    then show ?thesis using Cons [of seen] step k by auto
  next
    case False
    obtain new where new: "\<And>a. emitAlerts now te (insert (alertKey al) seen) als a = Some (a\<lparr>anAlerts := anAlerts a @ new,
        anAlertCh := anAlertCh a @ take (alertChCap - length (anAlertCh a)) new\<rparr>)"
      "distinct (map alertKey new)" "set (map alertKey new) = set (map alertKey als) - insert (alertKey al) seen"
      "list_all explained new" using Cons by blast
    have "emitAlerts now te seen (al # als) a = Some (a\<lparr>anAlerts := anAlerts a @ al' # new,
        anAlertCh := anAlertCh a @ take (alertChCap - length (anAlertCh a)) (al' # new)\<rparr>)" for a
      using step k False by (simp add: new(1) take_Cons' Suc_diff_Suc)
    moreover have "alertKey al' \<notin> set (map alertKey new)" using new(3) k by auto
    ultimately show ?thesis using new(2-4) k x False by (intro exI [of _ "al' # new"]) auto
  qed
qed simp

text \<open>
  C27. Every scan returns, with whatever configuration, rules and graph. It reports each pair of pattern and
  node once, exactly the pairs that the enabled patterns, the online model and the rules detect; each alert carries a
  subgraph whose path ends at its node; and the alert channel gets the new alerts in order as long as it has room.
\<close>

theorem scan_reports_detections:
  "\<exists>new. scan ts ml now g a = Some (a\<lparr>anAlerts := anAlerts a @ new,
        anAlertCh := anAlertCh a @ take (alertChCap - length (anAlertCh a)) new\<rparr>)
     \<and> distinct (map alertKey new) \<and> list_all explained new
     \<and> (gNodes g = [] \<and> new = [] \<or> (\<exists>te als. NewPropEngine ts (SnapshotFromGraph g) = Some te
          \<and> detect ts ml (SnapshotFromGraph g) te a = Some als \<and> set (map alertKey new) = set (map alertKey als)))"
proof (cases "gNodes g = []")
  case True
  then show ?thesis by (intro exI [of _ "[]"]) (simp add: scan_def graphStats_def)
next
  case False
  obtain te where te: "NewPropEngine ts (SnapshotFromGraph g) = Some te"
    using engine_returns [of ts "SnapshotFromGraph g"] by metis
  obtain als where als: "detect ts ml (SnapshotFromGraph g) te a = Some als" using detect_Some [OF te] by blast
  from emitAlerts_spec [OF te, of now "{}" als] False te als show ?thesis
    by (auto simp: scan_def graphStats_def)
qed

section \<open>What the patterns detect\<close>

lemma update_fresh: "k \<notin> fst ` set m \<Longrightarrow> AList.update k v m = m @ [(k, v)]"
  by (induction m) auto

lemma peIndexed_nodes:
  assumes "wf_graph g" shows "peNodes (peIndexed (SnapshotFromGraph g)) = gNodes g"
proof -
  have "fold (\<lambda>n. AList.update (nID n) n) ns m = m @ map (\<lambda>n. (nID n, n)) ns"
    if "distinct (map nID ns)" "nID ` set ns \<inter> fst ` set m = {}" for ns :: "node list" and m
    using that by (induction ns arbitrary: m) (auto simp: update_fresh)
  moreover have "map (\<lambda>n. (nID n, n)) (graphNodes g) = gNodes g"
    using assms by (auto simp: graphNodes_def wf_graph_def list_all_iff node_ok_def intro!: map_idI)
  moreover have "map nID (graphNodes g) = map fst (gNodes g)"
    using assms by (auto simp: graphNodes_def wf_graph_def list_all_iff node_ok_def)
  ultimately show ?thesis using assms by (simp add: peIndexed_def SnapshotFromGraph_def wf_graph_def)
qed

text \<open>The engine of a graph: its nodes are those of the graph, its indices hold the edges of the graph.\<close>

lemma engine_graph:
  assumes "wf_graph g" and "NewPropEngine ts (SnapshotFromGraph g) = Some te"
  shows "map_of (peNodes te) i = LookupNode i g"
    and "mget0 [] (peForward te) i = filter (\<lambda>e. eSource e = i) (graphEdges g)"
    and "mget0 [] (peReverse te) i = filter (\<lambda>e. eTarget e = i) (graphEdges g)"
proof -
  obtain tm where "te = (peIndexed (SnapshotFromGraph g))\<lparr>peTainted := tm\<rparr>"
    using engine_returns [of ts "SnapshotFromGraph g"] assms(2) by force
  then show "map_of (peNodes te) i = LookupNode i g"
    "mget0 [] (peForward te) i = filter (\<lambda>e. eSource e = i) (graphEdges g)"
    "mget0 [] (peReverse te) i = filter (\<lambda>e. eTarget e = i) (graphEdges g)"
    using peIndexed_nodes [OF assms(1)] by (simp_all add: LookupNode_def) (simp_all add: SnapshotFromGraph_def)
qed

text \<open>
  The exfiltration pattern needs a node of subtype \<^verbatim>\<open>network\<close> next to a process, and the graph has none; a chain
  deeper than three steps cannot arise, since seeds have at most level four.
\<close>

lemma exfil_never_detected:
  assumes "runOps (graphStep rf) ops (NewGraph now) = Some g"
    and "NewPropEngine ts (SnapshotFromGraph g) = Some te"
  shows "checkSensitiveExfil ts te = []"
proof -
  note g = run_wf_typed [OF assms(1)]
  have "nSubtype n \<noteq> ''network''" if n: "n \<in> set (forwardNodes te i)" for n i
  proof -
    have "(nID n, n) \<in> set (gNodes g)"
      using n LookupNode_nID [OF g(1)] by (fastforce simp: forwardNodes_def in_map_filter engine_graph [OF g(1) assms(2)]
          LookupNode_def dest: map_of_SomeD)
    then have "nodeType (nID n) = Some (nProvType n, nSubtype n)"
      using g(2) by (auto simp: typed_graph_def list_all_iff typed_node_def)
    then show ?thesis by (auto simp: nodeType_def split: if_splits)
  qed
  then have "filter (\<lambda>n. nSubtype n = ''network'') (forwardNodes te i) = []" for i by (auto simp: filter_empty_conv)
  then show ?thesis by (simp add: checkSensitiveExfil_def exfilAlert_def List.map_filter_def Let_def split: option.splits)
qed

lemma deep_threshold_unreachable:
  assumes "NewPropEngine ts snap = Some te" and "4 \<le> d"
  shows "checkDeepTaint te d = Some []"
proof -
  have "deepAlert te d p = Some []" if "p \<in> set (peTainted te)" for p
    using engine_depth [OF assms(1), of "fst p" "snd p"] that assms(2) by (auto simp: deepAlert_def case_prod_beta)
  moreover have "those (map f ps) = Some (map (\<lambda>_. []) ps)" if "\<And>p. p \<in> set ps \<Longrightarrow> f p = Some []" for f ps
    using that by (induction ps) auto
  ultimately have "those (map (deepAlert te d) (peTainted te)) = Some (map (\<lambda>_. []) (peTainted te))" by blast
  then show ?thesis by (simp add: checkDeepTaint_def)
qed

text \<open>The script pattern: a reader of a version that a tainted process wrote.\<close>

lemma keys_writtenByTaint:
  "fst ` set (writtenByTaint te) = (\<Union>p \<in> set (peTainted te). set (writtenFiles te p))"
proof -
  have inner: "fst ` set (fold (\<lambda>f. AList.update f w) fs m) = set fs \<union> fst ` set m" for fs w and m :: "(string \<times> string) list"
    by (induction fs arbitrary: m) (auto simp: keys_mput [unfolded set_map])
  have "fst ` set (fold (\<lambda>p m. fold (\<lambda>f. AList.update f (fst p)) (writtenFiles te p) m) ps m)
      = (\<Union>p \<in> set ps. set (writtenFiles te p)) \<union> fst ` set m" for ps and m :: "(string \<times> string) list"
    by (induction ps arbitrary: m) (auto simp: inner)
  then show ?thesis by (simp add: writtenByTaint_def)
qed

lemma typed_edge_nodes:
  assumes "wf_graph g" and "typed_graph g" and "e \<in> set (graphEdges g)"
  shows "eRelation e = ProvUsed \<Longrightarrow> \<exists>n. LookupNode (eSource e) g = Some n \<and> nID n = eSource e \<and> nSubtype n = ''process''"
    and "eRelation e = ProvWasGeneratedBy \<Longrightarrow> \<exists>n. LookupNode (eSource e) g = Some n \<and> nID n = eSource e \<and> nSubtype n = ''file''"
    and "eRelation e = ProvWasGeneratedBy \<Longrightarrow> \<exists>n. LookupNode (eTarget e) g = Some n \<and> nSubtype n = ''process''"
  using edge_types [OF assms] LookupNode_nID [OF assms(1)] by (auto simp: relTyped_def)

lemma writtenFiles_graph:
  assumes "wf_graph g" and "typed_graph g" and "NewPropEngine ts (SnapshotFromGraph g) = Some te"
    and "(p, tn) \<in> set (peTainted te)"
  shows "f \<in> set (writtenFiles te (p, tn)) \<longleftrightarrow>
     (\<exists>e \<in> set (graphEdges g). eRelation e = ProvWasGeneratedBy \<and> eSource e = f \<and> eTarget e = p)"
proof -
  note te = engine_graph [OF assms(1,3)]
  have l: "\<not> tnLevel tn < 1" using engine_depth [OF assms(3,4)] by simp
  have "f \<in> set (writtenFiles te (p, tn)) \<longleftrightarrow> isProcess te p \<and>
     (\<exists>e \<in> set (graphEdges g). eRelation e = ProvWasGeneratedBy \<and> eTarget e = p
        \<and> (\<exists>n. LookupNode (eSource e) g = Some n \<and> nSubtype n = ''file'' \<and> nID n = f))"
    using l by (auto simp: writtenFiles_def in_map_filter te split: option.splits if_splits)
  then show ?thesis
    using typed_edge_nodes(2,3) [OF assms(1,2)] by (fastforce simp: isProcess_def te split: option.splits)
qed

lemma ex_target: "(\<exists>p tn. (p, tn) \<in> S \<and> (\<exists>w \<in> E. P w \<and> t w = p)) \<longleftrightarrow> (\<exists>w \<in> E. P w \<and> t w \<in> fst ` S)"
  by force

lemma script_chains_detected:
  assumes "runOps (graphStep rf) ops (NewGraph now) = Some g"
    and "NewPropEngine ts (SnapshotFromGraph g) = Some te"
  shows "r \<in> aaNodeID ` set (checkScriptChild te) \<longleftrightarrow>
    (\<exists>w u. w \<in> set (graphEdges g) \<and> u \<in> set (graphEdges g) \<and> eRelation w = ProvWasGeneratedBy \<and> eRelation u = ProvUsed
       \<and> eTarget w \<in> fst ` set (peTainted te) \<and> eTarget u = eSource w \<and> eSource u = r)"
proof -
  note g = run_wf_typed [OF assms(1)] and te = engine_graph [OF run_wf_typed(1) [OF assms(1)] assms(2)]
  have n: "aaNodeID (scriptAlert te f p n) = nID n" for f p n by (simp add: scriptAlert_def newAlert_def Let_def)
  have R: "r \<in> aaNodeID ` set (readerAlerts te (f, p)) \<longleftrightarrow>
     (\<exists>u \<in> set (graphEdges g). eRelation u = ProvUsed \<and> eTarget u = f \<and> eSource u = r)" for f p
  proof
    assume "r \<in> aaNodeID ` set (readerAlerts te (f, p))"
    then show "\<exists>u \<in> set (graphEdges g). eRelation u = ProvUsed \<and> eTarget u = f \<and> eSource u = r"
      using LookupNode_nID [OF g(1)] by (fastforce simp: readerAlerts_def in_map_filter te n split: option.splits if_splits)
  next
    assume "\<exists>u \<in> set (graphEdges g). eRelation u = ProvUsed \<and> eTarget u = f \<and> eSource u = r"
    then obtain u m where u: "u \<in> set (graphEdges g)" "eRelation u = ProvUsed" "eTarget u = f" "eSource u = r"
      "LookupNode r g = Some m" "nID m = r" "nSubtype m = ''process''"
      using typed_edge_nodes(1) [OF g] by blast
    then have "scriptAlert te f p m \<in> set (readerAlerts te (f, p))"
      by (auto simp: readerAlerts_def in_map_filter te intro!: bexI [of _ u])
    then have "aaNodeID (scriptAlert te f p m) \<in> aaNodeID ` set (readerAlerts te (f, p))" by (rule imageI)
    then show "r \<in> aaNodeID ` set (readerAlerts te (f, p))" by (simp add: n u(6))
  qed
  have "r \<in> aaNodeID ` set (checkScriptChild te) \<longleftrightarrow>
     (\<exists>f \<in> fst ` set (writtenByTaint te). \<exists>u \<in> set (graphEdges g). eRelation u = ProvUsed \<and> eTarget u = f \<and> eSource u = r)"
  proof -
    have "aaNodeID ` set (checkScriptChild te) = (\<Union>fp \<in> set (writtenByTaint te). aaNodeID ` set (readerAlerts te fp))"
      by (auto simp: checkScriptChild_def)
    then have "r \<in> aaNodeID ` set (checkScriptChild te) \<longleftrightarrow>
        (\<exists>fp \<in> set (writtenByTaint te). r \<in> aaNodeID ` set (readerAlerts te (fst fp, snd fp)))" by simp
    then show ?thesis unfolding R by simp
  qed
  moreover have "f \<in> fst ` set (writtenByTaint te) \<longleftrightarrow>
     (\<exists>w \<in> set (graphEdges g). eRelation w = ProvWasGeneratedBy \<and> eSource w = f \<and> eTarget w \<in> fst ` set (peTainted te))" for f
  proof -
    have "f \<in> fst ` set (writtenByTaint te) \<longleftrightarrow>
        (\<exists>p tn. (p, tn) \<in> set (peTainted te) \<and> f \<in> set (writtenFiles te (p, tn)))"
      unfolding keys_writtenByTaint by auto
    also have "\<dots> \<longleftrightarrow> (\<exists>p tn. (p, tn) \<in> set (peTainted te) \<and>
        (\<exists>w \<in> set (graphEdges g). eRelation w = ProvWasGeneratedBy \<and> eSource w = f \<and> eTarget w = p))"
      by (simp only: writtenFiles_graph [OF g assms(2)] cong: conj_cong)
    finally show ?thesis by (simp only: ex_target [of _ _ "\<lambda>w. _ w \<and> _ w", unfolded conj_assoc])
  qed
  ultimately show ?thesis by (simp only: Bex_def) blast
qed

text \<open>A second scan of an unchanged graph stores and sends all its alerts again.\<close>

lemma scan_repeats:
  assumes "scan ts ml now g a = Some a1" and "scan ts ml now g a1 = Some a2"
  shows "\<exists>new. anAlerts a1 = anAlerts a @ new \<and> anAlerts a2 = anAlerts a @ new @ new"
proof (cases "gNodes g = []")
  case True
  with assms show ?thesis by (simp add: scan_def graphStats_def)
next
  case False
  obtain te where te: "NewPropEngine ts (SnapshotFromGraph g) = Some te"
    using engine_returns [of ts "SnapshotFromGraph g"] by metis
  obtain als where als: "detect ts ml (SnapshotFromGraph g) te a = Some als" using detect_Some [OF te] by blast
  have "detect ts ml (SnapshotFromGraph g) te (a\<lparr>anAlerts := x, anAlertCh := y\<rparr>) = Some als" for x y
    using als by (simp add: detect_def cong: if_cong)
  moreover obtain new where "\<And>a. emitAlerts now te {} als a = Some (a\<lparr>anAlerts := anAlerts a @ new,
        anAlertCh := anAlertCh a @ take (alertChCap - length (anAlertCh a)) new\<rparr>)"
    using emitAlerts_spec [OF te, of now "{}" als] by blast
  ultimately show ?thesis using assms False te als by (auto simp: scan_def graphStats_def)
qed

end
