(* ===== verification/Query.thy ===== *)
theory Query
  imports ProvGraph
begin

text \<open>
  The query language ProvQL (\<^verbatim>\<open>internal/engine/query\<close>): the syntax tree (\<^verbatim>\<open>ast.go\<close>) and the lexer and
  recursive-descent parser (\<^verbatim>\<open>parser.go\<close>). The lexer works on bytes, which it classifies as Latin-1
  code points. An error is a value: a parse function returns it at once, as the Go code does, or the
  value with the parser state it leaves. \<open>rfc3339\<close> is \<^verbatim>\<open>time.Parse\<close> with \<^verbatim>\<open>RFC3339Nano\<close> and
  \<open>rfc3339s\<close> with \<^verbatim>\<open>RFC3339\<close>; \<^const>\<open>None\<close> is a parse error. Upper-casing is that of ASCII letters.
\<close>

section \<open>Syntax trees\<close>

datatype op = OpEQ | OpSTARTSWITH | OpCONTAINS | OpGT | OpLT | OpGTE | OpLTE

fun opString :: "op \<Rightarrow> string" where
  "opString OpEQ = ''=''"
| "opString OpSTARTSWITH = ''STARTSWITH''"
| "opString OpCONTAINS = ''CONTAINS''"
| "opString OpGT = ''>''"
| "opString OpLT = ''<''"
| "opString OpGTE = ''>=''"
| "opString OpLTE = ''<=''"

record node_pattern =
  npVariable :: string
  npLabel :: string

record edge_pattern =
  epRelation :: string

record path_pattern =
  ppNodes :: "node_pattern list"
  ppEdges :: "edge_pattern list"

record condition =
  cdField :: string
  cdOp :: op
  cdValue :: string

record time_window =
  twStart :: time
  twEnd :: time

record projection =
  pjVariable :: string
  pjField :: string

record query =
  qMatch :: path_pattern
  qWhere :: "condition list"
  qDuring :: "time_window option"
  qReturn :: "projection list"

section \<open>Lexer\<close>

datatype tokenType =
    tokEOF | tokMATCH | tokWHERE | tokDURING | tokRETURN | tokSTARTSWITH | tokCONTAINS
  | tokLPAREN | tokRPAREN | tokLBRACKET | tokRBRACKET | tokCOLON | tokMINUS | tokRARROW
  | tokCOMMA | tokDOT | tokEQ | tokGT | tokLT | tokGTE | tokLTE | tokSTRING | tokIDENT | tokNUMBER

record token =
  tkTyp :: tokenType
  tkVal :: string
  tkPos :: nat

abbreviation (input) zeroToken :: token where
  "zeroToken \<equiv> \<lparr>tkTyp = tokEOF, tkVal = [], tkPos = 0\<rparr>"

datatype query_error =
    UnterminatedString nat
  | UnexpectedChar char nat
  | Expected tokenType tokenType string nat
  | ExpectedOperator tokenType
  | BadTime string

record lexer =
  lxInput :: string
  lxPos :: nat

definition newLexer :: "string \<Rightarrow> lexer" where
  "newLexer input = \<lparr>lxInput = input, lxPos = 0\<rparr>"

text \<open>\<^verbatim>\<open>unicode.IsSpace\<close> and \<^verbatim>\<open>unicode.IsLetter\<close> of \<^verbatim>\<open>rune(b)\<close> for a byte \<^verbatim>\<open>b\<close>.\<close>

definition isSpaceByte :: "char \<Rightarrow> bool" where
  "isSpaceByte c = (let n = (of_char c :: nat) in (9 \<le> n \<and> n \<le> 13) \<or> n = 32 \<or> n = 133 \<or> n = 160)"

definition isLetterByte :: "char \<Rightarrow> bool" where
  "isLetterByte c = (let n = (of_char c :: nat) in
     (65 \<le> n \<and> n \<le> 90) \<or> (97 \<le> n \<and> n \<le> 122) \<or> n = 170 \<or> n = 181 \<or> n = 186
     \<or> (192 \<le> n \<and> n \<le> 214) \<or> (216 \<le> n \<and> n \<le> 246) \<or> (248 \<le> n \<and> n \<le> 255))"

definition lxPeek :: "lexer \<Rightarrow> char" where
  "lxPeek l = (if length (lxInput l) \<le> lxPos l then CHR 0x00 else lxInput l ! lxPos l)"

definition lxNext :: "lexer \<Rightarrow> char \<times> lexer" where
  "lxNext l = (if length (lxInput l) \<le> lxPos l then (CHR 0x00, l)
     else (lxInput l ! lxPos l, l\<lparr>lxPos := lxPos l + 1\<rparr>))"

text \<open>The loop \<^verbatim>\<open>for l.pos < len(l.input) && p(l.input[l.pos]) { l.pos++ }\<close> and the bytes it passes.\<close>

definition scanned :: "(char \<Rightarrow> bool) \<Rightarrow> lexer \<Rightarrow> string" where
  "scanned p l = takeWhile p (drop (lxPos l) (lxInput l))"

definition scanWhile :: "(char \<Rightarrow> bool) \<Rightarrow> lexer \<Rightarrow> lexer" where
  "scanWhile p l = l\<lparr>lxPos := lxPos l + length (scanned p l)\<rparr>"

definition skipWhitespace :: "lexer \<Rightarrow> lexer" where
  "skipWhitespace l = scanWhile isSpaceByte l"

definition isWordByte :: "char \<Rightarrow> bool" where
  "isWordByte c = (isLetterByte c \<or> c = CHR ''_'' \<or> c = CHR ''*'')"

definition readWord :: "lexer \<Rightarrow> string \<times> lexer" where
  "readWord l = (scanned isWordByte l, scanWhile isWordByte l)"

definition readString :: "char \<Rightarrow> lexer \<Rightarrow> (query_error + string) \<times> lexer" where
  "readString quote l =
     (let l = l\<lparr>lxPos := lxPos l + 1\<rparr>;
          start = lxPos l;
          val = scanned (\<lambda>c. c \<noteq> quote) l;
          l = scanWhile (\<lambda>c. c \<noteq> quote) l
      in if length (lxInput l) \<le> lxPos l then (Inl (UnterminatedString start), l)
         else (Inr val, l\<lparr>lxPos := lxPos l + 1\<rparr>))"

definition keyword :: "string \<Rightarrow> tokenType" where
  "keyword up =
     (if up = ''MATCH'' then tokMATCH
      else if up = ''WHERE'' then tokWHERE
      else if up = ''DURING'' then tokDURING
      else if up = ''RETURN'' then tokRETURN
      else if up = ''STARTSWITH'' then tokSTARTSWITH
      else if up = ''CONTAINS'' then tokCONTAINS
      else tokIDENT)"

definition singleChar :: "char \<Rightarrow> tokenType option" where
  "singleChar ch =
     (if ch = CHR ''('' then Some tokLPAREN
      else if ch = CHR '')'' then Some tokRPAREN
      else if ch = CHR ''['' then Some tokLBRACKET
      else if ch = CHR '']'' then Some tokRBRACKET
      else if ch = CHR '':'' then Some tokCOLON
      else if ch = CHR '','' then Some tokCOMMA
      else if ch = CHR ''.'' then Some tokDOT
      else None)"

definition isNumberByte :: "char \<Rightarrow> bool" where
  "isNumberByte c = (\<not> isSpaceByte c \<and> c \<noteq> CHR '']'' \<and> c \<noteq> CHR '','')"

text \<open>\<^verbatim>\<open>nextToken\<close> in two parts: the token that starts with a byte just read, and the whole.\<close>

definition tokenAt :: "nat \<Rightarrow> char \<Rightarrow> lexer \<Rightarrow> (query_error + token) \<times> lexer" where
  "tokenAt pos ch l1 =
     (let tok = (\<lambda>typ val l. (Inr \<lparr>tkTyp = typ, tkVal = val, tkPos = pos\<rparr>, l)) in
      case singleChar ch of Some typ \<Rightarrow> tok typ [ch] l1
      | None \<Rightarrow>
        if ch = CHR 0x22 \<or> ch = CHR 0x27 then
          (case readString ch (l1\<lparr>lxPos := lxPos l1 - 1\<rparr>) of
             (Inl e, l2) \<Rightarrow> (Inl e, l2)
           | (Inr val, l2) \<Rightarrow> tok tokSTRING val l2)
        else if ch = CHR ''-'' \<and> lxPeek l1 = CHR ''>'' then tok tokRARROW ''->'' (l1\<lparr>lxPos := lxPos l1 + 1\<rparr>)
        else if ch = CHR ''-'' then tok tokMINUS ''-'' l1
        else if isDigit ch then
          tok tokSTRING (ch # scanned isNumberByte l1) (scanWhile isNumberByte l1)
        else if ch = CHR ''>'' \<and> lxPeek l1 = CHR ''='' then tok tokGTE ''>='' (l1\<lparr>lxPos := lxPos l1 + 1\<rparr>)
        else if ch = CHR ''<'' \<and> lxPeek l1 = CHR ''='' then tok tokLTE ''<='' (l1\<lparr>lxPos := lxPos l1 + 1\<rparr>)
        else if ch = CHR ''='' then tok tokEQ ''='' l1
        else if ch = CHR ''>'' then tok tokGT ''>'' l1
        else if ch = CHR ''<'' then tok tokLT ''<'' l1
        else if isLetterByte ch \<or> ch = CHR ''_'' then
          (let (word, l2) = readWord (l1\<lparr>lxPos := lxPos l1 - 1\<rparr>)
           in tok (keyword (toUpper word)) word l2)
        else (Inl (UnexpectedChar ch pos), l1))"

definition nextToken :: "lexer \<Rightarrow> (query_error + token) \<times> lexer" where
  "nextToken l0 =
     (let l = skipWhitespace l0 in
      if length (lxInput l) \<le> lxPos l then (Inr \<lparr>tkTyp = tokEOF, tkVal = [], tkPos = lxPos l\<rparr>, l)
      else let pos = lxPos l; (ch, l1) = lxNext l in tokenAt pos ch l1)"

text \<open>The lexer only moves forward, and a token other than the end of input consumes at least a byte.\<close>

lemma scanWhile_fields [simp]:
  "lxInput (scanWhile p l) = lxInput l" "lxPos (scanWhile p l) = lxPos l + length (scanned p l)"
  by (simp_all add: scanWhile_def)

lemma scanned_pos: "lxPos l < length (lxInput l) \<Longrightarrow> p (lxInput l ! lxPos l) \<Longrightarrow> 0 < length (scanned p l)"
  by (simp add: scanned_def Cons_nth_drop_Suc [symmetric])

lemma nextToken_progress:
  assumes "nextToken l = (r, l')"
  shows "lxInput l' = lxInput l \<and> lxPos l \<le> lxPos l'
       \<and> (\<forall>t. r = Inr t \<and> tkTyp t \<noteq> tokEOF \<longrightarrow> lxPos l < length (lxInput l) \<and> lxPos l < lxPos l')"
proof -
  let ?s = "skipWhitespace l"
  have s: "lxInput ?s = lxInput l" "lxPos l \<le> lxPos ?s" by (simp_all add: skipWhitespace_def)
  show ?thesis
  proof (cases "length (lxInput l) \<le> lxPos ?s")
    case True
    then show ?thesis using assms s by (auto simp: nextToken_def Let_def)
  next
    case False
    have w: "isLetterByte (lxInput l ! lxPos ?s) \<or> lxInput l ! lxPos ?s = CHR ''_'' \<Longrightarrow>
        lxPos l < lxPos ?s + length (scanned isWordByte ?s)"
      using False s scanned_pos [of ?s isWordByte] by (auto simp: isWordByte_def simp del: length_greater_0_conv)
    from False show ?thesis using assms s w
      by (auto simp: nextToken_def tokenAt_def Let_def lxNext_def readWord_def readString_def
          split: option.splits if_splits sum.splits prod.splits)
  qed
qed

text \<open>The names of the token types in error messages.\<close>

fun tokenName :: "tokenType \<Rightarrow> string" where
  "tokenName tokEOF = ''EOF''"
| "tokenName tokMATCH = ''MATCH''"
| "tokenName tokWHERE = ''WHERE''"
| "tokenName tokDURING = ''DURING''"
| "tokenName tokRETURN = ''RETURN''"
| "tokenName tokSTARTSWITH = ''STARTSWITH''"
| "tokenName tokCONTAINS = ''CONTAINS''"
| "tokenName tokLPAREN = [CHR 0x27, CHR ''('', CHR 0x27]"
| "tokenName tokRPAREN = [CHR 0x27, CHR '')'', CHR 0x27]"
| "tokenName tokLBRACKET = [CHR 0x27, CHR ''['', CHR 0x27]"
| "tokenName tokRBRACKET = [CHR 0x27, CHR '']'', CHR 0x27]"
| "tokenName tokCOLON = [CHR 0x27, CHR '':'', CHR 0x27]"
| "tokenName tokRARROW = [CHR 0x27, CHR ''-'', CHR ''>'', CHR 0x27]"
| "tokenName tokCOMMA = [CHR 0x27, CHR '','', CHR 0x27]"
| "tokenName tokDOT = [CHR 0x27, CHR ''.'', CHR 0x27]"
| "tokenName tokEQ = [CHR 0x27, CHR ''='', CHR 0x27]"
| "tokenName tokSTRING = ''string''"
| "tokenName tokIDENT = ''identifier''"
| "tokenName tokMINUS = [CHR 0x27, CHR ''-'', CHR 0x27]"
| "tokenName tokGT = [CHR 0x27, CHR ''>'', CHR 0x27]"
| "tokenName tokLT = [CHR 0x27, CHR ''<'', CHR 0x27]"
| "tokenName tokGTE = [CHR 0x27, CHR ''>'', CHR ''='', CHR 0x27]"
| "tokenName tokLTE = [CHR 0x27, CHR ''<'', CHR ''='', CHR 0x27]"
| "tokenName tokNUMBER = ''token(23)''"

section \<open>Parser\<close>

record parser =
  psLexer :: lexer
  psCurr :: token
  psPeek :: token
  psErr :: "query_error option"

definition psNext :: "parser \<Rightarrow> parser" where
  "psNext p =
     (let p = p\<lparr>psCurr := psPeek p\<rparr>;
          (r, l) = nextToken (psLexer p);
          p = p\<lparr>psLexer := l\<rparr>
      in case r of Inl e \<Rightarrow> p\<lparr>psErr := Some e, psPeek := zeroToken\<rparr>
         | Inr tok \<Rightarrow> p\<lparr>psPeek := tok\<rparr>)"

definition expect :: "tokenType \<Rightarrow> parser \<Rightarrow> query_error + token \<times> parser" where
  "expect typ p =
     (case psErr p of Some e \<Rightarrow> Inl e
      | None \<Rightarrow> if tkTyp (psPeek p) \<noteq> typ
          then Inl (Expected typ (tkTyp (psPeek p)) (tkVal (psPeek p)) (tkPos (psPeek p)))
          else Inr (psPeek p, psNext p))"

definition parseNode :: "parser \<Rightarrow> query_error + node_pattern \<times> parser" where
  "parseNode p =
     (case expect tokLPAREN p of Inl e \<Rightarrow> Inl e | Inr (_, p) \<Rightarrow>
      case expect tokIDENT p of Inl e \<Rightarrow> Inl e | Inr (v, p) \<Rightarrow>
      case expect tokCOLON p of Inl e \<Rightarrow> Inl e | Inr (_, p) \<Rightarrow>
      case expect tokIDENT p of Inl e \<Rightarrow> Inl e | Inr (t, p) \<Rightarrow>
      case expect tokRPAREN p of Inl e \<Rightarrow> Inl e | Inr (_, p) \<Rightarrow>
      Inr (\<lparr>npVariable = tkVal v, npLabel = tkVal t\<rparr>, p))"

definition parseEdge :: "parser \<Rightarrow> query_error + edge_pattern \<times> parser" where
  "parseEdge p =
     (case expect tokMINUS p of Inl e \<Rightarrow> Inl e | Inr (_, p) \<Rightarrow>
      case expect tokLBRACKET p of Inl e \<Rightarrow> Inl e | Inr (_, p) \<Rightarrow>
      case expect tokCOLON p of Inl e \<Rightarrow> Inl e | Inr (_, p) \<Rightarrow>
      case expect tokIDENT p of Inl e \<Rightarrow> Inl e | Inr (t, p) \<Rightarrow>
      case expect tokRBRACKET p of Inl e \<Rightarrow> Inl e | Inr (_, p) \<Rightarrow>
      case expect tokRARROW p of Inl e \<Rightarrow> Inl e | Inr (_, p) \<Rightarrow>
      Inr (\<lparr>epRelation = toUpper (tkVal t)\<rparr>, p))"

text \<open>What is left to read: it decreases with every token the parser takes.\<close>

definition remaining :: "parser \<Rightarrow> nat" where
  "remaining p = (length (lxInput (psLexer p)) - lxPos (psLexer p))
     + (if tkTyp (psPeek p) = tokEOF then 0 else 1)"

lemma remaining_next:
  assumes "tkTyp (psPeek p) \<noteq> tokEOF" shows "remaining (psNext p) < remaining p"
proof -
  obtain r l' where n: "nextToken (psLexer p) = (r, l')" by fastforce
  note prog = nextToken_progress [OF n]
  show ?thesis
  proof (cases r)
    case (Inl e)
    with n prog assms show ?thesis
      by (simp add: psNext_def remaining_def Let_def le_imp_less_Suc diff_le_mono2)
  next
    case (Inr t)
    with prog have "tkTyp t \<noteq> tokEOF \<longrightarrow> lxPos (psLexer p) < length (lxInput (psLexer p)) \<and>
        lxPos (psLexer p) < lxPos l'" by simp
    with Inr n prog assms show ?thesis by (auto simp: psNext_def remaining_def Let_def)
  qed
qed

lemma remaining_expect:
  "expect typ p = Inr (t, p') \<Longrightarrow> typ \<noteq> tokEOF \<Longrightarrow> remaining p' < remaining p"
  by (auto simp: expect_def remaining_next split: option.splits if_splits)

lemma remaining_parseNode: "parseNode p = Inr (n, p') \<Longrightarrow> remaining p' < remaining p"
  by (auto simp: parseNode_def split: sum.splits dest!: remaining_expect)

lemma remaining_parseEdge: "parseEdge p = Inr (n, p') \<Longrightarrow> remaining p' < remaining p"
  by (auto simp: parseEdge_def split: sum.splits dest!: remaining_expect)

function parsePathLoop :: "path_pattern \<Rightarrow> parser \<Rightarrow> query_error + path_pattern \<times> parser" where
  "parsePathLoop path p =
     (if tkTyp (psPeek p) \<noteq> tokMINUS then Inr (path, p)
      else case parseEdge p of Inl e \<Rightarrow> Inl e | Inr (edge, p1) \<Rightarrow>
           case parseNode p1 of Inl e \<Rightarrow> Inl e | Inr (n, p2) \<Rightarrow>
           parsePathLoop (path\<lparr>ppEdges := ppEdges path @ [edge], ppNodes := ppNodes path @ [n]\<rparr>) p2)"
  by pat_completeness auto
termination
  by (relation "measure (\<lambda>(path, p). remaining p)")
    (auto dest!: remaining_parseNode remaining_parseEdge)

declare parsePathLoop.simps [simp del]

definition parsePath :: "parser \<Rightarrow> query_error + path_pattern \<times> parser" where
  "parsePath p =
     (case parseNode p of Inl e \<Rightarrow> Inl e | Inr (n, p) \<Rightarrow>
      parsePathLoop \<lparr>ppNodes = [n], ppEdges = []\<rparr> p)"

definition opToken :: "tokenType \<Rightarrow> op option" where
  "opToken t = (case t of tokEQ \<Rightarrow> Some OpEQ | tokSTARTSWITH \<Rightarrow> Some OpSTARTSWITH
     | tokCONTAINS \<Rightarrow> Some OpCONTAINS | tokGT \<Rightarrow> Some OpGT | tokLT \<Rightarrow> Some OpLT
     | tokGTE \<Rightarrow> Some OpGTE | tokLTE \<Rightarrow> Some OpLTE | _ \<Rightarrow> None)"

text \<open>A field name with an optional \<^verbatim>\<open>.sub\<close>, as conditions and projections read it.\<close>

definition parseDotted :: "parser \<Rightarrow> query_error + (string \<times> string option) \<times> parser" where
  "parseDotted p =
     (case expect tokIDENT p of Inl e \<Rightarrow> Inl e | Inr (t, p) \<Rightarrow>
      if tkTyp (psPeek p) = tokDOT then
        (case expect tokIDENT (psNext p) of Inl e \<Rightarrow> Inl e
         | Inr (t2, p) \<Rightarrow> Inr ((tkVal t, Some (tkVal t2)), p))
      else Inr ((tkVal t, None), p))"

definition parseConditions :: "parser \<Rightarrow> query_error + condition list \<times> parser" where
  "parseConditions p =
     (case parseDotted p of Inl e \<Rightarrow> Inl e | Inr ((v, sub), p) \<Rightarrow>
      let field = (case sub of None \<Rightarrow> v | Some s \<Rightarrow> v @ ''.'' @ s) in
      case opToken (tkTyp (psPeek p)) of None \<Rightarrow> Inl (ExpectedOperator (tkTyp (psPeek p)))
      | Some op \<Rightarrow>
      case expect tokSTRING (psNext p) of Inl e \<Rightarrow> Inl e | Inr (t, p) \<Rightarrow>
      Inr ([\<lparr>cdField = field, cdOp = op, cdValue = tkVal t\<rparr>], p))"

definition parseTime :: "(string \<Rightarrow> time option) \<Rightarrow> (string \<Rightarrow> time option) \<Rightarrow> string \<Rightarrow> query_error + time" where
  "parseTime rfc3339 rfc3339s s =
     (case rfc3339 s of Some t \<Rightarrow> Inr t
      | None \<Rightarrow> case rfc3339s s of Some t \<Rightarrow> Inr t | None \<Rightarrow> Inl (BadTime s))"

definition parseTimeWindow ::
    "(string \<Rightarrow> time option) \<Rightarrow> (string \<Rightarrow> time option) \<Rightarrow> parser \<Rightarrow> query_error + time_window \<times> parser" where
  "parseTimeWindow rfc3339 rfc3339s p =
     (case expect tokLBRACKET p of Inl e \<Rightarrow> Inl e | Inr (_, p) \<Rightarrow>
      case expect tokSTRING p of Inl e \<Rightarrow> Inl e | Inr (t1, p) \<Rightarrow>
      case expect tokCOMMA p of Inl e \<Rightarrow> Inl e | Inr (_, p) \<Rightarrow>
      case expect tokSTRING p of Inl e \<Rightarrow> Inl e | Inr (t2, p) \<Rightarrow>
      case expect tokRBRACKET p of Inl e \<Rightarrow> Inl e | Inr (_, p) \<Rightarrow>
      case parseTime rfc3339 rfc3339s (tkVal t1) of Inl e \<Rightarrow> Inl e | Inr start \<Rightarrow>
      case parseTime rfc3339 rfc3339s (tkVal t2) of Inl e \<Rightarrow> Inl e | Inr stop \<Rightarrow>
      Inr (\<lparr>twStart = start, twEnd = stop\<rparr>, p))"

lemma remaining_parseDotted: "parseDotted p = Inr (r, p') \<Longrightarrow> remaining p' < remaining p"
  by (auto simp: parseDotted_def split: sum.splits if_splits
      dest!: remaining_expect) (rule less_trans, assumption, rule less_trans [OF remaining_next], simp_all)

function parseProjections :: "projection list \<Rightarrow> parser \<Rightarrow> query_error + projection list \<times> parser" where
  "parseProjections projs p =
     (case parseDotted p of Inl e \<Rightarrow> Inl e | Inr ((v, sub), p1) \<Rightarrow>
      let proj = \<lparr>pjVariable = v, pjField = (case sub of None \<Rightarrow> [] | Some f \<Rightarrow> f)\<rparr>;
          projs' = projs @ [proj] in
      if tkTyp (psPeek p1) \<noteq> tokCOMMA then Inr (projs', p1)
      else parseProjections projs' (psNext p1))"
  by pat_completeness auto
termination
proof (relation "measure (\<lambda>(projs, p). remaining p)", goal_cases)
  case (2 projs p r x p1 v sub proj projs')
  then show ?case
    using remaining_parseDotted [of p "(v, sub)" p1] remaining_next [of p1] by auto
qed simp

declare parseProjections.simps [simp del]

definition parseQuery ::
    "(string \<Rightarrow> time option) \<Rightarrow> (string \<Rightarrow> time option) \<Rightarrow> parser \<Rightarrow> query_error + query" where
  "parseQuery rfc3339 rfc3339s p =
     (case expect tokMATCH p of Inl e \<Rightarrow> Inl e | Inr (_, p) \<Rightarrow>
      case parsePath p of Inl e \<Rightarrow> Inl e | Inr (path, p) \<Rightarrow>
      case (if tkTyp (psPeek p) = tokWHERE then parseConditions (psNext p) else Inr ([], p)) of
        Inl e \<Rightarrow> Inl e | Inr (conds, p) \<Rightarrow>
      case (if tkTyp (psPeek p) = tokDURING
            then (case parseTimeWindow rfc3339 rfc3339s (psNext p) of
                    Inl e \<Rightarrow> Inl e | Inr (tw, p) \<Rightarrow> Inr (Some tw, p))
            else Inr (None, p)) of
        Inl e \<Rightarrow> Inl e | Inr (tw, p) \<Rightarrow>
      case expect tokRETURN p of Inl e \<Rightarrow> Inl e | Inr (_, p) \<Rightarrow>
      case parseProjections [] p of Inl e \<Rightarrow> Inl e | Inr (proj, p) \<Rightarrow>
      Inr \<lparr>qMatch = path, qWhere = conds, qDuring = tw, qReturn = proj\<rparr>)"

definition Parse :: "(string \<Rightarrow> time option) \<Rightarrow> (string \<Rightarrow> time option) \<Rightarrow> string \<Rightarrow> query_error + query" where
  "Parse rfc3339 rfc3339s input =
     parseQuery rfc3339 rfc3339s
       (psNext \<lparr>psLexer = newLexer input, psCurr = zeroToken, psPeek = zeroToken, psErr = None\<rparr>)"

end
