(* ===== verification/QueryPrint.thy ===== *)
theory QueryPrint
  imports Query
begin

text \<open>
  A printer for ProvQL and the proof that the lexer and the parser invert it. Every token is printed
  after a space; the lexer's position in its input is read through the bytes that are left.
\<close>

section \<open>The lexer, on what is left of its input\<close>

definition rest :: "lexer \<Rightarrow> string" where
  "rest l = drop (lxPos l) (lxInput l)"

lemma rest_simps [simp]:
  "rest (l\<lparr>lxPos := lxPos l + n\<rparr>) = drop n (rest l)"
  "rest (l\<lparr>lxPos := Suc (lxPos l)\<rparr>) = tl (rest l)"
  "rest (scanWhile p l) = dropWhile p (rest l)"
  by (simp_all add: rest_def scanWhile_def scanned_def add.commute drop_Suc tl_drop dropWhile_eq_drop)

lemma scanned_rest: "scanned p l = takeWhile p (rest l)"
  by (simp add: scanned_def rest_def)

lemma rest_empty: "length (lxInput l) \<le> lxPos l \<longleftrightarrow> rest l = []"
  by (simp add: rest_def)

lemma rest_hd: "rest l \<noteq> [] \<Longrightarrow> lxInput l ! lxPos l = hd (rest l)"
  by (simp add: rest_def hd_drop_conv_nth)

lemma lxNext_rest: "rest l = c # s \<Longrightarrow> lxNext l = (c, l\<lparr>lxPos := Suc (lxPos l)\<rparr>)"
  using rest_empty [of l] rest_hd [of l] by (simp add: lxNext_def)

lemma lxPeek_rest: "lxPeek l = (case rest l of [] \<Rightarrow> CHR 0x00 | c # _ \<Rightarrow> c)"
  using rest_empty [of l] rest_hd [of l] by (simp add: lxPeek_def split: list.split)

definition lexes :: "lexer \<Rightarrow> tokenType \<Rightarrow> string \<Rightarrow> string \<Rightarrow> bool" where
  "lexes l typ val r \<longleftrightarrow> (\<exists>pos l'. nextToken l = (Inr \<lparr>tkTyp = typ, tkVal = val, tkPos = pos\<rparr>, l') \<and> rest l' = r)"

text \<open>The bytes after a token: none, or a space and the next token.\<close>

definition gap :: "string \<Rightarrow> bool" where
  "gap r \<longleftrightarrow> r = [] \<or> hd r = CHR '' ''"

lemma skip_gap:
  "rest l = CHR '' '' # c # s \<Longrightarrow> \<not> isSpaceByte c \<Longrightarrow> rest (skipWhitespace l) = c # s"
  by (simp add: skipWhitespace_def isSpaceByte_def)

lemma lexes_end: "rest l = [] \<Longrightarrow> lexes l tokEOF [] []"
  by (simp add: lexes_def nextToken_def skipWhitespace_def Let_def rest_empty [unfolded scanWhile_fields])

text \<open>The first byte of a token decides how it is read.\<close>

definition goodTok :: "tokenType \<times> string \<Rightarrow> bool" where
  "goodTok t \<longleftrightarrow> (case t of
      (tokSTRING, v) \<Rightarrow> CHR 0x22 \<notin> set v
    | (tokIDENT, v) \<Rightarrow> v \<noteq> [] \<and> list_all isWordByte v \<and> hd v \<noteq> CHR ''*'' \<and> keyword (toUpper v) = tokIDENT
    | (typ, v) \<Rightarrow> (typ, v) \<in> set [(tokMATCH, ''MATCH''), (tokWHERE, ''WHERE''), (tokDURING, ''DURING''),
        (tokRETURN, ''RETURN''), (tokSTARTSWITH, ''STARTSWITH''), (tokCONTAINS, ''CONTAINS''),
        (tokLPAREN, ''(''), (tokRPAREN, '')''), (tokLBRACKET, ''[''), (tokRBRACKET, '']''),
        (tokCOLON, '':''), (tokMINUS, ''-''), (tokRARROW, ''->''), (tokCOMMA, '',''), (tokDOT, ''.''),
        (tokEQ, ''=''), (tokGT, ''>''), (tokLT, ''<''), (tokGTE, ''>=''), (tokLTE, ''<='')])"

definition tokText :: "tokenType \<times> string \<Rightarrow> string" where
  "tokText t = (if fst t = tokSTRING then CHR 0x22 # snd t @ [CHR 0x22] else snd t)"

definition showToks :: "(tokenType \<times> string) list \<Rightarrow> string" where
  "showToks ts = concat (map (\<lambda>t. CHR '' '' # tokText t) ts)"

lemma gap_showToks: "gap (showToks ts)"
  by (cases ts) (simp_all add: showToks_def gap_def)

lemma nextToken_first:
  assumes "rest l = CHR '' '' # c # s" and "\<not> isSpaceByte c"
  obtains l1 where "rest l1 = s" "rest (l1\<lparr>lxPos := lxPos l1 - 1\<rparr>) = c # s"
    "nextToken l = tokenAt (lxPos l1 - 1) c l1"
proof -
  have r: "rest (skipWhitespace l) = c # s" using assms by (rule skip_gap)
  show ?thesis
    using r rest_empty [of "skipWhitespace l"] lxNext_rest [OF r]
    by (intro that [of "(skipWhitespace l)\<lparr>lxPos := Suc (lxPos (skipWhitespace l))\<rparr>"])
      (simp_all add: nextToken_def Let_def)
qed

lemma lexes_first:
  assumes "rest l = CHR '' '' # c # s" and "\<not> isSpaceByte c"
    and "\<And>l1. rest l1 = s \<Longrightarrow> rest (l1\<lparr>lxPos := lxPos l1 - 1\<rparr>) = c # s \<Longrightarrow>
      \<exists>l'. tokenAt (lxPos l1 - 1) c l1 = (Inr \<lparr>tkTyp = typ, tkVal = val, tkPos = lxPos l1 - 1\<rparr>, l') \<and> rest l' = r"
  shows "lexes l typ val r"
  using nextToken_first [OF assms(1,2)] assms(3) unfolding lexes_def by metis

text \<open>Punctuation and operators.\<close>

lemma lexes_symbol:
  assumes "(typ, v) \<in> set [(tokLPAREN, ''(''), (tokRPAREN, '')''), (tokLBRACKET, ''[''), (tokRBRACKET, '']''),
        (tokCOLON, '':''), (tokMINUS, ''-''), (tokRARROW, ''->''), (tokCOMMA, '',''), (tokDOT, ''.''),
        (tokEQ, ''=''), (tokGT, ''>''), (tokLT, ''<''), (tokGTE, ''>=''), (tokLTE, ''<='')]"
    and "rest l = CHR '' '' # v @ r" and "gap r"
  shows "lexes l typ v r"
proof -
  obtain c s where v: "v = c # s" using assms(1) by auto
  have c: "\<not> isSpaceByte c" using assms(1) v by (auto simp: isSpaceByte_def)
  have "tokenAt p c l1 = (Inr \<lparr>tkTyp = typ, tkVal = v, tkPos = p\<rparr>, l1\<lparr>lxPos := lxPos l1 + length s\<rparr>)"
    if "rest l1 = s @ r" for p l1
    using assms(1,3) that v unfolding list.set
    by (elim insertE emptyE; simp add: tokenAt_def singleChar_def lxPeek_rest isDigit_def gap_def
        split: list.split; auto)
  then show ?thesis
    using assms(2) v c by (intro lexes_first [of l c "s @ r"]) auto
qed

text \<open>Words: identifiers and keywords.\<close>

lemma takeWhile_word:
  "list_all isWordByte v \<Longrightarrow> gap r \<Longrightarrow> takeWhile isWordByte (v @ r) = v \<and> dropWhile isWordByte (v @ r) = r"
proof -
  assume v: "list_all isWordByte v" and r: "gap r"
  have "takeWhile isWordByte r = [] \<and> dropWhile isWordByte r = r"
    using r by (cases r) (auto simp: gap_def isWordByte_def isLetterByte_def)
  with v show ?thesis by (auto simp: list_all_iff)
qed

abbreviation (input) symbolBytes :: string where
  "symbolBytes \<equiv> ''()[]:,.-=><''"

lemma singleChar_symbol: "singleChar c = Some k \<Longrightarrow> c \<in> set symbolBytes"
  by (simp add: singleChar_def split: if_split_asm)

lemma symbol_not_word: "c \<in> set symbolBytes \<Longrightarrow> \<not> isWordByte c"
  by (auto simp: isWordByte_def isLetterByte_def)

lemma word_not_symbol: "isWordByte c \<Longrightarrow> singleChar c = None \<and> c \<notin> set symbolBytes"
  by (cases "singleChar c") (use singleChar_symbol symbol_not_word in blast)+

lemma word_first:
  "isWordByte c \<Longrightarrow> c \<noteq> CHR 0x22" "isWordByte c \<Longrightarrow> c \<noteq> CHR 0x27"
  "isWordByte c \<Longrightarrow> \<not> isDigit c" "isWordByte c \<Longrightarrow> \<not> isSpaceByte c"
  by (auto simp: isWordByte_def isLetterByte_def isDigit_def isSpaceByte_def Let_def)

lemma lexes_word:
  assumes "list_all isWordByte v" "v \<noteq> []" "hd v \<noteq> CHR ''*''" and "rest l = CHR '' '' # v @ r" and "gap r"
  shows "lexes l (keyword (toUpper v)) v r"
proof -
  obtain c s where v: "v = c # s" using assms(2) by (cases v) auto
  have c: "isWordByte c" "c \<noteq> CHR ''*''" using assms(1,3) v by auto
  note word = word_first [OF c(1)] word_not_symbol [OF c(1)]
  show ?thesis
  proof (rule lexes_first)
    show "rest l = CHR '' '' # c # (s @ r)" using assms(4) v by simp
    show "\<not> isSpaceByte c" using word by simp
    fix l1 assume "rest (l1\<lparr>lxPos := lxPos l1 - 1\<rparr>) = c # s @ r"
    then have "rest (l1\<lparr>lxPos := lxPos l1 - 1\<rparr>) = v @ r" using v by simp
    then show "\<exists>l'. tokenAt (lxPos l1 - 1) c l1 =
        (Inr \<lparr>tkTyp = keyword (toUpper v), tkVal = v, tkPos = lxPos l1 - 1\<rparr>, l') \<and> rest l' = r"
      using word c takeWhile_word [OF assms(1,5)]
      by (simp add: tokenAt_def Let_def readWord_def scanned_rest isWordByte_def)
  qed
qed

lemma lexes_string:
  assumes "CHR 0x22 \<notin> set v" and "rest l = CHR '' '' # CHR 0x22 # v @ CHR 0x22 # r"
  shows "lexes l tokSTRING v r"
proof (rule lexes_first [OF assms(2)])
  show "\<not> isSpaceByte (CHR 0x22)" by (simp add: isSpaceByte_def)
  fix l1 assume a: "rest l1 = v @ CHR 0x22 # r" "rest (l1\<lparr>lxPos := lxPos l1 - 1\<rparr>) = CHR 0x22 # v @ CHR 0x22 # r"
  let ?l = "l1\<lparr>lxPos := lxPos l1 - 1\<rparr>"
  let ?m = "?l\<lparr>lxPos := Suc (lxPos ?l)\<rparr>"
  have m: "rest ?m = v @ CHR 0x22 # r" using rest_simps(2) [of ?l] a(2) by simp
  have "takeWhile (\<lambda>c. c \<noteq> CHR 0x22) (v @ CHR 0x22 # r) = v"
    "dropWhile (\<lambda>c. c \<noteq> CHR 0x22) (v @ CHR 0x22 # r) = CHR 0x22 # r"
    using assms(1) by (auto simp: takeWhile_append dropWhile_append)
  then have "\<exists>l'. readString (CHR 0x22) ?l = (Inr v, l') \<and> rest l' = r"
    using m rest_empty [of "scanWhile (\<lambda>c. c \<noteq> CHR 0x22) ?m"]
      rest_simps(2) [of "scanWhile (\<lambda>c. c \<noteq> CHR 0x22) ?m"]
    by (simp add: readString_def Let_def scanned_rest)
  then show "\<exists>l'. tokenAt (lxPos l1 - 1) (CHR 0x22) l1 =
      (Inr \<lparr>tkTyp = tokSTRING, tkVal = v, tkPos = lxPos l1 - 1\<rparr>, l') \<and> rest l' = r"
    by (auto simp: tokenAt_def singleChar_def Let_def)
qed

lemma lexes_tok:
  assumes "goodTok (typ, v)" and "rest l = showToks ((typ, v) # ts)"
  shows "lexes l typ v (showToks ts)"
proof -
  note g = gap_showToks [of ts]
  have r: "rest l = CHR '' '' # tokText (typ, v) @ showToks ts" using assms(2) by (simp add: showToks_def)
  show ?thesis
    using assms(1) r g lexes_string [of v l "showToks ts"] lexes_symbol [of "typ" v l "showToks ts"]
      lexes_word [of v l "showToks ts"]
    by (cases "typ") (auto simp: goodTok_def tokText_def keyword_def toUpper_def upperChar_def isWordByte_def isLetterByte_def)
qed

section \<open>The parser, on the tokens that are left\<close>

definition at :: "parser \<Rightarrow> (tokenType \<times> string) list \<Rightarrow> bool" where
  "at p ts \<longleftrightarrow> psErr p = None \<and> list_all goodTok ts \<and> (case ts of
      [] \<Rightarrow> tkTyp (psPeek p) = tokEOF \<and> rest (psLexer p) = []
    | t # r \<Rightarrow> tkTyp (psPeek p) = fst t \<and> tkVal (psPeek p) = snd t \<and> rest (psLexer p) = showToks r)"

lemma psNext_at:
  assumes "psErr p = None" and "rest (psLexer p) = showToks ts" and "list_all goodTok ts"
  shows "at (psNext p) ts"
proof (cases ts)
  case Nil
  then have "lexes (psLexer p) tokEOF [] []" using assms(2) lexes_end by (simp add: showToks_def)
  with Nil assms show ?thesis by (auto simp: lexes_def psNext_def at_def Let_def)
next
  case (Cons t r)
  obtain k v where t: "t = (k, v)" by fastforce
  have "lexes (psLexer p) k v (showToks r)"
    using assms(2,3) by (intro lexes_tok) (auto simp: Cons t)
  with Cons t assms show ?thesis by (auto simp: lexes_def psNext_def at_def Let_def)
qed

lemma at_next: "at p (t # ts) \<Longrightarrow> at (psNext p) ts"
  by (rule psNext_at) (auto simp: at_def)

lemma at_peek: "at p (t # ts) \<Longrightarrow> tkTyp (psPeek p) = fst t" "at p (t # ts) \<Longrightarrow> tkVal (psPeek p) = snd t"
  by (simp_all add: at_def)

lemma at_expect: "at p ((k, v) # ts) \<Longrightarrow> expect k p = Inr (psPeek p, psNext p)"
  by (simp add: expect_def at_def)

section \<open>Printing\<close>

definition identTok :: "string \<Rightarrow> tokenType \<times> string" where
  "identTok v = (tokIDENT, v)"

definition isIdent :: "string \<Rightarrow> bool" where
  "isIdent v = goodTok (identTok v)"

definition nodeToks :: "node_pattern \<Rightarrow> (tokenType \<times> string) list" where
  "nodeToks np = [(tokLPAREN, ''(''), (tokIDENT, npVariable np), (tokCOLON, '':''), (tokIDENT, npLabel np),
     (tokRPAREN, '')'')]"

definition edgeToks :: "edge_pattern \<Rightarrow> (tokenType \<times> string) list" where
  "edgeToks ep = [(tokMINUS, ''-''), (tokLBRACKET, ''[''), (tokCOLON, '':''), (tokIDENT, epRelation ep),
     (tokRBRACKET, '']''), (tokRARROW, ''->'')]"

definition pathToks :: "path_pattern \<Rightarrow> (tokenType \<times> string) list" where
  "pathToks path = nodeToks (hd (ppNodes path)) @
     concat (map (\<lambda>(ep, np). edgeToks ep @ nodeToks np) (zip (ppEdges path) (tl (ppNodes path))))"

definition dottedToks :: "string \<Rightarrow> string option \<Rightarrow> (tokenType \<times> string) list" where
  "dottedToks v sub = (tokIDENT, v) # (case sub of None \<Rightarrow> [] | Some s \<Rightarrow> [(tokDOT, ''.''), (tokIDENT, s)])"

lemma parseNode_at:
  assumes "at p (nodeToks np @ ts)"
  shows "\<exists>p'. parseNode p = Inr (np, p') \<and> at p' ts"
proof -
  note a0 = assms [unfolded nodeToks_def append.simps]
  note a1 = at_next [OF a0] note a2 = at_next [OF a1] note a3 = at_next [OF a2]
  note a4 = at_next [OF a3] note a5 = at_next [OF a4]
  show ?thesis
    using a5 by (simp add: parseNode_def at_expect [OF a0] at_expect [OF a1] at_expect [OF a2]
        at_expect [OF a3] at_expect [OF a4] at_peek [OF a1] at_peek [OF a3])
qed

lemma parseEdge_at:
  assumes "at p (edgeToks ep @ ts)" and "toUpper (epRelation ep) = epRelation ep"
  shows "\<exists>p'. parseEdge p = Inr (ep, p') \<and> at p' ts"
proof -
  note a0 = assms(1) [unfolded edgeToks_def append.simps]
  note a1 = at_next [OF a0] note a2 = at_next [OF a1] note a3 = at_next [OF a2]
  note a4 = at_next [OF a3] note a5 = at_next [OF a4] note a6 = at_next [OF a5]
  show ?thesis
    using a6 assms(2) by (simp add: parseEdge_def at_expect [OF a0] at_expect [OF a1] at_expect [OF a2]
        at_expect [OF a3] at_expect [OF a4] at_expect [OF a5] at_peek [OF a3])
qed

lemma parseDotted_at:
  assumes "at p (dottedToks v sub @ ts)" and "ts = [] \<or> fst (hd ts) \<noteq> tokDOT"
  shows "\<exists>p'. parseDotted p = Inr ((v, sub), p') \<and> at p' ts"
proof (cases sub)
  case None
  note a0 = assms(1) [unfolded dottedToks_def None option.case append.simps]
  note a1 = at_next [OF a0]
  have "tkTyp (psPeek (psNext p)) \<noteq> tokDOT" using a1 assms(2) by (cases ts) (auto simp: at_def)
  then show ?thesis using a1 None by (simp add: parseDotted_def at_expect [OF a0] at_peek [OF a0])
next
  case (Some s)
  note a0 = assms(1) [unfolded dottedToks_def Some option.case append.simps]
  note a1 = at_next [OF a0] note a2 = at_next [OF a1] note a3 = at_next [OF a2]
  show ?thesis
    using a3 Some by (simp add: parseDotted_def at_expect [OF a0] at_expect [OF a2] at_peek [OF a0]
        at_peek [OF a1] at_peek [OF a2])
qed

lemma parsePathLoop_at:
  assumes "at p (concat (map (\<lambda>(ep, np). edgeToks ep @ nodeToks np) eps) @ ts)"
    and "list_all (\<lambda>(ep, np). toUpper (epRelation ep) = epRelation ep) eps"
    and "ts = [] \<or> fst (hd ts) \<noteq> tokMINUS"
  shows "\<exists>p'. parsePathLoop path p =
    Inr (path\<lparr>ppEdges := ppEdges path @ map fst eps, ppNodes := ppNodes path @ map snd eps\<rparr>, p') \<and> at p' ts"
  using assms
proof (induction eps arbitrary: path p)
  case Nil
  then have "tkTyp (psPeek p) \<noteq> tokMINUS" by (cases ts) (auto simp: at_def)
  with Nil show ?case by (subst parsePathLoop.simps) auto
next
  case (Cons x eps)
  obtain ep np where x: "x = (ep, np)" by fastforce
  have up: "toUpper (epRelation ep) = epRelation ep" using Cons.prems(2) x by simp
  let ?r = "concat (map (\<lambda>(ep, np). edgeToks ep @ nodeToks np) eps) @ ts"
  have a: "at p (edgeToks ep @ nodeToks np @ ?r)" using Cons.prems(1) x by simp
  then have m: "tkTyp (psPeek p) = tokMINUS" by (simp add: edgeToks_def at_def)
  obtain p1 where p1: "parseEdge p = Inr (ep, p1)" "at p1 (nodeToks np @ ?r)" using parseEdge_at [OF a up] by blast
  obtain p2 where p2: "parseNode p1 = Inr (np, p2)" "at p2 ?r" using parseNode_at [OF p1(2)] by blast
  have "list_all (\<lambda>(ep, np). toUpper (epRelation ep) = epRelation ep) eps" using Cons.prems(2) x by simp
  from Cons.IH [OF p2(2) this Cons.prems(3), of "path\<lparr>ppEdges := ppEdges path @ [ep], ppNodes := ppNodes path @ [np]\<rparr>"]
  show ?case using m p1 p2 x by (subst parsePathLoop.simps) simp
qed

definition wf_path_print :: "path_pattern \<Rightarrow> bool" where
  "wf_path_print path \<longleftrightarrow> length (ppNodes path) = length (ppEdges path) + 1
     \<and> list_all (\<lambda>np. isIdent (npVariable np) \<and> isIdent (npLabel np)) (ppNodes path)
     \<and> list_all (\<lambda>ep. isIdent (epRelation ep) \<and> toUpper (epRelation ep) = epRelation ep) (ppEdges path)"

lemma parsePath_at:
  assumes "at p (pathToks path @ ts)" and "wf_path_print path" and "ts = [] \<or> fst (hd ts) \<noteq> tokMINUS"
  shows "\<exists>p'. parsePath p = Inr (path, p') \<and> at p' ts"
proof -
  obtain np nps where N: "ppNodes path = np # nps" "length nps = length (ppEdges path)"
    using assms(2) by (cases "ppNodes path") (auto simp: wf_path_print_def)
  let ?z = "zip (ppEdges path) nps"
  have a: "at p (nodeToks np @ concat (map (\<lambda>(ep, np). edgeToks ep @ nodeToks np) ?z) @ ts)"
    using assms(1) N by (simp add: pathToks_def)
  obtain p1 where p1: "parseNode p = Inr (np, p1)"
    "at p1 (concat (map (\<lambda>(ep, np). edgeToks ep @ nodeToks np) ?z) @ ts)" using parseNode_at [OF a] by blast
  have "list_all (\<lambda>(ep, np). toUpper (epRelation ep) = epRelation ep) ?z"
    using assms(2) by (auto simp: wf_path_print_def list_all_iff dest: set_zip_leftD)
  from parsePathLoop_at [OF p1(2) this assms(3), of "\<lparr>ppNodes = [np], ppEdges = []\<rparr>"]
  show ?thesis using p1 N by (cases path) (auto simp: parsePath_def)
qed

fun opTok :: "op \<Rightarrow> tokenType \<times> string" where
  "opTok OpEQ = (tokEQ, ''='')"
| "opTok OpSTARTSWITH = (tokSTARTSWITH, ''STARTSWITH'')"
| "opTok OpCONTAINS = (tokCONTAINS, ''CONTAINS'')"
| "opTok OpGT = (tokGT, ''>'')"
| "opTok OpLT = (tokLT, ''<'')"
| "opTok OpGTE = (tokGTE, ''>='')"
| "opTok OpLTE = (tokLTE, ''<='')"

definition splitField :: "string \<Rightarrow> string \<times> string option" where
  "splitField f = (takeWhile (\<lambda>c. c \<noteq> CHR ''.'') f,
     case dropWhile (\<lambda>c. c \<noteq> CHR ''.'') f of [] \<Rightarrow> None | _ # s \<Rightarrow> Some s)"

definition condToks :: "condition \<Rightarrow> (tokenType \<times> string) list" where
  "condToks c = dottedToks (fst (splitField (cdField c))) (snd (splitField (cdField c)))
     @ [opTok (cdOp c), (tokSTRING, cdValue c)]"

lemma splitField_join:
  "(case snd (splitField f) of None \<Rightarrow> fst (splitField f) | Some s \<Rightarrow> fst (splitField f) @ ''.'' @ s) = f"
proof (cases "dropWhile (\<lambda>c. c \<noteq> CHR ''.'') f")
  case Nil
  then have "takeWhile (\<lambda>c. c \<noteq> CHR ''.'') f = f"
    using takeWhile_dropWhile_id [of "\<lambda>c. c \<noteq> CHR ''.''" f] by (simp only: append_Nil2)
  then show ?thesis by (simp only: splitField_def Nil fst_conv snd_conv list.case option.case)
next
  case (Cons c s)
  then have "c = CHR ''.''" using hd_dropWhile [of "\<lambda>c. c \<noteq> CHR ''.''" f] by auto
  then show ?thesis using Cons takeWhile_dropWhile_id [of "\<lambda>c. c \<noteq> CHR ''.''" f] by (simp add: splitField_def)
qed

lemma opToken_opTok: "opToken (fst (opTok x)) = Some x" "fst (opTok x) \<noteq> tokDOT"
  by (cases x; simp add: opToken_def)+

lemma parseConditions_at:
  assumes "at p (condToks c @ ts)"
  shows "\<exists>p'. parseConditions p = Inr ([c], p') \<and> at p' ts"
proof -
  have a: "at p (dottedToks (fst (splitField (cdField c))) (snd (splitField (cdField c)))
      @ opTok (cdOp c) # (tokSTRING, cdValue c) # ts)" using assms by (simp add: condToks_def)
  obtain p1 where p1: "parseDotted p = Inr ((fst (splitField (cdField c)), snd (splitField (cdField c))), p1)"
    "at p1 (opTok (cdOp c) # (tokSTRING, cdValue c) # ts)"
    using parseDotted_at [OF a] opToken_opTok by auto
  note a1 = at_next [OF p1(2)] note a2 = at_next [OF a1]
  show ?thesis
    using a2 splitField_join [of "cdField c"]
    by (simp add: parseConditions_def p1(1) at_peek [OF p1(2)] opToken_opTok at_expect [OF a1]
        at_peek [OF a1] Let_def case_prod_beta cong: option.case_cong)
qed

definition windowToks :: "(time \<Rightarrow> string) \<Rightarrow> time_window \<Rightarrow> (tokenType \<times> string) list" where
  "windowToks showTime w = [(tokLBRACKET, ''[''), (tokSTRING, showTime (twStart w)), (tokCOMMA, '',''),
     (tokSTRING, showTime (twEnd w)), (tokRBRACKET, '']'')]"

lemma parseTimeWindow_at:
  assumes "at p (windowToks showTime w @ ts)"
    and "rfc3339 (showTime (twStart w)) = Some (twStart w)" "rfc3339 (showTime (twEnd w)) = Some (twEnd w)"
  shows "\<exists>p'. parseTimeWindow rfc3339 rfc3339s p = Inr (w, p') \<and> at p' ts"
proof -
  note a0 = assms(1) [unfolded windowToks_def append.simps]
  note a1 = at_next [OF a0] note a2 = at_next [OF a1] note a3 = at_next [OF a2]
  note a4 = at_next [OF a3] note a5 = at_next [OF a4]
  show ?thesis
    using a5 by (simp add: parseTimeWindow_def at_expect [OF a0] at_expect [OF a1] at_expect [OF a2]
        at_expect [OF a3] at_expect [OF a4] at_peek [OF a1] at_peek [OF a3] parseTime_def assms(2,3))
qed

definition projTok :: "projection \<Rightarrow> (tokenType \<times> string) list" where
  "projTok pj = dottedToks (pjVariable pj) (if pjField pj = [] then None else Some (pjField pj))"

fun projToks :: "projection list \<Rightarrow> (tokenType \<times> string) list" where
  "projToks [] = []"
| "projToks [pj] = projTok pj"
| "projToks (pj # pjs) = projTok pj @ (tokCOMMA, '','') # projToks pjs"

lemma parseProjections_at:
  assumes "at p (projToks pjs)" and "pjs \<noteq> []"
  shows "\<exists>p'. parseProjections projs p = Inr (projs @ pjs, p') \<and> at p' []"
  using assms
proof (induction pjs arbitrary: projs p rule: projToks.induct)
  case (2 pj)
  have "at p (projTok pj @ [])" using 2 by simp
  then obtain p1 where p1: "parseDotted p = Inr ((pjVariable pj, if pjField pj = [] then None else Some (pjField pj)), p1)"
    "at p1 []" using parseDotted_at unfolding projTok_def by blast
  then have "tkTyp (psPeek p1) \<noteq> tokCOMMA" by (simp add: at_def)
  with p1 show ?case by (subst parseProjections.simps) (cases pj, auto simp: Let_def)
next
  case (3 pj q pjs)
  let ?r = "(tokCOMMA, '','') # projToks (q # pjs)"
  have "at p (projTok pj @ ?r)" using 3 by simp
  then obtain p1 where p1: "parseDotted p = Inr ((pjVariable pj, if pjField pj = [] then None else Some (pjField pj)), p1)"
    "at p1 ?r" using parseDotted_at [of p _ _ ?r] unfolding projTok_def by fastforce
  have "tkTyp (psPeek p1) = tokCOMMA" using at_peek(1) [OF p1(2)] by simp
  with p1 3(1) [OF at_next [OF p1(2)], of "projs @ [pj]"] show ?case
    by (subst parseProjections.simps) (cases pj, auto simp: Let_def)
qed simp

section \<open>The round trip\<close>

definition queryToks :: "(time \<Rightarrow> string) \<Rightarrow> query \<Rightarrow> (tokenType \<times> string) list" where
  "queryToks showTime q = (tokMATCH, ''MATCH'') # pathToks (qMatch q)
     @ (case qWhere q of [] \<Rightarrow> [] | c # _ \<Rightarrow> (tokWHERE, ''WHERE'') # condToks c)
     @ (case qDuring q of None \<Rightarrow> [] | Some w \<Rightarrow> (tokDURING, ''DURING'') # windowToks showTime w)
     @ (tokRETURN, ''RETURN'') # projToks (qReturn q)"

definition showQuery :: "(time \<Rightarrow> string) \<Rightarrow> query \<Rightarrow> string" where
  "showQuery showTime q = showToks (queryToks showTime q)"

definition wf_query :: "query \<Rightarrow> bool" where
  "wf_query q \<longleftrightarrow> wf_path_print (qMatch q)
     \<and> (qWhere q = [] \<or> (\<exists>c. qWhere q = [c] \<and> isIdent (fst (splitField (cdField c)))
         \<and> (case snd (splitField (cdField c)) of None \<Rightarrow> True | Some s \<Rightarrow> isIdent s) \<and> CHR 0x22 \<notin> set (cdValue c)))
     \<and> qReturn q \<noteq> []
     \<and> list_all (\<lambda>pj. isIdent (pjVariable pj) \<and> (pjField pj = [] \<or> isIdent (pjField pj))) (qReturn q)"

text \<open>What the query's time window needs of the time library: its printed bounds parse back.\<close>

definition times_ok :: "(string \<Rightarrow> time option) \<Rightarrow> (time \<Rightarrow> string) \<Rightarrow> query \<Rightarrow> bool" where
  "times_ok rfc3339 showTime q \<longleftrightarrow> (case qDuring q of None \<Rightarrow> True | Some w \<Rightarrow>
     rfc3339 (showTime (twStart w)) = Some (twStart w) \<and> CHR 0x22 \<notin> set (showTime (twStart w))
   \<and> rfc3339 (showTime (twEnd w)) = Some (twEnd w) \<and> CHR 0x22 \<notin> set (showTime (twEnd w)))"

lemma goodTok_fixed [simp]:
  "goodTok (tokMATCH, ''MATCH'')" "goodTok (tokWHERE, ''WHERE'')" "goodTok (tokDURING, ''DURING'')"
  "goodTok (tokRETURN, ''RETURN'')" "goodTok (tokLPAREN, ''('')" "goodTok (tokRPAREN, '')'')"
  "goodTok (tokLBRACKET, ''['')" "goodTok (tokRBRACKET, '']'')" "goodTok (tokCOLON, '':'')"
  "goodTok (tokMINUS, ''-'')" "goodTok (tokRARROW, ''->'')" "goodTok (tokCOMMA, '','')"
  "goodTok (tokDOT, ''.'')" "goodTok (opTok x)"
  "goodTok (tokSTRING, v) \<longleftrightarrow> CHR 0x22 \<notin> set v" "goodTok (tokIDENT, v) \<longleftrightarrow> isIdent v"
  by (simp_all add: goodTok_def isIdent_def identTok_def) (cases x; simp add: goodTok_def)

lemma goodToks_path: "wf_path_print path \<Longrightarrow> list_all goodTok (pathToks path)"
  by (cases "ppNodes path")
    (auto simp: wf_path_print_def pathToks_def nodeToks_def edgeToks_def list_all_iff
      dest: set_zip_leftD set_zip_rightD)

lemma goodToks_proj:
  "list_all (\<lambda>pj. isIdent (pjVariable pj) \<and> (pjField pj = [] \<or> isIdent (pjField pj))) pjs \<Longrightarrow>
   list_all goodTok (projToks pjs)"
  by (induction pjs rule: projToks.induct) (auto simp: projTok_def dottedToks_def)

lemma goodToks_query:
  assumes "wf_query q" and "times_ok rfc3339 showTime q"
  shows "list_all goodTok (queryToks showTime q)"
  using assms goodToks_path [of "qMatch q"] goodToks_proj [of "qReturn q"]
  by (auto simp: queryToks_def wf_query_def times_ok_def windowToks_def condToks_def dottedToks_def split: option.splits)

lemma Parse_showQuery:
  assumes wf: "wf_query q" and t: "times_ok rfc3339 showTime q"
  shows "Parse rfc3339 rfc3339s (showQuery showTime q) = Inr q"
proof -
  let ?p = "\<lparr>psLexer = newLexer (showQuery showTime q), psCurr = zeroToken, psPeek = zeroToken, psErr = None\<rparr>"
  let ?W = "case qWhere q of [] \<Rightarrow> [] | c # _ \<Rightarrow> (tokWHERE, ''WHERE'') # condToks c"
  let ?D = "case qDuring q of None \<Rightarrow> [] | Some w \<Rightarrow> (tokDURING, ''DURING'') # windowToks showTime w"
  let ?R = "(tokRETURN, ''RETURN'') # projToks (qReturn q)"
  have "at (psNext ?p) (queryToks showTime q)"
    by (rule psNext_at) (use goodToks_query [OF wf t] in \<open>simp_all add: newLexer_def rest_def showQuery_def\<close>)
  then have a0: "at (psNext ?p) ((tokMATCH, ''MATCH'') # pathToks (qMatch q) @ ?W @ ?D @ ?R)"
    by (simp only: queryToks_def)
  have "?W @ ?D @ ?R = [] \<or> fst (hd (?W @ ?D @ ?R)) \<noteq> tokMINUS" by (auto split: list.split option.split)
  then obtain p1 where p1: "parsePath (psNext (psNext ?p)) = Inr (qMatch q, p1)" "at p1 (?W @ ?D @ ?R)"
    using parsePath_at [OF at_next [OF a0]] wf unfolding wf_query_def by blast
  obtain p2 where p2: "(if tkTyp (psPeek p1) = tokWHERE then parseConditions (psNext p1) else Inr ([], p1)) = Inr (qWhere q, p2)"
    "at p2 (?D @ ?R)"
  proof (cases "qWhere q")
    case Nil
    then have d: "at p1 (?D @ ?R)" using p1(2) by simp
    then have "tkTyp (psPeek p1) \<noteq> tokWHERE" by (auto simp: at_def split: option.splits)
    with d show ?thesis using that Nil by simp
  next
    case (Cons c cs)
    then have c: "qWhere q = [c]" using wf by (auto simp: wf_query_def)
    then have w: "at p1 ((tokWHERE, ''WHERE'') # condToks c @ ?D @ ?R)" using p1(2) by simp
    from parseConditions_at [OF at_next [OF w]] that show ?thesis using at_peek(1) [OF w] c by auto
  qed
  obtain p3 where p3: "(if tkTyp (psPeek p2) = tokDURING
      then (case parseTimeWindow rfc3339 rfc3339s (psNext p2) of Inl e \<Rightarrow> Inl e | Inr (tw, p) \<Rightarrow> Inr (Some tw, p))
      else Inr (None, p2)) = Inr (qDuring q, p3)" "at p3 ?R"
  proof (cases "qDuring q")
    case None
    then have "at p2 ?R" using p2(2) by simp
    then show ?thesis using that None at_peek(1) by simp
  next
    case (Some w)
    then have d: "at p2 ((tokDURING, ''DURING'') # windowToks showTime w @ ?R)" using p2(2) by simp
    obtain p' where "parseTimeWindow rfc3339 rfc3339s (psNext p2) = Inr (w, p')" "at p' ?R"
      using parseTimeWindow_at [OF at_next [OF d]] t Some unfolding times_ok_def by auto
    then show ?thesis using that at_peek(1) [OF d] Some by simp
  qed
  obtain p4 where "parseProjections [] (psNext p3) = Inr (qReturn q, p4)"
    using parseProjections_at [OF at_next [OF p3(2)], of "[]"] wf by (auto simp: wf_query_def)
  then show ?thesis
    using p1(1) p2(1) p3(1)
    by (simp add: Parse_def parseQuery_def at_expect [OF a0] at_expect [OF p3(2)])
qed

end
