(* ===== verification/QueryExec.thy ===== *)
theory QueryExec
  imports Query ProvGraphInv
begin

text \<open>
  The executor of ProvQL (\<^verbatim>\<open>internal/engine/query/executor.go\<close>): depth-first matching of the path
  pattern on the provenance graph, filters, and result rows. \<^const>\<open>None\<close> is a panic (an index past the
  end of the pattern). A row's elapsed time is left out.
\<close>

section \<open>Tables and fields\<close>

definition labelToSubtype :: "string \<Rightarrow> string" where
  "labelToSubtype l = mget0 [] [(''Process'', ''process''), (''File'', ''file''), (''Network'', ''network''),
     (''Pipe'', ''pipe''), (''Memory'', ''memory''), (''Credential'', ''credential'')] l"

definition relationMapping :: "string \<Rightarrow> string" where
  "relationMapping r = mget0 [] [(''WROTE'', ProvWasGeneratedBy), (''READ'', ProvUsed),
     (''FORKED'', ProvWasInformedBy), (''CONNECTED'', ProvUsed), (''DERIVED'', ProvWasDerivedFrom),
     (''CONTEXT'', ProvHadSecurityContext)] r"

text \<open>\<^verbatim>\<open>fmt.Sprintf("%v", n.Attributes[k])\<close>\<close>

definition sprintAttr :: "attr option \<Rightarrow> string" where
  "sprintAttr a = (case a of None \<Rightarrow> ''<nil>'' | Some (AStr s) \<Rightarrow> s | Some (AU32 w) \<Rightarrow> showU w
     | Some (AU64 w) \<Rightarrow> showU w | Some (ABool b) \<Rightarrow> (if b then ''true'' else ''false''))"

definition getField :: "node \<Rightarrow> string \<Rightarrow> string" where
  "getField n field =
     (let f = toLower field; at = (\<lambda>k. sprintAttr (map_of (nAttributes n) k)) in
      if f = ''id'' then nID n
      else if f = ''label'' \<or> f = ''name'' \<or> f = ''comm'' then nLabel n
      else if f = ''type'' \<or> f = ''subtype'' then nSubtype n
      else if f = ''pid'' then at ''pid''
      else if f = ''uid'' then at ''uid''
      else if f = ''inode'' then at ''inode''
      else if f = ''path'' then nLabel n
      else if f = ''mode'' then at ''mode''
      else at field)"

definition evaluate :: "string \<Rightarrow> op \<Rightarrow> string \<Rightarrow> bool" where
  "evaluate actual op expected = (case op of
      OpEQ \<Rightarrow> actual = expected
    | OpSTARTSWITH \<Rightarrow> hasPrefix actual expected
    | OpCONTAINS \<Rightarrow> containsStr actual expected
    | _ \<Rightarrow> actual = expected)"

fun matchesWhere :: "node \<Rightarrow> string \<Rightarrow> condition list \<Rightarrow> bool" where
  "matchesWhere n variable [] = True"
| "matchesWhere n variable (c # cs) =
     (if \<not> hasPrefix (cdField c) (variable @ ''.'') then matchesWhere n variable cs
      else let field = trimPrefix (cdField c) (variable @ ''.'') in
        if \<not> evaluate (getField n field) (cdOp c) (cdValue c) then False else matchesWhere n variable cs)"

section \<open>Rows\<close>

type_synonym bindings = "(string \<times> node) list"
type_synonym row = "(string \<times> attr) list"

record query_result =
  rsColumns :: "string list"
  rsRows :: "row list"

definition rowOf :: "string \<Rightarrow> node \<Rightarrow> row \<Rightarrow> row" where
  "rowOf v n r =
     (let r = AList.update v (AStr (nID n)) r;
          r = AList.update (v @ ''.id'') (AStr (nID n)) r;
          r = AList.update (v @ ''.label'') (AStr (nLabel n)) r;
          r = AList.update (v @ ''.type'') (AStr (nSubtype n)) r
      in fold (\<lambda>(k, a) r. AList.update (v @ ''.'' @ k) a r) (nAttributes n) r)"

definition buildRow :: "bindings \<Rightarrow> path_pattern \<Rightarrow> row" where
  "buildRow b path =
     fold (\<lambda>np r. case map_of b (npVariable np) of None \<Rightarrow> r | Some n \<Rightarrow> rowOf (npVariable np) n r)
       (ppNodes path) []"

section \<open>Traversal\<close>

text \<open>The node an edge leads to from a node, forward or reverse: \<^const>\<open>None\<close> when it does not touch it.\<close>

definition stepNode :: "graph \<Rightarrow> node \<Rightarrow> edge \<Rightarrow> node option" where
  "stepNode g n e =
     (if eSource e = nID n then LookupNode (eTarget e) g
      else if eTarget e = nID n then LookupNode (eSource e) g
      else None)"

definition inWindow :: "time_window option \<Rightarrow> edge \<Rightarrow> bool" where
  "inWindow during e = (case during of None \<Rightarrow> True
     | Some w \<Rightarrow> \<not> (eTimestamp e < twStart w \<or> twEnd w < eTimestamp e))"

text \<open>The checks of the loop body of \<^verbatim>\<open>traverse\<close>: the node to go on with, if the edge passes them all.\<close>

definition follow ::
    "graph \<Rightarrow> node \<Rightarrow> string \<Rightarrow> node_pattern \<Rightarrow> condition list \<Rightarrow> time_window option \<Rightarrow> edge \<Rightarrow> node option" where
  "follow g n provRel np wh during e =
     (case stepNode g n e of None \<Rightarrow> None
      | Some t \<Rightarrow>
        if provRel \<noteq> [] \<and> eRelation e \<noteq> provRel then None
        else let nextSubtype = labelToSubtype (npLabel np) in
        if nextSubtype \<noteq> [] \<and> nSubtype t \<noteq> nextSubtype then None
        else if \<not> matchesWhere t (npVariable np) wh then None
        else if \<not> inWindow during e then None
        else Some t)"

text \<open>
  The calls of the loop body run one after the other; their rows are appended. \<open>appendAll\<close> is the loop
  around an inner computation that may panic.
\<close>

fun appendAll :: "('a \<Rightarrow> 'b list option) \<Rightarrow> 'a list \<Rightarrow> 'b list option" where
  "appendAll f [] = Some []"
| "appendAll f (x # xs) = (case f x of None \<Rightarrow> None
     | Some rows \<Rightarrow> (case appendAll f xs of None \<Rightarrow> None | Some rest \<Rightarrow> Some (rows @ rest)))"

lemma appendAll_cong [fundef_cong]:
  "xs = ys \<Longrightarrow> (\<And>x. x \<in> set ys \<Longrightarrow> f x = h x) \<Longrightarrow> appendAll f xs = appendAll h ys"
proof (induction xs arbitrary: ys)
  case (Cons x xs)
  then have "f x = h x" and "appendAll f xs = appendAll h xs" by auto
  then show ?case by (simp add: Cons.prems(1) [symmetric] cong: option.case_cong)
qed auto

function traverse ::
    "graph \<Rightarrow> node \<Rightarrow> path_pattern \<Rightarrow> nat \<Rightarrow> nat \<Rightarrow> condition list \<Rightarrow> time_window option \<Rightarrow> bindings
     \<Rightarrow> row list option" where
  "traverse g n path nodeIdx edgeIdx wh during b =
     (if length (ppNodes path) \<le> nodeIdx then None
      else let b' = AList.update (npVariable (ppNodes path ! nodeIdx)) n b in
      if length (ppNodes path) - 1 \<le> nodeIdx then Some [buildRow b' path]
      else if length (ppEdges path) \<le> edgeIdx then None
      else let provRel = relationMapping (epRelation (ppEdges path ! edgeIdx));
               np = ppNodes path ! (nodeIdx + 1) in
        appendAll (\<lambda>e. case follow g n provRel np wh during e of None \<Rightarrow> Some []
            | Some t \<Rightarrow> traverse g t path (nodeIdx + 1) (edgeIdx + 1) wh during b')
          (graphEdges g))"
  by pat_completeness auto
termination
  by (relation "measure (\<lambda>(g, n, path, nodeIdx, edgeIdx, wh, during, b). length (ppNodes path) - nodeIdx)") auto

declare traverse.simps [simp del]

definition columnName :: "projection \<Rightarrow> string" where
  "columnName p = (if pjField p \<noteq> [] then pjVariable p @ ''.'' @ pjField p else pjVariable p)"

definition candidates :: "graph \<Rightarrow> node_pattern \<Rightarrow> condition list \<Rightarrow> node list" where
  "candidates g firstNode wh =
     (let subtype = labelToSubtype (npLabel firstNode) in
      filter (\<lambda>n. \<not> (subtype \<noteq> [] \<and> nSubtype n \<noteq> subtype) \<and> matchesWhere n (npVariable firstNode) wh) (graphNodes g))"

definition Run :: "graph \<Rightarrow> query \<Rightarrow> query_result option" where
  "Run g q =
     (if ppNodes (qMatch q) = [] then None
      else let firstNode = hd (ppNodes (qMatch q)) in
        case appendAll (\<lambda>n. traverse g n (qMatch q) 0 0 (qWhere q) (qDuring q) [])
               (candidates g firstNode (qWhere q)) of
          None \<Rightarrow> None
        | Some rows \<Rightarrow> Some \<lparr>rsColumns = map columnName (qReturn q), rsRows = rows\<rparr>)"

definition Execute ::
    "(string \<Rightarrow> time option) \<Rightarrow> (string \<Rightarrow> time option) \<Rightarrow> graph \<Rightarrow> string \<Rightarrow> (query_error + query_result) option" where
  "Execute rfc3339 rfc3339s g queryStr =
     (case Parse rfc3339 rfc3339s queryStr of Inl e \<Rightarrow> Some (Inl e)
      | Inr q \<Rightarrow> map_option Inr (Run g q))"

section \<open>What a query means\<close>

text \<open>
  A walk matches the pattern when each step is an edge, in either direction, with the relation, the
  label, the condition and the time window the query asks for. A relation or label that the tables do
  not know imposes nothing.
\<close>

definition relationOK :: "edge_pattern \<Rightarrow> edge \<Rightarrow> bool" where
  "relationOK ep e = (relationMapping (epRelation ep) = [] \<or> eRelation e = relationMapping (epRelation ep))"

definition nodeOK :: "condition list \<Rightarrow> node_pattern \<Rightarrow> node \<Rightarrow> bool" where
  "nodeOK wh np n = ((labelToSubtype (npLabel np) = [] \<or> nSubtype n = labelToSubtype (npLabel np))
     \<and> (\<forall>c \<in> set wh. \<forall>f. cdField c = npVariable np @ ''.'' @ f \<longrightarrow> evaluate (getField n f) (cdOp c) (cdValue c)))"

definition insideWindow :: "time_window option \<Rightarrow> edge \<Rightarrow> bool" where
  "insideWindow during e = (\<forall>w \<in> set_option during. twStart w \<le> eTimestamp e \<and> eTimestamp e \<le> twEnd w)"

definition joins :: "graph \<Rightarrow> edge \<Rightarrow> node \<Rightarrow> node \<Rightarrow> bool" where
  "joins g e n t = ((eSource e = nID n \<and> LookupNode (eTarget e) g = Some t)
     \<or> (eSource e \<noteq> nID n \<and> eTarget e = nID n \<and> LookupNode (eSource e) g = Some t))"

fun walkMatches ::
    "graph \<Rightarrow> condition list \<Rightarrow> time_window option \<Rightarrow> node \<Rightarrow> edge_pattern list \<Rightarrow> node_pattern list \<Rightarrow> node list \<Rightarrow> bool" where
  "walkMatches g wh during n [] [] [] = True"
| "walkMatches g wh during n (ep # eps) (np # nps) (t # ts) =
     ((\<exists>e \<in> set (graphEdges g). joins g e n t \<and> relationOK ep e \<and> insideWindow during e) \<and> nodeOK wh np t
      \<and> walkMatches g wh during t eps nps ts)"
| "walkMatches g wh during n _ _ _ = False"

definition bindAll :: "node_pattern list \<Rightarrow> node list \<Rightarrow> bindings \<Rightarrow> bindings" where
  "bindAll nps ns b = fold (\<lambda>(np, n). AList.update (npVariable np) n) (zip nps ns) b"

lemma matchesWhere_iff:
  "matchesWhere n v wh \<longleftrightarrow>
     (\<forall>c \<in> set wh. \<forall>f. cdField c = v @ ''.'' @ f \<longrightarrow> evaluate (getField n f) (cdOp c) (cdValue c))"
  by (induction wh) (auto simp: Let_def hasPrefix_iff trimPrefix_def)

lemma nodeOK_matches:
  "nodeOK wh np n \<longleftrightarrow> (labelToSubtype (npLabel np) = [] \<or> nSubtype n = labelToSubtype (npLabel np))
     \<and> matchesWhere n (npVariable np) wh"
  by (simp only: nodeOK_def matchesWhere_iff)

lemma stepNode_joins: "joins g e n t \<longleftrightarrow> stepNode g n e = Some t"
  by (auto simp: stepNode_def joins_def)

lemma inWindow_iff: "inWindow during e \<longleftrightarrow> insideWindow during e"
  by (auto simp: inWindow_def insideWindow_def split: option.split)

lemma follow_iff:
  "follow g n (relationMapping (epRelation ep)) np wh during e = Some t \<longleftrightarrow>
     joins g e n t \<and> relationOK ep e \<and> insideWindow during e \<and> nodeOK wh np t"
  by (auto simp: follow_def stepNode_joins relationOK_def nodeOK_matches inWindow_iff Let_def split: option.splits)

lemma appendAll_Some:
  assumes "\<And>x. x \<in> set xs \<Longrightarrow> \<exists>r. f x = Some r \<and> set r = R x"
  shows "\<exists>rows. appendAll f xs = Some rows \<and> set rows = (\<Union>x \<in> set xs. R x)"
  using assms
proof (induction xs)
  case (Cons x xs)
  from Cons.prems [of x] obtain r where "f x = Some r" "set r = R x" by auto
  moreover obtain rows where "appendAll f xs = Some rows" "set rows = (\<Union>x \<in> set xs. R x)"
    using Cons.IH Cons.prems by auto
  ultimately show ?case by auto
qed simp

definition wf_path :: "path_pattern \<Rightarrow> bool" where
  "wf_path path \<longleftrightarrow> length (ppNodes path) = length (ppEdges path) + 1"

lemma traverse_walks:
  "wf_path path \<Longrightarrow> k < length (ppNodes path) \<Longrightarrow>
   \<exists>rows. traverse g n path k k wh during b = Some rows \<and>
     set rows = {buildRow (bindAll (drop k (ppNodes path)) (n # ts) b) path | ts.
       walkMatches g wh during n (drop k (ppEdges path)) (drop (Suc k) (ppNodes path)) ts}"
proof (induction "length (ppNodes path) - k" arbitrary: k n b)
  case 0 then show ?case by simp
next
  case (Suc d)
  let ?N = "ppNodes path" and ?E = "ppEdges path"
  let ?b = "AList.update (npVariable (?N ! k)) n b"
  have len: "length ?N = Suc (length ?E)" using Suc.prems by (simp add: wf_path_def)
  have dN: "drop k ?N = ?N ! k # drop (Suc k) ?N" using Suc.prems(2) by (simp add: Cons_nth_drop_Suc)
  have bind: "bindAll (drop k ?N) (n # ts) b = bindAll (drop (Suc k) ?N) ts ?b" for ts
    by (simp add: dN bindAll_def)
  show ?case
  proof (cases "k = length ?E")
    case True
    then have t: "traverse g n path k k wh during b = Some [buildRow ?b path]"
      using len by (subst traverse.simps) (simp add: Let_def)
    have e: "drop k ?E = []" "drop (Suc k) ?N = []" using True len by simp_all
    have w: "walkMatches g wh during n [] [] ts \<longleftrightarrow> ts = []" for ts by (cases ts) auto
    show ?thesis unfolding t bind e w by (simp add: bindAll_def)
  next
    case False
    then have k: "k < length ?E" using Suc.prems(2) len by simp
    have dE: "drop k ?E = ?E ! k # drop (Suc k) ?E" using k by (simp add: Cons_nth_drop_Suc)
    have dN1: "drop (Suc k) ?N = ?N ! Suc k # drop (Suc (Suc k)) ?N" using k len by (simp add: Cons_nth_drop_Suc)
    let ?f = "\<lambda>e. follow g n (relationMapping (epRelation (?E ! k))) (?N ! Suc k) wh during e"
    let ?R = "\<lambda>t. {buildRow (bindAll (drop (Suc k) ?N) (t # ts) ?b) path | ts.
       walkMatches g wh during t (drop (Suc k) ?E) (drop (Suc (Suc k)) ?N) ts}"
    have IH: "\<exists>rows. traverse g t path (Suc k) (Suc k) wh during ?b = Some rows \<and> set rows = ?R t" for t
      using Suc.hyps(1) [of "Suc k" t ?b] Suc.hyps(2) Suc.prems(1) k len by simp
    have t: "traverse g n path k k wh during b =
        appendAll (\<lambda>e. case ?f e of None \<Rightarrow> Some [] | Some t \<Rightarrow> traverse g t path (Suc k) (Suc k) wh during ?b)
          (graphEdges g)"
      using k len by (subst traverse.simps) (simp add: Let_def cong: option.case_cong)
    have "\<exists>rows. traverse g n path k k wh during b = Some rows \<and>
        set rows = (\<Union>e \<in> set (graphEdges g). case ?f e of None \<Rightarrow> {} | Some t \<Rightarrow> ?R t)"
      unfolding t by (rule appendAll_Some) (use IH in \<open>auto split: option.split\<close>)
    moreover have "(\<Union>e \<in> set (graphEdges g). case ?f e of None \<Rightarrow> {} | Some t \<Rightarrow> ?R t) =
        {buildRow (bindAll (drop (Suc k) ?N) ts ?b) path | ts.
          walkMatches g wh during n (drop k ?E) (drop (Suc k) ?N) ts}" (is "?A = ?B")
    proof
      show "?A \<subseteq> ?B"
        by (auto simp: follow_iff dE dN1 split: option.splits) (rule exI [of _ "_ # _"], force)
      show "?B \<subseteq> ?A"
      proof
        fix x assume "x \<in> ?B"
        then obtain ts where x: "x = buildRow (bindAll (drop (Suc k) ?N) ts ?b) path"
          and w: "walkMatches g wh during n (drop k ?E) (drop (Suc k) ?N) ts" by blast
        from w obtain t ts' where ts: "ts = t # ts'" by (cases ts) (auto simp: dE dN1)
        with w obtain e where "e \<in> set (graphEdges g)" "?f e = Some t"
          by (auto simp: dE dN1 follow_iff)
        then show "x \<in> ?A" using w x by (auto simp: ts dE dN1 intro!: bexI [of _ e])
      qed
    qed
    ultimately show ?thesis unfolding bind by simp
  qed
qed

end
