(* ===== verification/QueryTheorems.thy ===== *)
theory QueryTheorems
  imports QueryPrint QueryExec GraphTheorems
begin

text \<open>
  What ProvQL promises: the parser inverts the printer, every parsed query runs without a panic, and
  its rows are exactly those of the walks that match it.
\<close>

section \<open>The shape of a parsed query\<close>

lemma parsePathLoop_shape:
  "parsePathLoop path p = Inr (path', p') \<Longrightarrow> wf_path path \<Longrightarrow> wf_path path'"
proof (induction path p rule: parsePathLoop.induct)
  case (1 path p)
  have grow: "wf_path (path\<lparr>ppEdges := ppEdges path @ [e], ppNodes := ppNodes path @ [n]\<rparr>)" for e n
    using 1(3) by (simp add: wf_path_def)
  from 1(2,3) show ?case
    by (subst (asm) parsePathLoop.simps)
      (auto split: if_splits sum.splits intro: 1(1) [OF _ _ refl _ refl _ grow])
qed

lemma parseProjections_shape: "parseProjections projs p = Inr (projs', p') \<Longrightarrow> projs' \<noteq> []"
proof (induction projs p rule: parseProjections.induct)
  case (1 projs p)
  from 1(2) show ?case
    by (subst (asm) parseProjections.simps)
      (auto simp: Let_def split: if_splits sum.splits dest!: 1(1))
qed

lemma wf_path_single: "wf_path \<lparr>ppNodes = [n], ppEdges = []\<rparr>"
  by (simp add: wf_path_def)

lemma Parse_shape:
  "Parse rfc3339 rfc3339s s = Inr q \<Longrightarrow> wf_path (qMatch q) \<and> length (qWhere q) \<le> 1 \<and> qReturn q \<noteq> []"
  by (auto simp: Parse_def parseQuery_def parsePath_def parseConditions_def Let_def
      split: sum.splits if_splits option.splits
      dest!: parsePathLoop_shape [OF _ wf_path_single] parseProjections_shape)

section \<open>Properties\<close>

text \<open>
  C8. Parsing inverts printing: every query whose names are identifiers, with at most one condition,
  is read back from its printed text, whatever its path, operator, time window and projections,
  provided the time library reads back the printed bounds of its window.
\<close>

theorem Parse_inverts_printing:
  assumes "wf_query q" and "times_ok rfc3339 showTime q"
  shows "Parse rfc3339 rfc3339s (showQuery showTime q) = Inr q"
  using assms by (rule Parse_showQuery)

text \<open>A query with a path of two steps, a condition and a time window.\<close>

definition exQuery :: query where
  "exQuery = \<lparr>qMatch = \<lparr>ppNodes = [\<lparr>npVariable = ''p'', npLabel = ''Process''\<rparr>, \<lparr>npVariable = ''f'', npLabel = ''File''\<rparr>,
       \<lparr>npVariable = ''q'', npLabel = ''Process''\<rparr>],
       ppEdges = [\<lparr>epRelation = ''WROTE''\<rparr>, \<lparr>epRelation = ''READ''\<rparr>]\<rparr>,
     qWhere = [\<lparr>cdField = ''f.path'', cdOp = OpSTARTSWITH, cdValue = ''/etc''\<rparr>],
     qDuring = Some \<lparr>twStart = 5, twEnd = 17\<rparr>,
     qReturn = [\<lparr>pjVariable = ''p'', pjField = ''pid''\<rparr>, \<lparr>pjVariable = ''f'', pjField = []\<rparr>]\<rparr>"

lemma ident_examples:
  "isIdent ''p''" "isIdent ''f''" "isIdent ''q''" "isIdent ''Process''" "isIdent ''File''" "isIdent ''WROTE''"
  "isIdent ''READ''" "isIdent ''path''" "isIdent ''pid''"
  by (simp_all add: isIdent_def identTok_def goodTok_def isWordByte_def isLetterByte_def keyword_def toUpper_def
      upperChar_def)

lemma exQuery_ok: "wf_query exQuery" "times_ok (\<lambda>s. Some (int (readNat s))) showInt exQuery"
proof -
  show "wf_query exQuery"
    by (simp add: wf_query_def exQuery_def wf_path_print_def ident_examples splitField_def toUpper_def upperChar_def)
  have "CHR 0x22 \<notin> set (showNat n)" for n using showNat_digits [of n] by (force simp: isDigit_def)
  then show "times_ok (\<lambda>s. Some (int (readNat s))) showInt exQuery"
    by (simp add: times_ok_def exQuery_def showInt_def)
qed

theorem Parse_inverts_printing_witness:
  "Parse (\<lambda>s. Some (int (readNat s))) (\<lambda>_. None) (showQuery showInt exQuery) = Inr exQuery"
  using exQuery_ok by (rule Parse_inverts_printing)



section \<open>Where the code departs from its documentation\<close>

text \<open>The ordering operators of the syntax compare for equality.\<close>

lemma ordering_operators_are_equality:
  "c \<in> {OpGT, OpLT, OpGTE, OpLTE} \<Longrightarrow> evaluate a c b = (a = b)"
  by (auto simp: evaluate_def)

text \<open>An edge is followed from its target to its source too.\<close>

lemma traversal_follows_reverse_edges:
  "eSource e \<noteq> nID n \<Longrightarrow> eTarget e = nID n \<Longrightarrow> LookupNode (eSource e) g = Some t \<Longrightarrow> joins g e n t"
  by (simp add: joins_def)

text \<open>What follows the last projection is not checked: here a byte that starts no token.\<close>

lemma trailing_input_ignored:
  "Parse (\<lambda>_. None) (\<lambda>_. None) ''MATCH (p:File) RETURN p $'' =
   Parse (\<lambda>_. None) (\<lambda>_. None) ''MATCH (p:File) RETURN p''"
  by code_simp

end
