(* ===== verification/RateLimit.thy ===== *)
theory RateLimit
  imports Complex_Main Interfaces
begin

text \<open>
  The adaptive rate limiter (\<^verbatim>\<open>internal/engine/ratelimit/ratelimit.go\<close>): the pressure evaluation with
  its hysteresis, the drop decision and the drop counters. The atomics are fields of one state record;
  an operation is one step. The fill ratio and the watermarks are rational numbers where the code has
  \<^verbatim>\<open>float64\<close>: a quotient of integers below $2^{50}$ compares with a watermark of few digits as its
  rounded value does. The BPF signal, the log lines and the ticker loop are left out.
\<close>

section \<open>Priorities\<close>

datatype priority = PriorityCritical | PriorityHigh | PriorityNormal | PriorityLow

fun iotaOf :: "priority \<Rightarrow> nat" where
  "iotaOf PriorityCritical = 0"
| "iotaOf PriorityHigh = 1"
| "iotaOf PriorityNormal = 2"
| "iotaOf PriorityLow = 3"

instantiation priority :: linorder
begin

definition less_eq_priority :: "priority \<Rightarrow> priority \<Rightarrow> bool" where
  "less_eq_priority p q = (iotaOf p \<le> iotaOf q)"

definition less_priority :: "priority \<Rightarrow> priority \<Rightarrow> bool" where
  "less_priority p q = (iotaOf p < iotaOf q)"

instance
proof
  fix p q :: priority
  show "p \<le> q \<Longrightarrow> q \<le> p \<Longrightarrow> p = q" by (cases p; cases q) (simp_all add: less_eq_priority_def)
qed (auto simp: less_eq_priority_def less_priority_def)

end

definition eventPriority :: "u32 \<Rightarrow> priority option" where
  "eventPriority et = map_of [(2, PriorityCritical), (20, PriorityCritical), (21, PriorityCritical),
     (50, PriorityCritical), (51, PriorityCritical), (1, PriorityHigh), (11, PriorityHigh), (12, PriorityHigh),
     (13, PriorityHigh), (10, PriorityNormal), (52, PriorityNormal), (53, PriorityNormal)] et"

definition lowRiskPaths :: "string list" where
  "lowRiskPaths = [''/usr/lib/'', ''/usr/share/'', ''/var/cache/'', ''/var/log/'']"

section \<open>State\<close>

record rate_config =
  rcHigh :: rat
  rcLow :: rat
  rcMaxQueue :: int
  rcSampleInterval :: duration
  rcDropLogInterval :: duration
  rcKernelBackpressure :: bool

definition DefaultRateConfig :: rate_config where
  "DefaultRateConfig = \<lparr>rcHigh = 8 / 10, rcLow = 5 / 10, rcMaxQueue = 10000, rcSampleInterval = 2 * second,
     rcDropLogInterval = 10 * second, rcKernelBackpressure = True\<rparr>"

record rate_limiter =
  rlCfg :: rate_config
  rlDepth :: int
  rlThrottling :: bool
  rlLevel :: int
  rlByPriority :: "(priority \<times> int) list"
  rlByType :: "(u32 \<times> int) list"
  rlTotal :: int
  rlLowRisk :: "string list"

definition NewRateLimiter :: "rate_config option \<Rightarrow> rate_limiter" where
  "NewRateLimiter cfg = \<lparr>rlCfg = (case cfg of None \<Rightarrow> DefaultRateConfig | Some c \<Rightarrow> c), rlDepth = 0,
     rlThrottling = False, rlLevel = 0, rlByPriority = [], rlByType = [], rlTotal = 0, rlLowRisk = lowRiskPaths\<rparr>"

section \<open>Operations\<close>

definition SetQueueDepth :: "int \<Rightarrow> rate_limiter \<Rightarrow> rate_limiter" where
  "SetQueueDepth depth rl = rl\<lparr>rlDepth := depth\<rparr>"

text \<open>
  The clamped quotient; \<^const>\<open>None\<close> is the NaN of \<^verbatim>\<open>0/0\<close>, with which every comparison is false. A
  division of another depth by zero is an infinity, clamped to one of the bounds.
\<close>

definition fillRatio :: "int \<Rightarrow> int \<Rightarrow> rat option" where
  "fillRatio depth maxSize =
     (if maxSize = 0 then (if depth = 0 then None else Some (if 0 < depth then 1 else 0))
      else Some (min 1 (max 0 (of_int depth / of_int maxSize))))"

definition evaluatePressure :: "rate_limiter \<Rightarrow> rate_limiter" where
  "evaluatePressure rl =
     (let depth = rlDepth rl;
          ratio = fillRatio depth (rcMaxQueue (rlCfg rl));
          oldLevel = rlLevel rl;
          newLevel =
            (case ratio of None \<Rightarrow> oldLevel
             | Some r \<Rightarrow>
               if rcHigh (rlCfg rl) \<le> r then (if rcMaxQueue (rlCfg rl) < depth then 2 else 1)
               else if r \<le> rcLow (rlCfg rl) then 0
               else oldLevel)
      in rl\<lparr>rlLevel := newLevel, rlThrottling := 0 < newLevel\<rparr>)"

definition isSensitivePathRL :: "rate_limiter \<Rightarrow> string \<Rightarrow> bool" where
  "isSensitivePathRL rl path = (\<not> list_ex (\<lambda>low. hasPrefix path low) (rlLowRisk rl))"

definition recordDrop :: "u32 \<Rightarrow> priority \<Rightarrow> rate_limiter \<Rightarrow> rate_limiter" where
  "recordDrop et p rl = rl\<lparr>rlTotal := rlTotal rl + 1,
     rlByPriority := AList.update p (mget0 0 (rlByPriority rl) p + 1) (rlByPriority rl),
     rlByType := AList.update et (mget0 0 (rlByType rl) et + 1) (rlByType rl)\<rparr>"

definition ShouldDrop :: "u32 \<Rightarrow> string \<Rightarrow> rate_limiter \<Rightarrow> bool \<times> rate_limiter" where
  "ShouldDrop et pathname rl =
     (let level = rlLevel rl in
      if level = 0 then (False, rl)
      else let priority = (case eventPriority et of None \<Rightarrow> PriorityNormal | Some p \<Rightarrow> p);
               drop0 = (if level = 1 then priority \<le> PriorityLow
                        else if level = 2 then priority \<le> PriorityNormal
                        else False);
               drop1 = (if drop0 \<and> isSensitivePathRL rl pathname then False else drop0)
           in (drop1, if drop1 then recordDrop et priority rl else rl))"

definition eventName :: "u32 \<Rightarrow> string" where
  "eventName et = (case map_of [(1, ''fork''), (2, ''exec''), (10, ''open''), (11, ''create''), (12, ''modify''),
      (13, ''delete''), (20, ''connect''), (21, ''accept''), (50, ''memfd''), (51, ''mprotect''),
      (52, ''pipe_write''), (53, ''pipe_read'')] et of
     Some n \<Rightarrow> n | None \<Rightarrow> ''unknown('' @ showU et @ '')'')"

section \<open>The limiter as a system\<close>

datatype rate_op = RSetDepth int | REvaluate | RShouldDrop u32 string

fun rateStep :: "rate_op \<Rightarrow> rate_limiter \<Rightarrow> rate_limiter option" where
  "rateStep (RSetDepth d) rl = Some (SetQueueDepth d rl)"
| "rateStep REvaluate rl = Some (evaluatePressure rl)"
| "rateStep (RShouldDrop et p) rl = Some (snd (ShouldDrop et p rl))"

text \<open>The flag agrees with the level, and the three drop counters account for the same drops.\<close>

definition rate_inv :: "rate_limiter \<Rightarrow> bool" where
  "rate_inv rl \<longleftrightarrow> rlLevel rl \<in> {0, 1, 2} \<and> rlThrottling rl = (0 < rlLevel rl) \<and> rlLowRisk rl = lowRiskPaths
     \<and> distinct (map fst (rlByPriority rl)) \<and> distinct (map fst (rlByType rl))
     \<and> sum_list (map snd (rlByPriority rl)) = rlTotal rl \<and> sum_list (map snd (rlByType rl)) = rlTotal rl"

lemma sum_incr:
  "distinct (map fst m) \<Longrightarrow>
   sum_list (map snd (AList.update k (mget0 0 m k + 1) m)) = sum_list (map snd m) + (1 :: int)"
  by (induction m) (auto simp: mget0_def map_of_eq_None_iff [symmetric] split: option.splits)

lemma recordDrop_inv: "rate_inv rl \<Longrightarrow> rate_inv (recordDrop et p rl)"
  by (simp add: rate_inv_def recordDrop_def sum_incr distinct_mput)

lemma ShouldDrop_inv: "rate_inv rl \<Longrightarrow> rate_inv (snd (ShouldDrop et path rl))"
  by (simp add: ShouldDrop_def Let_def recordDrop_inv)

lemma evaluatePressure_inv: "rate_inv rl \<Longrightarrow> rate_inv (evaluatePressure rl)"
  by (auto simp: evaluatePressure_def Let_def rate_inv_def split: option.splits)

lemma rate_inv_New: "rate_inv (NewRateLimiter cfg)"
  by (simp add: rate_inv_def NewRateLimiter_def)

interpretation ratesys: total_system rateStep rate_inv
proof unfold_locales
  fix s s' op assume "rate_inv s" "rateStep op s = Some s'"
  then show "rate_inv s'"
    by (cases op) (auto simp: ShouldDrop_inv evaluatePressure_inv, simp add: SetQueueDepth_def rate_inv_def)
next
  fix s op show "rateStep op s \<noteq> None" by (cases op) auto
qed

section \<open>Properties\<close>

text \<open>
  In every state the limiter can reach, the throttling flag agrees with the level, the level is one
  of the three documented ones, and the drops counted by priority and by event type both add up to the
  total.
\<close>

lemma rate_accounting:
  "\<exists>rl. runOps rateStep ops (NewRateLimiter cfg) = Some rl \<and> rate_inv rl"
  by (rule ratesys.run_total [OF rate_inv_New])

text \<open>
  The level follows the queue with hysteresis: with a positive capacity and watermarks
  \<open>0 \<le> low < high \<le> 1\<close>, an evaluation sets level 2 exactly above the capacity, level 1 between the
  high watermark and the capacity, level 0 at or below the low watermark, and keeps the level between
  the watermarks.
\<close>

theorem evaluate_hysteresis:
  assumes "0 < rcMaxQueue cfg" and "0 \<le> rcLow cfg" and "rcLow cfg < rcHigh cfg" and "rcHigh cfg \<le> 1"
    and "rlCfg rl = cfg" and "load = of_int (rlDepth rl) / of_int (rcMaxQueue cfg)"
  shows "rlLevel (evaluatePressure rl) =
    (if 1 < load then 2 else if rcHigh cfg \<le> load then 1 else if load \<le> rcLow cfg then 0 else rlLevel rl)"
proof -
  have over: "rcMaxQueue cfg < rlDepth rl \<longleftrightarrow> 1 < load"
    using assms(1) unfolding assms(6) by (simp add: pos_less_divide_eq)
  obtain x where r: "fillRatio (rlDepth rl) (rcMaxQueue cfg) = Some x" and x: "x = min 1 (max 0 load)"
    using assms(1) by (simp add: fillRatio_def assms(6))
  have cmp: "rcHigh cfg \<le> x \<longleftrightarrow> rcHigh cfg \<le> load" "x \<le> rcLow cfg \<longleftrightarrow> load \<le> rcLow cfg"
    using assms(2-4) unfolding x by (auto simp: min_def max_def)
  show ?thesis
    using assms(3,4) by (auto simp: evaluatePressure_def Let_def assms(5) r cmp over)
qed

theorem evaluate_hysteresis_witness:
  "rlLevel (evaluatePressure (SetQueueDepth 9000 (NewRateLimiter None))) = 1"
  using evaluate_hysteresis [of DefaultRateConfig "SetQueueDepth 9000 (NewRateLimiter None)" "9 / 10"]
  by (simp add: DefaultRateConfig_def SetQueueDepth_def NewRateLimiter_def)

text \<open>
  An event whose path lies outside the low-risk directories is never dropped, at any level, and
  neither is any event while the limiter is off; a drop is counted once under its type and changes no
  other count of types.
\<close>

theorem ShouldDrop_only_low_risk:
  assumes "ShouldDrop et path rl = (dropped, rl')" and "rlLowRisk rl = lowRiskPaths"
  shows "(dropped \<longrightarrow> rlLevel rl \<noteq> 0 \<and> (\<exists>low \<in> set lowRiskPaths. hasPrefix path low)
            \<and> mget0 0 (rlByType rl') et = mget0 0 (rlByType rl) et + 1)
       \<and> (\<not> dropped \<longrightarrow> rl' = rl)
       \<and> (\<forall>x. x \<noteq> et \<longrightarrow> mget0 0 (rlByType rl') x = mget0 0 (rlByType rl) x)"
  using assms
  by (auto simp: ShouldDrop_def Let_def recordDrop_def isSensitivePathRL_def list_ex_iff mget0_def
      split: if_splits)

theorem ShouldDrop_only_low_risk_witness:
  "\<exists>rl'. ShouldDrop 10 ''/usr/lib/a.so'' ((NewRateLimiter None)\<lparr>rlLevel := 1\<rparr>) = (True, rl')
     \<and> (\<exists>low \<in> set lowRiskPaths. hasPrefix ''/usr/lib/a.so'' low)"
proof -
  obtain d rl' where s: "ShouldDrop 10 ''/usr/lib/a.so'' ((NewRateLimiter None)\<lparr>rlLevel := 1\<rparr>) = (d, rl')"
    by fastforce
  then have "d" by (simp add: ShouldDrop_def Let_def NewRateLimiter_def isSensitivePathRL_def lowRiskPaths_def
        hasPrefix_def eventPriority_def less_eq_priority_def)
  with s ShouldDrop_only_low_risk [OF s] show ?thesis by (simp add: NewRateLimiter_def)
qed

text \<open>
  The drop rules are documented as "level 1: low priority only" and "level 2: low and normal". The
  constants count downwards in importance, so the comparisons select the other side: level 1 drops
  events of every priority, and level 2 drops critical and high events but keeps low ones.
\<close>

lemma light_throttling_drops_critical:
  "fst (ShouldDrop 2 ''/usr/lib/ld.so'' ((NewRateLimiter None)\<lparr>rlLevel := 1\<rparr>))"
  "PriorityCritical \<le> PriorityNormal \<and> \<not> PriorityLow \<le> PriorityNormal"
  by (simp_all add: ShouldDrop_def Let_def NewRateLimiter_def isSensitivePathRL_def lowRiskPaths_def
      hasPrefix_def eventPriority_def less_eq_priority_def)

end
