(* ===== verification/Taint.thy ===== *)
theory Taint
  imports Interfaces
begin

text \<open>
  Dynamic taint tracking (\<^verbatim>\<open>internal/engine/taint/taint.go\<close>): the taint states of processes and files,
  their propagation, cleaning and decay, and the alerts on sensitive actions. Time is an argument of
  the operations that read the clock. Every state object is created for one key of the map and only
  reached through it, so the map holds the objects themselves. \<^verbatim>\<open>IsExternalIP\<close>, which decides when
  \<open>MarkSocketSource\<close> is called, is left out.
\<close>

section \<open>Levels\<close>

datatype level = Clean | Suspicious | Tainted | HighlyTainted

fun levelNum :: "level \<Rightarrow> nat" where
  "levelNum Clean = 0"
| "levelNum Suspicious = 1"
| "levelNum Tainted = 2"
| "levelNum HighlyTainted = 3"

instantiation level :: linorder
begin

definition less_eq_level :: "level \<Rightarrow> level \<Rightarrow> bool" where
  "less_eq_level a b = (levelNum a \<le> levelNum b)"

definition less_level :: "level \<Rightarrow> level \<Rightarrow> bool" where
  "less_level a b = (levelNum a < levelNum b)"

instance
proof
  fix a b :: level
  show "a \<le> b \<Longrightarrow> b \<le> a \<Longrightarrow> a = b" by (cases a; cases b) (simp_all add: less_eq_level_def)
qed (auto simp: less_eq_level_def less_level_def)

end

lemmas level_simps = less_eq_level_def less_level_def

fun levelString :: "level \<Rightarrow> string" where
  "levelString Clean = ''CLEAN''"
| "levelString Suspicious = ''SUSPICIOUS''"
| "levelString Tainted = ''TAINTED''"
| "levelString HighlyTainted = ''HIGH_TAINT''"

section \<open>Lexical path cleaning\<close>

text \<open>
  Go's \<^verbatim>\<open>path.Clean\<close>: the elements between slashes, without the empty ones and \<^verbatim>\<open>.\<close>; \<^verbatim>\<open>..\<close> removes
  the element before it, is dropped at the root and kept at the start of a relative path.
\<close>

fun splitSlash :: "string \<Rightarrow> string list" where
  "splitSlash [] = [[]]"
| "splitSlash (c # s) = (if c = CHR ''/'' then [] # splitSlash s
     else case splitSlash s of [] \<Rightarrow> [[c]] | e # es \<Rightarrow> (c # e) # es)"

fun cleanElems :: "bool \<Rightarrow> string list \<Rightarrow> string list \<Rightarrow> string list" where
  "cleanElems rooted stack [] = rev stack"
| "cleanElems rooted stack (e # es) =
     (if e = [] \<or> e = ''.'' then cleanElems rooted stack es
      else if e = ''..'' then
        (case stack of [] \<Rightarrow> cleanElems rooted (if rooted then [] else [''..'']) es
         | t # ts \<Rightarrow> cleanElems rooted (if t = ''..'' then ''..'' # stack else ts) es)
      else cleanElems rooted (e # stack) es)"

fun joinSlash :: "string list \<Rightarrow> string" where
  "joinSlash [] = []"
| "joinSlash [e] = e"
| "joinSlash (e # es) = e @ ''/'' @ joinSlash es"

definition pathClean :: "string \<Rightarrow> string" where
  "pathClean p =
     (let rooted = hasPrefix p ''/'';
          s = (if rooted then ''/'' else []) @ joinSlash (cleanElems rooted [] (splitSlash p))
      in if s = [] then ''.'' else s)"

section \<open>State\<close>

record taint_state =
  tsID :: string
  tsType :: string
  tsLevel :: level
  tsSource :: string
  tsSourceIP :: string
  tsUpdatedAt :: time

record taint_config =
  tcNonInternalPrefixes :: "string list"
  tcCleanCommands :: "string list"
  tcSensitivePaths :: "string list"
  tcDecayAfter :: duration
  tcAlerting :: bool

definition DefaultTaintConfig :: taint_config where
  "DefaultTaintConfig = \<lparr>
     tcNonInternalPrefixes = [''10.'', ''192.168.'', ''172.16.'', ''172.17.'', ''172.18.'', ''172.19.'',
       ''172.20.'', ''172.21.'', ''172.22.'', ''172.23.'', ''172.24.'', ''172.25.'', ''172.26.'', ''172.27.'',
       ''172.28.'', ''172.29.'', ''172.30.'', ''172.31.'', ''127.'', ''169.254.''],
     tcCleanCommands = [''openssl'', ''gpg'', ''signify'', ''ssh-keygen'', ''rpmkeys'', ''dpkg-sig'', ''debsig-verify''],
     tcSensitivePaths = [''/etc/shadow'', ''/etc/passwd'', ''/etc/sudoers'', ''/etc/ssh/'', ''/root/.ssh/'',
       ''/.aws/credentials''],
     tcDecayAfter = 30 * minute, tcAlerting = True\<rparr>"

record taint_alert =
  taID :: int
  taTimestamp :: time
  taProcessID :: string
  taComm :: string
  taLevel :: level
  taSource :: string
  taIP :: string
  taAction :: string
  taTarget :: string
  taSeverity :: string

record taint_engine =
  teCfg :: taint_config
  teStates :: "(string \<times> taint_state) list"
  teAlerts :: "taint_alert list"
  teAlertID :: int

definition NewTaintEngine :: "taint_config option \<Rightarrow> taint_engine" where
  "NewTaintEngine cfg = \<lparr>teCfg = (case cfg of None \<Rightarrow> DefaultTaintConfig | Some c \<Rightarrow> c),
     teStates = [], teAlerts = [], teAlertID = 0\<rparr>"

section \<open>Operations\<close>

definition MatchTaint :: "string \<Rightarrow> string \<Rightarrow> bool" where
  "MatchTaint pattern val =
     (if pattern = [] then False
      else if last pattern = CHR ''*'' then
        let prefix = butlast pattern in
        if length val < length prefix then False
        else equalFold (take (length prefix) val) prefix
      else equalFold val pattern)"

definition putState :: "string \<Rightarrow> taint_state \<Rightarrow> taint_engine \<Rightarrow> taint_engine" where
  "putState i s te = te\<lparr>teStates := AList.update i s (teStates te)\<rparr>"

definition MarkSocketSource :: "time \<Rightarrow> string \<Rightarrow> string \<Rightarrow> taint_engine \<Rightarrow> taint_state \<times> taint_engine" where
  "MarkSocketSource now processID sourceIP te =
     (let s = \<lparr>tsID = processID, tsType = ''process'', tsLevel = Tainted, tsSource = ''socket_read:'' @ sourceIP,
            tsSourceIP = sourceIP, tsUpdatedAt = now\<rparr>
      in (s, putState processID s te))"

definition propagate ::
    "time \<Rightarrow> string \<Rightarrow> string \<Rightarrow> string \<Rightarrow> string \<Rightarrow> string \<Rightarrow> taint_engine \<Rightarrow> taint_state option \<times> taint_engine" where
  "propagate now targetID targetType sourceID sourceType reason te =
     (case map_of (teStates te) sourceID of
        None \<Rightarrow> (None, te)
      | Some source \<Rightarrow>
        if tsLevel source < Tainted then (None, te)
        else
          let state = \<lparr>tsID = targetID, tsType = targetType, tsLevel = tsLevel source,
                tsSource = sourceType @ '':'' @ sourceID @ '' '' @ reason,
                tsSourceIP = tsSourceIP source, tsUpdatedAt = now\<rparr>
          in case map_of (teStates te) targetID of
               Some existing \<Rightarrow>
                 if tsLevel source \<le> tsLevel existing then (Some existing, te)
                 else (Some state, putState targetID state te)
             | None \<Rightarrow> (Some state, putState targetID state te))"

definition PropagateRead :: "time \<Rightarrow> string \<Rightarrow> string \<Rightarrow> taint_engine \<Rightarrow> taint_state option \<times> taint_engine" where
  "PropagateRead now processID file te =
     propagate now processID ''process'' file ''file'' (''read_tainted_file:'' @ file) te"

definition PropagateWrite :: "time \<Rightarrow> string \<Rightarrow> string \<Rightarrow> taint_engine \<Rightarrow> taint_state option \<times> taint_engine" where
  "PropagateWrite now processID file te =
     propagate now file ''file'' processID ''process'' (''written_by_tainted:'' @ processID) te"

definition PropagateFork :: "time \<Rightarrow> string \<Rightarrow> string \<Rightarrow> taint_engine \<Rightarrow> taint_state option \<times> taint_engine" where
  "PropagateFork now parentID childID te =
     (case map_of (teStates te) parentID of
        None \<Rightarrow> (None, te)
      | Some parent \<Rightarrow>
        if tsLevel parent < Tainted then (None, te)
        else let child = \<lparr>tsID = childID, tsType = ''process'', tsLevel = tsLevel parent,
                   tsSource = ''forked_from_tainted:'' @ parentID, tsSourceIP = tsSourceIP parent, tsUpdatedAt = now\<rparr>
             in (Some child, putState childID child te))"

definition IsCleanCommand :: "string \<Rightarrow> taint_engine \<Rightarrow> bool" where
  "IsCleanCommand comm te = list_ex (\<lambda>clean. equalFold comm clean) (tcCleanCommands (teCfg te))"

definition CleanTaint :: "string \<Rightarrow> taint_engine \<Rightarrow> taint_engine" where
  "CleanTaint i te =
     (case map_of (teStates te) i of
        None \<Rightarrow> te
      | Some s \<Rightarrow> if Clean < tsLevel s
          then te\<lparr>teStates := malter i (\<lambda>s. s\<lparr>tsLevel := Clean, tsSource := ''cleaned:legitimate_operation''\<rparr>) (teStates te)\<rparr>
          else te)"

definition aged :: "time \<Rightarrow> taint_state \<Rightarrow> bool" where
  "aged cutoff s = (tsUpdatedAt s < cutoff \<and> Suspicious < tsLevel s)"

definition DecayTaint :: "time \<Rightarrow> taint_engine \<Rightarrow> nat \<times> taint_engine" where
  "DecayTaint now te =
     (if tcDecayAfter (teCfg te) \<le> 0 then (0, te)
      else let cutoff = now - tcDecayAfter (teCfg te) in
        (length (filter (\<lambda>(i, s). aged cutoff s) (teStates te)),
         te\<lparr>teStates := map (\<lambda>(i, s). (i, if aged cutoff s
              then s\<lparr>tsLevel := Suspicious, tsSource := ''decayed:age''\<rparr> else s)) (teStates te)\<rparr>))"

definition IsSensitivePath :: "string \<Rightarrow> taint_engine \<Rightarrow> bool" where
  "IsSensitivePath rawPath te =
     (let cleaned = pathClean rawPath in
      list_ex (\<lambda>sp. hasPrefix cleaned sp \<or> cleaned = sp) (tcSensitivePaths (teCfg te)))"

definition CheckAction ::
    "time \<Rightarrow> string \<Rightarrow> string \<Rightarrow> string \<Rightarrow> string \<Rightarrow> taint_engine \<Rightarrow> taint_alert option \<times> taint_engine" where
  "CheckAction now processID comm action target te =
     (case map_of (teStates te) processID of
        None \<Rightarrow> (None, te)
      | Some state \<Rightarrow>
        if tsLevel state < Tainted then (None, te)
        else let sensitive = IsSensitivePath target te in
          if \<not> sensitive \<and> action = ''read'' then (None, te)
          else if \<not> sensitive \<and> action \<noteq> ''ptrace'' \<and> action \<noteq> ''exec'' then (None, te)
          else
            let te = te\<lparr>teAlertID := teAlertID te + 1\<rparr>;
                alert = \<lparr>taID = teAlertID te, taTimestamp = now, taProcessID = processID, taComm = comm,
                  taLevel = tsLevel state, taSource = tsSource state, taIP = tsSourceIP state, taAction = action,
                  taTarget = target,
                  taSeverity = (if HighlyTainted \<le> tsLevel state \<or> sensitive then ''CRITICAL'' else ''HIGH'')\<rparr>
            in (Some alert,
                if tcAlerting (teCfg te) then te\<lparr>teAlerts := teAlerts te @ [alert]\<rparr> else te))"

definition GetTaint :: "string \<Rightarrow> taint_engine \<Rightarrow> taint_state option" where
  "GetTaint i te = map_of (teStates te) i"

record taint_stats =
  tsTaintedNodes :: nat
  tsTaintedProcs :: nat
  tsTaintedFiles :: nat
  tsTotalTracked :: nat
  tsTotalAlerts :: nat

definition TaintStats :: "taint_engine \<Rightarrow> taint_stats" where
  "TaintStats te =
     (let tainted = filter (\<lambda>(i, s). Tainted \<le> tsLevel s) (teStates te);
          files = filter (\<lambda>(i, s). tsType s = ''file'') tainted;
          procs = filter (\<lambda>(i, s). tsType s \<noteq> ''file'') tainted
      in \<lparr>tsTaintedNodes = length tainted, tsTaintedProcs = length procs, tsTaintedFiles = length files,
          tsTotalTracked = length (teStates te), tsTotalAlerts = length (teAlerts te)\<rparr>)"

end
