(* ===== verification/TaintTheorems.thy ===== *)
theory TaintTheorems
  imports Taint
begin

text \<open>
  The taint engine against its specification: a set of tainted nodes that marks and flows extend and
  that only cleaning and ageing shrink; alerts exactly on sensitive actions of tainted processes; and
  path normalisation that traversal elements do not evade.
\<close>

section \<open>The engine as a system\<close>

datatype taint_op =
    TMark time string string
  | TRead time string string
  | TWrite time string string
  | TFork time string string
  | TClean string
  | TDecay time
  | TCheck time string string string string

fun taintStep :: "taint_op \<Rightarrow> taint_engine \<Rightarrow> taint_engine option" where
  "taintStep (TMark now p ip) te = Some (snd (MarkSocketSource now p ip te))"
| "taintStep (TRead now p f) te = Some (snd (PropagateRead now p f te))"
| "taintStep (TWrite now p f) te = Some (snd (PropagateWrite now p f te))"
| "taintStep (TFork now p c) te = Some (snd (PropagateFork now p c te))"
| "taintStep (TClean i) te = Some (CleanTaint i te)"
| "taintStep (TDecay now) te = Some (snd (DecayTaint now te))"
| "taintStep (TCheck now p comm action target) te = Some (snd (CheckAction now p comm action target te))"

text \<open>Abstract view and specification: the set of nodes at level \<open>Tainted\<close> or above.\<close>

definition taintSet :: "taint_engine \<Rightarrow> string set" where
  "taintSet te = {i. \<exists>s. map_of (teStates te) i = Some s \<and> Tainted \<le> tsLevel s}"

definition agedSet :: "taint_op \<Rightarrow> taint_engine \<Rightarrow> string set" where
  "agedSet op te = (case op of
      TDecay now \<Rightarrow> if tcDecayAfter (teCfg te) \<le> 0 then {}
        else {i. \<exists>s. map_of (teStates te) i = Some s \<and> tsUpdatedAt s < now - tcDecayAfter (teCfg te)}
    | _ \<Rightarrow> {})"

fun taintSpec :: "taint_op \<Rightarrow> string set \<Rightarrow> string set \<Rightarrow> string set" where
  "taintSpec (TMark now p ip) old T = insert p T"
| "taintSpec (TRead now p f) old T = (if f \<in> T then insert p T else T)"
| "taintSpec (TWrite now p f) old T = (if p \<in> T then insert f T else T)"
| "taintSpec (TFork now p c) old T = (if p \<in> T then insert c T else T)"
| "taintSpec (TClean i) old T = T - {i}"
| "taintSpec (TDecay now) old T = T - old"
| "taintSpec (TCheck now p comm action target) old T = T"

lemma not_less_level: "(a :: level) < b \<longleftrightarrow> \<not> b \<le> a"
  by (auto simp: level_simps)

lemma taintSet_put: "taintSet (putState i s te) = (if Tainted \<le> tsLevel s then insert i (taintSet te) else taintSet te - {i})"
  by (auto simp: taintSet_def putState_def)

lemma taintSet_propagate:
  "taintSet (snd (propagate now t ty s sty r te)) = (if s \<in> taintSet te then insert t (taintSet te) else taintSet te)"
proof (cases "s \<in> taintSet te")
  case False
  then show ?thesis by (auto simp: propagate_def not_less_level taintSet_def split: option.splits)
next
  case True
  then obtain src where src: "map_of (teStates te) s = Some src" "Tainted \<le> tsLevel src" by (auto simp: taintSet_def)
  show ?thesis
  proof (cases "map_of (teStates te) t")
    case None
    with True src show ?thesis by (simp add: propagate_def not_less_level taintSet_put Let_def)
  next
    case (Some e)
    have "tsLevel src \<le> tsLevel e \<Longrightarrow> t \<in> taintSet te"
      using Some src(2) order_trans by (fastforce simp: taintSet_def)
    with Some True src show ?thesis by (auto simp: propagate_def not_less_level taintSet_put Let_def)
  qed
qed

lemma taintSet_fork:
  "taintSet (snd (PropagateFork now p c te)) = (if p \<in> taintSet te then insert c (taintSet te) else taintSet te)"
  by (auto simp: PropagateFork_def not_less_level taintSet_put Let_def split: option.splits) (auto simp: taintSet_def)

lemma taintSet_clean: "taintSet (CleanTaint i te) = taintSet te - {i}"
  by (auto simp: CleanTaint_def taintSet_def map_of_malter level_simps split: option.splits if_splits)

lemma taintSet_decay: "taintSet (snd (DecayTaint now te)) = taintSet te - agedSet (TDecay now) te"
proof (cases "tcDecayAfter (teCfg te) \<le> 0")
  case True then show ?thesis by (simp add: DecayTaint_def agedSet_def)
next
  case False
  then show ?thesis
    by (auto simp: DecayTaint_def agedSet_def taintSet_def map_of_map aged_def level_simps Let_def
        split: if_splits dest: arg_cong [where f = tsLevel])
qed

lemma CheckAction_frame: "teStates (snd (CheckAction now p comm a t te)) = teStates te"
  by (simp add: CheckAction_def Let_def split: option.split)

lemma taintSet_check: "taintSet (snd (CheckAction now p comm a t te)) = taintSet te"
  by (simp add: taintSet_def CheckAction_frame)

lemmas taintSet_ops = taintSet_put taintSet_propagate taintSet_fork taintSet_clean taintSet_decay taintSet_check

lemma taint_refines:
  "taintStep op te = Some te' \<Longrightarrow> taintSet te' = taintSpec op (agedSet op te) (taintSet te)"
  by (cases op)
    (auto simp: taintSet_ops PropagateRead_def PropagateWrite_def MarkSocketSource_def Let_def level_simps)

section \<open>The invariant\<close>

text \<open>States are stored under their own identifier; alerts are numbered upwards without a repeat.\<close>

definition taint_inv :: "taint_engine \<Rightarrow> bool" where
  "taint_inv te \<longleftrightarrow> (\<forall>i s. map_of (teStates te) i = Some s \<longrightarrow> tsID s = i \<and> tsLevel s \<le> Tainted)
     \<and> sorted_wrt (<) (map taID (teAlerts te)) \<and> (\<forall>a \<in> set (teAlerts te). 1 \<le> taID a \<and> taID a \<le> teAlertID te)
     \<and> 0 \<le> teAlertID te"

lemma taint_inv_New: "taint_inv (NewTaintEngine cfg)"
  by (simp add: taint_inv_def NewTaintEngine_def)

lemma taint_inv_put: "taint_inv te \<Longrightarrow> tsID s = i \<Longrightarrow> tsLevel s \<le> Tainted \<Longrightarrow> taint_inv (putState i s te)"
  by (simp add: taint_inv_def putState_def)

lemma taint_inv_level: "taint_inv te \<Longrightarrow> map_of (teStates te) i = Some s \<Longrightarrow> tsLevel s \<le> Tainted"
  by (auto simp: taint_inv_def)

lemma taint_inv_propagate: "taint_inv te \<Longrightarrow> taint_inv (snd (propagate now t ty s sty r te))"
  by (auto simp: propagate_def Let_def split: option.split intro!: taint_inv_put dest: taint_inv_level)

lemma taint_inv_fork: "taint_inv te \<Longrightarrow> taint_inv (snd (PropagateFork now p c te))"
  by (auto simp: PropagateFork_def Let_def split: option.split intro!: taint_inv_put dest: taint_inv_level)

lemma taint_inv_clean: "taint_inv te \<Longrightarrow> taint_inv (CleanTaint i te)"
  by (auto simp: CleanTaint_def taint_inv_def map_of_malter level_simps split: option.splits if_splits)

lemma taint_inv_decay: "taint_inv te \<Longrightarrow> taint_inv (snd (DecayTaint now te))"
  by (auto simp: DecayTaint_def taint_inv_def map_of_map level_simps Let_def split: if_splits)

lemma taint_inv_check: "taint_inv te \<Longrightarrow> taint_inv (snd (CheckAction now p comm a t te))"
  by (auto simp: CheckAction_def taint_inv_def sorted_wrt_append Let_def split: option.split)

interpretation taintsys: total_system taintStep taint_inv
proof unfold_locales
  fix s s' op assume "taint_inv s" "taintStep op s = Some s'"
  then show "taint_inv s'"
    by (cases op) (auto simp: taint_inv_propagate taint_inv_fork taint_inv_clean taint_inv_decay taint_inv_check
        PropagateRead_def PropagateWrite_def MarkSocketSource_def Let_def intro!: taint_inv_put)
next
  fix s op show "taintStep op s \<noteq> None" by (cases op) auto
qed

section \<open>Properties\<close>

lemma taint_run_grows:
  assumes "runOps taintStep ops te = Some te'" and "\<forall>op \<in> set ops. \<forall>i now. op \<noteq> TClean i \<and> op \<noteq> TDecay now"
  shows "taintSet te \<subseteq> taintSet te'"
  using assms
proof (induction ops arbitrary: te)
  case (Cons op ops)
  then obtain t where t: "taintStep op te = Some t" "runOps taintStep ops t = Some te'" by (auto split: option.splits)
  have "taintSet te \<subseteq> taintSet t" unfolding taint_refines [OF t(1)] using Cons.prems(2) by (cases op) auto
  then show ?case using Cons.IH [OF t(2)] Cons.prems(2) by auto
qed simp

lemma taint_run_source:
  assumes "runOps taintStep ops te = Some te'" and "\<forall>op \<in> set ops. \<forall>now p ip. op \<noteq> TMark now p ip" and "taintSet te = {}"
  shows "taintSet te' = {}"
  using assms
proof (induction ops arbitrary: te)
  case (Cons op ops)
  then obtain t where t: "taintStep op te = Some t" "runOps taintStep ops t = Some te'" by (auto split: option.splits)
  have "taintSet t = {}" unfolding taint_refines [OF t(1)] using Cons.prems by (cases op) auto
  then show ?case using Cons.IH [OF t(2)] Cons.prems(2) by auto
qed simp

text \<open>
  C13. The engine implements its specification: seen as the set of tainted nodes, every operation acts
  as the specification says. A network mark adds the process; a read, a write and a fork add the target
  exactly when the source is tainted; cleaning removes the node; decay removes exactly the nodes whose
  last update is older than the configured age; a check changes nothing.
\<close>

theorem taint_engine_refines_spec:
  "\<exists>te'. taintStep op te = Some te' \<and> taintSet te' = taintSpec op (agedSet op te) (taintSet te)"
proof -
  obtain te' where "taintStep op te = Some te'" by (cases op) auto
  with taint_refines show ?thesis by blast
qed

text \<open>
  C14. Taint starts at a network source and is lost only by cleaning or ageing: a run without a network
  mark from a state with no tainted node taints nothing, and a run without cleaning and decay loses no
  tainted node.
\<close>

theorem taint_origin_and_persistence:
  assumes "runOps taintStep ops te = Some te'"
  shows "((\<forall>op \<in> set ops. \<forall>now p ip. op \<noteq> TMark now p ip) \<and> taintSet te = {} \<longrightarrow> taintSet te' = {})
       \<and> ((\<forall>op \<in> set ops. \<forall>i now. op \<noteq> TClean i \<and> op \<noteq> TDecay now) \<longrightarrow> taintSet te \<subseteq> taintSet te')"
  using taint_run_source [OF assms] taint_run_grows [OF assms] by blast

theorem taint_origin_and_persistence_witness:
  "\<exists>te. runOps taintStep [TRead 5 ''p:2'' ''f:1'', TWrite 6 ''p:2'' ''f:9''] (NewTaintEngine None) = Some te \<and> taintSet te = {}"
proof -
  obtain te where te: "runOps taintStep [TRead 5 ''p:2'' ''f:1'', TWrite 6 ''p:2'' ''f:9''] (NewTaintEngine None) = Some te"
    using taintsys.run_total [OF taint_inv_New] by blast
  with taint_origin_and_persistence [OF te] show ?thesis by (simp add: taintSet_def NewTaintEngine_def)
qed

text \<open>
  In every state the engine can reach, an action raises an alert exactly when its process is
  tainted and the target is a sensitive path or the action is a ptrace or an exec; the alert carries the
  process, its taint and the next number, its severity is critical exactly for a sensitive path, and the
  recorded alerts are numbered upwards without a repeat.
\<close>

lemma alerts_on_sensitive_actions:
  assumes "runOps taintStep ops (NewTaintEngine cfg) = Some te"
    and "CheckAction now p comm action target te = (a, te')"
  shows "((a \<noteq> None) = (p \<in> taintSet te \<and> (IsSensitivePath target te \<or> action = ''ptrace'' \<or> action = ''exec'')))
       \<and> (\<forall>al. a = Some al \<longrightarrow> taProcessID al = p \<and> taLevel al = Tainted \<and> taID al = teAlertID te + 1
            \<and> (taSeverity al = ''CRITICAL'') = IsSensitivePath target te)
       \<and> sorted_wrt (<) (map taID (teAlerts te'))"
proof -
  have inv: "taint_inv te"
    using taintsys.run_total [OF taint_inv_New, of ops cfg] assms(1) by auto
  have "taint_inv te'" using taint_inv_check [OF inv, of now p comm action target] assms(2) by simp
  then have s: "sorted_wrt (<) (map taID (teAlerts te'))" by (simp add: taint_inv_def)
  show ?thesis
  proof (cases "map_of (teStates te) p")
    case None
    with assms(2) s show ?thesis by (auto simp: CheckAction_def taintSet_def)
  next
    case (Some st)
    then have "tsLevel st \<le> Tainted" using taint_inv_level [OF inv] by simp
    then have "\<not> HighlyTainted \<le> tsLevel st" "\<not> tsLevel st < Tainted \<Longrightarrow> tsLevel st = Tainted"
      by (cases "tsLevel st"; simp add: level_simps)+
    moreover have "p \<in> taintSet te \<longleftrightarrow> \<not> tsLevel st < Tainted" using Some by (auto simp: taintSet_def not_less_level)
    ultimately show ?thesis
      using assms(2) Some s by (auto simp: CheckAction_def Let_def split: if_splits)
  qed
qed

lemma alerts_on_sensitive_actions_example:
  "\<exists>te al te'. runOps taintStep [TMark 1 ''p:7'' ''8.8.8.8''] (NewTaintEngine None) = Some te
     \<and> CheckAction 2 ''p:7'' ''sh'' ''read'' ''/tmp/../etc/shadow'' te = (Some al, te') \<and> taSeverity al = ''CRITICAL''"
proof -
  obtain te where te: "runOps taintStep [TMark 1 ''p:7'' ''8.8.8.8''] (NewTaintEngine None) = Some te" by simp
  then have st: "''p:7'' \<in> taintSet te" "teCfg te = DefaultTaintConfig"
    by (auto simp: MarkSocketSource_def taintSet_def putState_def NewTaintEngine_def Let_def)
  have sens: "IsSensitivePath ''/tmp/../etc/shadow'' te"
    by (simp add: IsSensitivePath_def st DefaultTaintConfig_def pathClean_def hasPrefix_def)
  obtain a te' where c: "CheckAction 2 ''p:7'' ''sh'' ''read'' ''/tmp/../etc/shadow'' te = (a, te')" by fastforce
  from alerts_on_sensitive_actions [OF te c] st sens te c show ?thesis by auto
qed

section \<open>Path traversal\<close>

lemma splitSlash_ne: "splitSlash s \<noteq> []"
  by (induction s) (auto split: list.split)

lemma splitSlash_elem: "CHR ''/'' \<notin> set e \<Longrightarrow> splitSlash e = [e]"
  by (induction e) auto

lemma splitSlash_append: "CHR ''/'' \<notin> set e \<Longrightarrow> splitSlash (e @ CHR ''/'' # s) = e # splitSlash s"
  by (induction e) auto

lemma clean_split_join:
  "\<forall>e \<in> set es. CHR ''/'' \<notin> set e \<Longrightarrow> cleanElems r st (splitSlash (joinSlash es)) = cleanElems r st es"
proof (cases "es = []")
  case False
  assume "\<forall>e \<in> set es. CHR ''/'' \<notin> set e"
  with False have "splitSlash (joinSlash es) = es"
    by (induction es rule: joinSlash.induct) (auto simp: splitSlash_elem splitSlash_append)
  then show ?thesis by simp
qed simp

lemma clean_insert:
  assumes "d \<noteq> []" "d \<noteq> ''.''" "d \<noteq> ''..''" and "zs \<in> {[d, ''..''], [''.''], [[]]}"
  shows "cleanElems r st (xs @ zs @ ys) = cleanElems r st (xs @ ys)"
  using assms by (induction r st xs rule: cleanElems.induct) (auto split: list.split)

text \<open>
  Traversal elements do not hide a sensitive path: inserting \<open>name/..\<close>, \<open>.\<close> or an empty element
  anywhere into an absolute path does not change whether it is sensitive.
\<close>

lemma traversal_does_not_evade:
  assumes "\<forall>e \<in> set (xs @ ys). CHR ''/'' \<notin> set e" and "CHR ''/'' \<notin> set d"
    and "d \<noteq> []" and "d \<noteq> ''.''" and "d \<noteq> ''..''" and "zs \<in> {[d, ''..''], [''.''], [[]]}"
  shows "IsSensitivePath (''/'' @ joinSlash (xs @ zs @ ys)) te = IsSensitivePath (''/'' @ joinSlash (xs @ ys)) te"
proof -
  have "\<forall>e \<in> set (xs @ zs @ ys). CHR ''/'' \<notin> set e" using assms(1,2,6) by auto
  then have "pathClean (''/'' @ joinSlash (xs @ zs @ ys)) = pathClean (''/'' @ joinSlash (xs @ ys))"
    using clean_split_join [OF assms(1)] clean_split_join [of "xs @ zs @ ys"] clean_insert [OF assms(3-6)]
    by (simp add: pathClean_def hasPrefix_def Let_def)
  then show ?thesis by (simp add: IsSensitivePath_def)
qed

lemma traversal_does_not_evade_example:
  "IsSensitivePath (''/'' @ joinSlash ([''etc''] @ [''ssh'', ''..''] @ [''shadow''])) (NewTaintEngine None) =
   IsSensitivePath (''/'' @ joinSlash ([''etc''] @ [''shadow''])) (NewTaintEngine None)"
  by (rule traversal_does_not_evade [of _ _ "''ssh''"]) auto

text \<open>No operation of the engine ever assigns the highest level, so its branch of the severity is dead.\<close>

lemma highest_level_unreachable:
  assumes "runOps taintStep ops (NewTaintEngine cfg) = Some te" and "GetTaint i te = Some s"
  shows "tsLevel s \<noteq> HighlyTainted"
  using taintsys.run_total [OF taint_inv_New, of ops cfg] assms taint_inv_level
  by (fastforce simp: GetTaint_def level_simps)

end
