(* ===== verification/LruCache.thy ===== *)
theory LruCache
  imports Interfaces
begin

text \<open>
  The node cache (\<^verbatim>\<open>internal/storage/cache/lru.go\<close>): a bounded map with a recency list. A list element
  is identified by the key of its entry, which is what the map stores. The eviction callback is a
  parameter with a state of its own: it persists a node or fails. Clock readings are arguments;
  \<^const>\<open>None\<close> is an \<open>Add\<close> that would not return.
\<close>

section \<open>Model\<close>

record entry =
  enKey :: string
  enNodeID :: string
  enLastTouch :: time

record cache =
  chMaxSize :: int
  chItems :: "(string \<times> string) list"
  chOrder :: "entry list"
  chHits :: int
  chMisses :: int

type_synonym 'w evict_fn = "string \<Rightarrow> 'w \<Rightarrow> bool \<times> 'w"

datatype cache_error = EvictFnNil | EvictFailed

definition NewCache :: "int \<Rightarrow> 'w evict_fn option \<Rightarrow> cache_error + cache" where
  "NewCache maxSize evictFn =
     (let maxSize = (if maxSize \<le> 0 then 4096 else maxSize) in
      case evictFn of None \<Rightarrow> Inl EvictFnNil
      | Some f \<Rightarrow> Inr \<lparr>chMaxSize = maxSize, chItems = [], chOrder = [], chHits = 0, chMisses = 0\<rparr>)"

definition chContains :: "string \<Rightarrow> cache \<Rightarrow> bool" where
  "chContains i c = (map_of (chItems c) i \<noteq> None)"

text \<open>\<^verbatim>\<open>order.MoveToFront(el)\<close> followed by the update of \<^verbatim>\<open>lastTouch\<close>; \<^verbatim>\<open>order.Remove(el)\<close>.\<close>

definition removeElem :: "string \<Rightarrow> entry list \<Rightarrow> entry list" where
  "removeElem el order = filter (\<lambda>e. enKey e \<noteq> el) order"

definition moveToFront :: "time \<Rightarrow> string \<Rightarrow> entry list \<Rightarrow> entry list" where
  "moveToFront now el order =
     (case List.find (\<lambda>e. enKey e = el) order of None \<Rightarrow> order
      | Some e \<Rightarrow> e\<lparr>enLastTouch := now\<rparr> # removeElem el order)"

definition chGet :: "time \<Rightarrow> string \<Rightarrow> cache \<Rightarrow> bool \<times> cache" where
  "chGet now i c =
     (case map_of (chItems c) i of
        Some el \<Rightarrow> (True, c\<lparr>chOrder := moveToFront now el (chOrder c), chHits := chHits c + 1\<rparr>)
      | None \<Rightarrow> (False, c\<lparr>chMisses := chMisses c + 1\<rparr>))"

definition evictLocked :: "'w evict_fn \<Rightarrow> cache \<Rightarrow> 'w \<Rightarrow> bool \<times> cache \<times> 'w" where
  "evictLocked evictFn c w =
     (if chOrder c = [] then (True, c, w)
      else let ent = last (chOrder c); (ok, w') = evictFn (enNodeID ent) w in
        if \<not> ok then (False, c, w')
        else (True, c\<lparr>chOrder := butlast (chOrder c), chItems := AList.delete (enKey ent) (chItems c)\<rparr>, w'))"

function evictLoop :: "'w evict_fn \<Rightarrow> cache \<Rightarrow> 'w \<Rightarrow> (bool \<times> cache \<times> 'w) option" where
  "evictLoop evictFn c w =
     (if int (length (chOrder c)) < chMaxSize c then Some (True, c, w)
      else if chOrder c = [] then None
      else case evictLocked evictFn c w of (ok, c', w') \<Rightarrow>
        if \<not> ok then Some (False, c', w') else evictLoop evictFn c' w')"
  by pat_completeness auto
termination
proof (relation "measure (\<lambda>(f, c, w). length (chOrder c))", goal_cases)
  case (2 f c w x ok c' w')
  then show ?case by (auto simp: evictLocked_def Let_def split: prod.splits if_splits)
qed simp

declare evictLoop.simps [simp del]

definition chAdd :: "'w evict_fn \<Rightarrow> time \<Rightarrow> string \<Rightarrow> cache \<Rightarrow> 'w \<Rightarrow> (cache_error option \<times> cache \<times> 'w) option" where
  "chAdd evictFn now i c w =
     (case map_of (chItems c) i of
        Some el \<Rightarrow> Some (None, c\<lparr>chOrder := moveToFront now el (chOrder c)\<rparr>, w)
      | None \<Rightarrow>
        case evictLoop evictFn c w of None \<Rightarrow> None
        | Some (ok, c', w') \<Rightarrow>
          if \<not> ok then Some (Some EvictFailed, c', w')
          else Some (None, c'\<lparr>chOrder := \<lparr>enKey = i, enNodeID = i, enLastTouch = now\<rparr> # chOrder c',
                              chItems := AList.update i i (chItems c')\<rparr>, w'))"

definition chRemove :: "string \<Rightarrow> cache \<Rightarrow> cache" where
  "chRemove i c =
     (case map_of (chItems c) i of None \<Rightarrow> c
      | Some el \<Rightarrow> c\<lparr>chOrder := removeElem el (chOrder c), chItems := AList.delete i (chItems c)\<rparr>)"

fun EvictColdSync :: "'w evict_fn \<Rightarrow> nat \<Rightarrow> nat \<Rightarrow> cache \<Rightarrow> 'w \<Rightarrow> nat \<times> bool \<times> cache \<times> 'w" where
  "EvictColdSync evictFn 0 evicted c w = (evicted, True, c, w)"
| "EvictColdSync evictFn (Suc count) evicted c w =
     (if chOrder c = [] then (evicted, True, c, w)
      else case evictLocked evictFn c w of (ok, c', w') \<Rightarrow>
        if \<not> ok then (evicted, False, c', w') else EvictColdSync evictFn count (evicted + 1) c' w')"

definition chLen :: "cache \<Rightarrow> nat" where
  "chLen c = length (chOrder c)"

section \<open>Invariant\<close>

text \<open>The abstract cache: the keys, most recently used first.\<close>

definition keysOf :: "cache \<Rightarrow> string list" where
  "keysOf c = map enKey (chOrder c)"

definition cache_inv :: "cache \<Rightarrow> bool" where
  "cache_inv c \<longleftrightarrow> 0 < chMaxSize c \<and> int (length (keysOf c)) \<le> chMaxSize c \<and> distinct (keysOf c)
     \<and> (\<forall>e \<in> set (chOrder c). enNodeID e = enKey e)
     \<and> (\<forall>i. map_of (chItems c) i = (if i \<in> set (keysOf c) then Some i else None))"

definition useKey :: "string \<Rightarrow> string list \<Rightarrow> string list" where
  "useKey i ks = i # filter (\<lambda>k. k \<noteq> i) ks"

lemma keys_removeElem: "map enKey (removeElem i es) = filter (\<lambda>k. k \<noteq> i) (map enKey es)"
  by (simp add: removeElem_def filter_map comp_def)

lemma keys_moveToFront:
  "i \<in> enKey ` set es \<Longrightarrow> map enKey (moveToFront now i es) = useKey i (map enKey es)"
  by (auto simp: moveToFront_def useKey_def keys_removeElem find_None_iff find_Some_iff split: option.split)

lemma nodeIDs_moveToFront:
  assumes "\<forall>e \<in> set es. enNodeID e = enKey e" shows "\<forall>e \<in> set (moveToFront now i es). enNodeID e = enKey e"
proof (cases "List.find (\<lambda>e. enKey e = i) es")
  case (Some e)
  then have "e \<in> set es" by (auto simp: find_Some_iff)
  with Some assms show ?thesis by (auto simp: moveToFront_def removeElem_def)
qed (use assms in \<open>simp add: moveToFront_def\<close>)

lemma filter_notin: "i \<notin> set ks \<Longrightarrow> filter (\<lambda>k. k \<noteq> i) ks = ks"
  by (rule filter_True) auto

lemma length_useKey: "distinct ks \<Longrightarrow> i \<in> set ks \<Longrightarrow> length (useKey i ks) = length ks"
  by (induction ks) (auto simp: useKey_def filter_notin)

lemma set_useKey: "i \<in> set ks \<Longrightarrow> set (useKey i ks) = set ks"
  by (auto simp: useKey_def)

lemma items_of_inv: "cache_inv c \<Longrightarrow> map_of (chItems c) i = (if i \<in> set (keysOf c) then Some i else None)"
  by (simp add: cache_inv_def)

lemma cache_inv_touch:
  assumes "cache_inv c" and "i \<in> set (keysOf c)"
  shows "cache_inv (c\<lparr>chOrder := moveToFront now i (chOrder c)\<rparr>)"
    and "keysOf (c\<lparr>chOrder := moveToFront now i (chOrder c)\<rparr>) = useKey i (keysOf c)"
proof -
  show k: "keysOf (c\<lparr>chOrder := moveToFront now i (chOrder c)\<rparr>) = useKey i (keysOf c)"
    using assms(2) by (simp add: keysOf_def keys_moveToFront)
  have "\<forall>e \<in> set (moveToFront now i (chOrder c)). enNodeID e = enKey e"
    using assms(1) by (intro nodeIDs_moveToFront) (simp add: cache_inv_def)
  moreover have "distinct (useKey i (keysOf c))" using assms(1) by (simp add: useKey_def cache_inv_def)
  ultimately show "cache_inv (c\<lparr>chOrder := moveToFront now i (chOrder c)\<rparr>)"
    using assms length_useKey [of "keysOf c" i] set_useKey [of i "keysOf c"]
    unfolding cache_inv_def k by simp
qed

lemma cache_inv_counters [simp]:
  "cache_inv (c\<lparr>chHits := h\<rparr>) = cache_inv c" "cache_inv (c\<lparr>chMisses := m\<rparr>) = cache_inv c"
  "keysOf (c\<lparr>chHits := h\<rparr>) = keysOf c" "keysOf (c\<lparr>chMisses := m\<rparr>) = keysOf c"
  by (simp_all add: cache_inv_def keysOf_def)

lemma evictLocked_ok:
  assumes "cache_inv c" and "keysOf c \<noteq> []" and "evictFn (last (keysOf c)) w = (ok, w')"
  shows "\<exists>c'. evictLocked evictFn c w = (ok, c', w') \<and> cache_inv c'
      \<and> keysOf c' = (if ok then butlast (keysOf c) else keysOf c) \<and> chMaxSize c' = chMaxSize c"
proof -
  have ne: "chOrder c \<noteq> []" using assms(2) by (simp add: keysOf_def)
  let ?e = "last (chOrder c)"
  have k: "enKey ?e = last (keysOf c)" "enNodeID ?e = last (keysOf c)"
    using assms(1) ne by (auto simp: keysOf_def last_map cache_inv_def)
  let ?c = "c\<lparr>chOrder := butlast (chOrder c), chItems := AList.delete (enKey ?e) (chItems c)\<rparr>"
  have kc: "keysOf ?c = butlast (keysOf c)" by (simp add: keysOf_def map_butlast)
  have split: "keysOf c = butlast (keysOf c) @ [last (keysOf c)]" using assms(2) by simp
  have d: "distinct (butlast (keysOf c) @ [last (keysOf c)])" using assms(1) split by (simp add: cache_inv_def)
  have mem: "x \<in> set (keysOf c) \<longleftrightarrow> x \<in> set (butlast (keysOf c)) \<or> x = last (keysOf c)" for x
    by (subst split) auto
  have "cache_inv ?c"
    using assms(1) d mem unfolding cache_inv_def kc by (auto simp: k(1) dest: in_set_butlastD)
  then show ?thesis using assms(1,3) ne k kc by (simp add: evictLocked_def)
qed

section \<open>The operations against the abstract cache\<close>

definition lruAdd :: "int \<Rightarrow> string \<Rightarrow> string list \<Rightarrow> string list" where
  "lruAdd n i ks = (if i \<in> set ks then useKey i ks else i # take (nat n - 1) ks)"

lemma evictLoop_inv:
  assumes "cache_inv c"
  shows "\<exists>ok c' w'. evictLoop evictFn c w = Some (ok, c', w') \<and> cache_inv c' \<and> chMaxSize c' = chMaxSize c
      \<and> (ok \<longrightarrow> int (length (keysOf c')) < chMaxSize c \<and> keysOf c' = take (nat (chMaxSize c) - 1) (keysOf c))
      \<and> (\<not> ok \<longrightarrow> keysOf c' = keysOf c \<and> (\<exists>w''. evictFn (last (keysOf c)) w = (False, w'')))"
proof (cases "int (length (keysOf c)) < chMaxSize c")
  case True
  then have "evictLoop evictFn c w = Some (True, c, w)" by (subst evictLoop.simps) (simp add: keysOf_def)
  with True assms show ?thesis by (auto intro!: take_all [symmetric])
next
  case False
  then have len: "int (length (keysOf c)) = chMaxSize c" and ne: "keysOf c \<noteq> []"
    using assms by (auto simp: cache_inv_def)
  obtain ok w' where f: "evictFn (last (keysOf c)) w = (ok, w')" by fastforce
  obtain c' where c': "evictLocked evictFn c w = (ok, c', w')" "cache_inv c'" "chMaxSize c' = chMaxSize c"
    "keysOf c' = (if ok then butlast (keysOf c) else keysOf c)" using evictLocked_ok [of c evictFn w ok w'] assms ne f by blast
  have loop: "evictLoop evictFn c w = (if \<not> ok then Some (False, c', w') else evictLoop evictFn c' w')"
    using len ne c'(1) by (subst evictLoop.simps) (simp add: keysOf_def)
  show ?thesis
  proof (cases ok)
    case True
    have l': "int (length (keysOf c')) < chMaxSize c" using True c' len ne by (simp, cases "keysOf c") auto
    then have "evictLoop evictFn c' w' = Some (True, c', w')"
      using c'(3) by (subst evictLoop.simps) (simp add: keysOf_def)
    moreover have "butlast (keysOf c) = take (nat (chMaxSize c) - 1) (keysOf c)"
      using len by (simp add: butlast_conv_take flip: len)
    ultimately show ?thesis using True c' l' loop by auto
  next
    case False
    then show ?thesis using c' loop f by auto
  qed
qed

lemma chAdd_refines:
  assumes "cache_inv c"
  shows "\<exists>err c' w'. chAdd evictFn now i c w = Some (err, c', w') \<and> cache_inv c' \<and> chMaxSize c' = chMaxSize c
      \<and> (err = None \<longrightarrow> keysOf c' = lruAdd (chMaxSize c) i (keysOf c))
      \<and> (err \<noteq> None \<longrightarrow> keysOf c' = keysOf c \<and> i \<notin> set (keysOf c)
          \<and> (\<exists>w''. evictFn (last (keysOf c)) w = (False, w'')))"
proof (cases "i \<in> set (keysOf c)")
  case True
  then show ?thesis
    using items_of_inv [OF assms, of i] cache_inv_touch [OF assms True] by (simp add: chAdd_def lruAdd_def)
next
  case False
  then have m: "map_of (chItems c) i = None" using items_of_inv [OF assms, of i] by simp
  obtain ok c' w' where e: "evictLoop evictFn c w = Some (ok, c', w')" "cache_inv c'" "chMaxSize c' = chMaxSize c"
    "ok \<longrightarrow> int (length (keysOf c')) < chMaxSize c \<and> keysOf c' = take (nat (chMaxSize c) - 1) (keysOf c)"
    "\<not> ok \<longrightarrow> keysOf c' = keysOf c \<and> (\<exists>w''. evictFn (last (keysOf c)) w = (False, w''))"
    using evictLoop_inv [OF assms, of evictFn w] by blast
  show ?thesis
  proof (cases ok)
    case True
    let ?c = "c'\<lparr>chOrder := \<lparr>enKey = i, enNodeID = i, enLastTouch = now\<rparr> # chOrder c',
        chItems := AList.update i i (chItems c')\<rparr>"
    have k: "keysOf ?c = i # keysOf c'" by (simp add: keysOf_def)
    have "i \<notin> set (keysOf c')" using e(4) True False by (auto dest: in_set_takeD)
    then have "cache_inv ?c" using e True unfolding cache_inv_def k by auto
    then show ?thesis using m e True k False by (simp add: chAdd_def lruAdd_def)
  next
    case False
    then show ?thesis using m e \<open>i \<notin> set (keysOf c)\<close> by (simp add: chAdd_def)
  qed
qed

lemma chGet_refines:
  assumes "cache_inv c"
  shows "fst (chGet now i c) = (i \<in> set (keysOf c)) \<and> cache_inv (snd (chGet now i c))
      \<and> keysOf (snd (chGet now i c)) = (if i \<in> set (keysOf c) then useKey i (keysOf c) else keysOf c)"
proof (cases "i \<in> set (keysOf c)")
  case True
  then show ?thesis
    using items_of_inv [OF assms, of i] cache_inv_touch [OF assms True, of now] by (simp add: chGet_def)
qed (use items_of_inv [OF assms, of i] assms in \<open>simp add: chGet_def\<close>)

lemma chRemove_refines:
  assumes "cache_inv c"
  shows "cache_inv (chRemove i c) \<and> keysOf (chRemove i c) = filter (\<lambda>k. k \<noteq> i) (keysOf c)"
proof (cases "i \<in> set (keysOf c)")
  case True
  let ?c = "c\<lparr>chOrder := removeElem i (chOrder c), chItems := AList.delete i (chItems c)\<rparr>"
  have k: "keysOf ?c = filter (\<lambda>k. k \<noteq> i) (keysOf c)" by (simp add: keysOf_def keys_removeElem)
  have "int (length (filter (\<lambda>k. k \<noteq> i) (keysOf c))) \<le> chMaxSize c"
    using assms length_filter_le [of "\<lambda>k. k \<noteq> i" "keysOf c"] unfolding cache_inv_def by linarith
  then have "cache_inv ?c"
    using assms unfolding cache_inv_def k by (auto simp: removeElem_def)
  then show ?thesis using True items_of_inv [OF assms, of i] k by (simp add: chRemove_def)
qed (use items_of_inv [OF assms, of i] assms in \<open>simp add: chRemove_def filter_notin\<close>)

section \<open>The cache as a system\<close>

datatype cache_op = CGet time string | CAdd time string | CRemove string | CEvict nat

fun cacheStep :: "'w evict_fn \<Rightarrow> cache_op \<Rightarrow> cache \<times> 'w \<Rightarrow> (cache \<times> 'w) option" where
  "cacheStep f (CGet now i) (c, w) = Some (snd (chGet now i c), w)"
| "cacheStep f (CAdd now i) (c, w) = map_option snd (chAdd f now i c w)"
| "cacheStep f (CRemove i) (c, w) = Some (chRemove i c, w)"
| "cacheStep f (CEvict n) (c, w) = Some (snd (snd (EvictColdSync f n 0 c w)))"

lemma EvictColdSync_refines:
  "cache_inv c \<Longrightarrow> EvictColdSync f n k c w = (e, ok, c', w') \<Longrightarrow>
   cache_inv c' \<and> k \<le> e \<and> keysOf c' = take (length (keysOf c) - (e - k)) (keysOf c) \<and> (ok \<longrightarrow> e = k + min n (length (keysOf c)))"
proof (induction f n k c w rule: EvictColdSync.induct)
  case (2 f n k c w)
  show ?case
  proof (cases "keysOf c = []")
    case True
    then show ?thesis using 2(2,3) by (simp add: keysOf_def)
  next
    case False
    then have ne: "chOrder c \<noteq> []" by (simp add: keysOf_def)
    obtain ok1 w1 where f: "f (last (keysOf c)) w = (ok1, w1)" by fastforce
    obtain c1 where c1: "evictLocked f c w = (ok1, c1, w1)" "cache_inv c1"
      "keysOf c1 = (if ok1 then butlast (keysOf c) else keysOf c)"
      using evictLocked_ok [of c f w ok1 w1] 2(2) False f by blast
    show ?thesis
    proof (cases ok1)
      case True
      have "EvictColdSync f n (k + 1) c1 w1 = (e, ok, c', w')" using 2(3) ne c1(1) True by simp
      from 2(1) [OF ne c1(1) [symmetric] refl _ c1(2) this] True
      have IH: "cache_inv c'" "k + 1 \<le> e" "keysOf c' = take (length (keysOf c1) - (e - (k + 1))) (keysOf c1)"
        "ok \<longrightarrow> e = k + 1 + min n (length (keysOf c1))" by auto
      have "keysOf c1 = take (length (keysOf c) - 1) (keysOf c)" using c1(3) True by (simp add: butlast_conv_take)
      then have "keysOf c' = take (length (keysOf c) - (e - k)) (keysOf c)" using IH(2,3) by (simp add: min_def)
      moreover have "length (keysOf c1) = length (keysOf c) - 1" using c1(3) True by simp
      moreover have "Suc (min n (length (keysOf c) - Suc 0)) = min (Suc n) (length (keysOf c))"
        using False by (cases "keysOf c") auto
      ultimately show ?thesis using IH by auto
    next
      case ok1: False
      then show ?thesis using 2(2,3) ne c1 by auto
    qed
  qed
qed auto

definition cache_world_inv :: "cache \<times> 'w \<Rightarrow> bool" where
  "cache_world_inv s = cache_inv (fst s)"

interpretation cachesys: total_system "cacheStep f" cache_world_inv for f :: "'w evict_fn"
proof unfold_locales
  fix op and s s' :: "cache \<times> 'w" assume a: "cache_world_inv s" "cacheStep f op s = Some s'"
  obtain c w where s: "s = (c, w)" by fastforce
  have c: "cache_inv c" using a(1) s by (simp add: cache_world_inv_def)
  show "cache_world_inv s'"
  proof (cases op)
    case (CGet now i)
    then show ?thesis using a(2) s chGet_refines [OF c] by (auto simp: cache_world_inv_def)
  next
    case (CAdd now i)
    obtain err c' w' where "chAdd f now i c w = Some (err, c', w')" "cache_inv c'"
      using chAdd_refines [OF c, of f now i w] by blast
    then show ?thesis using a(2) s CAdd by (auto simp: cache_world_inv_def)
  next
    case (CRemove i)
    then show ?thesis using a(2) s chRemove_refines [OF c] by (auto simp: cache_world_inv_def)
  next
    case (CEvict n)
    obtain e ok c' w' where "EvictColdSync f n 0 c w = (e, ok, c', w')" by (cases "EvictColdSync f n 0 c w") auto
    with EvictColdSync_refines [OF c this] CEvict a(2) s show ?thesis by (auto simp: cache_world_inv_def)
  qed
next
  fix op and s :: "cache \<times> 'w" assume a: "cache_world_inv s"
  obtain c w where s: "s = (c, w)" by fastforce
  have c: "cache_inv c" using a s by (simp add: cache_world_inv_def)
  show "cacheStep f op s \<noteq> None"
    using s chAdd_refines [OF c, of f _ _ w] by (cases op) force+
qed

section \<open>Properties\<close>

text \<open>
  The cache implements a bounded least-recently-used list: with a consistent cache, \<open>Add\<close> always
  returns; without an error the keys are those of the abstract cache (a present key moves to the front,
  a new key enters at the front and the oldest keys beyond the bound leave), and with an error, which
  happens only when persisting the oldest key fails, the keys are unchanged.
\<close>

lemma Add_refines_lru:
  assumes "cache_inv c"
  shows "\<exists>err c' w'. chAdd evictFn now i c w = Some (err, c', w') \<and> cache_inv c'
    \<and> (err = None \<longrightarrow> keysOf c' = lruAdd (chMaxSize c) i (keysOf c) \<and> chContains i c')
    \<and> (err \<noteq> None \<longrightarrow> keysOf c' = keysOf c \<and> i \<notin> set (keysOf c)
        \<and> (\<exists>w''. evictFn (last (keysOf c)) w = (False, w'')))"
proof -
  obtain err c' w' where *: "chAdd evictFn now i c w = Some (err, c', w')" "cache_inv c'"
    "err = None \<longrightarrow> keysOf c' = lruAdd (chMaxSize c) i (keysOf c)"
    "err \<noteq> None \<longrightarrow> keysOf c' = keysOf c \<and> i \<notin> set (keysOf c) \<and> (\<exists>w''. evictFn (last (keysOf c)) w = (False, w''))"
    using chAdd_refines [OF assms, of evictFn now i w] by blast
  have "chContains i c'" if "err = None"
    using that *(3) items_of_inv [OF *(2), of i] by (simp add: chContains_def lruAdd_def useKey_def split: if_splits)
  with * show ?thesis by blast
qed

lemma Add_refines_lru_example:
  "\<exists>c err c' w'. NewCache 2 (Some (\<lambda>i (w :: string list). (True, i # w))) = Inr c
     \<and> chAdd (\<lambda>i w. (True, i # w)) 0 ''a'' c [] = Some (err, c', w') \<and> keysOf c' = [''a'']"
proof -
  let ?f = "\<lambda>i (w :: string list). (True, i # w)"
  obtain c where c: "NewCache 2 (Some ?f) = Inr c" by (simp add: NewCache_def)
  then have inv: "cache_inv c" "keysOf c = []" by (auto simp: NewCache_def cache_inv_def keysOf_def)
  from Add_refines_lru [OF inv(1), of ?f 0 "''a''" "[]"] c inv show ?thesis by (auto simp: lruAdd_def)
qed

text \<open>
  Whatever the eviction callback does, every sequence of gets, adds, removals and evictions runs to
  the end, never exceeds the capacity, holds no key twice, and keeps the index equal to the list.
\<close>

theorem cache_runs_consistent:
  assumes "NewCache n (Some f) = Inr c"
  shows "\<exists>c' w'. runOps (cacheStep f) ops (c, w) = Some (c', w') \<and> chLen c' \<le> nat (chMaxSize c')
    \<and> distinct (keysOf c') \<and> (\<forall>i. chContains i c' = (i \<in> set (keysOf c')))"
proof -
  have "cache_world_inv (c, w)"
    using assms by (auto simp: cache_world_inv_def NewCache_def cache_inv_def keysOf_def Let_def split: if_splits)
  from cachesys.run_total [OF this, of f ops] obtain c' w' where
    r: "runOps (cacheStep f) ops (c, w) = Some (c', w')" "cache_inv c'" by (auto simp: cache_world_inv_def)
  have "chLen c' \<le> nat (chMaxSize c')" "distinct (keysOf c')"
    using r(2) by (auto simp: cache_inv_def chLen_def keysOf_def)
  moreover have "\<forall>i. chContains i c' = (i \<in> set (keysOf c'))"
    using items_of_inv [OF r(2)] by (simp add: chContains_def)
  ultimately show ?thesis using r(1) by blast
qed

theorem cache_runs_consistent_witness:
  "\<exists>c c' w'. NewCache 1 (Some (\<lambda>i (w :: unit). (False, w))) = Inr c
     \<and> runOps (cacheStep (\<lambda>i w. (False, w))) [CAdd 0 ''a'', CAdd 1 ''b'', CGet 2 ''a''] (c, ()) = Some (c', w')
     \<and> distinct (keysOf c')"
proof -
  obtain c where c: "NewCache 1 (Some (\<lambda>i (w :: unit). (False, w))) = Inr c" by (simp add: NewCache_def)
  from cache_runs_consistent [OF c] c show ?thesis by blast
qed

text \<open>
  A batch eviction removes the least recently used keys first: the keys left are a prefix of the
  list, one shorter for every reported eviction, and without a callback failure as many as asked for are
  evicted, or all.
\<close>

theorem EvictColdSync_evicts_oldest:
  assumes "cache_inv c" and "EvictColdSync f n 0 c w = (evicted, ok, c', w')"
  shows "keysOf c' = take (length (keysOf c) - evicted) (keysOf c) \<and> (ok \<longrightarrow> evicted = min n (length (keysOf c)))"
  using EvictColdSync_refines [OF assms] by simp

theorem EvictColdSync_evicts_oldest_witness:
  "\<exists>c ev ok c' w'. NewCache 3 (Some (\<lambda>i (w :: unit). (True, w))) = Inr c
     \<and> EvictColdSync (\<lambda>i w. (True, w)) 2 0 c () = (ev, ok, c', w') \<and> keysOf c' = []"
proof -
  obtain c where c: "NewCache 3 (Some (\<lambda>i (w :: unit). (True, w))) = Inr c" by (simp add: NewCache_def)
  then have inv: "cache_inv c" "keysOf c = []" by (auto simp: NewCache_def cache_inv_def keysOf_def)
  obtain ev ok c' w' where e: "EvictColdSync (\<lambda>i (w :: unit). (True, w)) 2 0 c () = (ev, ok, c', w')"
    by (cases "EvictColdSync (\<lambda>i (w :: unit). (True, w)) 2 0 c ()") auto
  from EvictColdSync_evicts_oldest [OF inv(1) e] c e inv show ?thesis by auto
qed

end
