(* ===== verification/Sha256.thy ===== *)
theory Sha256
  imports Prelude
begin

unbundle bit_operations_syntax

text \<open>
  The hash functions the integrity components call: SHA-256 (\<^verbatim>\<open>crypto/sha256\<close>, FIPS 180-4), HMAC over it
  (\<^verbatim>\<open>crypto/hmac\<close>) and hexadecimal text (\<^verbatim>\<open>encoding/hex\<close>). They are executable functions on bytes; the
  proofs about the components use only the length of a digest and that hexadecimal text is injective.
\<close>

section \<open>SHA-256\<close>

text \<open>
  The constants are those of the standard: the first 32 bits of the fractional parts of the cube roots of
  the first 64 primes, and of the square roots of the first eight. They are computed here by an integer
  root, one bit at a time.
\<close>

fun rootFrom :: "nat \<Rightarrow> nat \<Rightarrow> nat \<Rightarrow> nat \<Rightarrow> nat" where
  "rootFrom k n 0 r = r"
| "rootFrom k n (Suc b) r = (let r' = r + 2 ^ b in rootFrom k n b (if r' ^ k \<le> n then r' else r))"

definition fracRoot :: "nat \<Rightarrow> nat \<Rightarrow> u32" where
  "fracRoot k p = word_of_nat (rootFrom k (p * 2 ^ (32 * k)) 37 0)"

definition primesTo :: "nat \<Rightarrow> nat list" where
  "primesTo n = filter (\<lambda>p. list_all (\<lambda>d. p mod d \<noteq> 0) [2..<p]) [2..<Suc n]"

definition shaK :: "u32 list" where
  "shaK = map (fracRoot 3) (primesTo 311)"

definition shaInit :: "u32 list" where
  "shaInit = map (fracRoot 2) (primesTo 19)"

lemma length_shaInit [simp]: "length shaInit = 8"
  by (simp add: shaInit_def primesTo_def upt_rec)

text \<open>The root is the largest number whose power does not exceed the argument.\<close>

lemma rootFrom_root:
  "r ^ k \<le> n \<Longrightarrow> n < (r + 2 ^ b) ^ k \<Longrightarrow> rootFrom k n b r ^ k \<le> n \<and> n < (rootFrom k n b r + 1) ^ k"
  by (induction k n b r rule: rootFrom.induct) (auto simp: Let_def mult_2 add.assoc)

definition rotr :: "nat \<Rightarrow> u32 \<Rightarrow> u32" where
  "rotr n x = drop_bit n x OR push_bit (32 - n) x"

definition bytesBE :: "nat \<Rightarrow> 'a::len word \<Rightarrow> bytes" where
  "bytesBE k w = map (\<lambda>i. ucast (drop_bit (8 * (k - 1 - i)) w)) [0..<k]"

definition shaPad :: "bytes \<Rightarrow> bytes" where
  "shaPad m = m @ [0x80] @ replicate ((119 - length m mod 64) mod 64) 0 @ bytesBE 8 (word_of_nat (8 * length m) :: u64)"

definition wordBE :: "bytes \<Rightarrow> u32" where
  "wordBE bs = foldl (\<lambda>acc b. push_bit 8 acc OR ucast b) 0 bs"

fun chunks :: "nat \<Rightarrow> nat \<Rightarrow> 'a list \<Rightarrow> 'a list list" where
  "chunks 0 k xs = []"
| "chunks (Suc n) k xs = take k xs # chunks n k (drop k xs)"

definition sigma0 :: "u32 \<Rightarrow> u32" where
  "sigma0 x = rotr 7 x XOR rotr 18 x XOR drop_bit 3 x"

definition sigma1 :: "u32 \<Rightarrow> u32" where
  "sigma1 x = rotr 17 x XOR rotr 19 x XOR drop_bit 10 x"

text \<open>The message schedule, kept with the last word first.\<close>

definition schedStep :: "u32 list \<Rightarrow> u32 list" where
  "schedStep ws = (sigma1 (ws ! 1) + ws ! 6 + sigma0 (ws ! 14) + ws ! 15) # ws"

definition schedule :: "u32 list \<Rightarrow> u32 list" where
  "schedule block = rev ((schedStep ^^ 48) (rev block))"

fun shaRound :: "u32 list \<Rightarrow> u32 \<times> u32 \<Rightarrow> u32 list" where
  "shaRound [a, b, c, d, e, f, g, h] (k, w) =
     (let t1 = h + (rotr 6 e XOR rotr 11 e XOR rotr 25 e) + ((e AND f) XOR (NOT e AND g)) + k + w;
          t2 = (rotr 2 a XOR rotr 13 a XOR rotr 22 a) + ((a AND b) XOR (a AND c) XOR (b AND c))
      in [t1 + t2, a, b, c, d + t1, e, f, g])"
| "shaRound st kw = st"

definition shaBlock :: "u32 list \<Rightarrow> bytes \<Rightarrow> u32 list" where
  "shaBlock st block =
     map2 (+) st (foldl shaRound st (zip shaK (schedule (map wordBE (chunks 16 4 block)))))"

definition sha256 :: "bytes \<Rightarrow> bytes" where
  "sha256 m = (let p = shaPad m in
     concat (map (bytesBE 4) (foldl shaBlock shaInit (chunks (length p div 64) 64 p))))"

lemma length_shaRound [simp]: "length (shaRound st kw) = length st"
  by (induction st kw rule: shaRound.induct) (auto simp: Let_def)

lemma length_shaBlock [simp]: "length (shaBlock st block) = length st"
proof -
  have "length (foldl shaRound st kws) = length st" for kws by (induction kws arbitrary: st) auto
  then show ?thesis by (simp add: shaBlock_def)
qed

lemma length_sha256 [simp]: "length (sha256 m) = 32"
proof -
  have "length (foldl shaBlock st bs) = length st" for st bs by (induction bs arbitrary: st) auto
  then have "length (foldl shaBlock shaInit bs) = 8" for bs by simp
  then show ?thesis
    by (simp add: sha256_def Let_def length_concat comp_def bytesBE_def sum_list_triv)
qed

section \<open>HMAC and hexadecimal text\<close>

definition hmacKeyBlock :: "bytes \<Rightarrow> bytes" where
  "hmacKeyBlock key = (let k = (if 64 < length key then sha256 key else key) in k @ replicate (64 - length k) 0)"

definition hmacSha256 :: "bytes \<Rightarrow> bytes \<Rightarrow> bytes" where
  "hmacSha256 key m =
     sha256 (map (\<lambda>b. b XOR 0x5c) (hmacKeyBlock key) @ sha256 (map (\<lambda>b. b XOR 0x36) (hmacKeyBlock key) @ m))"

definition hexByte :: "u8 \<Rightarrow> string" where
  "hexByte b = [digitChar (unat b div 16), digitChar (unat b mod 16)]"

definition hexEncode :: "bytes \<Rightarrow> string" where
  "hexEncode bs = concat (map hexByte bs)"

definition bytesOf :: "string \<Rightarrow> bytes" where
  "bytesOf s = map (\<lambda>c. word_of_nat (of_char c)) s"

lemma digitChar_inj:
  assumes "m < 16" "n < 16" shows "digitChar m = digitChar n \<longleftrightarrow> m = n"
proof
  assume e: "digitChar m = digitChar n"
  then have "(of_char (digitChar m) :: nat) = of_char (digitChar n)" by simp
  then show "m = n" using assms by (auto simp: of_digitChar split: if_splits)
qed simp

lemma hexByte_inj: "hexByte a = hexByte b \<longleftrightarrow> a = b"
proof
  assume "hexByte a = hexByte b"
  moreover have "unat a div 16 < 16" "unat b div 16 < 16"
    using unsigned_less [where 'a = nat, of a] unsigned_less [where 'a = nat, of b] by simp_all
  ultimately have "unat a div 16 = unat b div 16" "unat a mod 16 = unat b mod 16"
    by (simp_all add: hexByte_def digitChar_inj)
  then have "unat a = unat b"
    using div_mult_mod_eq [of "unat a" 16] div_mult_mod_eq [of "unat b" 16] by metis
  then show "a = b" by simp
qed simp

lemma hexEncode_inj: "hexEncode xs = hexEncode ys \<longleftrightarrow> xs = ys"
proof (induction xs arbitrary: ys)
  case Nil
  then show ?case by (cases ys) (auto simp: hexEncode_def hexByte_def)
next
  case (Cons x xs)
  then show ?case using hexByte_inj [of x] by (cases ys) (auto simp: hexEncode_def hexByte_def)
qed

lemma length_hexEncode [simp]: "length (hexEncode bs) = 2 * length bs"
  by (induction bs) (auto simp: hexEncode_def hexByte_def)

lemma bytesOf_inj: "bytesOf s = bytesOf t \<longleftrightarrow> s = t"
proof
  assume "bytesOf s = bytesOf t"
  moreover have "(of_char c :: nat) < 256" for c
    using range_nat_of_char by (metis atLeastLessThan_iff rangeI)
  then have "unat (word_of_nat (of_char c) :: u8) = of_char c" for c by (simp add: unat_of_nat)
  then have "inj (\<lambda>c. word_of_nat (of_char c) :: u8)" by (metis injI of_char_eq_iff)
  ultimately show "s = t" unfolding bytesOf_def by (metis inj_map_eq_map)
qed simp

end
