(* ===== verification/HashChain.thy ===== *)
theory HashChain
  imports Interfaces Sha256
begin

text \<open>
  The hash chain of the integrity store (\<^verbatim>\<open>internal/engine/chain/chain.go\<close>, \<^verbatim>\<open>verify.go\<close>): records that
  carry the hash of the one before, their verification, the detailed report, and the pairwise root
  hash. The store's key is an argument of its creation, where the code reads a random one; clock
  readings are arguments. The text rendering of a report is left out.
\<close>

section \<open>Model\<close>

record chain_record =
  crIndex :: int
  crTimestamp :: int
  crEventType :: u32
  crDataHash :: string
  crPrevHash :: string
  crChainHash :: string
  crHMAC :: string

record chain_store =
  csRecords :: "chain_record list"
  csPrevHash :: string
  csKey :: bytes

definition NewChainStore :: "bytes \<Rightarrow> chain_store" where
  "NewChainStore key = \<lparr>csRecords = [], csPrevHash = [], csKey = key\<rparr>"

text \<open>\<^verbatim>\<open>fmt.Sprintf("%d:%d:%s:%s", ...)\<close> and the two digests taken from it.\<close>

definition chainInput :: "chain_record \<Rightarrow> string" where
  "chainInput r = showInt (crIndex r) @ '':'' @ showInt (crTimestamp r) @ '':'' @ crDataHash r @ '':'' @ crPrevHash r"

definition chainDigest :: "chain_record \<Rightarrow> string" where
  "chainDigest r = hexEncode (sha256 (bytesOf (chainInput r)))"

definition macOf :: "bytes \<Rightarrow> string \<Rightarrow> string" where
  "macOf key h = hexEncode (hmacSha256 key (bytesOf h))"

definition chainAdd :: "int \<Rightarrow> u32 \<Rightarrow> bytes \<Rightarrow> chain_store \<Rightarrow> chain_record \<times> chain_store" where
  "chainAdd now eventType data cs =
     (let rec = \<lparr>crIndex = int (length (csRecords cs)) + 1, crTimestamp = now, crEventType = eventType,
            crDataHash = hexEncode (sha256 data), crPrevHash = csPrevHash cs, crChainHash = [], crHMAC = []\<rparr>;
          rec = rec\<lparr>crChainHash := chainDigest rec\<rparr>;
          rec = rec\<lparr>crHMAC := macOf (csKey cs) (crChainHash rec)\<rparr>
      in (rec, cs\<lparr>csRecords := csRecords cs @ [rec], csPrevHash := crChainHash rec\<rparr>))"

definition verifyRecord :: "bytes \<Rightarrow> chain_record \<Rightarrow> bool" where
  "verifyRecord key rec =
     (if crHMAC rec \<noteq> macOf key (crChainHash rec) then False else crChainHash rec = chainDigest rec)"

fun verifyFrom :: "bytes \<Rightarrow> nat \<Rightarrow> chain_record option \<Rightarrow> chain_record list \<Rightarrow> bool \<times> nat" where
  "verifyFrom key i prev [] = (True, i)"
| "verifyFrom key i prev (rec # recs) =
     (if \<not> verifyRecord key rec then (False, i)
      else if (case prev of None \<Rightarrow> False | Some p \<Rightarrow> crPrevHash rec \<noteq> crChainHash p) then (False, i)
      else verifyFrom key (i + 1) (Some rec) recs)"

definition VerifyChain :: "chain_store \<Rightarrow> bool \<times> nat" where
  "VerifyChain cs = verifyFrom (csKey cs) 0 None (csRecords cs)"

definition LatestHash :: "chain_store \<Rightarrow> string" where
  "LatestHash cs = (if csRecords cs = [] then replicate 40 CHR ''0'' else crChainHash (last (csRecords cs)))"

text \<open>\<^verbatim>\<open>hex.DecodeString\<close> with its error dropped: the bytes decoded before the first bad digit.\<close>

definition hexVal :: "char \<Rightarrow> nat option" where
  "hexVal c = (let n = of_char c in
     if 48 \<le> n \<and> n \<le> 57 then Some (n - 48)
     else if 97 \<le> n \<and> n \<le> 102 then Some (n - 87)
     else if 65 \<le> n \<and> n \<le> 70 then Some (n - 55) else None)"

fun hexDecode :: "string \<Rightarrow> bytes" where
  "hexDecode (a # b # s) = (case (hexVal a, hexVal b) of
      (Some x, Some y) \<Rightarrow> word_of_nat (16 * x + y) # hexDecode s | _ \<Rightarrow> [])"
| "hexDecode s = []"

fun pairUp :: "bytes list \<Rightarrow> bytes list" where
  "pairUp (a # b # hs) = sha256 (a @ b) # pairUp hs"
| "pairUp [a] = [a]"
| "pairUp [] = []"

lemma length_pairUp: "length (pairUp hs) = (length hs + 1) div 2"
  by (induction hs rule: pairUp.induct) auto

function reduceHashes :: "bytes list \<Rightarrow> bytes" where
  "reduceHashes hashes = (if 1 < length hashes then reduceHashes (pairUp hashes) else hd hashes)"
  by pat_completeness auto
termination
  by (relation "measure length") (auto simp: length_pairUp)

declare reduceHashes.simps [simp del]

definition RootHash :: "chain_store \<Rightarrow> string" where
  "RootHash cs =
     (if csRecords cs = [] then hexEncode (sha256 [])
      else hexEncode (reduceHashes (map (\<lambda>r. hexDecode (crChainHash r)) (csRecords cs))))"

section \<open>The report\<close>

record verify_report =
  vrTotal :: nat
  vrChainIntact :: bool
  vrHMACValid :: bool
  vrGaps :: nat
  vrBreakpoints :: "int list"
  vrFirst :: string
  vrLatest :: string
  vrIssues :: "string list"

abbreviation (input) emptyReport :: "nat \<Rightarrow> verify_report" where
  "emptyReport n \<equiv> \<lparr>vrTotal = n, vrChainIntact = False, vrHMACValid = False, vrGaps = 0, vrBreakpoints = [],
     vrFirst = [], vrLatest = [], vrIssues = []\<rparr>"

definition reportRecord :: "bytes \<Rightarrow> chain_record option \<Rightarrow> chain_record \<Rightarrow> bool \<times> verify_report \<Rightarrow> bool \<times> verify_report" where
  "reportRecord key prev rec ar =
     (let (allValid, rp) = ar;
          (allValid, rp) = (if crHMAC rec \<noteq> macOf key (crChainHash rec)
             then (False, rp\<lparr>vrIssues := vrIssues rp @ [''record '' @ showInt (crIndex rec) @ '': HMAC mismatch'']\<rparr>)
             else (allValid, rp));
          rp = (if crChainHash rec \<noteq> chainDigest rec
             then rp\<lparr>vrIssues := vrIssues rp @ [''record '' @ showInt (crIndex rec) @ '': hash mismatch'']\<rparr> else rp);
          rp = (if (case prev of None \<Rightarrow> False | Some p \<Rightarrow> crPrevHash rec \<noteq> crChainHash p)
             then rp\<lparr>vrGaps := vrGaps rp + 1, vrBreakpoints := vrBreakpoints rp @ [crIndex rec],
                    vrIssues := vrIssues rp @ [''gap at record '' @ showInt (crIndex rec) @ '': prev_hash mismatch'']\<rparr>
             else rp)
      in (allValid, rp))"

fun reportFrom :: "bytes \<Rightarrow> chain_record option \<Rightarrow> chain_record list \<Rightarrow> bool \<times> verify_report \<Rightarrow> bool \<times> verify_report" where
  "reportFrom key prev [] ar = ar"
| "reportFrom key prev (rec # recs) ar = reportFrom key (Some rec) recs (reportRecord key prev rec ar)"

definition chainVerify :: "chain_store \<Rightarrow> verify_report" where
  "chainVerify cs =
     (let rp = emptyReport (length (csRecords cs)) in
      if csRecords cs = [] then rp\<lparr>vrChainIntact := True, vrHMACValid := True\<rparr>
      else let rp = rp\<lparr>vrFirst := crChainHash (hd (csRecords cs)), vrLatest := crChainHash (last (csRecords cs))\<rparr>;
               (allValid, rp) = reportFrom (csKey cs) None (csRecords cs) (True, rp)
           in rp\<lparr>vrChainIntact := (vrGaps rp = 0 \<and> vrIssues rp = []), vrHMACValid := allValid\<rparr>)"

section \<open>Chains that verify\<close>

definition linkOK :: "chain_record option \<Rightarrow> chain_record \<Rightarrow> bool" where
  "linkOK prev rec = (case prev of None \<Rightarrow> True | Some p \<Rightarrow> crPrevHash rec = crChainHash p)"

fun goodChain :: "bytes \<Rightarrow> chain_record option \<Rightarrow> chain_record list \<Rightarrow> bool" where
  "goodChain key prev [] = True"
| "goodChain key prev (rec # recs) = (verifyRecord key rec \<and> linkOK prev rec \<and> goodChain key (Some rec) recs)"

lemma verifyFrom_good:
  "fst (verifyFrom key i prev recs) = goodChain key prev recs"
  "goodChain key prev recs \<Longrightarrow> snd (verifyFrom key i prev recs) = i + length recs"
  by (induction recs arbitrary: i prev) (auto simp: linkOK_def split: option.splits)

lemma goodChain_snoc:
  "goodChain key prev (recs @ [r]) \<longleftrightarrow>
     goodChain key prev recs \<and> verifyRecord key r \<and> linkOK (if recs = [] then prev else Some (last recs)) r"
  by (induction recs arbitrary: prev) auto

lemma reportRecord_ok:
  "(vrIssues (snd (reportRecord key prev rec ar)) = [] \<longleftrightarrow> vrIssues (snd ar) = [] \<and> verifyRecord key rec \<and> linkOK prev rec)
   \<and> (vrIssues (snd (reportRecord key prev rec ar)) = [] \<longrightarrow> vrGaps (snd (reportRecord key prev rec ar)) = vrGaps (snd ar))
   \<and> (fst (reportRecord key prev rec ar) \<longleftrightarrow> fst ar \<and> crHMAC rec = macOf key (crChainHash rec))"
  by (auto simp: reportRecord_def verifyRecord_def linkOK_def case_prod_beta Let_def split: option.splits)

lemma reportFrom_ok:
  "(vrIssues (snd (reportFrom key prev recs ar)) = [] \<longleftrightarrow> vrIssues (snd ar) = [] \<and> goodChain key prev recs)
   \<and> (vrIssues (snd (reportFrom key prev recs ar)) = [] \<longrightarrow> vrGaps (snd (reportFrom key prev recs ar)) = vrGaps (snd ar))
   \<and> (fst (reportFrom key prev recs ar) \<longleftrightarrow> fst ar \<and> (\<forall>r \<in> set recs. crHMAC r = macOf key (crChainHash r)))"
proof (induction recs arbitrary: prev ar)
  case (Cons r recs)
  show ?case using Cons.IH [of "Some r" "reportRecord key prev r ar"] reportRecord_ok [of key prev r ar] by auto
qed simp

text \<open>The store's operations as a system.\<close>

datatype chain_op = ChAdd int u32 bytes

fun chainStep :: "chain_op \<Rightarrow> chain_store \<Rightarrow> chain_store option" where
  "chainStep (ChAdd now et data) cs = Some (snd (chainAdd now et data cs))"

definition chain_inv :: "chain_store \<Rightarrow> bool" where
  "chain_inv cs \<longleftrightarrow> goodChain (csKey cs) None (csRecords cs)
     \<and> csPrevHash cs = (if csRecords cs = [] then [] else crChainHash (last (csRecords cs)))
     \<and> map crIndex (csRecords cs) = map (\<lambda>i. int i + 1) [0..<length (csRecords cs)]"

lemma digest_fields [simp]:
  "chainDigest (r\<lparr>crChainHash := h\<rparr>) = chainDigest r" "chainDigest (r\<lparr>crHMAC := m\<rparr>) = chainDigest r"
  "chainDigest (r\<lparr>crEventType := et\<rparr>) = chainDigest r"
  by (simp_all add: chainDigest_def chainInput_def)

lemma chainAdd_inv: "chain_inv cs \<Longrightarrow> chain_inv (snd (chainAdd now et data cs))"
  by (auto simp: chain_inv_def chainAdd_def Let_def goodChain_snoc verifyRecord_def linkOK_def
      chainDigest_def chainInput_def)

interpretation chainsys: total_system chainStep chain_inv
proof unfold_locales
  fix s s' op assume "chain_inv s" "chainStep op s = Some s'"
  then show "chain_inv s'" by (cases op) (auto simp: chainAdd_inv)
next
  fix s op show "chainStep op s \<noteq> None" by (cases op) auto
qed

lemma chain_inv_New: "chain_inv (NewChainStore key)"
  by (simp add: chain_inv_def NewChainStore_def)

section \<open>Tampering\<close>

lemma chainInput_parts:
  assumes "chainInput r = chainInput r'"
  shows "crIndex r = crIndex r'" "crTimestamp r = crTimestamp r'"
    "crDataHash r @ '':'' @ crPrevHash r = crDataHash r' @ '':'' @ crPrevHash r'"
proof -
  from assms have 1: "showInt (crIndex r) = showInt (crIndex r')"
    "showInt (crTimestamp r) @ CHR '':'' # crDataHash r @ CHR '':'' # crPrevHash r =
     showInt (crTimestamp r') @ CHR '':'' # crDataHash r' @ CHR '':'' # crPrevHash r'"
    using split_first [OF _ showInt_no_colon showInt_no_colon] by (auto simp: chainInput_def)
  then show "crIndex r = crIndex r'" "crTimestamp r = crTimestamp r'"
    "crDataHash r @ '':'' @ crPrevHash r = crDataHash r' @ '':'' @ crPrevHash r'"
    using split_first [OF _ showInt_no_colon showInt_no_colon] by (auto simp: showInt_inj)
qed

lemma good_digest: "goodChain key prev recs \<Longrightarrow> r \<in> set recs \<Longrightarrow> crChainHash r = chainDigest r"
  by (induction recs arbitrary: prev) (auto simp: verifyRecord_def split: if_splits)

lemma good_mac: "goodChain key prev recs \<Longrightarrow> r \<in> set recs \<Longrightarrow> crHMAC r = macOf key (crChainHash r)"
  by (induction recs arbitrary: prev) (auto simp: verifyRecord_def split: if_splits)

lemma length_chainDigest: "length (chainDigest r) = 64"
  by (simp add: chainDigest_def)

definition sameCore :: "chain_record \<Rightarrow> chain_record \<Rightarrow> bool" where
  "sameCore r r' = (crIndex r = crIndex r' \<and> crTimestamp r = crTimestamp r' \<and> crDataHash r = crDataHash r'
     \<and> crPrevHash r = crPrevHash r' \<and> crChainHash r = crChainHash r')"

lemma digest_inj:
  assumes "inj_on sha256 ((bytesOf \<circ> chainInput) ` S)" and "r \<in> S" "r' \<in> S" and "chainDigest r = chainDigest r'"
  shows "chainInput r = chainInput r'"
proof -
  have "sha256 (bytesOf (chainInput r)) = sha256 (bytesOf (chainInput r'))"
    using assms(4) by (simp add: chainDigest_def hexEncode_inj)
  then have "bytesOf (chainInput r) = bytesOf (chainInput r')"
    using inj_onD [OF assms(1)] assms(2,3) by (simp add: image_iff Bex_def) blast
  then show ?thesis by (simp add: bytesOf_inj)
qed

lemma chain_tail_unique:
  assumes "goodChain key None (rs @ [r])" and "goodChain key' None (rs' @ [r'])" and "length rs = length rs'"
    and "inj_on sha256 ((bytesOf \<circ> chainInput) ` (set (rs @ [r]) \<union> set (rs' @ [r'])))"
    and "crChainHash r = crChainHash r'"
  shows "crIndex (hd (rs @ [r])) = crIndex (hd (rs' @ [r'])) \<and> crTimestamp (hd (rs @ [r])) = crTimestamp (hd (rs' @ [r']))
       \<and> (rs \<noteq> [] \<longrightarrow> sameCore r r') \<and> list_all2 sameCore (tl rs) (tl rs')"
  using assms
proof (induction rs arbitrary: r rs' r' rule: rev_induct)
  case Nil
  then have "chainDigest r = chainDigest r'" using good_digest [OF Nil(1)] good_digest [OF Nil(2)] by simp
  then have "chainInput r = chainInput r'" by (intro digest_inj [OF Nil(4)]) simp_all
  from chainInput_parts(1,2) [OF this] show ?case using Nil(3) by simp
next
  case (snoc q rs)
  from snoc.prems(3) obtain q' ts where rs': "rs' = ts @ [q']" "length ts = length rs"
    by (cases rs' rule: rev_cases) auto
  have d: "crChainHash x = chainDigest x" if "x \<in> {r, q}" for x using that good_digest [OF snoc.prems(1)] by auto
  have d': "crChainHash x = chainDigest x" if "x \<in> {r', q'}" for x using that good_digest [OF snoc.prems(2)] rs' by auto
  have "chainDigest r = chainDigest r'" using d [of r] d' [of r'] snoc.prems(5) by simp
  then have ci: "chainInput r = chainInput r'" by (intro digest_inj [OF snoc.prems(4)]) simp_all
  have link: "crPrevHash r = crChainHash q" "crPrevHash r' = crChainHash q'"
    using snoc.prems(1,2) goodChain_snoc [of key None "rs @ [q]" r] goodChain_snoc [of key' None "ts @ [q']" r']
    by (auto simp: rs' linkOK_def)
  have len: "length (crPrevHash r) = length (crPrevHash r')" using link d [of q] d' [of q'] by (simp add: length_chainDigest)
  note parts = chainInput_parts [OF ci]
  have core: "sameCore r r'" using parts len snoc.prems(5) by (auto simp: sameCore_def)
  have "crChainHash q = crChainHash q'" using core link by (simp add: sameCore_def)
  moreover have "inj_on sha256 ((bytesOf \<circ> chainInput) ` (set (rs @ [q]) \<union> set (ts @ [q'])))"
    by (rule inj_on_subset [OF snoc.prems(4)]) (auto simp: rs')
  ultimately have IH: "rs \<noteq> [] \<longrightarrow> sameCore q q'" "list_all2 sameCore (tl rs) (tl ts)"
    "crIndex (hd (rs @ [q])) = crIndex (hd (ts @ [q']))" "crTimestamp (hd (rs @ [q])) = crTimestamp (hd (ts @ [q']))"
    using snoc.IH [of q ts q'] snoc.prems(1,2) rs' goodChain_snoc [of key None "rs @ [q]" r]
      goodChain_snoc [of key' None "ts @ [q']" r'] by auto
  have "list_all2 sameCore (tl (rs @ [q])) (tl rs')"
    using IH rs' by (cases rs; cases ts) (auto intro: list_all2_appendI)
  then show ?case using core IH(3,4) rs' by (simp add: hd_append split: if_splits)
qed

section \<open>Properties\<close>

text \<open>
  A chain built by adding records verifies: after any sequence of additions the chain check succeeds
  over all records, the records are numbered from one, and the report finds no issue.
\<close>

lemma built_chain_verifies:
  "\<exists>cs. runOps chainStep ops (NewChainStore key) = Some cs \<and> VerifyChain cs = (True, length (csRecords cs))
     \<and> vrChainIntact (chainVerify cs) \<and> vrHMACValid (chainVerify cs)
     \<and> map crIndex (csRecords cs) = map (\<lambda>i. int i + 1) [0..<length (csRecords cs)]"
proof -
  obtain cs where cs: "runOps chainStep ops (NewChainStore key) = Some cs" "chain_inv cs"
    using chainsys.run_total [OF chain_inv_New] by blast
  then have good: "goodChain (csKey cs) None (csRecords cs)" by (simp add: chain_inv_def)
  then have "VerifyChain cs = (True, length (csRecords cs))"
    by (simp add: VerifyChain_def prod_eq_iff verifyFrom_good)
  moreover have "vrChainIntact (chainVerify cs) \<and> vrHMACValid (chainVerify cs)"
    using good good_mac by (auto simp: chainVerify_def Let_def case_prod_beta reportFrom_ok)
  ultimately show ?thesis using cs by (auto simp: chain_inv_def)
qed

text \<open>
  The detailed report agrees with the chain check on any records, tampered or not: it calls the chain
  intact exactly when the check succeeds, and the HMACs valid exactly when every record carries the HMAC
  of its chain hash.
\<close>

lemma report_agrees_with_check:
  "vrChainIntact (chainVerify cs) = fst (VerifyChain cs)
   \<and> vrHMACValid (chainVerify cs) = list_all (\<lambda>r. crHMAC r = macOf (csKey cs) (crChainHash r)) (csRecords cs)"
  by (auto simp: list_all_iff chainVerify_def VerifyChain_def verifyFrom_good Let_def case_prod_beta reportFrom_ok)



text \<open>The type of an event is not part of what its record's hash covers, so changing it goes unnoticed.\<close>

lemma event_type_not_covered:
  "VerifyChain (cs\<lparr>csRecords := map (\<lambda>r. r\<lparr>crEventType := f r\<rparr>) (csRecords cs)\<rparr>) = VerifyChain cs"
proof -
  have "verifyFrom key i prev' (map (\<lambda>r. r\<lparr>crEventType := f r\<rparr>) recs) = verifyFrom key i prev recs"
    if "map_option crChainHash prev' = map_option crChainHash prev" for key i prev prev' recs
    using that by (induction recs arbitrary: i prev prev') (auto simp: verifyRecord_def split: option.splits)
  then show ?thesis by (simp add: VerifyChain_def)
qed

end
