(* ===== verification/Merkle.thy ===== *)
theory Merkle
  imports HashChain
begin

text \<open>
  The Merkle tree of the storage layer (\<^verbatim>\<open>pkg/secure/merkle.go\<close>): rebuilding of the levels, inclusion
  proofs and their verification, and the anchoring of signed roots. \<open>encodeAnchor\<close> and \<open>encodeRecord\<close> are
  \<^verbatim>\<open>json.Marshal\<close> on the anchor's fields and on the record, \<open>put\<close> is the anchor store; clock readings
  are arguments. Key files are left out.
\<close>

section \<open>The tree\<close>

record merkle_tree =
  mtLeaves :: "bytes list"
  mtNodes :: "bytes list list"
  mtRoot :: "bytes option"

definition NewMerkleTree :: merkle_tree where
  "NewMerkleTree = \<lparr>mtLeaves = [], mtNodes = [], mtRoot = None\<rparr>"

definition HashEvent :: "bytes \<Rightarrow> bytes" where
  "HashEvent data = sha256 data"

function buildLevels :: "bytes list list \<Rightarrow> bytes list \<Rightarrow> bytes list list \<times> bytes list" where
  "buildLevels levels current =
     (if 1 < length current then let next = pairUp current in buildLevels (levels @ [next]) next
      else (levels, current))"
  by pat_completeness auto
termination
  by (relation "measure (\<lambda>(levels, current). length current)") (auto simp: length_pairUp)

declare buildLevels.simps [simp del]

definition rebuild :: "merkle_tree \<Rightarrow> merkle_tree" where
  "rebuild mt =
     (if mtLeaves mt = [] then mt\<lparr>mtRoot := None, mtNodes := []\<rparr>
      else let (levels, current) = buildLevels [mtLeaves mt] (mtLeaves mt);
               mt = mt\<lparr>mtNodes := levels\<rparr>
           in if length current = 1 then mt\<lparr>mtRoot := Some (hd current)\<rparr> else mt)"

definition AddLeaf :: "bytes \<Rightarrow> merkle_tree \<Rightarrow> merkle_tree" where
  "AddLeaf hash mt = rebuild (mt\<lparr>mtLeaves := mtLeaves mt @ [hash]\<rparr>)"

definition RootHex :: "merkle_tree \<Rightarrow> string" where
  "RootHex mt = (case mtRoot mt of None \<Rightarrow> replicate 64 CHR ''0'' | Some r \<Rightarrow> hexEncode r)"

definition LeafCount :: "merkle_tree \<Rightarrow> nat" where
  "LeafCount mt = length (mtLeaves mt)"

section \<open>Inclusion proofs\<close>

definition siblingIdx :: "nat \<Rightarrow> nat" where
  "siblingIdx i = (if i mod 2 = 0 then i + 1 else i - 1)"

fun proofFrom :: "nat \<Rightarrow> bytes list list \<Rightarrow> bytes list" where
  "proofFrom i (level # level' # levels) =
     (if siblingIdx i < length level then [level ! siblingIdx i] else []) @ proofFrom (i div 2) (level' # levels)"
| "proofFrom i levels = []"

datatype merkle_error = LeafIndexOutOfRange int

definition Proof :: "int \<Rightarrow> merkle_tree \<Rightarrow> merkle_error + bytes list" where
  "Proof idx mt =
     (if idx < 0 \<or> int (length (mtLeaves mt)) \<le> idx then Inl (LeafIndexOutOfRange idx)
      else Inr (proofFrom (nat idx) (mtNodes mt)))"

fun climb :: "nat \<Rightarrow> bytes \<Rightarrow> bytes list \<Rightarrow> bytes" where
  "climb i current [] = current"
| "climb i current (sibling # proof) =
     climb (i div 2) (sha256 (if i mod 2 = 0 then current @ sibling else sibling @ current)) proof"

definition VerifyProof :: "bytes \<Rightarrow> bytes list \<Rightarrow> nat \<Rightarrow> bytes \<Rightarrow> bool" where
  "VerifyProof leaf proof idx expectedRoot = (climb idx leaf proof = expectedRoot)"

section \<open>Anchoring\<close>

record anchor_record =
  arTimestamp :: int
  arLeafCount :: nat
  arRootHex :: string
  arSignature :: string

record anchoring =
  maTree :: merkle_tree
  maKey :: bytes
  maAnchors :: "anchor_record list"
  maInterval :: duration
  maLastAnchor :: time

definition signAnchor :: "(int \<Rightarrow> nat \<Rightarrow> string \<Rightarrow> bytes) \<Rightarrow> bytes \<Rightarrow> anchor_record \<Rightarrow> string" where
  "signAnchor encodeAnchor key rec =
     hexEncode (hmacSha256 key (encodeAnchor (arTimestamp rec) (arLeafCount rec) (arRootHex rec)))"

datatype anchor_error = StoreAnchor

text \<open>
  \<open>put\<close> is the store's \<^verbatim>\<open>Put\<close> when there is a store, with the result of success; encoding these fields
  as JSON does not fail.
\<close>

definition MaybeAnchor ::
    "(int \<Rightarrow> nat \<Rightarrow> string \<Rightarrow> bytes) \<Rightarrow> (anchor_record \<Rightarrow> bytes) \<Rightarrow> (string \<Rightarrow> bytes \<Rightarrow> bool) option \<Rightarrow> time \<Rightarrow> anchoring
     \<Rightarrow> (anchor_error + anchor_record option) \<times> anchoring" where
  "MaybeAnchor encodeAnchor encodeRecord put now ma =
     (if now - maLastAnchor ma < maInterval ma then (Inr None, ma)
      else let rec = \<lparr>arTimestamp = now, arLeafCount = LeafCount (maTree ma), arRootHex = RootHex (maTree ma), arSignature = []\<rparr>;
               rec = rec\<lparr>arSignature := signAnchor encodeAnchor (maKey ma) rec\<rparr>;
               stored = (case put of None \<Rightarrow> True | Some p \<Rightarrow> p (''anchor:'' @ showInt now) (encodeRecord rec))
           in if \<not> stored then (Inl StoreAnchor, ma)
              else (Inr (Some rec), ma\<lparr>maAnchors := maAnchors ma @ [rec], maLastAnchor := now\<rparr>))"

definition LatestAnchor :: "anchoring \<Rightarrow> anchor_record option" where
  "LatestAnchor ma = (if maAnchors ma = [] then None else Some (last (maAnchors ma)))"

definition VerifyAnchors :: "(int \<Rightarrow> nat \<Rightarrow> string \<Rightarrow> bytes) \<Rightarrow> anchoring \<Rightarrow> bool" where
  "VerifyAnchors encodeAnchor ma = list_all (\<lambda>rec. arSignature rec = signAnchor encodeAnchor (maKey ma) rec) (maAnchors ma)"

section \<open>The levels\<close>

text \<open>The levels of a tree over its leaves, from the bottom.\<close>

function levelsOf :: "bytes list \<Rightarrow> bytes list list" where
  "levelsOf current = (if 1 < length current then current # levelsOf (pairUp current) else [current])"
  by pat_completeness auto
termination
  by (relation "measure length") (auto simp: length_pairUp)

declare levelsOf.simps [simp del]

lemma levelsOf_Cons: "\<exists>ls. levelsOf c = c # ls"
  by (subst levelsOf.simps) auto

lemma buildLevels_levelsOf:
  "buildLevels (levels @ [current]) current = (levels @ levelsOf current, last (levelsOf current))"
proof (induction current arbitrary: levels rule: levelsOf.induct)
  case (1 current)
  show ?case
  proof (cases "1 < length current")
    case True
    obtain ls where "levelsOf (pairUp current) = pairUp current # ls" using levelsOf_Cons by blast
    moreover have "levelsOf current = current # levelsOf (pairUp current)" using True by (subst levelsOf.simps) simp
    ultimately show ?thesis
      using True 1 [OF True, of "levels @ [current]"] by (subst buildLevels.simps) (simp add: Let_def)
  next
    case False
    then show ?thesis by (subst buildLevels.simps, subst (1 2) levelsOf.simps) simp
  qed
qed

lemma last_levelsOf: "current \<noteq> [] \<Longrightarrow> last (levelsOf current) = [reduceHashes current]"
proof (induction current rule: levelsOf.induct)
  case (1 current)
  show ?case
  proof (cases "1 < length current")
    case True
    then have "pairUp current \<noteq> []" by (cases current rule: pairUp.cases) auto
    moreover obtain ls where "levelsOf (pairUp current) = pairUp current # ls" using levelsOf_Cons by blast
    moreover have "levelsOf current = current # levelsOf (pairUp current)" using True by (subst levelsOf.simps) simp
    moreover have "reduceHashes current = reduceHashes (pairUp current)" using True by (subst reduceHashes.simps) simp
    ultimately show ?thesis using 1(1) [OF True] by simp
  next
    case False
    with 1(2) obtain h where "current = [h]" by (cases current) auto
    then show ?thesis by (simp add: levelsOf.simps [of "[h]"] reduceHashes.simps [of "[h]"])
  qed
qed

lemma rebuild_levels:
  "mtLeaves mt \<noteq> [] \<Longrightarrow> mtNodes (rebuild mt) = levelsOf (mtLeaves mt)
     \<and> mtRoot (rebuild mt) = Some (reduceHashes (mtLeaves mt)) \<and> mtLeaves (rebuild mt) = mtLeaves mt"
  using buildLevels_levelsOf [of "[]" "mtLeaves mt"] last_levelsOf [of "mtLeaves mt"]
  by (simp add: rebuild_def)

lemma pairUp_nth: "2 * j + 1 < length c \<Longrightarrow> pairUp c ! j = sha256 (c ! (2 * j) @ c ! (2 * j + 1))"
proof (induction c arbitrary: j rule: pairUp.induct)
  case (1 a b hs)
  then show ?case by (cases j) auto
qed auto

lemma pair_order:
  "(if i mod 2 = 0 then c ! i @ c ! siblingIdx i else c ! siblingIdx i @ c ! i) =
     c ! (2 * (i div 2)) @ c ! (2 * (i div 2) + 1)"
proof (cases "i mod 2 = 0")
  case True
  then have "2 * (i div 2) = i" by presburger
  with True show ?thesis by (simp add: siblingIdx_def)
next
  case False
  then have "2 * (i div 2) = i - 1" "2 * (i div 2) + 1 = i" by presburger+
  with False show ?thesis by (simp add: siblingIdx_def)
qed

text \<open>One level of a tree with a power of two of leaves: the sibling exists and the parent is theirs.\<close>

lemma full_level:
  assumes "length c = 2 ^ Suc k" and "i < 2 ^ Suc k"
  shows "siblingIdx i < length c" and "length (pairUp c) = 2 ^ k" and "i div 2 < 2 ^ k"
    and "pairUp c ! (i div 2) =
      sha256 (if i mod 2 = 0 then c ! i @ c ! siblingIdx i else c ! siblingIdx i @ c ! i)"
proof -
  show "length (pairUp c) = 2 ^ k" "i div 2 < 2 ^ k" using assms by (simp_all add: length_pairUp)
  show sib: "siblingIdx i < length c" using assms by (simp add: siblingIdx_def) presburger
  have "2 * (i div 2) + 1 < length c" using assms by simp presburger
  from pairUp_nth [OF this] show "pairUp c ! (i div 2) =
      sha256 (if i mod 2 = 0 then c ! i @ c ! siblingIdx i else c ! siblingIdx i @ c ! i)"
    by (simp only: pair_order)
qed

lemma full_more: "length c = 2 ^ Suc k \<Longrightarrow> 1 < length c"
proof -
  assume "length c = 2 ^ Suc k"
  moreover have "(0 :: nat) < 2 ^ k" by simp
  ultimately show ?thesis unfolding power_Suc by linarith
qed

lemma levels_step:
  "1 < length c \<Longrightarrow> levelsOf c = c # levelsOf (pairUp c) \<and> reduceHashes c = reduceHashes (pairUp c)
     \<and> proofFrom i (levelsOf c) = (if siblingIdx i < length c then [c ! siblingIdx i] else []) @ proofFrom (i div 2) (levelsOf (pairUp c))"
proof -
  assume c: "1 < length c"
  then have l: "levelsOf c = c # levelsOf (pairUp c)" "reduceHashes c = reduceHashes (pairUp c)"
    by (subst levelsOf.simps, simp, subst reduceHashes.simps, simp)
  obtain ls where "levelsOf (pairUp c) = pairUp c # ls" using levelsOf_Cons by blast
  with l show ?thesis by simp
qed

lemma climb_proof:
  "length c = 2 ^ k \<Longrightarrow> i < 2 ^ k \<Longrightarrow> climb i (c ! i) (proofFrom i (levelsOf c)) = reduceHashes c"
proof (induction k arbitrary: c i)
  case 0
  then obtain h where "c = [h]" by (cases c) auto
  with 0 show ?case by (simp add: levelsOf.simps [of "[h]"] reduceHashes.simps [of "[h]"])
next
  case (Suc k)
  note f = full_level [OF Suc.prems]
  note st = levels_step [OF full_more [OF Suc.prems(1)], of i, THEN conjunct2]
  show ?case using Suc.IH [OF f(2,3)] f(1,4) st by simp
qed

text \<open>The inputs that a climb and that the levels of a tree hash.\<close>

fun climbInputs :: "nat \<Rightarrow> bytes \<Rightarrow> bytes list \<Rightarrow> bytes set" where
  "climbInputs i current [] = {}"
| "climbInputs i current (sibling # proof) =
     (let x = (if i mod 2 = 0 then current @ sibling else sibling @ current) in
      insert x (climbInputs (i div 2) (sha256 x) proof))"

fun pairInputs :: "bytes list \<Rightarrow> bytes set" where
  "pairInputs (a # b # hs) = insert (a @ b) (pairInputs hs)"
| "pairInputs hs = {}"

fun treeInputs :: "nat \<Rightarrow> bytes list \<Rightarrow> bytes set" where
  "treeInputs 0 c = {}"
| "treeInputs (Suc k) c = pairInputs c \<union> treeInputs k (pairUp c)"

lemma pairInputs_nth: "2 * j + 1 < length c \<Longrightarrow> c ! (2 * j) @ c ! (2 * j + 1) \<in> pairInputs c"
proof (induction c arbitrary: j rule: pairInputs.induct)
  case (1 a b hs)
  then show ?case by (cases j) auto
qed auto

lemma length_pairUp_elem: "\<forall>h \<in> set c. length h = 32 \<Longrightarrow> \<forall>h \<in> set (pairUp c). length h = 32"
  by (induction c rule: pairUp.induct) auto

lemma climb_sound:
  assumes "length c = 2 ^ k" "i < 2 ^ k" "length ps = k" "length leaf = 32" "\<forall>h \<in> set c. length h = 32"
    and "inj_on sha256 (climbInputs i leaf ps \<union> treeInputs k c)" and "climb i leaf ps = reduceHashes c"
  shows "leaf = c ! i"
  using assms
proof (induction k arbitrary: c i ps leaf)
  case 0
  then obtain h where "c = [h]" by (cases c) auto
  with 0 show ?case by (simp add: reduceHashes.simps [of "[h]"])
next
  case (Suc k)
  obtain s ps' where ps: "ps = s # ps'" "length ps' = k" using Suc.prems(3) by (cases ps) auto
  note f = full_level [OF Suc.prems(1,2)]
  let ?x = "if i mod 2 = 0 then leaf @ s else s @ leaf"
  let ?y = "if i mod 2 = 0 then c ! i @ c ! siblingIdx i else c ! siblingIdx i @ c ! i"
  note st = levels_step [OF full_more [OF Suc.prems(1)], of i, THEN conjunct2]
  have "inj_on sha256 (climbInputs (i div 2) (sha256 ?x) ps' \<union> treeInputs k (pairUp c))"
    by (rule inj_on_subset [OF Suc.prems(6)]) (auto simp: ps Let_def)
  then have "sha256 ?x = pairUp c ! (i div 2)"
    using Suc.IH [OF f(2,3) ps(2)] length_pairUp_elem [OF Suc.prems(5)] Suc.prems(7) st ps(1) by simp
  then have "sha256 ?x = sha256 ?y" using f(4) by simp
  moreover have "?x \<in> climbInputs i leaf ps \<union> treeInputs (Suc k) c" by (simp add: ps Let_def)
  moreover have "?y \<in> climbInputs i leaf ps \<union> treeInputs (Suc k) c"
  proof -
    have j: "2 * (i div 2) + 1 < length c" using Suc.prems(1,2) by simp presburger
    show ?thesis unfolding pair_order using pairInputs_nth [OF j] by simp
  qed
  ultimately have "?x = ?y" using inj_onD [OF Suc.prems(6)] by blast
  moreover have "length (c ! i) = 32" using Suc.prems(1,2,5) by simp
  ultimately show ?case using Suc.prems(4) by (auto split: if_splits)
qed

section \<open>Properties\<close>

lemma tree_of_leaves:
  "mtLeaves (fold AddLeaf hs mt) = mtLeaves mt @ hs
   \<and> (hs \<noteq> [] \<longrightarrow> mtNodes (fold AddLeaf hs mt) = levelsOf (mtLeaves mt @ hs)
        \<and> mtRoot (fold AddLeaf hs mt) = Some (reduceHashes (mtLeaves mt @ hs)))"
proof (induction hs arbitrary: mt)
  case (Cons h hs)
  have "mtLeaves (AddLeaf h mt) = mtLeaves mt @ [h]"
    "mtNodes (AddLeaf h mt) = levelsOf (mtLeaves mt @ [h])" "mtRoot (AddLeaf h mt) = Some (reduceHashes (mtLeaves mt @ [h]))"
    using rebuild_levels [of "mt\<lparr>mtLeaves := mtLeaves mt @ [h]\<rparr>"] by (simp_all add: AddLeaf_def)
  then show ?case using Cons.IH [of "AddLeaf h mt"] by (cases hs) auto
qed simp



text \<open>
  With an odd number of nodes on a level the last one is promoted; the proof skips the level but the
  verification does not. With three leaves, the proof of the last leaf verifies only if SHA-256 maps two
  different concatenations to one digest.
\<close>

lemma promoted_leaf_proof:
  assumes "mt = fold AddLeaf [a, b, c] NewMerkleTree" and "Proof 2 mt = Inr ps" and "mtRoot mt = Some root"
  shows "VerifyProof c ps 2 root \<longleftrightarrow> sha256 (c @ sha256 (a @ b)) = sha256 (sha256 (a @ b) @ c)"
proof -
  have mt: "mtLeaves mt = [a, b, c]" "mtNodes mt = levelsOf [a, b, c]" "root = reduceHashes [a, b, c]"
    using tree_of_leaves [of "[a, b, c]" NewMerkleTree] assms(1,3) by (simp_all add: NewMerkleTree_def)
  have "levelsOf [a, b, c] = [[a, b, c], [sha256 (a @ b), c], [sha256 (sha256 (a @ b) @ c)]]"
    "reduceHashes [a, b, c] = sha256 (sha256 (a @ b) @ c)"
    by (simp_all add: levelsOf.simps reduceHashes.simps)
  then show ?thesis using assms(2) mt by (auto simp: Proof_def VerifyProof_def siblingIdx_def)
qed

text \<open>
  The two integrity components agree on roots: the root hash of a non-empty hash chain is the root of
  the Merkle tree whose leaves are the decoded chain hashes.
\<close>

lemma chain_root_is_merkle_root:
  assumes "csRecords cs \<noteq> []"
  shows "RootHash cs = RootHex (fold AddLeaf (map (\<lambda>r. hexDecode (crChainHash r)) (csRecords cs)) NewMerkleTree)"
  using tree_of_leaves [of "map (\<lambda>r. hexDecode (crChainHash r)) (csRecords cs)" NewMerkleTree] assms
  by (simp add: RootHash_def RootHex_def NewMerkleTree_def)

lemma chain_root_is_merkle_root_example:
  "RootHash (snd (chainAdd 5 1 [7] (NewChainStore []))) =
   RootHex (fold AddLeaf (map (\<lambda>r. hexDecode (crChainHash r)) (csRecords (snd (chainAdd 5 1 [7] (NewChainStore []))))) NewMerkleTree)"
  by (rule chain_root_is_merkle_root) (simp add: chainAdd_def Let_def)

section \<open>Anchors\<close>

datatype anchor_op = ALeaf bytes | AAnchor "(string \<Rightarrow> bytes \<Rightarrow> bool) option" time

fun anchorStep ::
    "(int \<Rightarrow> nat \<Rightarrow> string \<Rightarrow> bytes) \<Rightarrow> (anchor_record \<Rightarrow> bytes) \<Rightarrow> anchor_op \<Rightarrow> anchoring \<Rightarrow> anchoring option" where
  "anchorStep ea er (ALeaf h) ma = Some (ma\<lparr>maTree := AddLeaf h (maTree ma)\<rparr>)"
| "anchorStep ea er (AAnchor put now) ma = Some (snd (MaybeAnchor ea er put now ma))"

text \<open>Anchors carry their signature, are spaced by the interval, and their time is the last one recorded.\<close>

definition anchor_inv :: "(int \<Rightarrow> nat \<Rightarrow> string \<Rightarrow> bytes) \<Rightarrow> anchoring \<Rightarrow> bool" where
  "anchor_inv ea ma \<longleftrightarrow> VerifyAnchors ea ma \<and> successively (\<lambda>a b. arTimestamp a + maInterval ma \<le> arTimestamp b) (maAnchors ma)
     \<and> (maAnchors ma \<noteq> [] \<longrightarrow> maLastAnchor ma = arTimestamp (last (maAnchors ma)))"

lemma MaybeAnchor_inv: "anchor_inv ea ma \<Longrightarrow> anchor_inv ea (snd (MaybeAnchor ea er put now ma))"
  by (auto simp: anchor_inv_def MaybeAnchor_def VerifyAnchors_def Let_def signAnchor_def successively_append_iff
      split: option.splits)

interpretation anchorsys: total_system "anchorStep ea er" "anchor_inv ea" for ea er
proof unfold_locales
  fix s s' op assume "anchor_inv ea s" "anchorStep ea er op s = Some s'"
  then show "anchor_inv ea s'"
    by (cases op) (auto simp: MaybeAnchor_inv, simp add: anchor_inv_def VerifyAnchors_def)
next
  fix s op show "anchorStep ea er op s \<noteq> None" by (cases op) auto
qed

text \<open>
  Every anchor recorded by any sequence of added leaves and anchoring attempts carries a valid
  signature, and consecutive anchors are at least the interval apart, whatever the store answers.
\<close>

lemma anchors_signed_and_spaced:
  assumes "maAnchors ma = []"
  shows "\<exists>ma'. runOps (anchorStep ea er) ops ma = Some ma' \<and> VerifyAnchors ea ma'
    \<and> successively (\<lambda>a b. arTimestamp a + maInterval ma' \<le> arTimestamp b) (maAnchors ma')"
proof -
  have "anchor_inv ea ma" using assms by (simp add: anchor_inv_def VerifyAnchors_def)
  from anchorsys.run_total [OF this, of er ops] show ?thesis by (auto simp: anchor_inv_def)
qed

lemma anchors_signed_and_spaced_example:
  "\<exists>ma'. runOps (anchorStep (\<lambda>_ _ _. []) (\<lambda>_. [])) [ALeaf [1], AAnchor None 20, AAnchor None 25, AAnchor None 31]
      \<lparr>maTree = NewMerkleTree, maKey = [], maAnchors = [], maInterval = 10, maLastAnchor = 0\<rparr> = Some ma'
     \<and> VerifyAnchors (\<lambda>_ _ _. []) ma'"
  using anchors_signed_and_spaced
    [of "\<lparr>maTree = NewMerkleTree, maKey = [], maAnchors = [], maInterval = 10, maLastAnchor = 0\<rparr>"] by fastforce

end
