(* ===== verification/Snapshot.thy ===== *)
theory Snapshot
  imports Events Interfaces
begin

text \<open>
  The rolling snapshot of recent events (\<^verbatim>\<open>internal/engine/stream/snapshot.go\<close>): a ring buffer with an
  index of slots per process. Clock readings are arguments. The two loops that walk the ring get as many
  steps as the ring has slots, which is shown to be enough.
\<close>

section \<open>Model\<close>

record snap_entry =
  seEvent :: event
  seTime :: time

record snapshot =
  ssWindow :: duration
  ssEvents :: "snap_entry option list"
  ssByPID :: "(u32 \<times> nat list) list"
  ssHead :: nat
  ssTail :: nat
  ssMax :: nat

definition newSnapshot :: "nat \<Rightarrow> duration \<Rightarrow> snapshot" where
  "newSnapshot maxSize window = \<lparr>ssWindow = (if window \<le> 0 then 60 * minute else window),
     ssEvents = replicate maxSize None, ssByPID = [], ssHead = 0, ssTail = 0, ssMax = maxSize\<rparr>"

definition NewRollingSnapshot :: "duration \<Rightarrow> snapshot" where
  "NewRollingSnapshot window = newSnapshot 500000 window"

definition removeFromIndex :: "u32 \<Rightarrow> nat \<Rightarrow> snapshot \<Rightarrow> snapshot" where
  "removeFromIndex pid idx rs =
     (let indices = mget0 [] (ssByPID rs) pid in
      if idx \<in> set indices then rs\<lparr>ssByPID := AList.update pid (remove1 idx indices) (ssByPID rs)\<rparr> else rs)"

definition snapAdd :: "time \<Rightarrow> event \<Rightarrow> snapshot \<Rightarrow> snapshot" where
  "snapAdd now evt rs =
     (let rs = rs\<lparr>ssEvents := (ssEvents rs)[ssHead rs := Some \<lparr>seEvent = evt, seTime = now\<rparr>]\<rparr>;
          idx = ssHead rs;
          rs = rs\<lparr>ssHead := (ssHead rs + 1) mod ssMax rs\<rparr>;
          rs = (if ssHead rs = ssTail rs then
                  let rs = (case ssEvents rs ! ssTail rs of None \<Rightarrow> rs
                            | Some old \<Rightarrow> removeFromIndex (evPID (seEvent old)) (ssTail rs) rs)
                  in rs\<lparr>ssTail := (ssTail rs + 1) mod ssMax rs\<rparr>
                else rs)
      in rs\<lparr>ssByPID := AList.update (evPID evt) (mget0 [] (ssByPID rs) (evPID evt) @ [idx]) (ssByPID rs)\<rparr>)"

definition recentAt :: "time \<Rightarrow> snapshot \<Rightarrow> nat \<Rightarrow> event option" where
  "recentAt cutoff rs idx = (case ssEvents rs ! idx of None \<Rightarrow> None
     | Some en \<Rightarrow> if cutoff < seTime en then Some (seEvent en) else None)"

definition GetByPID :: "time \<Rightarrow> u32 \<Rightarrow> snapshot \<Rightarrow> event list" where
  "GetByPID now pid rs =
     (let indices = mget0 [] (ssByPID rs) pid in
      if indices = [] then [] else List.map_filter (recentAt (now - ssWindow rs) rs) indices)"

fun recentLoop :: "nat \<Rightarrow> time \<Rightarrow> snapshot \<Rightarrow> nat \<Rightarrow> event list option" where
  "recentLoop 0 cutoff rs idx = (if idx = ssHead rs then Some [] else None)"
| "recentLoop (Suc fuel) cutoff rs idx =
     (if idx = ssHead rs then Some []
      else map_option (\<lambda>r. (case recentAt cutoff rs idx of None \<Rightarrow> [] | Some e \<Rightarrow> [e]) @ r)
             (recentLoop fuel cutoff rs ((idx + 1) mod ssMax rs)))"

definition RecentEvents :: "time \<Rightarrow> int \<Rightarrow> snapshot \<Rightarrow> event list option" where
  "RecentEvents now seconds rs = recentLoop (ssMax rs) (now - seconds * second) rs (ssTail rs)"

fun evictLoopS :: "nat \<Rightarrow> time \<Rightarrow> nat \<Rightarrow> snapshot \<Rightarrow> (nat \<times> snapshot) option" where
  "evictLoopS fuel cutoff evicted rs =
     (if ssTail rs = ssHead rs then Some (evicted, rs)
      else case fuel of 0 \<Rightarrow> None | Suc fuel' \<Rightarrow>
        (case ssEvents rs ! ssTail rs of
           None \<Rightarrow> evictLoopS fuel' cutoff evicted (rs\<lparr>ssTail := (ssTail rs + 1) mod ssMax rs\<rparr>)
         | Some en \<Rightarrow>
           if cutoff < seTime en then Some (evicted, rs)
           else let rs = removeFromIndex (evPID (seEvent en)) (ssTail rs) rs;
                    rs = rs\<lparr>ssEvents := (ssEvents rs)[ssTail rs := None]\<rparr>;
                    rs = rs\<lparr>ssTail := (ssTail rs + 1) mod ssMax rs\<rparr>
                in evictLoopS fuel' cutoff (evicted + 1) rs))"

declare evictLoopS.simps [simp del]

definition snapEvict :: "time \<Rightarrow> snapshot \<Rightarrow> (nat \<times> snapshot) option" where
  "snapEvict now rs = evictLoopS (ssMax rs) (now - ssWindow rs) 0 rs"

definition ContainsPID :: "u32 \<Rightarrow> snapshot \<Rightarrow> bool" where
  "ContainsPID pid rs = (0 < length (mget0 [] (ssByPID rs) pid))"

definition snapSize :: "snapshot \<Rightarrow> nat" where
  "snapSize rs = (if ssTail rs \<le> ssHead rs then ssHead rs - ssTail rs else ssMax rs - ssTail rs + ssHead rs)"

section \<open>The ring as a list\<close>

text \<open>The slots from the tail to the head, \<open>n\<close> of them, and the entries they hold.\<close>

definition slots :: "nat \<Rightarrow> nat \<Rightarrow> nat \<Rightarrow> nat list" where
  "slots m t n = map (\<lambda>j. (t + j) mod m) [0..<n]"

definition entryAt :: "snapshot \<Rightarrow> nat \<Rightarrow> snap_entry" where
  "entryAt rs i = the (ssEvents rs ! i)"

definition pidAt :: "snapshot \<Rightarrow> nat \<Rightarrow> u32" where
  "pidAt rs i = evPID (seEvent (entryAt rs i))"

definition indexOK :: "snapshot \<Rightarrow> nat list \<Rightarrow> bool" where
  "indexOK rs S \<longleftrightarrow> (\<forall>pid. mget0 [] (ssByPID rs) pid = filter (\<lambda>i. pidAt rs i = pid) S)"

definition ring :: "snapshot \<Rightarrow> nat \<Rightarrow> bool" where
  "ring rs n \<longleftrightarrow> 1 < ssMax rs \<and> n < ssMax rs \<and> length (ssEvents rs) = ssMax rs \<and> ssTail rs < ssMax rs
     \<and> ssHead rs = (ssTail rs + n) mod ssMax rs
     \<and> (\<forall>i \<in> set (slots (ssMax rs) (ssTail rs) n). ssEvents rs ! i \<noteq> None)
     \<and> indexOK rs (slots (ssMax rs) (ssTail rs) n)"

definition contents :: "snapshot \<Rightarrow> snap_entry list" where
  "contents rs = map (entryAt rs) (slots (ssMax rs) (ssTail rs) (snapSize rs))"

lemma slots_Suc: "slots m t (Suc n) = slots m t n @ [(t + n) mod m]"
  by (simp add: slots_def)

lemma slots_Cons: "slots m t (Suc n) = (t mod m) # slots m (Suc t) n"
  by (simp add: slots_def upt_conv_Cons map_Suc_upt [symmetric] del: upt_Suc)

lemma slots_mod: "slots m (t mod m) n = slots m t n"
  by (simp add: slots_def mod_add_left_eq)

lemma add_mod_cases: "t < m \<Longrightarrow> i < m \<Longrightarrow> (t + i) mod (m :: nat) = (if t + i < m then t + i else t + i - m)"
  by (simp add: mod_if)

lemma add_mod_inj: "t < m \<Longrightarrow> (t + i) mod m = (t + j) mod (m :: nat) \<Longrightarrow> i < m \<Longrightarrow> j < m \<Longrightarrow> i = j"
  by (simp add: add_mod_cases split: if_splits)

lemma slots_bound: "0 < m \<Longrightarrow> i \<in> set (slots m t n) \<Longrightarrow> i < m"
  by (auto simp: slots_def)

lemma distinct_slots: "t < m \<Longrightarrow> n \<le> m \<Longrightarrow> distinct (slots m t n)"
  by (auto simp: slots_def distinct_map inj_on_def dest: add_mod_inj)

lemma length_slots [simp]: "length (slots m t n) = n"
  by (simp add: slots_def)

lemma head_not_slot: "t < m \<Longrightarrow> n < m \<Longrightarrow> (t + n) mod m \<notin> set (slots m t n)"
  by (auto simp: slots_def dest: add_mod_inj)

lemma snapSize_ring: "ring rs n \<Longrightarrow> snapSize rs = n"
  by (auto simp: ring_def snapSize_def add_mod_cases)

lemma contents_ring: "ring rs n \<Longrightarrow> contents rs = map (entryAt rs) (slots (ssMax rs) (ssTail rs) n)"
  by (simp add: contents_def snapSize_ring)

lemma next_head: "t < m \<Longrightarrow> n < m \<Longrightarrow> 1 < m \<Longrightarrow> ((t + n) mod m + 1) mod m = (t + Suc n) mod (m :: nat)"
  by (simp add: mod_Suc_eq)

lemma full_iff: "t < m \<Longrightarrow> n < m \<Longrightarrow> (t + Suc n) mod m = t \<longleftrightarrow> Suc n = (m :: nat)"
  by (cases "Suc n = m") (use add_mod_cases [of t m "Suc n"] in \<open>auto split: if_splits\<close>)

section \<open>The index\<close>

lemma index_remove:
  assumes "indexOK rs (i # S)" and "ssEvents rs ! i = Some en"
  shows "indexOK (removeFromIndex (evPID (seEvent en)) i rs) S"
proof -
  have p: "evPID (seEvent en) = pidAt rs i" using assms(2) by (simp add: pidAt_def entryAt_def)
  have "mget0 [] (ssByPID rs) (pidAt rs i) = i # filter (\<lambda>j. pidAt rs j = pidAt rs i) S"
    using assms(1) by (simp add: indexOK_def)
  then show ?thesis
    using assms(1) unfolding p by (auto simp: indexOK_def removeFromIndex_def Let_def mget0_def pidAt_def entryAt_def)
qed

lemma index_append:
  "indexOK rs S \<Longrightarrow> pid = pidAt rs i \<Longrightarrow>
   indexOK (rs\<lparr>ssByPID := AList.update pid (mget0 [] (ssByPID rs) pid @ [i]) (ssByPID rs)\<rparr>) (S @ [i])"
  by (auto simp: indexOK_def mget0_def pidAt_def entryAt_def)

lemma index_cong:
  "indexOK rs S \<Longrightarrow> ssByPID rs' = ssByPID rs \<Longrightarrow> (\<And>i. i \<in> set S \<Longrightarrow> ssEvents rs' ! i = ssEvents rs ! i) \<Longrightarrow> indexOK rs' S"
  by (auto simp: indexOK_def pidAt_def entryAt_def intro!: filter_cong)

lemma removeFromIndex_fields [simp]:
  "ssEvents (removeFromIndex p i rs) = ssEvents rs" "ssHead (removeFromIndex p i rs) = ssHead rs"
  "ssTail (removeFromIndex p i rs) = ssTail rs" "ssMax (removeFromIndex p i rs) = ssMax rs"
  "ssWindow (removeFromIndex p i rs) = ssWindow rs"
  by (simp_all add: removeFromIndex_def Let_def)

section \<open>The operations on the ring\<close>

text \<open>The state after the slot is written and the head moved, before the tail and the index follow.\<close>

definition written :: "time \<Rightarrow> event \<Rightarrow> snapshot \<Rightarrow> snapshot" where
  "written now evt rs = rs\<lparr>ssEvents := (ssEvents rs)[ssHead rs := Some \<lparr>seEvent = evt, seTime = now\<rparr>],
     ssHead := (ssHead rs + 1) mod ssMax rs\<rparr>"

lemma written_ring:
  assumes "ring rs n" and w_def: "w = written now evt rs"
  shows "ssHead w = (ssTail rs + Suc n) mod ssMax rs" "length (ssEvents w) = ssMax rs"
    "ssEvents w ! ssHead rs = Some \<lparr>seEvent = evt, seTime = now\<rparr>"
    "\<And>i. i \<in> set (slots (ssMax rs) (ssTail rs) n) \<Longrightarrow> ssEvents w ! i = ssEvents rs ! i"
    "indexOK w (slots (ssMax rs) (ssTail rs) n)"
proof -
  note r = assms(1) [unfolded ring_def]
  have h: "ssHead rs < ssMax rs" using r by simp
  show "ssHead w = (ssTail rs + Suc n) mod ssMax rs" using r next_head by (simp add: w_def written_def)
  show "length (ssEvents w) = ssMax rs" using r by (simp add: w_def written_def)
  show "ssEvents w ! ssHead rs = Some \<lparr>seEvent = evt, seTime = now\<rparr>" using r h by (simp add: w_def written_def)
  show same: "ssEvents w ! i = ssEvents rs ! i" if "i \<in> set (slots (ssMax rs) (ssTail rs) n)" for i
    using that r head_not_slot [of "ssTail rs" "ssMax rs" n] by (auto simp: w_def written_def nth_list_update)
  show "indexOK w (slots (ssMax rs) (ssTail rs) n)"
    by (rule index_cong [of rs]) (use r same in \<open>auto simp: w_def written_def\<close>)
qed

lemma snapAdd_written:
  "snapAdd now evt rs =
     (let w = written now evt rs;
          w' = (if ssHead w = ssTail rs then
                  (case ssEvents w ! ssTail rs of None \<Rightarrow> w
                   | Some old \<Rightarrow> removeFromIndex (evPID (seEvent old)) (ssTail rs) w)\<lparr>ssTail := (ssTail rs + 1) mod ssMax rs\<rparr>
                else w)
      in w'\<lparr>ssByPID := AList.update (evPID evt) (mget0 [] (ssByPID w') (evPID evt) @ [ssHead rs]) (ssByPID w')\<rparr>)"
  by (simp add: snapAdd_def written_def Let_def split: option.split)

lemma written_fields [simp]:
  "ssMax (written now evt rs) = ssMax rs" "ssTail (written now evt rs) = ssTail rs"
  "ssByPID (written now evt rs) = ssByPID rs" "ssWindow (written now evt rs) = ssWindow rs"
  by (simp_all add: written_def)

lemma snapAdd_open:
  assumes "ring rs n" and "Suc n < ssMax rs"
  shows "ring (snapAdd now evt rs) (Suc n)"
    and "contents (snapAdd now evt rs) = contents rs @ [\<lparr>seEvent = evt, seTime = now\<rparr>]"
proof -
  note r = assms(1) [unfolded ring_def]
  let ?w = "written now evt rs"
  note w = written_ring [where now = now and evt = evt, OF assms(1) refl]
  have "ssHead ?w \<noteq> ssTail rs" using full_iff [of "ssTail rs" "ssMax rs" n] r assms(2) w(1) by auto
  then have a: "snapAdd now evt rs =
      ?w\<lparr>ssByPID := AList.update (evPID evt) (mget0 [] (ssByPID ?w) (evPID evt) @ [ssHead rs]) (ssByPID ?w)\<rparr>"
    by (simp add: snapAdd_written Let_def)
  have S: "slots (ssMax rs) (ssTail rs) (Suc n) = slots (ssMax rs) (ssTail rs) n @ [ssHead rs]"
    using r by (simp add: slots_Suc)
  have "evPID evt = pidAt ?w (ssHead rs)" using w(3) by (simp add: pidAt_def entryAt_def)
  from index_append [OF w(5) this] have "indexOK (snapAdd now evt rs) (slots (ssMax rs) (ssTail rs) (Suc n))"
    unfolding a S .
  then show ring': "ring (snapAdd now evt rs) (Suc n)"
    unfolding ring_def using r w(1-4) assms(2) S by (auto simp: a)
  show "contents (snapAdd now evt rs) = contents rs @ [\<lparr>seEvent = evt, seTime = now\<rparr>]"
    using w contents_ring [OF assms(1)] contents_ring [OF ring']
    by (simp add: a S entryAt_def)
qed

lemma snapAdd_full:
  assumes "ring rs n" and "Suc n = ssMax rs"
  shows "ring (snapAdd now evt rs) n"
    and "contents (snapAdd now evt rs) = tl (contents rs) @ [\<lparr>seEvent = evt, seTime = now\<rparr>]"
proof -
  note r = assms(1) [unfolded ring_def]
  let ?w = "written now evt rs" and ?m = "ssMax rs" and ?t = "ssTail rs"
  note w = written_ring [where now = now and evt = evt, OF assms(1) refl]
  obtain k where n: "n = Suc k" using r assms(2) by (cases n) auto
  have S: "slots ?m ?t n = ?t # slots ?m (Suc ?t mod ?m) k" using r by (simp add: n slots_Cons slots_mod)
  have S': "slots ?m (Suc ?t mod ?m) n = slots ?m (Suc ?t mod ?m) k @ [ssHead rs]"
    using r by (simp add: n slots_Suc mod_add_left_eq)
  have "ssHead ?w = ?t" using full_iff [of ?t ?m n] r assms(2) w(1) by auto
  moreover obtain old where old: "ssEvents ?w ! ?t = Some old" using w(4) [of ?t] r S by auto
  ultimately have a: "snapAdd now evt rs =
      (let w' = (removeFromIndex (evPID (seEvent old)) ?t ?w)\<lparr>ssTail := Suc ?t mod ?m\<rparr>
       in w'\<lparr>ssByPID := AList.update (evPID evt) (mget0 [] (ssByPID w') (evPID evt) @ [ssHead rs]) (ssByPID w')\<rparr>)"
    by (simp add: snapAdd_written Let_def)
  let ?v = "(removeFromIndex (evPID (seEvent old)) ?t ?w)\<lparr>ssTail := Suc ?t mod ?m\<rparr>"
  have "indexOK (removeFromIndex (evPID (seEvent old)) ?t ?w) (slots ?m (Suc ?t mod ?m) k)"
    by (rule index_remove) (use w(5) S old in auto)
  then have "indexOK ?v (slots ?m (Suc ?t mod ?m) k)" by (rule index_cong) simp_all
  moreover have "evPID evt = pidAt ?v (ssHead rs)" using w(3) by (simp add: pidAt_def entryAt_def)
  ultimately have "indexOK (snapAdd now evt rs) (slots ?m (Suc ?t mod ?m) n)"
    unfolding a S' Let_def by (rule index_append)
  moreover have "ssHead (snapAdd now evt rs) = (Suc ?t mod ?m + n) mod ?m"
    using w(1) by (simp add: a Let_def mod_add_left_eq)
  moreover have ev: "ssEvents (snapAdd now evt rs) = ssEvents ?w" "ssTail (snapAdd now evt rs) = Suc ?t mod ?m"
    "ssMax (snapAdd now evt rs) = ?m" by (simp_all add: a Let_def)
  ultimately show ring': "ring (snapAdd now evt rs) n"
    unfolding ring_def ev using r w(2-4) S S' by auto
  show "contents (snapAdd now evt rs) = tl (contents rs) @ [\<lparr>seEvent = evt, seTime = now\<rparr>]"
    using w(3,4) contents_ring [OF assms(1)] contents_ring [OF ring']
    by (simp add: ev S S' entryAt_def)
qed

text \<open>Dropping the entry at the tail, as \<open>Evict\<close> does for an old one.\<close>

definition evictOne :: "snap_entry \<Rightarrow> snapshot \<Rightarrow> snapshot" where
  "evictOne en rs = (let rs = removeFromIndex (evPID (seEvent en)) (ssTail rs) rs;
                         rs = rs\<lparr>ssEvents := (ssEvents rs)[ssTail rs := None]\<rparr>
                     in rs\<lparr>ssTail := (ssTail rs + 1) mod ssMax rs\<rparr>)"

lemma ring_tail:
  assumes "ring rs (Suc k)"
  shows "\<exists>en. ssEvents rs ! ssTail rs = Some en \<and> contents rs = en # tl (contents rs)"
proof -
  note r = assms [unfolded ring_def]
  have S: "slots (ssMax rs) (ssTail rs) (Suc k) = ssTail rs # slots (ssMax rs) (Suc (ssTail rs)) k"
    using r by (simp add: slots_Cons)
  then obtain en where "ssEvents rs ! ssTail rs = Some en" using r by auto
  with S show ?thesis by (simp add: contents_ring [OF assms] entryAt_def)
qed

lemma evictOne_ring:
  assumes "ring rs (Suc k)" and en: "ssEvents rs ! ssTail rs = Some en"
  shows "ring (evictOne en rs) k" and "contents (evictOne en rs) = tl (contents rs)"
proof -
  note r = assms(1) [unfolded ring_def]
  let ?m = "ssMax rs" and ?t = "ssTail rs"
  let ?u = "removeFromIndex (evPID (seEvent en)) ?t rs"
  have S: "slots ?m ?t (Suc k) = ?t # slots ?m (Suc ?t mod ?m) k" using r by (simp add: slots_Cons slots_mod)
  have d: "?t \<notin> set (slots ?m (Suc ?t mod ?m) k)" using distinct_slots [of ?t ?m "Suc k"] r S by simp
  have f: "ssMax (evictOne en rs) = ?m" "ssTail (evictOne en rs) = Suc ?t mod ?m" "ssHead (evictOne en rs) = ssHead rs"
    "ssEvents (evictOne en rs) = (ssEvents rs)[?t := None]" "ssByPID (evictOne en rs) = ssByPID ?u"
    by (simp_all add: evictOne_def Let_def)
  have same: "(ssEvents rs)[?t := None] ! i = ssEvents rs ! i" if "i \<in> set (slots ?m (Suc ?t mod ?m) k)" for i
    using that d by (metis nth_list_update_neq)
  have "indexOK ?u (slots ?m (Suc ?t mod ?m) k)" by (rule index_remove [OF _ en]) (use r S in simp)
  then have "indexOK (evictOne en rs) (slots ?m (Suc ?t mod ?m) k)"
    by (rule index_cong) (use same in \<open>simp_all add: f\<close>)
  moreover have "ssHead rs = (Suc ?t mod ?m + k) mod ?m" using r by (simp add: mod_add_left_eq)
  ultimately show ring': "ring (evictOne en rs) k" unfolding ring_def f using r S same by auto
  show "contents (evictOne en rs) = tl (contents rs)"
    using same by (simp add: contents_ring [OF assms(1)] contents_ring [OF ring'] f S entryAt_def)
qed

lemma contents_length: "ring rs n \<Longrightarrow> length (contents rs) = n"
  by (simp add: contents_ring)

lemma evictOne_fields [simp]: "ssMax (evictOne en rs) = ssMax rs" "ssWindow (evictOne en rs) = ssWindow rs"
  by (simp_all add: evictOne_def Let_def)

lemma ring_empty: "ring rs 0 \<Longrightarrow> ssTail rs = ssHead rs \<and> contents rs = []"
  using contents_length [of rs 0] by (simp add: ring_def)

lemma evictLoopS_spec:
  "ring rs n \<Longrightarrow> n \<le> fuel \<Longrightarrow> \<exists>rs' n'. evictLoopS fuel cutoff k rs
     = Some (k + length (takeWhile (\<lambda>e. \<not> cutoff < seTime e) (contents rs)), rs')
     \<and> ring rs' n' \<and> contents rs' = dropWhile (\<lambda>e. \<not> cutoff < seTime e) (contents rs)
     \<and> ssMax rs' = ssMax rs \<and> ssWindow rs' = ssWindow rs"
proof (induction fuel arbitrary: rs n k)
  case 0
  then have "ssTail rs = ssHead rs" "contents rs = []" using ring_empty by auto
  then show ?case using 0 by (subst evictLoopS.simps) auto
next
  case (Suc fuel)
  show ?case
  proof (cases n)
    case 0
    then have "ssTail rs = ssHead rs" "contents rs = []" using Suc.prems ring_empty by auto
    then show ?thesis using Suc.prems by (subst evictLoopS.simps) auto
  next
    case (Suc j)
    have "ssTail rs \<noteq> ssHead rs"
    proof
      assume "ssTail rs = ssHead rs"
      then have "snapSize rs = 0" by (simp add: snapSize_def)
      then show False using snapSize_ring [OF Suc.prems(1)] \<open>n = Suc j\<close> by simp
    qed
    obtain en es where en: "ssEvents rs ! ssTail rs = Some en" "contents rs = en # es"
      using ring_tail Suc.prems(1) \<open>n = Suc j\<close> by blast
    show ?thesis
    proof (cases "cutoff < seTime en")
      case True
      then show ?thesis using \<open>ssTail rs \<noteq> ssHead rs\<close> en Suc.prems by (subst evictLoopS.simps) auto
    next
      case False
      have step: "evictLoopS (Suc fuel) cutoff k rs = evictLoopS fuel cutoff (k + 1) (evictOne en rs)"
        using \<open>ssTail rs \<noteq> ssHead rs\<close> en(1) False
        by (subst evictLoopS.simps) (simp add: evictOne_def Let_def)
      have r: "ring (evictOne en rs) j" and c: "contents (evictOne en rs) = es"
        using evictOne_ring [OF _ en(1)] Suc.prems(1) \<open>n = Suc j\<close> en(2) by auto
      from Suc.IH [OF r, of "k + 1"] Suc.prems(2) \<open>n = Suc j\<close> False show ?thesis
        unfolding step c en(2) by auto
    qed
  qed
qed

lemma recentLoop_spec:
  "idx < ssMax rs \<Longrightarrow> n < ssMax rs \<Longrightarrow> ssHead rs = (idx + n) mod ssMax rs \<Longrightarrow> n \<le> fuel
   \<Longrightarrow> recentLoop fuel cutoff rs idx = Some (List.map_filter (recentAt cutoff rs) (slots (ssMax rs) idx n))"
proof (induction fuel arbitrary: idx n)
  case 0
  then show ?case by (simp add: slots_def List.map_filter_def)
next
  case (Suc fuel)
  show ?case
  proof (cases n)
    case 0
    then show ?thesis using Suc.prems by (simp add: slots_def List.map_filter_def)
  next
    case (Suc j)
    have "idx \<noteq> ssHead rs"
      using add_mod_inj [of idx "ssMax rs" 0 n] Suc.prems Suc by auto
    moreover have "recentLoop fuel cutoff rs ((idx + 1) mod ssMax rs)
        = Some (List.map_filter (recentAt cutoff rs) (slots (ssMax rs) ((idx + 1) mod ssMax rs) j))"
      using Suc.prems Suc by (intro Suc.IH) (simp_all add: mod_add_left_eq)
    ultimately show ?thesis
      using Suc.prems(1) Suc by (simp add: slots_Cons slots_mod map_filter_simps split: option.split)
  qed
qed

lemma recentAt_entries:
  "\<forall>i \<in> set S. ssEvents rs ! i \<noteq> None \<Longrightarrow> List.map_filter (recentAt cutoff rs) S
     = map seEvent (filter (\<lambda>e. cutoff < seTime e) (map (entryAt rs) S))"
  by (induction S) (auto simp: map_filter_simps recentAt_def entryAt_def)

lemma recentAt_filtered:
  "\<forall>i \<in> set S. ssEvents rs ! i \<noteq> None \<Longrightarrow>
   List.map_filter (recentAt cutoff rs) (filter (\<lambda>i. pidAt rs i = pid) S)
     = map seEvent (filter (\<lambda>e. cutoff < seTime e \<and> evPID (seEvent e) = pid) (map (entryAt rs) S))"
  by (induction S) (auto simp: map_filter_simps recentAt_def entryAt_def pidAt_def)

lemma GetByPID_ring:
  assumes "ring rs n"
  shows "GetByPID now pid rs
    = map seEvent (filter (\<lambda>e. now - ssWindow rs < seTime e \<and> evPID (seEvent e) = pid) (contents rs))"
proof -
  let ?S = "slots (ssMax rs) (ssTail rs) n"
  note r = assms [unfolded ring_def]
  have "GetByPID now pid rs = List.map_filter (recentAt (now - ssWindow rs) rs) (filter (\<lambda>i. pidAt rs i = pid) ?S)"
    using r by (simp add: GetByPID_def indexOK_def Let_def map_filter_simps)
  then show ?thesis
    using recentAt_filtered [of ?S rs "now - ssWindow rs" pid] r by (simp add: contents_ring [OF assms])
qed

lemma RecentEvents_ring:
  assumes "ring rs n"
  shows "RecentEvents now secs rs
    = Some (map seEvent (filter (\<lambda>e. now - secs * second < seTime e) (contents rs)))"
proof -
  note r = assms [unfolded ring_def]
  have "RecentEvents now secs rs
      = Some (List.map_filter (recentAt (now - secs * second) rs) (slots (ssMax rs) (ssTail rs) n))"
    unfolding RecentEvents_def by (rule recentLoop_spec) (use r in auto)
  then show ?thesis
    using recentAt_entries [of "slots (ssMax rs) (ssTail rs) n" rs "now - secs * second"] r
    by (simp add: contents_ring [OF assms])
qed

lemma ContainsPID_ring:
  assumes "ring rs n"
  shows "ContainsPID pid rs \<longleftrightarrow> (\<exists>e \<in> set (contents rs). evPID (seEvent e) = pid)"
  using assms unfolding ring_def
  by (auto simp: ContainsPID_def indexOK_def contents_ring [OF assms] pidAt_def filter_empty_conv)

section \<open>Runs of the snapshot\<close>

datatype snap_op = SAdd time event | SEvict time

fun snapStep :: "snap_op \<Rightarrow> snapshot \<Rightarrow> snapshot option" where
  "snapStep (SAdd now evt) rs = Some (snapAdd now evt rs)"
| "snapStep (SEvict now) rs = map_option snd (snapEvict now rs)"

text \<open>The specification: a queue of at most \<open>m - 1\<close> entries that forgets its oldest entries.\<close>

fun queueStep :: "nat \<Rightarrow> duration \<Rightarrow> snap_op \<Rightarrow> snap_entry list \<Rightarrow> snap_entry list" where
  "queueStep m window (SAdd now evt) q =
     (let q' = q @ [\<lparr>seEvent = evt, seTime = now\<rparr>] in if length q' < m then q' else tl q')"
| "queueStep m window (SEvict now) q = dropWhile (\<lambda>e. seTime e \<le> now - window) q"

definition snap_inv :: "snapshot \<Rightarrow> bool" where
  "snap_inv rs \<longleftrightarrow> ring rs (length (contents rs))"

lemma ring_inv: "ring rs n \<Longrightarrow> snap_inv rs"
  by (simp add: snap_inv_def contents_length)

lemma written_window [simp]: "ssWindow (snapAdd now evt rs) = ssWindow rs" "ssMax (snapAdd now evt rs) = ssMax rs"
  by (auto simp: snapAdd_written Let_def split: option.split)

lemma snapStep_refines:
  assumes "snap_inv rs"
  shows "\<exists>rs'. snapStep op rs = Some rs' \<and> snap_inv rs' \<and> ssMax rs' = ssMax rs \<and> ssWindow rs' = ssWindow rs
    \<and> contents rs' = queueStep (ssMax rs) (ssWindow rs) op (contents rs)"
proof (cases op)
  case (SAdd now evt)
  let ?n = "length (contents rs)"
  have r: "ring rs ?n" using assms by (simp add: snap_inv_def)
  show ?thesis
  proof (cases "Suc ?n < ssMax rs")
    case True
    with snapAdd_open [OF r True, of now evt] SAdd show ?thesis by (auto intro: ring_inv)
  next
    case False
    then have m: "Suc ?n = ssMax rs" using r by (simp add: ring_def)
    then have "contents rs \<noteq> []" using r by (auto simp: ring_def)
    with snapAdd_full [OF r m, of now evt] SAdd m show ?thesis by (auto intro: ring_inv simp: Let_def)
  qed
next
  case (SEvict now)
  have r: "ring rs (length (contents rs))" "length (contents rs) \<le> ssMax rs"
    using assms by (auto simp: snap_inv_def ring_def)
  have le: "(\<lambda>e. \<not> c < seTime e) = (\<lambda>e. seTime e \<le> c)" for c by (simp add: not_less)
  from evictLoopS_spec [OF r, of "now - ssWindow rs" 0] show ?thesis
    unfolding SEvict le by (auto simp: snapEvict_def intro: ring_inv)
qed

interpretation snapsys: total_system snapStep snap_inv
proof unfold_locales
  fix op rs rs' assume "snap_inv rs" "snapStep op rs = Some rs'"
  with snapStep_refines [of rs op] show "snap_inv rs'" by auto
next
  fix op rs assume "snap_inv rs"
  with snapStep_refines [of rs op] show "snapStep op rs \<noteq> None" by auto
qed

lemma runs_refine:
  "snap_inv rs \<Longrightarrow> \<exists>rs'. runOps snapStep ops rs = Some rs' \<and> snap_inv rs' \<and> ssMax rs' = ssMax rs
     \<and> ssWindow rs' = ssWindow rs \<and> contents rs' = fold (queueStep (ssMax rs) (ssWindow rs)) ops (contents rs)"
proof (induction ops arbitrary: rs)
  case (Cons op ops)
  obtain r where "snapStep op rs = Some r" "snap_inv r" "ssMax r = ssMax rs" "ssWindow r = ssWindow rs"
    "contents r = queueStep (ssMax rs) (ssWindow rs) op (contents rs)"
    using snapStep_refines [OF Cons.prems, of op] by blast
  with Cons.IH [of r] show ?case by auto
qed simp

lemma newSnapshot_inv: "1 < m \<Longrightarrow> snap_inv (newSnapshot m w) \<and> contents (newSnapshot m w) = []"
  by (simp add: snap_inv_def ring_def newSnapshot_def contents_def snapSize_def slots_def indexOK_def mget0_def)

lemma snapshot_start:
  "snap_inv (NewRollingSnapshot w) \<and> contents (NewRollingSnapshot w) = []
   \<and> ssMax (NewRollingSnapshot w) = 500000 \<and> ssWindow (NewRollingSnapshot w) = (if w \<le> 0 then 60 * minute else w)"
  using newSnapshot_inv [of 500000 w] by (simp add: NewRollingSnapshot_def) (simp add: newSnapshot_def)

section \<open>Properties\<close>

text \<open>
  C26. The ring buffer implements a bounded queue: every sequence of insertions and evictions runs to the
  end, and what the ring then holds, from tail to head, is what the queue of the most recent events holds;
  the reported size is its length, always below the capacity.
\<close>

theorem snapshot_refines_queue:
  "\<exists>rs. runOps snapStep ops (NewRollingSnapshot window) = Some rs
     \<and> contents rs = fold (queueStep 500000 (if window \<le> 0 then 60 * minute else window)) ops []
     \<and> snapSize rs = length (contents rs) \<and> snapSize rs < 500000"
proof -
  obtain rs where rs: "runOps snapStep ops (NewRollingSnapshot window) = Some rs" "snap_inv rs" "ssMax rs = 500000"
    "contents rs = fold (queueStep 500000 (if window \<le> 0 then 60 * minute else window)) ops []"
    using runs_refine [of "NewRollingSnapshot window" ops] snapshot_start [of window] by auto
  moreover have "snapSize rs = length (contents rs)" "length (contents rs) < ssMax rs"
    using rs(2) snapSize_ring by (auto simp: snap_inv_def ring_def)
  ultimately show ?thesis by auto
qed

text \<open>
  Lookups agree with a scan of the snapshot: after any run, \<open>GetByPID\<close> returns the events of the
  process inside the window in the order of arrival, \<open>RecentEvents\<close> ends and returns the events of the
  last seconds, \<open>ContainsPID\<close> tells whether the process has an event, and \<open>Evict\<close> ends and reports how
  many of the oldest entries it dropped.
\<close>

theorem snapshot_lookups:
  assumes "runOps snapStep ops (NewRollingSnapshot window) = Some rs"
  shows "GetByPID now pid rs
      = map seEvent (filter (\<lambda>e. now - ssWindow rs < seTime e \<and> evPID (seEvent e) = pid) (contents rs))
    \<and> RecentEvents now secs rs = Some (map seEvent (filter (\<lambda>e. now - secs * second < seTime e) (contents rs)))
    \<and> ContainsPID pid rs = (\<exists>e \<in> set (contents rs). evPID (seEvent e) = pid)
    \<and> (\<exists>rs'. snapEvict now rs = Some (length (contents rs) - length (contents rs'), rs')
        \<and> contents rs' = dropWhile (\<lambda>e. \<not> now - ssWindow rs < seTime e) (contents rs))"
proof -
  have "snap_inv rs" using snapsys.run_inv [OF _ assms] snapshot_start by blast
  then have r: "ring rs (length (contents rs))" "length (contents rs) \<le> ssMax rs"
    by (auto simp: snap_inv_def ring_def)
  have split: "length (takeWhile P q) = length q - length (dropWhile P q)" for P and q :: "snap_entry list"
    by (metis add_diff_cancel_right' length_append takeWhile_dropWhile_id)
  from evictLoopS_spec [OF r, of "now - ssWindow rs" 0]
  have "\<exists>rs'. snapEvict now rs = Some (length (contents rs) - length (contents rs'), rs')
      \<and> contents rs' = dropWhile (\<lambda>e. \<not> now - ssWindow rs < seTime e) (contents rs)"
    by (auto simp: snapEvict_def split)
  with GetByPID_ring [OF r(1)] RecentEvents_ring [OF r(1)] ContainsPID_ring [OF r(1)] show ?thesis by blast
qed

theorem snapshot_lookups_witness:
  "\<exists>rs. runOps snapStep [SAdd 5 (zeroEvent\<lparr>evPID := 7\<rparr>), SEvict 6] (NewRollingSnapshot 10) = Some rs
     \<and> GetByPID 9 7 rs = [zeroEvent\<lparr>evPID := 7\<rparr>] \<and> \<not> ContainsPID 8 rs"
proof -
  let ?ops = "[SAdd 5 (zeroEvent\<lparr>evPID := 7\<rparr>), SEvict 6]"
  obtain rs where rs: "runOps snapStep ?ops (NewRollingSnapshot 10) = Some rs" "ssWindow rs = 10"
    "contents rs = fold (queueStep 500000 10) ?ops []"
    using runs_refine [of "NewRollingSnapshot 10" ?ops] snapshot_start [of 10] by auto
  from snapshot_lookups [OF rs(1), of 9 7 0] snapshot_lookups [OF rs(1), of 9 8 0] rs show ?thesis by simp
qed

end
