(* ===== verification/Nfa.thy ===== *)
theory Nfa
  imports Events
begin

text \<open>
  Pattern matching over the event stream (\<^verbatim>\<open>internal/engine/stream/nfa.go\<close>): attack patterns as
  automata and the runners that follow them. \<^const>\<open>None\<close> is the panic of a slice index out of range,
  which a custom pattern can cause. State numbers are Go \<^verbatim>\<open>int\<close>s and may be negative in a custom pattern.
\<close>

section \<open>Model\<close>

record pattern_match =
  pmPatternID :: string
  pmDescription :: string
  pmSeverity :: string
  pmEventIDs :: "string list"
  pmTTPRef :: string

record nfa_transition =
  trEventType :: u32
  trCommMatch :: string
  trPathMatch :: string
  trNextState :: int

record nfa_state =
  stTransitions :: "nfa_transition list"

record nfa_pattern =
  npID :: string
  npDescription :: string
  npSeverity :: string
  npTTPRef :: string
  npStates :: "nfa_state list"
  npStartState :: int
  npAcceptState :: int

record nfa_runner =
  nrState :: int
  nrPID :: u32
  nrEventIDs :: "string list"
  nrStepCount :: nat

record nfa_engine =
  nePatterns :: "nfa_pattern list"
  neRunners :: "nfa_runner list"

text \<open>The built-in patterns; the helper names the fields of a transition literal, missing ones empty.\<close>

definition transition :: "u32 \<Rightarrow> string \<Rightarrow> string \<Rightarrow> int \<Rightarrow> nfa_transition" where
  "transition et comm path n = \<lparr>trEventType = et, trCommMatch = comm, trPathMatch = path, trNextState = n\<rparr>"

definition lolExec :: nfa_pattern where
  "lolExec = \<lparr>npID = ''LOL-EXEC'',
     npDescription = ''Living-off-the-Land: network tool downloads and executes script'',
     npSeverity = ''CRITICAL'', npTTPRef = ''T1218,T1204'',
     npStates = [
       \<lparr>stTransitions = [transition EventProcessFork ''curl'' '''' 1, transition EventProcessFork ''wget'' '''' 1,
          transition EventProcessFork ''nc'' '''' 1, transition EventProcessFork ''python*'' '''' 1]\<rparr>,
       \<lparr>stTransitions = [transition EventFileCreate '''' ''/tmp/'' 2, transition EventFileModify '''' ''/tmp/'' 2]\<rparr>,
       \<lparr>stTransitions = [transition EventProcessExec '''' ''/tmp/'' 3]\<rparr>],
     npStartState = 0, npAcceptState = 3\<rparr>"

definition sensitiveRead :: nfa_pattern where
  "sensitiveRead = \<lparr>npID = ''SENSITIVE-READ'', npDescription = ''Sensitive file read by non-standard process'',
     npSeverity = ''HIGH'', npTTPRef = ''T1003'',
     npStates = [
       \<lparr>stTransitions = [transition EventFileOpen '''' ''/etc/shadow'' 1, transition EventFileOpen '''' ''/etc/passwd'' 1]\<rparr>],
     npStartState = 0, npAcceptState = 1\<rparr>"

definition netExfil :: nfa_pattern where
  "netExfil = \<lparr>npID = ''NET-EXFIL'', npDescription = ''Process reads sensitive file then connects to external IP'',
     npSeverity = ''CRITICAL'', npTTPRef = ''T1048'',
     npStates = [
       \<lparr>stTransitions = [transition EventFileOpen '''' ''/etc/shadow'' 1, transition EventFileOpen '''' ''/etc/passwd'' 1]\<rparr>,
       \<lparr>stTransitions = [transition EventNetConnect '''' '''' 2]\<rparr>],
     npStartState = 0, npAcceptState = 2\<rparr>"

definition registerDefaultPatterns :: "nfa_engine \<Rightarrow> nfa_engine" where
  "registerDefaultPatterns ne = ne\<lparr>nePatterns := [lolExec, sensitiveRead, netExfil]\<rparr>"

definition NewNFAEngine :: nfa_engine where
  "NewNFAEngine = registerDefaultPatterns \<lparr>nePatterns = [], neRunners = []\<rparr>"

definition wildcardMatch :: "string \<Rightarrow> string \<Rightarrow> bool" where
  "wildcardMatch pat v =
     (if pat = [] then True
      else if hasSuffix pat ''*'' then hasPrefix v (trimSuffix pat ''*'')
      else if hasPrefix pat ''*'' then hasSuffix v (trimPrefix pat ''*'')
      else pat = v)"

definition matchesEvent :: "nfa_transition \<Rightarrow> event \<Rightarrow> bool" where
  "matchesEvent t evt =
     (if trEventType t \<noteq> 0 \<and> trEventType t \<noteq> evType evt then False
      else if trCommMatch t \<noteq> [] \<and> \<not> wildcardMatch (trCommMatch t) (evComm evt) then False
      else if trPathMatch t \<noteq> [] \<and> \<not> wildcardMatch (trPathMatch t) (evPathname evt) then False
      else True)"

text \<open>\<^verbatim>\<open>xs[i]\<close>, which panics out of range.\<close>

definition at :: "'a list \<Rightarrow> int \<Rightarrow> 'a option" where
  "at xs i = (if 0 \<le> i \<and> i < int (length xs) then Some (xs ! nat i) else None)"

definition eventID :: "event \<Rightarrow> string" where
  "eventID evt = eventTypeString (evType evt) @ '':'' @ showU (evPID evt)"

definition tryTransition :: "nfa_runner \<Rightarrow> nfa_pattern \<Rightarrow> event \<Rightarrow> (bool \<times> nfa_runner) option" where
  "tryTransition runner p evt =
     (if nrState runner \<ge> int (length (npStates p)) then Some (False, runner)
      else do {
        state \<leftarrow> at (npStates p) (nrState runner);
        case find (\<lambda>t. matchesEvent t evt) (stTransitions state) of
          None \<Rightarrow> Some (False, runner)
        | Some t \<Rightarrow> Some (True, runner\<lparr>nrState := trNextState t,
            nrEventIDs := nrEventIDs runner @ [eventID evt], nrStepCount := nrStepCount runner + 1\<rparr>)})"

definition canStart :: "nfa_pattern \<Rightarrow> event \<Rightarrow> bool option" where
  "canStart p evt =
     (if length (npStates p) = 0 then Some False
      else do {
        startState \<leftarrow> at (npStates p) (npStartState p);
        Some (\<exists>t \<in> set (stTransitions startState). matchesEvent t evt)})"

text \<open>One runner under one pattern: the match it reports, if any, and the runner after it.\<close>

definition runnerStep :: "nfa_pattern \<Rightarrow> event \<Rightarrow> nfa_runner \<Rightarrow> (pattern_match list \<times> nfa_runner) option" where
  "runnerStep p evt runner = do {
     (moved, r) \<leftarrow> tryTransition runner p evt;
     Some (if moved \<and> nrState r = npAcceptState p
       then ([\<lparr>pmPatternID = npID p, pmDescription = npDescription p, pmSeverity = npSeverity p,
               pmEventIDs = nrEventIDs r, pmTTPRef = npTTPRef p\<rparr>], r\<lparr>nrState := npStartState p\<rparr>)
       else ([], r))}"

fun ingestRunners :: "nfa_pattern \<Rightarrow> event \<Rightarrow> nfa_runner list \<Rightarrow> (pattern_match list \<times> nfa_runner list) option" where
  "ingestRunners p evt [] = Some ([], [])"
| "ingestRunners p evt (r # rs) = do {
     (ms, r') \<leftarrow> runnerStep p evt r;
     (ms', rs') \<leftarrow> ingestRunners p evt rs;
     Some (ms @ ms', r' # rs')}"

definition startRunner :: "nfa_pattern \<Rightarrow> event \<Rightarrow> nfa_runner list \<Rightarrow> nfa_runner list option" where
  "startRunner p evt rs = do {
     start \<leftarrow> canStart p evt;
     if start then do {
       s \<leftarrow> at (npStates p) (npStartState p);
       t \<leftarrow> at (stTransitions s) 0;
       Some (rs @ [\<lparr>nrState = trNextState t, nrPID = evPID evt, nrEventIDs = [eventID evt], nrStepCount = 0\<rparr>])}
     else Some rs}"

fun ingestPatterns :: "nfa_pattern list \<Rightarrow> event \<Rightarrow> nfa_runner list \<Rightarrow> (pattern_match list \<times> nfa_runner list) option" where
  "ingestPatterns [] evt rs = Some ([], rs)"
| "ingestPatterns (p # ps) evt rs = do {
     (ms, rs) \<leftarrow> ingestRunners p evt rs;
     rs \<leftarrow> startRunner p evt rs;
     (ms', rs) \<leftarrow> ingestPatterns ps evt rs;
     Some (ms @ ms', rs)}"

definition cleanupRunners :: "nfa_engine \<Rightarrow> nfa_engine" where
  "cleanupRunners ne = ne\<lparr>neRunners := filter (\<lambda>r. nrStepCount r < 20) (neRunners ne)\<rparr>"

definition Ingest :: "event \<Rightarrow> nfa_engine \<Rightarrow> (pattern_match list \<times> nfa_engine) option" where
  "Ingest evt ne = do {
     (newMatches, rs) \<leftarrow> ingestPatterns (nePatterns ne) evt (neRunners ne);
     Some (newMatches, cleanupRunners (ne\<lparr>neRunners := rs\<rparr>))}"

definition ActiveStates :: "nfa_engine \<Rightarrow> nat" where
  "ActiveStates ne = length (neRunners ne)"

definition AddPattern :: "nfa_pattern \<Rightarrow> nfa_engine \<Rightarrow> nfa_engine" where
  "AddPattern p ne = ne\<lparr>nePatterns := nePatterns ne @ [p]\<rparr>"

section \<open>No panic\<close>

text \<open>
  A pattern is well formed when its start state exists, unless it has no states at all, and no state
  number is negative. Runners may then be in any non-negative state: of whichever pattern.
\<close>

definition wf_pattern :: "nfa_pattern \<Rightarrow> bool" where
  "wf_pattern p \<longleftrightarrow> 0 \<le> npStartState p
     \<and> (npStates p \<noteq> [] \<longrightarrow> npStartState p < int (length (npStates p)))
     \<and> (\<forall>s \<in> set (npStates p). \<forall>t \<in> set (stTransitions s). 0 \<le> trNextState t)"

text \<open>A runner keeps one event per step and the event that started it; \<open>E\<close> is where these come from.\<close>

definition runnerOK :: "string set \<Rightarrow> nfa_runner \<Rightarrow> bool" where
  "runnerOK E r \<longleftrightarrow> 0 \<le> nrState r \<and> length (nrEventIDs r) = nrStepCount r + 1 \<and> set (nrEventIDs r) \<subseteq> E"

text \<open>What a match reports: a pattern of the engine, and at least two events ending with the current one.\<close>

definition matchOK :: "nfa_pattern set \<Rightarrow> string set \<Rightarrow> event \<Rightarrow> pattern_match \<Rightarrow> bool" where
  "matchOK P E evt m \<longleftrightarrow> (\<exists>p \<in> P. pmPatternID m = npID p \<and> pmSeverity m = npSeverity p
       \<and> pmTTPRef m = npTTPRef p \<and> pmDescription m = npDescription p)
     \<and> 2 \<le> length (pmEventIDs m) \<and> last (pmEventIDs m) = eventID evt \<and> set (pmEventIDs m) \<subseteq> E"

lemma runnerOK_mono: "runnerOK E r \<Longrightarrow> E \<subseteq> F \<Longrightarrow> runnerOK F r"
  by (auto simp: runnerOK_def)

lemma at_in: "at xs i = Some x \<Longrightarrow> x \<in> set xs"
  by (auto simp: at_def split: if_splits)

lemma at_ok: "0 \<le> i \<Longrightarrow> i < int (length xs) \<Longrightarrow> \<exists>x. at xs i = Some x \<and> x \<in> set xs"
  by (simp add: at_def)

lemma tryTransition_ok:
  assumes "wf_pattern p" and "runnerOK E r" and "eventID evt \<in> E"
  shows "\<exists>moved r'. tryTransition r p evt = Some (moved, r') \<and> runnerOK E r'
    \<and> (moved \<longrightarrow> 0 < nrStepCount r' \<and> last (nrEventIDs r') = eventID evt)"
proof (cases "nrState r < int (length (npStates p))")
  case True
  with assms obtain s where s: "at (npStates p) (nrState r) = Some s" "s \<in> set (npStates p)"
    using at_ok [of "nrState r" "npStates p"] by (auto simp: runnerOK_def)
  show ?thesis
  proof (cases "find (\<lambda>t. matchesEvent t evt) (stTransitions s)")
    case None
    with True s assms show ?thesis by (auto simp: tryTransition_def)
  next
    case (Some t)
    then have "t \<in> set (stTransitions s)" by (auto simp: find_Some_iff)
    then have "0 \<le> trNextState t" using assms(1) s(2) by (auto simp: wf_pattern_def)
    with True s Some assms show ?thesis by (auto simp: tryTransition_def runnerOK_def)
  qed
qed (use assms in \<open>auto simp: tryTransition_def\<close>)

lemma runnerStep_ok:
  assumes "wf_pattern p" and "runnerOK E r" and "eventID evt \<in> E"
  shows "\<exists>ms r'. runnerStep p evt r = Some (ms, r') \<and> runnerOK E r' \<and> (\<forall>m \<in> set ms. matchOK {p} E evt m)"
proof -
  obtain moved r' where r': "tryTransition r p evt = Some (moved, r')" "runnerOK E r'"
    "moved \<longrightarrow> 0 < nrStepCount r' \<and> last (nrEventIDs r') = eventID evt"
    using tryTransition_ok [OF assms] by blast
  then show ?thesis
    using assms(1) by (simp add: runnerStep_def) (auto simp: runnerOK_def matchOK_def wf_pattern_def)
qed

lemma ingestRunners_ok:
  "wf_pattern p \<Longrightarrow> \<forall>r \<in> set rs. runnerOK E r \<Longrightarrow> eventID evt \<in> E \<Longrightarrow>
   \<exists>ms rs'. ingestRunners p evt rs = Some (ms, rs') \<and> (\<forall>r \<in> set rs'. runnerOK E r) \<and> (\<forall>m \<in> set ms. matchOK {p} E evt m)"
proof (induction rs)
  case (Cons r rs)
  then obtain ms r' where "runnerStep p evt r = Some (ms, r')" "runnerOK E r'" "\<forall>m \<in> set ms. matchOK {p} E evt m"
    using runnerStep_ok [of p E r evt] by auto
  moreover from Cons obtain ms' rs' where "ingestRunners p evt rs = Some (ms', rs')" "\<forall>r \<in> set rs'. runnerOK E r"
    "\<forall>m \<in> set ms'. matchOK {p} E evt m" by auto
  ultimately show ?case by auto
qed simp

lemma startRunner_ok:
  assumes "wf_pattern p" and "\<forall>r \<in> set rs. runnerOK E r" and "eventID evt \<in> E"
  shows "\<exists>rs'. startRunner p evt rs = Some rs' \<and> (\<forall>r \<in> set rs'. runnerOK E r)"
proof (cases "npStates p = []")
  case False
  then obtain s where s: "at (npStates p) (npStartState p) = Some s" "s \<in> set (npStates p)"
    using assms(1) at_ok [of "npStartState p" "npStates p"] by (auto simp: wf_pattern_def)
  show ?thesis
  proof (cases "\<exists>t \<in> set (stTransitions s). matchesEvent t evt")
    case True
    then obtain t where t: "at (stTransitions s) 0 = Some t" "t \<in> set (stTransitions s)"
      using at_ok [of 0 "stTransitions s"] by force
    then have "0 \<le> trNextState t" using assms(1) s(2) by (auto simp: wf_pattern_def)
    with True s t assms False show ?thesis by (auto simp: startRunner_def canStart_def runnerOK_def)
  next
    case no: False
    with s assms False show ?thesis by (simp add: startRunner_def canStart_def)
  qed
qed (use assms in \<open>simp add: startRunner_def canStart_def\<close>)

lemma matchOK_mono: "matchOK P E evt m \<Longrightarrow> P \<subseteq> Q \<Longrightarrow> matchOK Q E evt m"
  by (auto simp: matchOK_def)

lemma ingestPatterns_ok:
  "\<forall>p \<in> set ps. wf_pattern p \<Longrightarrow> \<forall>r \<in> set rs. runnerOK E r \<Longrightarrow> eventID evt \<in> E \<Longrightarrow>
   \<exists>ms rs'. ingestPatterns ps evt rs = Some (ms, rs') \<and> (\<forall>r \<in> set rs'. runnerOK E r) \<and> (\<forall>m \<in> set ms. matchOK (set ps) E evt m)"
proof (induction ps arbitrary: rs)
  case (Cons p ps)
  from Cons.prems obtain ms rs1 where 1: "ingestRunners p evt rs = Some (ms, rs1)" "\<forall>r \<in> set rs1. runnerOK E r"
    "\<forall>m \<in> set ms. matchOK {p} E evt m" using ingestRunners_ok [of p rs E evt] by auto
  from Cons.prems 1(2) obtain rs2 where 2: "startRunner p evt rs1 = Some rs2" "\<forall>r \<in> set rs2. runnerOK E r"
    using startRunner_ok [of p rs1 E evt] by auto
  from Cons.IH [OF _ 2(2)] Cons.prems obtain ms' rs3 where "ingestPatterns ps evt rs2 = Some (ms', rs3)"
    "\<forall>r \<in> set rs3. runnerOK E r" "\<forall>m \<in> set ms'. matchOK (set ps) E evt m" by auto
  with 1 2 show ?case by (auto intro: matchOK_mono)
qed simp

definition nfa_inv :: "string set \<Rightarrow> nfa_engine \<Rightarrow> bool" where
  "nfa_inv E ne \<longleftrightarrow> (\<forall>p \<in> set (nePatterns ne). wf_pattern p)
     \<and> (\<forall>r \<in> set (neRunners ne). runnerOK E r \<and> nrStepCount r < 20)"

lemma Ingest_ok:
  assumes "nfa_inv E ne" and "eventID evt \<in> E"
  shows "\<exists>ms ne'. Ingest evt ne = Some (ms, ne') \<and> nfa_inv E ne' \<and> nePatterns ne' = nePatterns ne
    \<and> (\<forall>m \<in> set ms. matchOK (set (nePatterns ne)) E evt m)"
proof -
  obtain ms rs where "ingestPatterns (nePatterns ne) evt (neRunners ne) = Some (ms, rs)"
    "\<forall>r \<in> set rs. runnerOK E r" "\<forall>m \<in> set ms. matchOK (set (nePatterns ne)) E evt m"
    using ingestPatterns_ok [of "nePatterns ne" "neRunners ne" E evt] assms by (auto simp: nfa_inv_def)
  then show ?thesis using assms(1) by (auto simp: Ingest_def cleanupRunners_def nfa_inv_def)
qed

section \<open>Runs over an event stream\<close>

text \<open>The matches of each event in turn.\<close>

fun ingestAll :: "event list \<Rightarrow> nfa_engine \<Rightarrow> (pattern_match list \<times> nfa_engine) option" where
  "ingestAll [] ne = Some ([], ne)"
| "ingestAll (evt # es) ne = do {
     (ms, ne) \<leftarrow> Ingest evt ne;
     (ms', ne) \<leftarrow> ingestAll es ne;
     Some (ms @ ms', ne)}"

lemma nfa_inv_mono: "nfa_inv E ne \<Longrightarrow> E \<subseteq> F \<Longrightarrow> nfa_inv F ne"
  by (auto simp: nfa_inv_def intro: runnerOK_mono)

lemma ingestAll_ok:
  "nfa_inv E ne \<Longrightarrow> eventID ` set es \<subseteq> E \<Longrightarrow>
   \<exists>ms ne'. ingestAll es ne = Some (ms, ne') \<and> nfa_inv E ne' \<and> nePatterns ne' = nePatterns ne"
proof (induction es arbitrary: ne)
  case (Cons evt es)
  then obtain ms ne1 where 1: "Ingest evt ne = Some (ms, ne1)" "nfa_inv E ne1" "nePatterns ne1 = nePatterns ne"
    using Ingest_ok [of E ne evt] by auto
  with Cons.IH [of ne1] Cons.prems(2) show ?case by auto
qed simp

lemma ingestAll_append:
  "ingestAll (es @ fs) ne = do { (ms, ne) \<leftarrow> ingestAll es ne; (ms', ne) \<leftarrow> ingestAll fs ne; Some (ms @ ms', ne) }"
  by (induction es arbitrary: ne) (auto split: bind_split simp: case_prod_beta)

lemmas default_patterns = lolExec_def sensitiveRead_def netExfil_def transition_def

lemma NewNFAEngine_patterns [simp]: "nePatterns NewNFAEngine = [lolExec, sensitiveRead, netExfil]"
  "neRunners NewNFAEngine = []"
  by (simp_all add: NewNFAEngine_def registerDefaultPatterns_def)

lemma NewNFAEngine_inv: "nfa_inv E NewNFAEngine"
  by (simp add: nfa_inv_def wf_pattern_def default_patterns)

datatype nfa_op = NIngest event | NAddPattern nfa_pattern

fun nfaStep :: "nfa_op \<Rightarrow> nfa_engine \<Rightarrow> nfa_engine option" where
  "nfaStep (NIngest evt) ne = map_option snd (Ingest evt ne)"
| "nfaStep (NAddPattern p) ne = (if wf_pattern p then Some (AddPattern p ne) else Some ne)"

lemma nfaStep_ok:
  assumes "nfa_inv UNIV ne"
  shows "\<exists>ne'. nfaStep op ne = Some ne' \<and> nfa_inv UNIV ne'"
proof (cases op)
  case (NIngest evt)
  then show ?thesis using Ingest_ok [OF assms, of evt] by auto
next
  case (NAddPattern p)
  then show ?thesis using assms by (simp add: nfa_inv_def AddPattern_def)
qed

interpretation nfasys: total_system nfaStep "nfa_inv UNIV"
proof unfold_locales
  fix op ne ne' assume "nfa_inv UNIV ne" "nfaStep op ne = Some ne'"
  with nfaStep_ok [of ne op] show "nfa_inv UNIV ne'" by auto
next
  fix op ne assume "nfa_inv UNIV ne"
  with nfaStep_ok [of ne op] show "nfaStep op ne \<noteq> None" by auto
qed

section \<open>Runners that wait\<close>

text \<open>An event under which no pattern moves a runner leaves that runner in the engine.\<close>

lemma ingestRunners_mem:
  "ingestRunners p evt rs = Some (ms, rs') \<Longrightarrow> r \<in> set rs \<Longrightarrow> runnerStep p evt r = Some (ms1, r')
   \<Longrightarrow> r' \<in> set rs' \<and> set ms1 \<subseteq> set ms"
proof (induction rs arbitrary: ms rs')
  case (Cons a rs)
  from Cons.prems(1) obtain m1 a1 m2 rs2 where "runnerStep p evt a = Some (m1, a1)" "ingestRunners p evt rs = Some (m2, rs2)"
    "ms = m1 @ m2" "rs' = a1 # rs2" by (auto split: bind_splits)
  with Cons show ?case by (cases "r = a") auto
qed simp

lemma startRunner_mem: "startRunner p evt rs = Some rs' \<Longrightarrow> r \<in> set rs \<Longrightarrow> r \<in> set rs'"
  by (auto simp: startRunner_def split: bind_splits if_splits)

lemma ingestPatterns_mem:
  "ingestPatterns ps evt rs = Some (ms, rs') \<Longrightarrow> r \<in> set rs \<Longrightarrow> \<forall>p \<in> set ps. runnerStep p evt r = Some ([], r)
   \<Longrightarrow> r \<in> set rs'"
proof (induction ps arbitrary: rs ms)
  case (Cons p ps)
  from Cons.prems(1) obtain m1 rs1 rs2 m2 where "ingestRunners p evt rs = Some (m1, rs1)" "startRunner p evt rs1 = Some rs2"
    "ingestPatterns ps evt rs2 = Some (m2, rs')" by (auto split: bind_splits)
  moreover from this(1) Cons.prems have "r \<in> set rs1" using ingestRunners_mem by fastforce
  ultimately show ?case using Cons startRunner_mem by fastforce
qed simp

lemma Ingest_mem:
  assumes "Ingest evt ne = Some (ms, ne')" and "r \<in> set (neRunners ne)" and "nrStepCount r < 20"
    and "\<forall>p \<in> set (nePatterns ne). runnerStep p evt r = Some ([], r)"
  shows "r \<in> set (neRunners ne')"
  using assms ingestPatterns_mem by (auto simp: Ingest_def cleanupRunners_def split: bind_splits)

definition disturbs :: "event \<Rightarrow> bool" where
  "disturbs evt \<longleftrightarrow> (evType evt = EventFileCreate \<or> evType evt = EventFileModify) \<and> evPathname evt = ''/tmp/''"

definition opensSensitive :: "event \<Rightarrow> bool" where
  "opensSensitive evt \<longleftrightarrow> evType evt = EventFileOpen \<and> (evPathname evt = ''/etc/shadow'' \<or> evPathname evt = ''/etc/passwd'')"

lemmas nfa_simps = runnerStep_def tryTransition_def at_def matchesEvent_def wildcardMatch_def hasSuffix_def hasPrefix_def

text \<open>The runner that an opening of a sensitive file starts, waiting for a connection.\<close>

definition waiting :: "event \<Rightarrow> nfa_runner" where
  "waiting evt = \<lparr>nrState = 1, nrPID = evPID evt, nrEventIDs = [eventID evt], nrStepCount = 0\<rparr>"

lemma waiting_count [simp]: "nrStepCount (waiting evt) = 0"
  by (simp add: waiting_def)

lemma waiting_lolExec: "\<not> disturbs e \<Longrightarrow> runnerStep lolExec e (waiting evt) = Some ([], waiting evt)"
  by (auto simp: nfa_simps default_patterns waiting_def disturbs_def)

lemma waiting_sensitiveRead: "runnerStep sensitiveRead e (waiting evt) = Some ([], waiting evt)"
  by (simp add: nfa_simps default_patterns waiting_def)

lemma waiting_netExfil:
  "evType e \<noteq> EventNetConnect \<Longrightarrow> runnerStep netExfil e (waiting evt) = Some ([], waiting evt)"
  by (simp add: nfa_simps default_patterns waiting_def)

lemma waiting_connect:
  "evType e = EventNetConnect \<Longrightarrow> \<exists>r. runnerStep netExfil e (waiting evt) =
     Some ([\<lparr>pmPatternID = ''NET-EXFIL'', pmDescription = npDescription netExfil, pmSeverity = ''CRITICAL'',
            pmEventIDs = [eventID evt, eventID e], pmTTPRef = ''T1048''\<rparr>], r)"
  by (simp add: nfa_simps waiting_def netExfil_def transition_def)

lemma open_starts:
  "opensSensitive evt \<Longrightarrow> startRunner netExfil evt rs = Some (rs @ [waiting evt])"
  by (auto simp: startRunner_def canStart_def nfa_simps default_patterns waiting_def opensSensitive_def)

lemma Ingest_default:
  assumes "Ingest evt ne = Some (ms, ne')" and "nePatterns ne = [lolExec, sensitiveRead, netExfil]"
  obtains m1 r1 r2 m2 r3 r4 m3 r5 r6 where
    "ingestRunners lolExec evt (neRunners ne) = Some (m1, r1)" "startRunner lolExec evt r1 = Some r2"
    "ingestRunners sensitiveRead evt r2 = Some (m2, r3)" "startRunner sensitiveRead evt r3 = Some r4"
    "ingestRunners netExfil evt r4 = Some (m3, r5)" "startRunner netExfil evt r5 = Some r6"
    "ms = m1 @ m2 @ m3" "neRunners ne' = filter (\<lambda>r. nrStepCount r < 20) r6" "nePatterns ne' = nePatterns ne"
  using assms by (auto simp: Ingest_def cleanupRunners_def split: bind_splits)

lemma open_leaves_waiting:
  assumes "opensSensitive evt" and "Ingest evt ne = Some (ms, ne')"
    and "nePatterns ne = [lolExec, sensitiveRead, netExfil]"
  shows "waiting evt \<in> set (neRunners ne')"
  using assms(1) by (rule_tac Ingest_default [OF assms(2,3)]) (auto simp: open_starts waiting_def)

lemma quiet_keeps_waiting:
  "ingestAll es ne = Some (ms, ne') \<Longrightarrow> waiting evt \<in> set (neRunners ne)
   \<Longrightarrow> nePatterns ne = [lolExec, sensitiveRead, netExfil]
   \<Longrightarrow> \<forall>e \<in> set es. \<not> disturbs e \<and> evType e \<noteq> EventNetConnect
   \<Longrightarrow> waiting evt \<in> set (neRunners ne') \<and> nePatterns ne' = nePatterns ne"
proof (induction es arbitrary: ne ms)
  case (Cons e es)
  from Cons.prems(1) obtain m1 ne1 m2 where i: "Ingest e ne = Some (m1, ne1)" "ingestAll es ne1 = Some (m2, ne')"
    by (auto split: bind_splits)
  have "waiting evt \<in> set (neRunners ne1)"
    by (rule Ingest_mem [OF i(1) Cons.prems(2)])
      (use Cons.prems waiting_lolExec waiting_sensitiveRead waiting_netExfil in auto)
  moreover have "nePatterns ne1 = nePatterns ne" using i(1) by (auto simp: Ingest_def cleanupRunners_def split: bind_splits)
  ultimately show ?case using Cons.IH [OF i(2)] Cons.prems by auto
qed auto

lemma connect_matches:
  assumes "waiting evt \<in> set (neRunners ne)" and "Ingest e ne = Some (ms, ne')"
    and "nePatterns ne = [lolExec, sensitiveRead, netExfil]" and "evType e = EventNetConnect"
  shows "\<exists>m \<in> set ms. pmPatternID m = ''NET-EXFIL'' \<and> pmEventIDs m = [eventID evt, eventID e]"
proof (rule Ingest_default [OF assms(2,3)])
  fix m1 r1 r2 m2 r3 r4 m3 r5 r6
  assume i: "ingestRunners lolExec e (neRunners ne) = Some (m1, r1)" "startRunner lolExec e r1 = Some r2"
    "ingestRunners sensitiveRead e r2 = Some (m2, r3)" "startRunner sensitiveRead e r3 = Some r4"
    "ingestRunners netExfil e r4 = Some (m3, r5)" and ms: "ms = m1 @ m2 @ m3"
  have "\<not> disturbs e" using assms(4) by (simp add: disturbs_def)
  then have "waiting evt \<in> set r2"
    using ingestRunners_mem [OF i(1) assms(1) waiting_lolExec] startRunner_mem [OF i(2)] by blast
  then have "waiting evt \<in> set r4"
    using ingestRunners_mem [OF i(3) _ waiting_sensitiveRead] startRunner_mem [OF i(4)] by blast
  moreover obtain r where "runnerStep netExfil e (waiting evt) =
      Some ([\<lparr>pmPatternID = ''NET-EXFIL'', pmDescription = npDescription netExfil, pmSeverity = ''CRITICAL'',
            pmEventIDs = [eventID evt, eventID e], pmTTPRef = ''T1048''\<rparr>], r)" (is "_ = Some ([?m], r)")
    using waiting_connect [OF assms(4)] by blast
  ultimately have "?m \<in> set m3" using ingestRunners_mem [OF i(5)] by fastforce
  then have "?m \<in> set ms" by (simp add: ms)
  then show ?thesis by (rule bexI [rotated]) simp
qed

section \<open>Behaviour beyond the documented intent\<close>

text \<open>
  A pattern without a star is compared for equality, so the path pattern \<open>/tmp/\<close> of LOL-EXEC matches no
  file below that directory.
\<close>

lemma tmp_pattern_is_exact: "wildcardMatch ''/tmp/'' v \<longleftrightarrow> v = ''/tmp/''"
  by (auto simp: wildcardMatch_def hasSuffix_def hasPrefix_def)

text \<open>
  A runner is not tied to the pattern that started it: a fork of \<open>curl\<close> starts a LOL-EXEC runner, and the
  next connection, of any process, is reported as NET-EXFIL although no sensitive file was opened.
\<close>

definition exFork :: event where
  "exFork = zeroEvent\<lparr>evType := EventProcessFork, evPID := 30, evComm := ''curl''\<rparr>"

definition exShadow :: event where
  "exShadow = zeroEvent\<lparr>evType := EventFileOpen, evPID := 10, evPathname := ''/etc/shadow''\<rparr>"

definition exConnect :: event where
  "exConnect = zeroEvent\<lparr>evType := EventNetConnect, evPID := 20\<rparr>"

lemmas nfa_run = Ingest_def startRunner_def canStart_def nfa_simps default_patterns cleanupRunners_def
  exFork_def exShadow_def exConnect_def zeroEvent_def trimSuffix_def

lemma fork_starts:
  "Ingest exFork NewNFAEngine = Some ([], NewNFAEngine\<lparr>neRunners := [\<lparr>nrState = 1, nrPID = 30,
     nrEventIDs = [eventID exFork], nrStepCount = 0\<rparr>]\<rparr>)"
  by (simp add: nfa_run)

lemma shadow_starts:
  "Ingest exShadow NewNFAEngine = Some ([], NewNFAEngine\<lparr>neRunners := [waiting exShadow, waiting exShadow]\<rparr>)"
  by (simp add: nfa_run waiting_def)

lemma runner_crosses_patterns:
  "\<exists>m ne. ingestAll [exFork, exConnect] NewNFAEngine = Some ([m], ne) \<and> pmPatternID m = ''NET-EXFIL''
     \<and> pmEventIDs m = [eventID exFork, eventID exConnect]"
  by (simp add: fork_starts) (simp add: nfa_run)

text \<open>
  A pattern of a single step is not reported: \<open>Ingest\<close> starts its runner in the accepting state without
  reporting it. From the built-in patterns, no stream without a connection and without an exec yields a
  match, however often sensitive files are opened.
\<close>

lemma quiet_pattern:
  assumes "evType e \<noteq> EventNetConnect" and "evType e \<noteq> EventProcessExec" and "p \<in> {lolExec, sensitiveRead, netExfil}"
    and "\<forall>r \<in> set rs. nrState r \<in> {1, 2}" and "ingestRunners p e rs = Some (ms, rs1)" and "startRunner p e rs1 = Some rs2"
  shows "ms = [] \<and> (\<forall>r \<in> set rs2. nrState r \<in> {1, 2})"
proof -
  have step: "\<exists>r'. runnerStep p e r = Some ([], r') \<and> nrState r' \<in> {1, 2}" if "nrState r \<in> {1, 2}" for r
    using assms(1-3) that by (auto simp: nfa_simps default_patterns)
  have "ingestRunners p e rs = Some (ms, rs1) \<Longrightarrow> \<forall>r \<in> set rs. nrState r \<in> {1, 2}
      \<Longrightarrow> ms = [] \<and> (\<forall>r \<in> set rs1. nrState r \<in> {1, 2})" for rs ms rs1
  proof (induction rs arbitrary: ms rs1)
    case (Cons r rs)
    obtain r' where "runnerStep p e r = Some ([], r')" "nrState r' \<in> {1, 2}" using step [of r] Cons.prems(2) by auto
    with Cons show ?case by (auto split: bind_splits)
  qed simp
  with assms(4,5) have "ms = []" "\<forall>r \<in> set rs1. nrState r \<in> {1, 2}" by blast+
  with assms(3,6) show ?thesis
    by (auto simp: startRunner_def canStart_def at_def default_patterns split: if_splits)
qed

lemma sensitive_read_silent:
  "ingestAll es ne = Some (ms, ne') \<Longrightarrow> nePatterns ne = [lolExec, sensitiveRead, netExfil]
   \<Longrightarrow> \<forall>r \<in> set (neRunners ne). nrState r \<in> {1, 2}
   \<Longrightarrow> \<forall>e \<in> set es. evType e \<noteq> EventNetConnect \<and> evType e \<noteq> EventProcessExec \<Longrightarrow> ms = []"
proof (induction es arbitrary: ne ms)
  case (Cons e es)
  from Cons.prems(1) obtain m1 ne1 m2 where i: "Ingest e ne = Some (m1, ne1)" "ingestAll es ne1 = Some (m2, ne')" "ms = m1 @ m2"
    by (auto split: bind_splits)
  have t: "evType e \<noteq> EventNetConnect" "evType e \<noteq> EventProcessExec" using Cons.prems(4) by auto
  have "m1 = [] \<and> (\<forall>r \<in> set (neRunners ne1). nrState r \<in> {1, 2}) \<and> nePatterns ne1 = nePatterns ne"
  proof (rule Ingest_default [OF i(1) Cons.prems(2)], goal_cases)
    case (1 a1 r1 r2 a2 r3 r4 a3 r5 r6)
    from quiet_pattern [OF t _ Cons.prems(3) 1(1,2)] have "a1 = []" "\<forall>r \<in> set r2. nrState r \<in> {1, 2}" by auto
    moreover from quiet_pattern [OF t _ this(2) 1(3,4)] have "a2 = []" "\<forall>r \<in> set r4. nrState r \<in> {1, 2}" by auto
    moreover from quiet_pattern [OF t _ this(2) 1(5,6)] have "a3 = []" "\<forall>r \<in> set r6. nrState r \<in> {1, 2}" by auto
    ultimately show ?case using 1(7-9) by auto
  qed
  with Cons.IH [OF i(2)] Cons.prems i(3) show ?case by auto
qed auto

lemma opens_alone_never_match:
  "\<forall>e \<in> set es. evType e = EventFileOpen \<Longrightarrow> \<exists>ne. ingestAll es NewNFAEngine = Some ([], ne)"
  using ingestAll_ok [OF NewNFAEngine_inv [of UNIV], of es] sensitive_read_silent [of es NewNFAEngine] by fastforce

section \<open>Properties\<close>


text \<open>
  The evidence of a match is genuine: after any stream of events, every match that the next event
  produces is one of a registered pattern with its severity, and lists at least two events, all of them
  events of the stream, the last one the event just ingested.
\<close>

lemma match_evidence:
  assumes "ingestAll es NewNFAEngine = Some (ms, ne)" and "Ingest evt ne = Some (new, ne')" and "m \<in> set new"
  shows "(\<exists>p \<in> set (nePatterns ne). pmPatternID m = npID p \<and> pmSeverity m = npSeverity p)
    \<and> 2 \<le> length (pmEventIDs m) \<and> last (pmEventIDs m) = eventID evt
    \<and> set (pmEventIDs m) \<subseteq> eventID ` set (es @ [evt])"
proof -
  let ?E = "eventID ` set (es @ [evt])"
  have "nfa_inv ?E ne" using ingestAll_ok [OF NewNFAEngine_inv [of ?E], of es] assms(1) by auto
  from Ingest_ok [OF this, of evt] assms(2,3) have "matchOK (set (nePatterns ne)) ?E evt m" by auto
  then show ?thesis by (auto simp: matchOK_def)
qed

lemma match_evidence_example:
  "\<exists>ne new ne' m. ingestAll [exShadow] NewNFAEngine = Some ([], ne) \<and> Ingest exConnect ne = Some (new, ne')
     \<and> m \<in> set new \<and> last (pmEventIDs m) = eventID exConnect"
proof -
  define ne where "ne = NewNFAEngine\<lparr>neRunners := [waiting exShadow, waiting exShadow]\<rparr>"
  then have ne: "ingestAll [exShadow] NewNFAEngine = Some ([], ne)" "neRunners ne = [waiting exShadow, waiting exShadow]"
    "nePatterns ne = [lolExec, sensitiveRead, netExfil]" by (simp_all add: shadow_starts)
  then have "nfa_inv UNIV ne" using ingestAll_ok [OF NewNFAEngine_inv [of UNIV], of "[exShadow]"] by auto
  from Ingest_ok [OF this, of exConnect] obtain new ne' where n: "Ingest exConnect ne = Some (new, ne')" by auto
  with connect_matches [OF _ n ne(3), of exShadow] ne(2) obtain m where "m \<in> set new" by (auto simp: exConnect_def)
  from match_evidence [OF ne(1) n this] ne(1) n this show ?thesis by blast
qed



end
