(* ===== verification/StreamEngine.thy ===== *)
theory StreamEngine
  imports GraphTheorems Snapshot Nfa "HOL-Library.Sublist"
begin

text \<open>
  The streaming engine (\<^verbatim>\<open>internal/engine/stream/engine.go\<close>): events queue in a channel, the micro-batch
  loop collects them, and a flush feeds each event to the graph, the snapshot and the pattern matcher,
  whose matches go to a bounded alert channel. A channel is the list of its queued values.

  The functions below translate the operations as one goroutine runs them. The producers, the loop, the
  eviction loop and the consumer of alerts run concurrently; their interleaving is the step relation
  \<open>reach\<close>, in which the local variables \<open>batch\<close> of a flush and \<open>matches\<close> of an event are part of
  the configuration.
\<close>

section \<open>Model\<close>

record engine_config =
  ecMicroBatchWindow :: duration
  ecSnapshotWindow :: duration
  ecEventChBuffer :: nat
  ecEnableNFA :: bool

definition DefaultStreamConfig :: engine_config where
  "DefaultStreamConfig = \<lparr>ecMicroBatchWindow = 5 * second, ecSnapshotWindow = 60 * minute,
     ecEventChBuffer = 10000, ecEnableNFA = True\<rparr>"

record stream_engine =
  sgCfg :: engine_config
  sgGraph :: graph
  sgNfa :: "nfa_engine option"
  sgSnapshot :: snapshot
  sgEventCh :: "event list"
  sgAlertCh :: "pattern_match list"
  sgEvents :: "event list"

definition NewStreamEngine :: "graph \<Rightarrow> engine_config option \<Rightarrow> stream_engine" where
  "NewStreamEngine g cfg =
     (let cfg = (case cfg of None \<Rightarrow> DefaultStreamConfig | Some c \<Rightarrow> c)
      in \<lparr>sgCfg = cfg, sgGraph = g, sgNfa = (if ecEnableNFA cfg then Some NewNFAEngine else None),
          sgSnapshot = NewRollingSnapshot (ecSnapshotWindow cfg), sgEventCh = [], sgAlertCh = [], sgEvents = []\<rparr>)"

text \<open>The capacity of the alert channel, and a send that gives up when the channel is full.\<close>

abbreviation alertBuffer :: nat where
  "alertBuffer \<equiv> 128"

definition offerAlert :: "pattern_match \<Rightarrow> stream_engine \<Rightarrow> stream_engine" where
  "offerAlert m e = (if length (sgAlertCh e) < alertBuffer then e\<lparr>sgAlertCh := sgAlertCh e @ [m]\<rparr> else e)"

text \<open>An event up to the matches it yields; the clock reading is the one of the snapshot.\<close>

definition analyse :: "(string \<Rightarrow> string option) \<Rightarrow> time \<Rightarrow> event \<Rightarrow> stream_engine \<Rightarrow> (pattern_match list \<times> stream_engine) option" where
  "analyse rf now evt e = do {
     g \<leftarrow> AddEvent rf evt (sgGraph e);
     let e = e\<lparr>sgGraph := g, sgSnapshot := snapAdd now evt (sgSnapshot e)\<rparr>;
     case sgNfa e of None \<Rightarrow> Some ([], e)
     | Some nfa \<Rightarrow> do {
         (matches, nfa') \<leftarrow> Ingest evt nfa;
         Some (matches, e\<lparr>sgNfa := Some nfa'\<rparr>)}}"

definition processEvent :: "(string \<Rightarrow> string option) \<Rightarrow> time \<Rightarrow> event \<Rightarrow> stream_engine \<Rightarrow> stream_engine option" where
  "processEvent rf now evt e = do {
     (matches, e) \<leftarrow> analyse rf now evt e;
     Some (fold offerAlert matches e)}"

text \<open>The clock gives one reading per event of the batch.\<close>

fun processBatch :: "(string \<Rightarrow> string option) \<Rightarrow> (nat \<Rightarrow> time) \<Rightarrow> nat \<Rightarrow> event list \<Rightarrow> stream_engine \<Rightarrow> stream_engine option" where
  "processBatch rf clock i [] e = Some e"
| "processBatch rf clock i (evt # batch) e = do {
     e \<leftarrow> processEvent rf (clock i) evt e;
     processBatch rf clock (i + 1) batch e}"

definition flushMicroBatch :: "(string \<Rightarrow> string option) \<Rightarrow> (nat \<Rightarrow> time) \<Rightarrow> stream_engine \<Rightarrow> stream_engine option" where
  "flushMicroBatch rf clock e =
     (let batch = sgEvents e; e = e\<lparr>sgEvents := []\<rparr>
      in if batch = [] then Some e else processBatch rf clock 0 batch e)"

text \<open>The case of the loop that receives an event.\<close>

definition receiveEvent :: "stream_engine \<Rightarrow> stream_engine option" where
  "receiveEvent e = (case sgEventCh e of [] \<Rightarrow> None
     | evt # rest \<Rightarrow> Some (e\<lparr>sgEventCh := rest, sgEvents := sgEvents e @ [evt]\<rparr>))"

definition evictTick :: "time \<Rightarrow> stream_engine \<Rightarrow> stream_engine option" where
  "evictTick now e = map_option (\<lambda>r. e\<lparr>sgSnapshot := snd r\<rparr>) (snapEvict now (sgSnapshot e))"

record engine_stats =
  esMicroBatchWindow :: duration
  esSnapshotWindow :: duration
  esNfaEnabled :: bool
  esNfaActiveStates :: nat
  esSnapshotEvents :: nat

definition StreamStats :: "stream_engine \<Rightarrow> engine_stats option" where
  "StreamStats e = do {
     nfa \<leftarrow> sgNfa e;
     Some \<lparr>esMicroBatchWindow = ecMicroBatchWindow (sgCfg e), esSnapshotWindow = ecSnapshotWindow (sgCfg e),
       esNfaEnabled = ecEnableNFA (sgCfg e), esNfaActiveStates = ActiveStates nfa,
       esSnapshotEvents = snapSize (sgSnapshot e)\<rparr>}"

section \<open>The goroutines interleaved\<close>

text \<open>
  The configurations reachable from a fresh engine: \<open>S\<close> lists the events sent so far and \<open>D\<close> the alerts
  delivered. \<open>batch\<close> and \<open>matches\<close> are what the flush in progress has left to do; a stopped loop makes no
  further step once its last flush is done.
\<close>

record stream_conf =
  scEngine :: stream_engine
  scBatch :: "event list"
  scMatches :: "pattern_match list"
  scStopped :: bool

abbreviation idle :: "stream_conf \<Rightarrow> bool" where
  "idle c \<equiv> scBatch c = [] \<and> scMatches c = [] \<and> \<not> scStopped c"

inductive reach :: "(string \<Rightarrow> string option) \<Rightarrow> graph \<Rightarrow> engine_config \<Rightarrow> event list \<Rightarrow> pattern_match list \<Rightarrow> stream_conf \<Rightarrow> bool"
  for rf g0 cfg where
  init: "reach rf g0 cfg [] [] \<lparr>scEngine = NewStreamEngine g0 (Some cfg), scBatch = [], scMatches = [], scStopped = False\<rparr>"
| send: "reach rf g0 cfg S D c \<Longrightarrow> length (sgEventCh (scEngine c)) < ecEventChBuffer cfg
    \<Longrightarrow> e = (scEngine c)\<lparr>sgEventCh := sgEventCh (scEngine c) @ [evt]\<rparr>
    \<Longrightarrow> reach rf g0 cfg (S @ [evt]) D (c\<lparr>scEngine := e\<rparr>)"
| receive: "reach rf g0 cfg S D c \<Longrightarrow> idle c \<Longrightarrow> receiveEvent (scEngine c) = Some e
    \<Longrightarrow> reach rf g0 cfg S D (c\<lparr>scEngine := e\<rparr>)"
| flush: "reach rf g0 cfg S D c \<Longrightarrow> idle c \<Longrightarrow> e = (scEngine c)\<lparr>sgEvents := []\<rparr>
    \<Longrightarrow> reach rf g0 cfg S D (c\<lparr>scEngine := e, scBatch := sgEvents (scEngine c), scStopped := stop\<rparr>)"
| event: "reach rf g0 cfg S D c \<Longrightarrow> scBatch c = evt # batch \<Longrightarrow> scMatches c = []
    \<Longrightarrow> analyse rf now evt (scEngine c) = Some (ms, e)
    \<Longrightarrow> reach rf g0 cfg S D (c\<lparr>scEngine := e, scBatch := batch, scMatches := ms\<rparr>)"
| offer: "reach rf g0 cfg S D c \<Longrightarrow> scMatches c = m # ms
    \<Longrightarrow> reach rf g0 cfg S D (c\<lparr>scEngine := offerAlert m (scEngine c), scMatches := ms\<rparr>)"
| evict: "reach rf g0 cfg S D c \<Longrightarrow> evictTick now (scEngine c) = Some e \<Longrightarrow> reach rf g0 cfg S D (c\<lparr>scEngine := e\<rparr>)"
| deliver: "reach rf g0 cfg S D c \<Longrightarrow> sgAlertCh (scEngine c) = m # rest
    \<Longrightarrow> e = (scEngine c)\<lparr>sgAlertCh := rest\<rparr> \<Longrightarrow> reach rf g0 cfg S (D @ [m]) (c\<lparr>scEngine := e\<rparr>)"

section \<open>The operations\<close>

text \<open>What the matcher of an engine is after the events \<open>P\<close>, with the matches they yielded.\<close>

definition nfaAfter :: "event list \<Rightarrow> nfa_engine option \<Rightarrow> pattern_match list \<Rightarrow> nfa_engine option \<Rightarrow> bool" where
  "nfaAfter P nfa ms nfa' \<longleftrightarrow> (case nfa of None \<Rightarrow> ms = [] \<and> nfa' = None
     | Some n \<Rightarrow> (\<exists>n'. ingestAll P n = Some (ms, n') \<and> nfa' = Some n'))"

lemma nfaAfter_Nil [simp]: "nfaAfter [] nfa ms nfa' \<longleftrightarrow> ms = [] \<and> nfa' = nfa"
  by (cases nfa) (auto simp: nfaAfter_def)

lemma analyse_some:
  assumes "analyse rf now evt e = Some (ms, e')"
  shows "AddEvent rf evt (sgGraph e) = Some (sgGraph e') \<and> sgSnapshot e' = snapAdd now evt (sgSnapshot e)
    \<and> nfaAfter [evt] (sgNfa e) ms (sgNfa e') \<and> sgEventCh e' = sgEventCh e \<and> sgEvents e' = sgEvents e
    \<and> sgAlertCh e' = sgAlertCh e \<and> sgCfg e' = sgCfg e"
  using assms by (cases "sgNfa e") (auto simp: analyse_def nfaAfter_def Let_def split: bind_splits)

lemma nfaAfter_append: "nfaAfter P nfa ms n1 \<Longrightarrow> nfaAfter Q n1 ms' n2 \<Longrightarrow> nfaAfter (P @ Q) nfa (ms @ ms') n2"
  by (auto simp: nfaAfter_def ingestAll_append split: option.splits)

lemma offerAlert_fields [simp]:
  "sgGraph (offerAlert m e) = sgGraph e" "sgSnapshot (offerAlert m e) = sgSnapshot e" "sgNfa (offerAlert m e) = sgNfa e"
  "sgEvents (offerAlert m e) = sgEvents e" "sgEventCh (offerAlert m e) = sgEventCh e" "sgCfg (offerAlert m e) = sgCfg e"
  by (simp_all add: offerAlert_def)

lemma offerAlert_bound: "length (sgAlertCh e) \<le> alertBuffer \<Longrightarrow> length (sgAlertCh (offerAlert m e)) \<le> alertBuffer"
  by (simp add: offerAlert_def)

lemma subseq_offer: "subseq (xs @ sgAlertCh e @ m # ys) ms \<Longrightarrow> subseq (xs @ sgAlertCh (offerAlert m e) @ ys) ms"
proof -
  assume a: "subseq (xs @ sgAlertCh e @ m # ys) ms"
  have "subseq (xs @ sgAlertCh (offerAlert m e) @ ys) (xs @ sgAlertCh e @ m # ys)"
    by (auto simp: offerAlert_def intro!: list_emb_append_mono)
  with a show ?thesis by (rule subseq_order.trans [rotated])
qed

section \<open>Every interleaving\<close>

definition pipeline_inv :: "(string \<Rightarrow> string option) \<Rightarrow> graph \<Rightarrow> engine_config \<Rightarrow> event list \<Rightarrow> pattern_match list \<Rightarrow> stream_conf \<Rightarrow> bool" where
  "pipeline_inv rf g0 cfg S D c \<longleftrightarrow> (\<exists>P ms. S = P @ scBatch c @ sgEvents (scEngine c) @ sgEventCh (scEngine c)
     \<and> runOps (AddEvent rf) P g0 = Some (sgGraph (scEngine c))
     \<and> nfaAfter P (if ecEnableNFA cfg then Some NewNFAEngine else None) ms (sgNfa (scEngine c))
     \<and> subseq (D @ sgAlertCh (scEngine c) @ scMatches c) ms)
     \<and> length (sgAlertCh (scEngine c)) \<le> alertBuffer"

lemma reach_inv: "reach rf g0 cfg S D c \<Longrightarrow> pipeline_inv rf g0 cfg S D c"
proof (induction rule: reach.induct)
  case init
  then show ?case by (simp add: pipeline_inv_def NewStreamEngine_def)
next
  case (event S D c evt batch now ms e)
  then obtain P ms0 where P: "S = P @ scBatch c @ sgEvents (scEngine c) @ sgEventCh (scEngine c)"
    "runOps (AddEvent rf) P g0 = Some (sgGraph (scEngine c))"
    "nfaAfter P (if ecEnableNFA cfg then Some NewNFAEngine else None) ms0 (sgNfa (scEngine c))"
    "subseq (D @ sgAlertCh (scEngine c) @ scMatches c) ms0" "length (sgAlertCh (scEngine c)) \<le> alertBuffer"
    by (auto simp: pipeline_inv_def)
  note a = analyse_some [OF event.hyps(4)]
  have "runOps (AddEvent rf) (P @ [evt]) g0 = Some (sgGraph e)" using P(2) a by (simp add: runOps_append)
  moreover have "nfaAfter (P @ [evt]) (if ecEnableNFA cfg then Some NewNFAEngine else None) (ms0 @ ms) (sgNfa e)"
    using nfaAfter_append [OF P(3)] a by blast
  moreover have "subseq (D @ sgAlertCh e @ ms) (ms0 @ ms)"
    using P(4) event.hyps(3) a list_emb_append_mono [of _ "D @ sgAlertCh e" ms0 ms ms] by simp
  moreover have "S = (P @ [evt]) @ batch @ sgEvents e @ sgEventCh e" using P(1) event.hyps(2) a by simp
  ultimately show ?case using P(5) a unfolding pipeline_inv_def
    by (intro conjI exI [of _ "P @ [evt]"] exI [of _ "ms0 @ ms"]) simp_all
next
  case (offer S D c m ms)
  then obtain P ms0 where P: "S = P @ scBatch c @ sgEvents (scEngine c) @ sgEventCh (scEngine c)"
    "runOps (AddEvent rf) P g0 = Some (sgGraph (scEngine c))"
    "nfaAfter P (if ecEnableNFA cfg then Some NewNFAEngine else None) ms0 (sgNfa (scEngine c))"
    "subseq (D @ sgAlertCh (scEngine c) @ m # ms) ms0" "length (sgAlertCh (scEngine c)) \<le> alertBuffer"
    by (auto simp: pipeline_inv_def)
  from subseq_offer [OF P(4)] P offerAlert_bound [OF P(5)] show ?case
    unfolding pipeline_inv_def by (intro conjI exI [of _ P] exI [of _ ms0]) simp_all
qed (auto simp: pipeline_inv_def receiveEvent_def evictTick_def split: list.splits)

section \<open>A flush\<close>

lemma fold_offer [simp]:
  "sgGraph (fold offerAlert ms e) = sgGraph e" "sgSnapshot (fold offerAlert ms e) = sgSnapshot e"
  "sgNfa (fold offerAlert ms e) = sgNfa e" "sgEvents (fold offerAlert ms e) = sgEvents e"
  "sgEventCh (fold offerAlert ms e) = sgEventCh e"
  by (induction ms arbitrary: e) simp_all

lemma fold_offer_alerts:
  "length (sgAlertCh e) \<le> alertBuffer \<Longrightarrow> sgAlertCh (fold offerAlert ms e) = take alertBuffer (sgAlertCh e @ ms)"
  by (induction ms arbitrary: e) (auto simp: offerAlert_def take_Cons' diff_diff_left)

definition stream_inv :: "stream_engine \<Rightarrow> bool" where
  "stream_inv e \<longleftrightarrow> snap_inv (sgSnapshot e) \<and> length (sgAlertCh e) \<le> alertBuffer
     \<and> (case sgNfa e of None \<Rightarrow> True | Some n \<Rightarrow> nfa_inv UNIV n)"

lemma processEvent_ok:
  assumes "stream_inv e" and "AddEvent rf evt (sgGraph e) = Some g"
  shows "\<exists>e' ms. processEvent rf now evt e = Some e' \<and> stream_inv e' \<and> sgGraph e' = g
    \<and> contents (sgSnapshot e') = queueStep (ssMax (sgSnapshot e)) (ssWindow (sgSnapshot e)) (SAdd now evt) (contents (sgSnapshot e))
    \<and> ssMax (sgSnapshot e') = ssMax (sgSnapshot e) \<and> ssWindow (sgSnapshot e') = ssWindow (sgSnapshot e)
    \<and> nfaAfter [evt] (sgNfa e) ms (sgNfa e') \<and> sgAlertCh e' = take alertBuffer (sgAlertCh e @ ms)
    \<and> sgEvents e' = sgEvents e \<and> sgEventCh e' = sgEventCh e"
proof -
  have "\<exists>ms e1. analyse rf now evt e = Some (ms, e1) \<and> sgGraph e1 = g \<and> (case sgNfa e1 of None \<Rightarrow> True | Some n \<Rightarrow> nfa_inv UNIV n)"
  proof (cases "sgNfa e")
    case (Some n)
    with assms(1) Ingest_ok [of UNIV n evt] obtain ms n' where "Ingest evt n = Some (ms, n')" "nfa_inv UNIV n'"
      by (auto simp: stream_inv_def)
    with Some assms(2) show ?thesis by (simp add: analyse_def Let_def)
  qed (use assms(2) in \<open>simp add: analyse_def Let_def\<close>)
  then obtain ms e1 where e1: "analyse rf now evt e = Some (ms, e1)" "sgGraph e1 = g"
    "case sgNfa e1 of None \<Rightarrow> True | Some n \<Rightarrow> nfa_inv UNIV n" by blast
  note a = analyse_some [OF e1(1)]
  have s: "snap_inv (snapAdd now evt (sgSnapshot e))" "contents (snapAdd now evt (sgSnapshot e))
      = queueStep (ssMax (sgSnapshot e)) (ssWindow (sgSnapshot e)) (SAdd now evt) (contents (sgSnapshot e))"
    using snapStep_refines [of "sgSnapshot e" "SAdd now evt"] assms(1) by (auto simp: stream_inv_def)
  have "sgAlertCh (fold offerAlert ms e1) = take alertBuffer (sgAlertCh e @ ms)"
    using fold_offer_alerts [of e1 ms] a assms(1) by (simp add: stream_inv_def)
  with e1 a s show ?thesis by (auto simp: processEvent_def stream_inv_def)
qed

lemma take_alerts: "take n (take n xs @ ys) = take n (xs @ ys)"
  by (cases "length xs \<le> n") simp_all

lemma processBatch_ok:
  "stream_inv e \<Longrightarrow> runOps (AddEvent rf) batch (sgGraph e) = Some g \<Longrightarrow>
   \<exists>e' ms. processBatch rf clock i batch e = Some e' \<and> stream_inv e' \<and> sgGraph e' = g
     \<and> contents (sgSnapshot e') = fold (queueStep (ssMax (sgSnapshot e)) (ssWindow (sgSnapshot e)))
          (map (\<lambda>(j, evt). SAdd (clock (i + j)) evt) (enumerate 0 batch)) (contents (sgSnapshot e))
     \<and> nfaAfter batch (sgNfa e) ms (sgNfa e') \<and> sgAlertCh e' = take alertBuffer (sgAlertCh e @ ms)
     \<and> sgEvents e' = sgEvents e \<and> sgEventCh e' = sgEventCh e"
proof (induction batch arbitrary: i e)
  case Nil
  then show ?case by (simp add: stream_inv_def)
next
  case (Cons evt batch)
  from Cons.prems(2) obtain g1 where g1: "AddEvent rf evt (sgGraph e) = Some g1" "runOps (AddEvent rf) batch g1 = Some g"
    by (auto split: option.splits)
  obtain e1 ms1 where 1: "processEvent rf (clock i) evt e = Some e1" "stream_inv e1" "sgGraph e1 = g1"
    "contents (sgSnapshot e1) = queueStep (ssMax (sgSnapshot e)) (ssWindow (sgSnapshot e)) (SAdd (clock i) evt) (contents (sgSnapshot e))"
    "ssMax (sgSnapshot e1) = ssMax (sgSnapshot e)" "ssWindow (sgSnapshot e1) = ssWindow (sgSnapshot e)"
    "nfaAfter [evt] (sgNfa e) ms1 (sgNfa e1)" "sgAlertCh e1 = take alertBuffer (sgAlertCh e @ ms1)"
    "sgEvents e1 = sgEvents e" "sgEventCh e1 = sgEventCh e"
    using processEvent_ok [OF Cons.prems(1) g1(1), of "clock i"] by blast
  have g: "runOps (AddEvent rf) batch (sgGraph e1) = Some g" using g1(2) 1(3) by simp
  have shift: "map (\<lambda>(j, evt). SAdd (clock (i + j)) evt) (enumerate (Suc 0) batch)
      = map (\<lambda>(j, evt). SAdd (clock (i + 1 + j)) evt) (enumerate 0 batch)"
    by (simp add: list_eq_iff_nth_eq nth_enumerate_eq)
  from Cons.IH [OF 1(2) g, of "i + 1"] obtain e2 ms2 where 2: "processBatch rf clock (i + 1) batch e1 = Some e2"
    "stream_inv e2" "sgGraph e2 = g"
    "contents (sgSnapshot e2) = fold (queueStep (ssMax (sgSnapshot e1)) (ssWindow (sgSnapshot e1)))
          (map (\<lambda>(j, evt). SAdd (clock (i + 1 + j)) evt) (enumerate 0 batch)) (contents (sgSnapshot e1))"
    "nfaAfter batch (sgNfa e1) ms2 (sgNfa e2)" "sgAlertCh e2 = take alertBuffer (sgAlertCh e1 @ ms2)"
    "sgEvents e2 = sgEvents e1" "sgEventCh e2 = sgEventCh e1" by blast
  have "nfaAfter (evt # batch) (sgNfa e) (ms1 @ ms2) (sgNfa e2)" using nfaAfter_append [OF 1(7) 2(5)] by simp
  moreover have "sgAlertCh e2 = take alertBuffer (sgAlertCh e @ ms1 @ ms2)"
    using 1(8) 2(6) take_alerts [of alertBuffer "sgAlertCh e @ ms1" ms2] by simp
  ultimately show ?case using 1 2 by (auto simp: shift simp del: take_append)
qed

section \<open>Properties\<close>

text \<open>
  C31. Under every interleaving of producers, micro-batch loop, eviction loop and alert consumer, the engine
  equals a sequential run: the events sent so far are, in order, a prefix that has been processed, then the
  batch being flushed, the collected events and the queued ones; graph and matcher are those of the
  sequential run over the prefix, and the alerts delivered or queued are among its matches, in order, with
  at most 128 queued. No event is lost, processed twice or reordered.
\<close>

theorem pipeline_is_sequential:
  assumes "reach rf g0 cfg S D c"
  shows "\<exists>P ms. S = P @ scBatch c @ sgEvents (scEngine c) @ sgEventCh (scEngine c)
    \<and> runOps (AddEvent rf) P g0 = Some (sgGraph (scEngine c))
    \<and> nfaAfter P (if ecEnableNFA cfg then Some NewNFAEngine else None) ms (sgNfa (scEngine c))
    \<and> subseq (D @ sgAlertCh (scEngine c)) ms \<and> length (sgAlertCh (scEngine c)) \<le> 128"
proof -
  from reach_inv [OF assms] obtain P ms where P: "S = P @ scBatch c @ sgEvents (scEngine c) @ sgEventCh (scEngine c)"
    "runOps (AddEvent rf) P g0 = Some (sgGraph (scEngine c))"
    "nfaAfter P (if ecEnableNFA cfg then Some NewNFAEngine else None) ms (sgNfa (scEngine c))"
    "subseq (D @ sgAlertCh (scEngine c) @ scMatches c) ms" "length (sgAlertCh (scEngine c)) \<le> alertBuffer"
    unfolding pipeline_inv_def by blast
  moreover have "subseq (D @ sgAlertCh (scEngine c)) ms"
    by (rule subseq_order.trans [OF _ P(4)]) (simp add: subseq_rev_drop_many append_assoc [symmetric] del: append_assoc)
  ultimately show ?thesis by blast
qed

theorem pipeline_is_sequential_witness:
  "\<exists>c g. reach (\<lambda>_. None) (NewGraph 0) DefaultStreamConfig [exShadow] [] c
     \<and> AddEvent (\<lambda>_. None) exShadow (NewGraph 0) = Some g \<and> sgGraph (scEngine c) = g \<and> sgAlertCh (scEngine c) = []"
proof -
  let ?r = "reach (\<lambda>_. None) (NewGraph 0) DefaultStreamConfig"
  let ?e = "(NewStreamEngine (NewGraph 0) (Some DefaultStreamConfig))"
  have 1: "?r [exShadow] [] \<lparr>scEngine = ?e\<lparr>sgEventCh := [exShadow]\<rparr>, scBatch = [], scMatches = [], scStopped = False\<rparr>"
    using reach.send [OF reach.init, of "NewGraph 0" DefaultStreamConfig _ exShadow "\<lambda>_. None"]
    by (simp add: NewStreamEngine_def DefaultStreamConfig_def)
  have 2: "?r [exShadow] [] \<lparr>scEngine = ?e\<lparr>sgEvents := [exShadow]\<rparr>, scBatch = [], scMatches = [], scStopped = False\<rparr>"
    using reach.receive [OF 1] by (simp add: receiveEvent_def NewStreamEngine_def)
  have 3: "?r [exShadow] [] \<lparr>scEngine = ?e, scBatch = [exShadow], scMatches = [], scStopped = False\<rparr>"
    using reach.flush [OF 2, of _ False] by (simp add: NewStreamEngine_def)
  obtain g where g: "AddEvent (\<lambda>_. None) exShadow (NewGraph 0) = Some g" using AddEvent_unreadable by blast
  then obtain e where e: "analyse (\<lambda>_. None) 0 exShadow ?e = Some ([], e)" "sgGraph e = g" "sgAlertCh e = []"
    by (simp add: analyse_def NewStreamEngine_def DefaultStreamConfig_def shadow_starts)
  then have 4: "?r [exShadow] [] \<lparr>scEngine = e, scBatch = [], scMatches = [], scStopped = False\<rparr>"
    using reach.event [OF 3] by fastforce
  from pipeline_is_sequential [OF 4] 4 g e show ?thesis by fastforce
qed

lemma stream_inv_New: "stream_inv (NewStreamEngine g cfg)"
  by (simp add: stream_inv_def NewStreamEngine_def snapshot_start NewNFAEngine_inv Let_def)

text \<open>
  A flush processes the whole micro-batch: from a consistent engine, when no event of the batch makes
  the graph panic, the flush returns; the graph is that of all events of the batch in order, every event
  has entered the snapshot with its clock reading, the matches are those of the batch, offered in order
  until the alert channel is full, and the batch is empty.
\<close>

theorem flush_processes_batch:
  assumes "stream_inv e" and "runOps (AddEvent rf) (sgEvents e) (sgGraph e) = Some g"
  shows "\<exists>e' ms. flushMicroBatch rf clock e = Some e' \<and> sgGraph e' = g \<and> sgEvents e' = []
    \<and> nfaAfter (sgEvents e) (sgNfa e) ms (sgNfa e') \<and> sgAlertCh e' = take 128 (sgAlertCh e @ ms)
    \<and> contents (sgSnapshot e') = fold (queueStep (ssMax (sgSnapshot e)) (ssWindow (sgSnapshot e)))
          (map (\<lambda>(j, evt). SAdd (clock j) evt) (enumerate 0 (sgEvents e))) (contents (sgSnapshot e))"
proof -
  let ?e = "e\<lparr>sgEvents := []\<rparr>"
  have "flushMicroBatch rf clock e = processBatch rf clock 0 (sgEvents e) ?e"
    by (simp add: flushMicroBatch_def Let_def)
  moreover have "stream_inv ?e" using assms(1) by (simp add: stream_inv_def)
  ultimately show ?thesis
    using processBatch_ok [of ?e rf "sgEvents e" g clock 0] assms(2) by fastforce
qed

theorem flush_processes_batch_witness:
  "\<exists>e' g. flushMicroBatch (\<lambda>_. None) (\<lambda>j. int j)
       ((NewStreamEngine (NewGraph 0) None)\<lparr>sgEvents := [exShadow, exConnect]\<rparr>) = Some e'
     \<and> runOps (AddEvent (\<lambda>_. None)) [exShadow, exConnect] (NewGraph 0) = Some g \<and> sgGraph e' = g \<and> sgEvents e' = []"
proof -
  let ?e = "(NewStreamEngine (NewGraph 0) None)\<lparr>sgEvents := [exShadow, exConnect]\<rparr>"
  have i: "stream_inv ?e" using stream_inv_New [of "NewGraph 0" None] by (simp add: stream_inv_def)
  obtain g1 where "AddEvent (\<lambda>_. None) exShadow (NewGraph 0) = Some g1" using AddEvent_unreadable by blast
  moreover obtain g where "AddEvent (\<lambda>_. None) exConnect g1 = Some g" using AddEvent_unreadable by blast
  ultimately have r: "runOps (AddEvent (\<lambda>_. None)) [exShadow, exConnect] (NewGraph 0) = Some g" by simp
  then have "runOps (AddEvent (\<lambda>_. None)) (sgEvents ?e) (sgGraph ?e) = Some g" by (simp add: NewStreamEngine_def)
  from flush_processes_batch [OF i this, of "\<lambda>j. int j"] r show ?thesis by blast
qed

text \<open>Statistics read the matcher without a check, so they panic when pattern matching is disabled.\<close>

lemma stats_panic_without_nfa: "\<not> ecEnableNFA cfg \<Longrightarrow> StreamStats (NewStreamEngine g (Some cfg)) = None"
  by (simp add: StreamStats_def NewStreamEngine_def)

end
