(* ===== verification/Backtrace.thy ===== *)
theory Backtrace
  imports ProvGraphInv "HOL-Library.Multiset"
begin

text \<open>
  Backward tracing (\<^verbatim>\<open>internal/engine/backtrace/backtrace.go\<close>): from a suspicious node, breadth first against
  the edges, level by level up to a depth, over the graph and the persistent store.

  The store is an argument, its two lookups with their error (\<^const>\<open>None\<close>). \<^verbatim>\<open>sort.Slice\<close> is not stable, so
  the order of edges with equal times is open: the sort is an argument of which only \<open>sorts\<close> is assumed. The
  layout \<^verbatim>\<open>15:04:05.000\<close> of a time depends on the local zone and is an argument too. A cached node stands for the
  contents its pointer had when it was cached.
\<close>

section \<open>Model\<close>

abbreviation defaultMaxDepth :: int where "defaultMaxDepth \<equiv> 10"
abbreviation defaultMaxNodes :: int where "defaultMaxNodes \<equiv> 1000"

definition rootProcess :: "string \<Rightarrow> bool" where
  "rootProcess i \<longleftrightarrow> i = ''p:1'' \<or> i = ''p:0''"

record trace_request =
  tqStartID :: string
  tqMaxDepth :: int
  tqMaxNodes :: int
  tqOffset :: int

definition normalizeReq :: "trace_request \<Rightarrow> trace_request" where
  "normalizeReq r =
     (let r = (if tqMaxDepth r \<le> 0 then r\<lparr>tqMaxDepth := defaultMaxDepth\<rparr> else r)
      in if tqMaxNodes r \<le> 0 then r\<lparr>tqMaxNodes := defaultMaxNodes\<rparr> else r)"

record timeline_event =
  teDepth :: nat
  teNodeID :: string
  teNodeLabel :: string
  teNodeSubtype :: string
  teEdgeRel :: string
  teTimestamp :: string

record trace_segment =
  sgDepth :: nat
  sgNodes :: "node list"
  sgEdges :: "edge list"
  sgHasMore :: bool
  sgTotal :: nat
  sgDescription :: string

record trace_result =
  trStartID :: string
  trMaxDepth :: int
  trSegments :: "trace_segment list"
  trTotalNodes :: nat
  trTotalEdges :: nat
  trTruncated :: bool
  trHitRoot :: bool
  trTimeline :: "timeline_event list"

record trace_store =
  storeEdgesByTarget :: "string \<Rightarrow> edge list option"
  storeNode :: "string \<Rightarrow> node option"

record backtracer =
  btGraph :: graph
  btStore :: "trace_store option"
  btReverse :: "(string \<times> edge list) list"
  btCache :: "(string \<times> node) list"

definition NewBacktracer :: "graph \<Rightarrow> trace_store option \<Rightarrow> backtracer" where
  "NewBacktracer g st = \<lparr>btGraph = g, btStore = st, btReverse = [], btCache = []\<rparr>"

definition buildReverseIndex :: "backtracer \<Rightarrow> backtracer" where
  "buildReverseIndex bt = bt\<lparr>btReverse :=
     fold (\<lambda>e m. AList.update (eTarget e) (mget0 [] m (eTarget e) @ [e]) m) (graphEdges (btGraph bt)) []\<rparr>"

fun dedupByID :: "string set \<Rightarrow> edge list \<Rightarrow> edge list" where
  "dedupByID seen [] = []"
| "dedupByID seen (e # es) =
     (if eID e \<in> seen then dedupByID seen es else e # dedupByID (insert (eID e) seen) es)"

definition reverseEdges :: "(edge list \<Rightarrow> edge list) \<Rightarrow> backtracer \<Rightarrow> string \<Rightarrow> edge list" where
  "reverseEdges srt bt i =
     (let mem = mget0 [] (btReverse bt) i;
          cold = (case btStore bt of None \<Rightarrow> []
            | Some st \<Rightarrow> (case storeEdgesByTarget st i of None \<Rightarrow> [] | Some es \<Rightarrow> es))
      in srt (dedupByID {} (mem @ cold)))"

definition syntheticNode :: "string \<Rightarrow> node" where
  "syntheticNode i =
     (let n = \<lparr>nID = i, nProvType = [], nSubtype = [], nLabel = [], nFirstSeen = zeroTime, nLastSeen = zeroTime, nAttributes = []\<rparr>
      in if hasPrefix i ''p:'' then n\<lparr>nProvType := ''prov:Activity'', nSubtype := ''process'', nLabel := i\<rparr>
         else if hasPrefix i ''f:'' then n\<lparr>nProvType := ''prov:Entity'', nSubtype := ''file'', nLabel := i\<rparr>
         else n\<lparr>nProvType := ''prov:Entity'', nSubtype := ''unknown'', nLabel := i\<rparr>)"

definition lookupNode :: "string \<Rightarrow> backtracer \<Rightarrow> node \<times> backtracer" where
  "lookupNode i bt = (case map_of (btCache bt) i of Some n \<Rightarrow> (n, bt)
     | None \<Rightarrow>
       let n = (case LookupNode i (btGraph bt) of Some n \<Rightarrow> n
                | None \<Rightarrow> (case btStore bt of None \<Rightarrow> syntheticNode i
                    | Some st \<Rightarrow> (case storeNode st i of Some n \<Rightarrow> n | None \<Rightarrow> syntheticNode i)))
       in (n, bt\<lparr>btCache := AList.update i n (btCache bt)\<rparr>))"

subsection \<open>The search\<close>

record bfs_item =
  biNode :: string
  biDepth :: nat
  biParent :: string
  biEdge :: "edge option"

record bfs_state =
  bsVisited :: "(string \<times> nat) list"
  bsLevels :: "(nat \<times> bfs_item list) list"
  bsTruncated :: bool
  bsHitRoot :: bool

text \<open>The loop over the reverse edges of an item: the items it adds to the queue.\<close>

fun expandItem :: "bfs_item \<Rightarrow> edge list \<Rightarrow> (string \<times> nat) list \<Rightarrow> bfs_item list \<times> (string \<times> nat) list" where
  "expandItem it [] vis = ([], vis)"
| "expandItem it (e # es) vis =
     (if map_of vis (eSource e) \<noteq> None then expandItem it es vis
      else let (new, vis') = expandItem it es (AList.update (eSource e) (biDepth it + 1) vis)
           in (\<lparr>biNode = eSource e, biDepth = biDepth it + 1, biParent = biNode it, biEdge = Some e\<rparr> # new, vis'))"

definition enterLevel :: "bfs_item \<Rightarrow> bfs_state \<Rightarrow> bfs_state" where
  "enterLevel it s = s\<lparr>bsLevels := AList.update (biDepth it) (mget0 [] (bsLevels s) (biDepth it) @ [it]) (bsLevels s)\<rparr>"

lemma expandItem_depth: "it' \<in> set (fst (expandItem it es vis)) \<Longrightarrow> biDepth it' = biDepth it + 1"
  by (induction it es vis rule: expandItem.induct) (auto simp: Let_def case_prod_beta split: if_splits)

text \<open>
  Nothing bounds the nodes a store may name, so the queue may grow; what falls is the multiset of the
  remaining depths of the queued items.
\<close>

function traceLoop :: "(string \<Rightarrow> edge list) \<Rightarrow> nat \<Rightarrow> bfs_item list \<Rightarrow> bfs_state \<Rightarrow> bfs_state" where
  "traceLoop re maxDepth [] s = s"
| "traceLoop re maxDepth (it # queue) s =
     (let s = enterLevel it s in
      if maxDepth \<le> biDepth it then traceLoop re maxDepth queue (s\<lparr>bsTruncated := True\<rparr>)
      else if rootProcess (biNode it) then traceLoop re maxDepth queue (s\<lparr>bsHitRoot := True\<rparr>)
      else let nv = expandItem it (re (biNode it)) (bsVisited s)
           in traceLoop re maxDepth (queue @ fst nv) (s\<lparr>bsVisited := snd nv\<rparr>))"
  by pat_completeness auto
termination
proof (relation "inv_image (mult less_than) (\<lambda>(re, m, q, s). image_mset (\<lambda>it. m - biDepth it) (mset q))", goal_cases)
  case 1
  show ?case by (simp add: wf_mult)
next
  case (2 re m it queue s s')
  then show ?case by (simp add: mult_def) (rule r_into_trancl, simp add: mult1_def, fastforce)
next
  case (3 re m it queue s s')
  then show ?case by (simp add: mult_def) (rule r_into_trancl, simp add: mult1_def, fastforce)
next
  case (4 re m it queue s s' nv)
  let ?f = "\<lambda>it. m - biDepth it"
  have "\<forall>k \<in># image_mset ?f (mset (fst nv)). (k, ?f it) \<in> less_than"
    using 4 by (auto dest: expandItem_depth)
  then have "(image_mset ?f (mset queue) + image_mset ?f (mset (fst nv)), image_mset ?f (mset queue) + {#?f it#}) \<in> mult less_than"
    by (intro one_step_implies_mult) auto
  then show ?case by simp
qed

declare traceLoop.simps [simp del]

subsection \<open>Segments and timeline\<close>

text \<open>\<^verbatim>\<open>items[off:end]\<close>, which panics unless \<open>0 \<le> off \<le> end\<close> and \<open>end\<close> is within the slice.\<close>

definition sliceInt :: "'a list \<Rightarrow> int \<Rightarrow> int \<Rightarrow> 'a list option" where
  "sliceInt xs a b = (if 0 \<le> a \<and> a \<le> b \<and> b \<le> int (length xs)
     then Some (take (nat b - nat a) (drop (nat a) xs)) else None)"

fun collectItems :: "bfs_item list \<Rightarrow> backtracer \<Rightarrow> node list \<times> edge list \<times> backtracer" where
  "collectItems [] bt = ([], [], bt)"
| "collectItems (it # its) bt =
     (let (n, bt) = lookupNode (biNode it) bt;
          (ns, es, bt) = collectItems its bt
      in (n # ns, (case biEdge it of None \<Rightarrow> es | Some e \<Rightarrow> e # es), bt))"

definition describe :: "string \<Rightarrow> nat \<Rightarrow> string" where
  "describe start d = (if d = 0 then ''Start: '' @ start
     else if d = 1 then ''Direct ancestors (1 hop)''
     else ''Ancestors ('' @ showNat d @ '' hops)'')"

definition buildSegment :: "trace_request \<Rightarrow> nat \<Rightarrow> bfs_item list \<Rightarrow> backtracer \<Rightarrow> (trace_segment \<times> backtracer) option" where
  "buildSegment req d items bt =
     (let off = (if 0 < tqOffset req then tqOffset req else 0);
          end1 = wrap64 (off + tqMaxNodes req);
          end2 = (if int (length items) < end1 then int (length items) else end1)
      in do {
        page \<leftarrow> sliceInt items off end2;
        let (ns, es, bt') = collectItems page bt;
        Some (\<lparr>sgDepth = d, sgNodes = ns, sgEdges = es, sgHasMore = (end2 < int (length items)),
               sgTotal = length items, sgDescription = describe (tqStartID req) d\<rparr>, bt')})"

fun buildSegments :: "trace_request \<Rightarrow> (nat \<times> bfs_item list) list \<Rightarrow> nat list \<Rightarrow> backtracer
    \<Rightarrow> (trace_segment list \<times> backtracer) option" where
  "buildSegments req levels [] bt = Some ([], bt)"
| "buildSegments req levels (d # ds) bt =
     (let items = mget0 [] levels d in
      if items = [] then Some ([], bt)
      else do {
        (seg, bt) \<leftarrow> buildSegment req d items bt;
        (segs, bt) \<leftarrow> buildSegments req levels ds bt;
        Some (seg # segs, bt)})"

definition buildTimeline :: "(time \<Rightarrow> string) \<Rightarrow> trace_segment list \<Rightarrow> timeline_event list" where
  "buildTimeline fmt segs = concat (map (\<lambda>seg.
     map (\<lambda>(i, n). \<lparr>teDepth = sgDepth seg, teNodeID = nID n, teNodeLabel = nLabel n, teNodeSubtype = nSubtype n,
         teEdgeRel = (if i < length (sgEdges seg) then eRelation (sgEdges seg ! i) else []),
         teTimestamp = (if i < length (sgEdges seg) then fmt (eTimestamp (sgEdges seg ! i)) else [])\<rparr>)
       (enumerate 0 (sgNodes seg))) segs)"

datatype trace_error = StartIDRequired

definition Trace :: "(edge list \<Rightarrow> edge list) \<Rightarrow> (time \<Rightarrow> string) \<Rightarrow> trace_request \<Rightarrow> backtracer
    \<Rightarrow> (trace_error + (trace_result \<times> backtracer)) option" where
  "Trace srt fmt req0 bt0 =
     (let req = normalizeReq req0 in
      if tqStartID req = [] then Some (Inl StartIDRequired)
      else let bt = buildReverseIndex bt0;
               s = traceLoop (reverseEdges srt bt) (nat (tqMaxDepth req))
                     [\<lparr>biNode = tqStartID req, biDepth = 0, biParent = [], biEdge = None\<rparr>]
                     \<lparr>bsVisited = [(tqStartID req, 0)], bsLevels = [], bsTruncated = False, bsHitRoot = False\<rparr>
           in do {
             (segs, bt) \<leftarrow> buildSegments req (bsLevels s) [0..<Suc (nat (tqMaxDepth req))] bt;
             Some (Inr (\<lparr>trStartID = tqStartID req, trMaxDepth = tqMaxDepth req, trSegments = segs,
               trTotalNodes = sum_list (map (length \<circ> sgNodes) segs), trTotalEdges = sum_list (map (length \<circ> sgEdges) segs),
               trTruncated = bsTruncated s, trHitRoot = bsHitRoot s, trTimeline = buildTimeline fmt segs\<rparr>, bt))})"

definition TraceByInode :: "(edge list \<Rightarrow> edge list) \<Rightarrow> (time \<Rightarrow> string) \<Rightarrow> u64 \<Rightarrow> u32 \<Rightarrow> u32 \<Rightarrow> int \<Rightarrow> backtracer
    \<Rightarrow> (trace_error + (trace_result \<times> backtracer)) option" where
  "TraceByInode srt fmt inode devMajor devMinor maxDepth bt = Trace srt fmt
     \<lparr>tqStartID = NodeIDFile inode devMajor devMinor, tqMaxDepth = maxDepth, tqMaxNodes = 0, tqOffset = 0\<rparr> bt"

definition TraceByPID :: "(edge list \<Rightarrow> edge list) \<Rightarrow> (time \<Rightarrow> string) \<Rightarrow> u32 \<Rightarrow> int \<Rightarrow> backtracer
    \<Rightarrow> (trace_error + (trace_result \<times> backtracer)) option" where
  "TraceByPID srt fmt pid maxDepth bt = Trace srt fmt
     \<lparr>tqStartID = NodeIDProcess pid, tqMaxDepth = maxDepth, tqMaxNodes = 0, tqOffset = 0\<rparr> bt"

section \<open>Distance\<close>

text \<open>One step back: from a node that is not a root process to the source of an edge into it.\<close>

definition backStep :: "(string \<Rightarrow> edge list) \<Rightarrow> (string \<times> string) set" where
  "backStep re = {(x, y). \<not> rootProcess x \<and> y \<in> eSource ` set (re x)}"

text \<open>The nodes whose shortest way back from the start has \<open>d\<close> steps.\<close>

definition atDist :: "(string \<times> string) set \<Rightarrow> string \<Rightarrow> nat \<Rightarrow> string set" where
  "atDist R s d = {y. (s, y) \<in> R ^^ d \<and> (\<forall>k < d. (s, y) \<notin> R ^^ k)}"

lemma atDist_0 [simp]: "atDist R s 0 = {s}"
  by (auto simp: atDist_def)

lemma atDist_shorter: "(s, y) \<in> R ^^ d \<Longrightarrow> \<exists>k \<le> d. y \<in> atDist R s k"
proof -
  assume a: "(s, y) \<in> R ^^ d"
  define k where "k = (LEAST k. (s, y) \<in> R ^^ k)"
  have "(s, y) \<in> R ^^ k" unfolding k_def by (rule LeastI [of _ d]) (rule a)
  moreover have "k \<le> d" unfolding k_def by (rule Least_le) (rule a)
  moreover have "(s, y) \<notin> R ^^ j" if "j < k" for j using not_less_Least [of j] that unfolding k_def by blast
  ultimately show ?thesis by (auto simp: atDist_def)
qed

lemma atDist_Suc: "atDist R s (Suc d) = R `` atDist R s d - (\<Union>k \<le> d. atDist R s k)"
proof (intro equalityI subsetI)
  fix y assume y: "y \<in> atDist R s (Suc d)"
  then obtain x where x: "(s, x) \<in> R ^^ d" "(x, y) \<in> R" by (auto simp: atDist_def)
  have "(s, x) \<notin> R ^^ k" if "k < d" for k
    using y x(2) that by (auto simp: atDist_def dest!: spec [of _ "Suc k"])
  then have "x \<in> atDist R s d" using x(1) by (simp add: atDist_def)
  moreover have "y \<notin> atDist R s k" if "k \<le> d" for k using y that by (auto simp: atDist_def)
  ultimately show "y \<in> R `` atDist R s d - (\<Union>k \<le> d. atDist R s k)" using x(2) by blast
next
  fix y assume y: "y \<in> R `` atDist R s d - (\<Union>k \<le> d. atDist R s k)"
  then have "(s, y) \<in> R ^^ Suc d" by (auto simp: atDist_def)
  moreover have "(s, y) \<notin> R ^^ k" if "k < Suc d" for k
  proof
    assume "(s, y) \<in> R ^^ k"
    then obtain j where "j \<le> k" "y \<in> atDist R s j" using atDist_shorter by blast
    with y that show False by auto
  qed
  ultimately show "y \<in> atDist R s (Suc d)" by (simp add: atDist_def)
qed

section \<open>The search finds the distances\<close>

abbreviation visitedSet :: "(string \<times> nat) list \<Rightarrow> string set" where
  "visitedSet vis \<equiv> dom (map_of vis)"

text \<open>An item is well formed when its edge leads from its node back to its parent.\<close>

definition itemOK :: "(string \<Rightarrow> edge list) \<Rightarrow> bfs_item \<Rightarrow> bool" where
  "itemOK re it \<longleftrightarrow> (case biEdge it of None \<Rightarrow> biDepth it = 0
     | Some e \<Rightarrow> 0 < biDepth it \<and> eSource e = biNode it \<and> e \<in> set (re (biParent it)))"

lemma expandItem_nodes: "biNode ` set (fst (expandItem it es vis)) = eSource ` set es - visitedSet vis"
  by (induction it es vis rule: expandItem.induct) (auto simp: Let_def case_prod_beta split: if_splits)

lemma expandItem_visited: "visitedSet (snd (expandItem it es vis)) = visitedSet vis \<union> eSource ` set es"
  by (induction it es vis rule: expandItem.induct) (auto simp: Let_def case_prod_beta)

lemma expandItem_distinct: "distinct (map biNode (fst (expandItem it es vis)))"
  by (induction it es vis rule: expandItem.induct) (simp_all add: Let_def case_prod_beta expandItem_nodes)

lemmas expandItem_spec = expandItem_nodes expandItem_visited expandItem_distinct

lemma expandItem_ok:
  "it' \<in> set (fst (expandItem it es vis)) \<Longrightarrow> set es \<subseteq> set (re (biNode it)) \<Longrightarrow> itemOK re it'"
  by (induction it es vis rule: expandItem.induct) (auto simp: Let_def case_prod_beta itemOK_def split: if_splits)

fun expandAll :: "(string \<Rightarrow> edge list) \<Rightarrow> bfs_item list \<Rightarrow> (string \<times> nat) list \<Rightarrow> bfs_item list \<times> (string \<times> nat) list" where
  "expandAll re [] vis = ([], vis)"
| "expandAll re (it # its) vis =
     (if rootProcess (biNode it) then expandAll re its vis
      else let nv = expandItem it (re (biNode it)) vis; nv' = expandAll re its (snd nv)
           in (fst nv @ fst nv', snd nv'))"

lemma Image_insert': "R `` insert x A = R `` {x} \<union> R `` A"
  by blast

lemma expandAll_sets:
  "biNode ` set (fst (expandAll re Q vis)) = backStep re `` (biNode ` set Q) - visitedSet vis
   \<and> visitedSet (snd (expandAll re Q vis)) = visitedSet vis \<union> backStep re `` (biNode ` set Q)"
proof (induction re Q vis rule: expandAll.induct)
  case (2 re it its vis)
  show ?case
  proof (cases "rootProcess (biNode it)")
    case True
    then have "backStep re `` {biNode it} = {}" by (auto simp: backStep_def)
    with 2(1) [OF True] True show ?thesis by (simp add: Image_insert' [of _ _ "biNode ` set its"])
  next
    case False
    then have "backStep re `` {biNode it} = eSource ` set (re (biNode it))" by (auto simp: backStep_def)
    with 2(2) [OF False refl] False show ?thesis
      by (simp add: Let_def image_Un expandItem_spec(1,2) Image_insert' [of _ _ "biNode ` set its"]) blast
  qed
qed simp

lemma expandAll_distinct: "distinct (map biNode (fst (expandAll re Q vis)))"
proof (induction re Q vis rule: expandAll.induct)
  case (2 re it its vis)
  show ?case
  proof (cases "rootProcess (biNode it)")
    case False
    have "biNode ` set (fst (expandAll re its (snd (expandItem it (re (biNode it)) vis)))) \<inter> eSource ` set (re (biNode it)) = {}"
      using expandAll_sets [of re its "snd (expandItem it (re (biNode it)) vis)"] by (auto simp: expandItem_spec(2))
    with 2(2) [OF False refl] False expandItem_spec(1,3) [of it "re (biNode it)" vis] show ?thesis
      by (simp add: Let_def) blast
  qed (use 2(1) in simp)
qed simp

lemma expandAll_items:
  "it' \<in> set (fst (expandAll re Q vis)) \<Longrightarrow> \<forall>it \<in> set Q. biDepth it = d \<Longrightarrow> biDepth it' = Suc d \<and> itemOK re it'"
  by (induction re Q vis rule: expandAll.induct)
    (auto simp: Let_def split: if_splits dest: expandItem_depth intro: expandItem_ok)

lemma enterLevel_fields [simp]:
  "bsVisited (enterLevel it s) = bsVisited s" "bsHitRoot (enterLevel it s) = bsHitRoot s"
  "bsTruncated (enterLevel it s) = bsTruncated s"
  by (simp_all add: enterLevel_def)

lemma enterLevel_get: "mget0 [] (bsLevels (enterLevel it s)) k = mget0 [] (bsLevels s) k @ (if biDepth it = k then [it] else [])"
  by (simp add: enterLevel_def mget0_def)

text \<open>All items of a level are taken before those of the next.\<close>

lemma traceLoop_level:
  "\<forall>it \<in> set Q. biDepth it = d \<Longrightarrow> d < m \<Longrightarrow> \<exists>s'. traceLoop re m (Q @ N) s = traceLoop re m (N @ fst (expandAll re Q (bsVisited s))) s'
     \<and> bsVisited s' = snd (expandAll re Q (bsVisited s))
     \<and> (\<forall>k. mget0 [] (bsLevels s') k = mget0 [] (bsLevels s) k @ (if k = d then Q else []))
     \<and> bsTruncated s' = bsTruncated s \<and> bsHitRoot s' = (bsHitRoot s \<or> (\<exists>it \<in> set Q. rootProcess (biNode it)))"
proof (induction Q arbitrary: N s)
  case Nil
  show ?case by (rule exI [of _ s]) simp
next
  case (Cons it Q)
  show ?case
  proof (cases "rootProcess (biNode it)")
    case True
    let ?s = "(enterLevel it s)\<lparr>bsHitRoot := True\<rparr>"
    have "traceLoop re m ((it # Q) @ N) s = traceLoop re m (Q @ N) ?s"
      using Cons.prems True by (simp add: traceLoop.simps)
    with Cons.IH [of N ?s] Cons.prems True show ?thesis by (auto simp: enterLevel_get)
  next
    case False
    let ?nv = "expandItem it (re (biNode it)) (bsVisited s)"
    let ?s = "(enterLevel it s)\<lparr>bsVisited := snd ?nv\<rparr>"
    have "traceLoop re m ((it # Q) @ N) s = traceLoop re m (Q @ (N @ fst ?nv)) ?s"
      using Cons.prems False by (simp add: traceLoop.simps Let_def)
    with Cons.IH [of "N @ fst ?nv" ?s] Cons.prems False show ?thesis by (auto simp: enterLevel_get Let_def)
  qed
qed

lemma traceLoop_last:
  "\<forall>it \<in> set Q. biDepth it = m \<Longrightarrow> (\<forall>k. mget0 [] (bsLevels (traceLoop re m Q s)) k = mget0 [] (bsLevels s) k @ (if k = m then Q else []))
     \<and> bsTruncated (traceLoop re m Q s) = (bsTruncated s \<or> Q \<noteq> []) \<and> bsHitRoot (traceLoop re m Q s) = bsHitRoot s"
  by (induction Q arbitrary: s) (auto simp: traceLoop.simps enterLevel_get)

definition levelOK :: "(string \<Rightarrow> edge list) \<Rightarrow> string \<Rightarrow> nat \<Rightarrow> bfs_item list \<Rightarrow> bool" where
  "levelOK re start d Q \<longleftrightarrow> biNode ` set Q = atDist (backStep re) start d \<and> distinct (map biNode Q)
     \<and> (\<forall>it \<in> set Q. biDepth it = d \<and> itemOK re it)"

lemma traceLoop_distances:
  "levelOK re start d Q \<Longrightarrow> d \<le> m \<Longrightarrow> visitedSet (bsVisited s) = (\<Union>k \<le> d. atDist (backStep re) start k)
   \<Longrightarrow> \<forall>k. d \<le> k \<longrightarrow> mget0 [] (bsLevels s) k = [] \<Longrightarrow> \<forall>k < d. levelOK re start k (mget0 [] (bsLevels s) k)
   \<Longrightarrow> s' = traceLoop re m Q s
   \<Longrightarrow> (\<forall>k \<le> m. levelOK re start k (mget0 [] (bsLevels s') k)) \<and> (\<forall>k > m. mget0 [] (bsLevels s') k = [])
    \<and> bsTruncated s' = (bsTruncated s \<or> atDist (backStep re) start m \<noteq> {})
    \<and> bsHitRoot s' = (bsHitRoot s \<or> (\<exists>k \<ge> d. k < m \<and> (\<exists>r \<in> atDist (backStep re) start k. rootProcess r)))"
proof (induction "m - d" arbitrary: d Q s)
  case 0
  then have d: "d = m" by simp
  have Q: "\<forall>it \<in> set Q. biDepth it = m" "Q \<noteq> [] \<longleftrightarrow> atDist (backStep re) start m \<noteq> {}"
    using 0(2) d by (auto simp: levelOK_def)
  note l = traceLoop_last [OF Q(1), of re s]
  have "levelOK re start k (mget0 [] (bsLevels (traceLoop re m Q s)) k)" if "k \<le> m" for k
    using l 0 d that by (cases "k = m") auto
  then show ?case using l Q(2) 0 d by auto
next
  case (Suc n)
  then have d: "d < m" by simp
  let ?R = "backStep re" and ?v = "bsVisited s"
  have Qd: "\<forall>it \<in> set Q. biDepth it = d" and Qn: "biNode ` set Q = atDist ?R start d"
    using Suc.prems(1) by (auto simp: levelOK_def)
  obtain s1 where s1: "traceLoop re m Q s = traceLoop re m (fst (expandAll re Q ?v)) s1"
    "bsVisited s1 = snd (expandAll re Q ?v)"
    "\<And>k. mget0 [] (bsLevels s1) k = mget0 [] (bsLevels s) k @ (if k = d then Q else [])"
    "bsTruncated s1 = bsTruncated s" "bsHitRoot s1 = (bsHitRoot s \<or> (\<exists>r \<in> atDist ?R start d. rootProcess r))"
    using traceLoop_level [OF Qd d, of re "[]" s] unfolding Qn [symmetric] by auto
  have e: "biNode ` set (fst (expandAll re Q ?v)) = atDist ?R start (Suc d)"
    "visitedSet (bsVisited s1) = (\<Union>k \<le> Suc d. atDist ?R start k)"
    using expandAll_sets [of re Q ?v] Suc.prems(3) s1(2) atDist_Suc [of ?R start d] unfolding Qn
    by (simp_all add: atMost_Suc Un_commute)
  have "levelOK re start (Suc d) (fst (expandAll re Q ?v))"
    using e(1) expandAll_distinct expandAll_items [OF _ Qd] by (auto simp: levelOK_def)
  moreover have "\<forall>k < Suc d. levelOK re start k (mget0 [] (bsLevels s1) k)"
    using s1(3) Suc.prems(1,4,5) by (auto simp: less_Suc_eq)
  moreover have "\<forall>k. Suc d \<le> k \<longrightarrow> mget0 [] (bsLevels s1) k = []" using s1(3) Suc.prems(4) by auto
  ultimately have "(\<forall>k \<le> m. levelOK re start k (mget0 [] (bsLevels (traceLoop re m Q s)) k)) \<and> (\<forall>k > m. mget0 [] (bsLevels (traceLoop re m Q s)) k = [])
    \<and> bsTruncated (traceLoop re m Q s) = (bsTruncated s1 \<or> atDist ?R start m \<noteq> {})
    \<and> bsHitRoot (traceLoop re m Q s) = (bsHitRoot s1 \<or> (\<exists>k \<ge> Suc d. k < m \<and> (\<exists>r \<in> atDist ?R start k. rootProcess r)))"
    using Suc.hyps(1) [of "Suc d" "fst (expandAll re Q ?v)" s1] Suc.hyps(2) Suc.prems(6) d e(2) unfolding s1(1) by simp
  moreover have "(\<exists>k \<ge> d. k < m \<and> P k) \<longleftrightarrow> P d \<or> (\<exists>k \<ge> Suc d. k < m \<and> P k)" for P
    using d by (metis Suc_leD Suc_le_eq le_neq_implies_less order_refl)
  ultimately show ?case using s1(4,5) Suc.prems(6) by simp
qed

section \<open>What a trace returns\<close>

definition sorts :: "(edge list \<Rightarrow> edge list) \<Rightarrow> bool" where
  "sorts srt \<longleftrightarrow> (\<forall>es. mset (srt es) = mset es \<and> sorted (map eTimestamp (srt es)))"

text \<open>The edges into a node, of the graph and of the store, and the ancestor relation they give.\<close>

definition edgesInto :: "backtracer \<Rightarrow> string \<Rightarrow> edge set" where
  "edgesInto bt i = {e \<in> set (graphEdges (btGraph bt)). eTarget e = i}
     \<union> (case btStore bt of None \<Rightarrow> {} | Some st \<Rightarrow> (case storeEdgesByTarget st i of None \<Rightarrow> {} | Some es \<Rightarrow> set es))"

definition ancestors :: "backtracer \<Rightarrow> (string \<times> string) set" where
  "ancestors bt = {(x, y). \<not> rootProcess x \<and> (\<exists>e \<in> edgesInto bt x. eSource e = y)}"

text \<open>Edges with one identifier have one source, and nodes are found under their own identifiers.\<close>

definition idsAgree :: "backtracer \<Rightarrow> bool" where
  "idsAgree bt \<longleftrightarrow> (\<forall>i. \<forall>e \<in> edgesInto bt i. \<forall>e' \<in> edgesInto bt i. eID e = eID e' \<longrightarrow> eSource e = eSource e')"

definition nodesNamed :: "backtracer \<Rightarrow> bool" where
  "nodesNamed bt \<longleftrightarrow> (\<forall>i n. LookupNode i (btGraph bt) = Some n \<longrightarrow> nID n = i) \<and> (\<forall>i n. map_of (btCache bt) i = Some n \<longrightarrow> nID n = i)
     \<and> (\<forall>st i n. btStore bt = Some st \<longrightarrow> storeNode st i = Some n \<longrightarrow> nID n = i)"

lemma buildReverseIndex_fields [simp]:
  "btGraph (buildReverseIndex bt) = btGraph bt" "btStore (buildReverseIndex bt) = btStore bt"
  "btCache (buildReverseIndex bt) = btCache bt"
  by (simp_all add: buildReverseIndex_def)

lemma buildReverseIndex_get:
  "mget0 [] (btReverse (buildReverseIndex bt)) i = filter (\<lambda>e. eTarget e = i) (graphEdges (btGraph bt))"
proof -
  have "mget0 [] (fold (\<lambda>e m. AList.update (eTarget e) (mget0 [] m (eTarget e) @ [e]) m) es m) i
      = mget0 [] m i @ filter (\<lambda>e. eTarget e = i) es" for es and m :: "(string \<times> edge list) list"
    by (induction es arbitrary: m) (auto simp: mget0_def)
  from this [of "graphEdges (btGraph bt)" "[]"] show ?thesis by (simp add: buildReverseIndex_def mget0_def)
qed

lemma dedupByID_sub: "set (dedupByID seen es) \<subseteq> set es"
  by (induction seen es rule: dedupByID.induct) (auto split: if_splits)

lemma dedupByID_rep: "e \<in> set es \<Longrightarrow> eID e \<in> seen \<or> (\<exists>e' \<in> set (dedupByID seen es). eID e' = eID e)"
  by (induction seen es rule: dedupByID.induct) auto

lemma dedupByID_sources:
  assumes "\<forall>e \<in> set es. \<forall>e' \<in> set es. eID e = eID e' \<longrightarrow> eSource e = eSource e'"
  shows "eSource ` set (dedupByID {} es) = eSource ` set es"
proof -
  have "eSource e \<in> eSource ` set (dedupByID {} es)" if "e \<in> set es" for e
  proof -
    from dedupByID_rep [OF that, of "{}"] obtain e' where "e' \<in> set (dedupByID {} es)" "eID e' = eID e" by auto
    with dedupByID_sub [of "{}" es] that assms show ?thesis by (metis image_eqI subsetD)
  qed
  then show ?thesis using dedupByID_sub [of "{}" es] by auto
qed

lemma sorts_set: "sorts srt \<Longrightarrow> set (srt es) = set es"
  unfolding sorts_def by (metis mset_eq_setD)

lemma backStep_ancestors:
  assumes "sorts srt" and "idsAgree bt"
  shows "backStep (reverseEdges srt (buildReverseIndex bt)) = ancestors bt"
proof -
  define cand where "cand i = filter (\<lambda>e. eTarget e = i) (graphEdges (btGraph bt)) @
    (case btStore bt of None \<Rightarrow> [] | Some st \<Rightarrow> (case storeEdgesByTarget st i of None \<Rightarrow> [] | Some es \<Rightarrow> es))" for i
  have c: "set (cand i) = edgesInto bt i" for i by (auto simp: cand_def edgesInto_def split: option.split)
  have "set (reverseEdges srt (buildReverseIndex bt) i) = set (dedupByID {} (cand i))" for i
    by (simp add: reverseEdges_def buildReverseIndex_get cand_def sorts_set [OF assms(1)])
  moreover have "eSource ` set (dedupByID {} (cand i)) = eSource ` edgesInto bt i" for i
    using dedupByID_sources [of "cand i"] assms(2) unfolding c idsAgree_def by blast
  ultimately show ?thesis by (auto simp: backStep_def ancestors_def image_iff)
qed

lemma lookupNode_ok:
  "nodesNamed bt \<Longrightarrow> nID (fst (lookupNode i bt)) = i \<and> nodesNamed (snd (lookupNode i bt))"
  by (auto simp: lookupNode_def nodesNamed_def Let_def syntheticNode_def split: option.split)

lemma collectItems_ok:
  "nodesNamed bt \<Longrightarrow> map nID (fst (collectItems its bt)) = map biNode its \<and> nodesNamed (snd (snd (collectItems its bt)))"
proof (induction its arbitrary: bt)
  case (Cons it its)
  obtain n bt1 where l: "lookupNode (biNode it) bt = (n, bt1)" by fastforce
  then have "nodesNamed bt1" "nID n = biNode it" using lookupNode_ok [OF Cons.prems, of "biNode it"] by auto
  with Cons.IH [of bt1] l show ?case by (auto simp: Let_def split: prod.split)
qed simp

text \<open>The first page of a level, of at most \<open>mx\<close> nodes.\<close>

definition pageOK :: "int \<Rightarrow> string set \<Rightarrow> nat \<Rightarrow> trace_segment \<Rightarrow> bool" where
  "pageOK mx D d seg \<longleftrightarrow> sgDepth seg = d \<and> sgTotal seg = card D \<and> nID ` set (sgNodes seg) \<subseteq> D
     \<and> distinct (map nID (sgNodes seg)) \<and> length (sgNodes seg) = min (nat mx) (card D) \<and> sgHasMore seg = (mx < int (card D))"

lemma buildSegment_ok:
  assumes "nodesNamed bt" and "levelOK re start d items" and "tqOffset req \<le> 0" and "0 < tqMaxNodes req" "tqMaxNodes req < 2 ^ 63"
  shows "\<exists>seg bt'. buildSegment req d items bt = Some (seg, bt') \<and> nodesNamed bt'
    \<and> pageOK (tqMaxNodes req) (atDist (backStep re) start d) d seg"
proof -
  let ?k = "min (nat (tqMaxNodes req)) (length items)"
  obtain ns es bt' where c: "collectItems (take ?k items) bt = (ns, es, bt')" by (metis prod_cases3)
  have n: "map nID ns = map biNode (take ?k items)" "nodesNamed bt'"
    using collectItems_ok [OF assms(1), of "take ?k items"] c by auto
  have items: "biNode ` set items = atDist (backStep re) start d" "distinct (map biNode items)"
    using assms(2) by (auto simp: levelOK_def)
  then have card: "card (atDist (backStep re) start d) = length items" by (metis distinct_card length_map set_map)
  have w: "wrap64 (tqMaxNodes req) = tqMaxNodes req" using assms(4,5) by simp
  have "sliceInt items 0 (if int (length items) < tqMaxNodes req then int (length items) else tqMaxNodes req) = Some (take ?k items)"
    using assms(4) by (auto simp: sliceInt_def min_def)
  moreover have "nID ` set ns \<subseteq> atDist (backStep re) start d"
    using n(1) items(1) by (metis image_mono list.set_map set_take_subset)
  moreover have "distinct (map nID ns)" "length ns = ?k"
    using n(1) items(2) by (metis distinct_take take_map, metis length_map length_take min.commute min.left_idem)
  ultimately show ?thesis
    using c n(2) assms(3,4) w by (auto simp: buildSegment_def Let_def pageOK_def card)
qed

lemma atDist_empty: "atDist R s d = {} \<Longrightarrow> d \<le> k \<Longrightarrow> atDist R s k = {}"
proof (induction k)
  case (Suc k)
  then show ?case by (cases "d = Suc k") (simp_all add: atDist_Suc)
qed simp

definition pagesOK :: "int \<Rightarrow> (nat \<Rightarrow> string set) \<Rightarrow> nat \<Rightarrow> nat \<Rightarrow> trace_segment list \<Rightarrow> bool" where
  "pagesOK mx D d m segs \<longleftrightarrow> (\<forall>j. j < length segs \<longleftrightarrow> d + j \<le> m \<and> D (d + j) \<noteq> {})
     \<and> (\<forall>j < length segs. pageOK mx (D (d + j)) (d + j) (segs ! j))"

lemma buildSegments_ok:
  assumes "tqOffset req \<le> 0" and "0 < tqMaxNodes req" "tqMaxNodes req < 2 ^ 63"
    and "\<forall>k \<le> m. levelOK re start k (mget0 [] levels k)"
  shows "nodesNamed bt \<Longrightarrow> \<exists>segs bt'. buildSegments req levels [d..<Suc m] bt = Some (segs, bt')
    \<and> pagesOK (tqMaxNodes req) (atDist (backStep re) start) d m segs"
proof (induction "Suc m - d" arbitrary: d bt)
  case 0
  then show ?case by (simp add: pagesOK_def)
next
  case (Suc n)
  let ?D = "atDist (backStep re) start"
  have d: "d \<le> m" using Suc(2) by simp
  then have up: "[d..<Suc m] = d # [Suc d..<Suc m]" by (simp add: upt_conv_Cons del: upt_Suc)
  have l: "levelOK re start d (mget0 [] levels d)" using assms(4) d by blast
  show ?case
  proof (cases "mget0 [] levels d = []")
    case True
    then have "?D d = {}" using l by (simp add: levelOK_def)
    then have "?D (d + j) = {}" for j using atDist_empty by (metis le_add1)
    with True show ?thesis unfolding up by (simp add: pagesOK_def)
  next
    case False
    obtain seg bt1 where seg: "buildSegment req d (mget0 [] levels d) bt = Some (seg, bt1)" "nodesNamed bt1"
      "pageOK (tqMaxNodes req) (?D d) d seg"
      using buildSegment_ok [OF Suc.prems l assms(1,2,3)] by blast
    have "n = Suc m - Suc d" using Suc(2) by simp
    then obtain segs bt2 where segs: "buildSegments req levels [Suc d..<Suc m] bt1 = Some (segs, bt2)"
      "pagesOK (tqMaxNodes req) ?D (Suc d) m segs" using Suc(1) [of "Suc d" bt1] seg(2) by blast
    have ne: "?D d \<noteq> {}" using l False by (auto simp: levelOK_def)
    have "pagesOK (tqMaxNodes req) ?D d m (seg # segs)"
      unfolding pagesOK_def
    proof (intro conjI allI impI)
      fix j show "j < length (seg # segs) \<longleftrightarrow> d + j \<le> m \<and> ?D (d + j) \<noteq> {}"
        using segs(2) ne d by (cases j) (auto simp: pagesOK_def)
      show "pageOK (tqMaxNodes req) (?D (d + j)) (d + j) ((seg # segs) ! j)" if "j < length (seg # segs)"
        using that segs(2) seg(3) by (cases j) (auto simp: pagesOK_def)
    qed
    with seg(1) segs(1) False show ?thesis unfolding up by simp
  qed
qed

lemma normalizeReq_fields [simp]:
  "tqStartID (normalizeReq r) = tqStartID r" "tqOffset (normalizeReq r) = tqOffset r"
  "0 < tqMaxNodes (normalizeReq r)" "0 < tqMaxDepth (normalizeReq r)"
  by (simp_all add: normalizeReq_def Let_def)

text \<open>The search as \<open>Trace\<close> starts it.\<close>

definition searchFrom :: "(edge list \<Rightarrow> edge list) \<Rightarrow> backtracer \<Rightarrow> string \<Rightarrow> nat \<Rightarrow> bfs_state" where
  "searchFrom srt bt start m = traceLoop (reverseEdges srt (buildReverseIndex bt)) m
     [\<lparr>biNode = start, biDepth = 0, biParent = [], biEdge = None\<rparr>]
     \<lparr>bsVisited = [(start, 0)], bsLevels = [], bsTruncated = False, bsHitRoot = False\<rparr>"

lemma searchFrom_distances:
  fixes start m srt bt
  defines "re \<equiv> reverseEdges srt (buildReverseIndex bt)" and "s \<equiv> searchFrom srt bt start m"
  shows "(\<forall>k \<le> m. levelOK re start k (mget0 [] (bsLevels s) k))
    \<and> bsTruncated s = (atDist (backStep re) start m \<noteq> {})
    \<and> bsHitRoot s = (\<exists>k < m. \<exists>r \<in> atDist (backStep re) start k. rootProcess r)"
  using traceLoop_distances [of re start 0 "[\<lparr>biNode = start, biDepth = 0, biParent = [], biEdge = None\<rparr>]" m
      "\<lparr>bsVisited = [(start, 0)], bsLevels = [], bsTruncated = False, bsHitRoot = False\<rparr>" s]
  by (auto simp: s_def searchFrom_def re_def levelOK_def itemOK_def mget0_def)

section \<open>Properties\<close>





text \<open>
  Edges run from the later entity to the earlier one, so the generator of a file is the target of its
  \<open>wasGeneratedBy\<close> edge; the trace takes the sources of incoming edges and so reports a file that a process
  wrote as an ancestor of the process, and not the process as an ancestor of the file.
\<close>

lemma written_file_is_ancestor:
  "e \<in> set (graphEdges (btGraph bt)) \<Longrightarrow> eRelation e = ProvWasGeneratedBy \<Longrightarrow> \<not> rootProcess (eTarget e)
   \<Longrightarrow> (eTarget e, eSource e) \<in> ancestors bt"
  by (auto simp: ancestors_def edgesInto_def)

end
