(* ===== verification/LockFree.thy ===== *)
theory LockFree
  imports Prelude "HOL-Library.Sublist"
begin

unbundle bit_operations_syntax

text \<open>
  The single-producer single-consumer ring (\<^verbatim>\<open>internal/engine/pipeline/lockfree.go\<close>). A pointer is an option,
  \<^const>\<open>None\<close> is \<^verbatim>\<open>nil\<close>; the two indices are 64-bit words that only grow and are masked on access.

  \<open>TryPush\<close> and \<open>TryPop\<close> are the operations run alone. The producer and the consumer run concurrently without a
  lock, so the step relation \<open>spsc\<close> takes their atomic loads and stores and their slot accesses one at a time, in
  any interleaving; sequential consistency is what Go's atomics promise.
\<close>

section \<open>Model\<close>

record 'p lfqueue =
  lqBuffer :: "'p option list"
  lqMask :: u64
  lqHead :: u64
  lqTail :: u64

abbreviation maxQueueSize :: int where "maxQueueSize \<equiv> 65536"

text \<open>The loop that doubles until the size is reached.\<close>

function pow2From :: "nat \<Rightarrow> nat \<Rightarrow> nat" where
  "pow2From sz p = (if p < sz \<and> 0 < p then pow2From sz (2 * p) else p)"
  by pat_completeness auto
termination
  by (relation "measure (\<lambda>(sz, p). sz - p)") auto

declare pow2From.simps [simp del]

definition NewLockFreeQueue :: "int \<Rightarrow> 'p lfqueue" where
  "NewLockFreeQueue sz0 =
     (let sz1 = (if sz0 \<le> 0 then 4096 else sz0);
          sz2 = (if sz1 > maxQueueSize then maxQueueSize else sz1);
          pow2 = pow2From (nat sz2) 1
      in \<lparr>lqBuffer = replicate pow2 None, lqMask = word_of_nat pow2 - 1, lqHead = 0, lqTail = 0\<rparr>)"

definition qslot :: "'p lfqueue \<Rightarrow> u64 \<Rightarrow> nat" where
  "qslot q i = unat (i AND lqMask q)"

definition qfull :: "'p lfqueue \<Rightarrow> u64 \<Rightarrow> u64 \<Rightarrow> bool" where
  "qfull q tail head \<longleftrightarrow> tail - head \<ge> word_of_nat (length (lqBuffer q))"

definition writeSlot :: "u64 \<Rightarrow> 'p option \<Rightarrow> 'p lfqueue \<Rightarrow> 'p lfqueue" where
  "writeSlot i item q = q\<lparr>lqBuffer := (lqBuffer q)[qslot q i := item]\<rparr>"

definition TryPush :: "'p option \<Rightarrow> 'p lfqueue \<Rightarrow> bool \<times> 'p lfqueue" where
  "TryPush item q =
     (let tail = lqTail q; head = lqHead q in
      if qfull q tail head then (False, q)
      else (True, (writeSlot tail item q)\<lparr>lqTail := tail + 1\<rparr>))"

definition TryPop :: "'p lfqueue \<Rightarrow> ('p option \<times> bool) \<times> 'p lfqueue" where
  "TryPop q =
     (let head = lqHead q; tail = lqTail q in
      if head \<ge> tail then ((None, False), q)
      else let item = lqBuffer q ! qslot q head in
        if item = None then ((None, False), q)
        else ((item, True), (writeSlot head None q)\<lparr>lqHead := head + 1\<rparr>))"

definition LFLen :: "'p lfqueue \<Rightarrow> int" where
  "LFLen q = sint (lqTail q - lqHead q)"

definition LFCap :: "'p lfqueue \<Rightarrow> nat" where
  "LFCap q = length (lqBuffer q)"

section \<open>Producer and consumer interleaved\<close>

text \<open>
  The program counters: what each side has loaded. \<open>Us\<close> lists the items whose push is complete (the tail is
  stored), \<open>Os\<close> those whose pop is complete.
\<close>

datatype 'p producer = PIdle | PTail 'p u64 | PHead 'p u64 | PWritten 'p u64
datatype 'p consumer = CIdle | CHead u64 | CTail u64 | CItem 'p u64 | CCleared 'p u64

record 'p spsc_conf =
  scQueue :: "'p lfqueue"
  scProd :: "'p producer"
  scCons :: "'p consumer"

inductive spsc :: "int \<Rightarrow> 'p list \<Rightarrow> 'p list \<Rightarrow> 'p spsc_conf \<Rightarrow> bool" for sz where
  init: "spsc sz [] [] \<lparr>scQueue = NewLockFreeQueue sz, scProd = PIdle, scCons = CIdle\<rparr>"
| p_tail: "spsc sz Us Os c \<Longrightarrow> scProd c = PIdle \<Longrightarrow> spsc sz Us Os (c\<lparr>scProd := PTail x (lqTail (scQueue c))\<rparr>)"
| p_full: "spsc sz Us Os c \<Longrightarrow> scProd c = PTail x t \<Longrightarrow> qfull (scQueue c) t (lqHead (scQueue c))
    \<Longrightarrow> spsc sz Us Os (c\<lparr>scProd := PIdle\<rparr>)"
| p_head: "spsc sz Us Os c \<Longrightarrow> scProd c = PTail x t \<Longrightarrow> \<not> qfull (scQueue c) t (lqHead (scQueue c))
    \<Longrightarrow> spsc sz Us Os (c\<lparr>scProd := PHead x t\<rparr>)"
| p_write: "spsc sz Us Os c \<Longrightarrow> scProd c = PHead x t
    \<Longrightarrow> spsc sz Us Os (c\<lparr>scProd := PWritten x t, scQueue := writeSlot t (Some x) (scQueue c)\<rparr>)"
| p_store: "spsc sz Us Os c \<Longrightarrow> scProd c = PWritten x t
    \<Longrightarrow> spsc sz (Us @ [x]) Os (c\<lparr>scProd := PIdle, scQueue := (scQueue c)\<lparr>lqTail := t + 1\<rparr>\<rparr>)"
| c_head: "spsc sz Us Os c \<Longrightarrow> scCons c = CIdle \<Longrightarrow> spsc sz Us Os (c\<lparr>scCons := CHead (lqHead (scQueue c))\<rparr>)"
| c_empty: "spsc sz Us Os c \<Longrightarrow> scCons c = CHead h \<Longrightarrow> h \<ge> lqTail (scQueue c) \<Longrightarrow> spsc sz Us Os (c\<lparr>scCons := CIdle\<rparr>)"
| c_tail: "spsc sz Us Os c \<Longrightarrow> scCons c = CHead h \<Longrightarrow> \<not> h \<ge> lqTail (scQueue c) \<Longrightarrow> spsc sz Us Os (c\<lparr>scCons := CTail h\<rparr>)"
| c_nil: "spsc sz Us Os c \<Longrightarrow> scCons c = CTail h \<Longrightarrow> lqBuffer (scQueue c) ! qslot (scQueue c) h = None
    \<Longrightarrow> spsc sz Us Os (c\<lparr>scCons := CIdle\<rparr>)"
| c_item: "spsc sz Us Os c \<Longrightarrow> scCons c = CTail h \<Longrightarrow> lqBuffer (scQueue c) ! qslot (scQueue c) h = Some x
    \<Longrightarrow> spsc sz Us Os (c\<lparr>scCons := CItem x h\<rparr>)"
| c_clear: "spsc sz Us Os c \<Longrightarrow> scCons c = CItem x h
    \<Longrightarrow> spsc sz Us Os (c\<lparr>scCons := CCleared x h, scQueue := writeSlot h None (scQueue c)\<rparr>)"
| c_store: "spsc sz Us Os c \<Longrightarrow> scCons c = CCleared x h
    \<Longrightarrow> spsc sz Us (Os @ [x]) (c\<lparr>scCons := CIdle, scQueue := (scQueue c)\<lparr>lqHead := h + 1\<rparr>\<rparr>)"

section \<open>Indices and slots\<close>

lemma pow2From_power: "1 \<le> p \<Longrightarrow> p < 2 * sz \<or> p = 1 \<Longrightarrow> \<exists>j. pow2From sz p = p * 2 ^ j \<and> sz \<le> p * 2 ^ j \<and> (p * 2 ^ j < 2 * sz \<or> p * 2 ^ j = 1)"
proof (induction sz p rule: pow2From.induct)
  case (1 sz p)
  show ?case
  proof (cases "p < sz")
    case True
    then obtain j where "pow2From sz (2 * p) = 2 * p * 2 ^ j" "sz \<le> 2 * p * 2 ^ j" "2 * p * 2 ^ j < 2 * sz \<or> 2 * p * 2 ^ j = 1"
      using 1 by fastforce
    with True 1(2) show ?thesis by (intro exI [of _ "Suc j"]) (simp add: pow2From.simps [of sz p] mult.assoc mult.left_commute)
  next
    case False
    with 1 show ?thesis by (intro exI [of _ 0]) (auto simp: pow2From.simps [of sz p])
  qed
qed

text \<open>A queue with \<open>2 ^ j\<close> slots, \<open>j\<close> at most 16.\<close>

definition ringOf :: "nat \<Rightarrow> 'p lfqueue \<Rightarrow> bool" where
  "ringOf j q \<longleftrightarrow> j \<le> 16 \<and> length (lqBuffer q) = 2 ^ j \<and> lqMask q = mask j"

lemma NewLockFreeQueue_ring: "\<exists>j. ringOf j (NewLockFreeQueue sz)"
proof -
  define n where "n = nat (if (if sz \<le> 0 then 4096 else sz) > maxQueueSize then maxQueueSize else (if sz \<le> 0 then 4096 else sz))"
  have n: "1 \<le> n" "n \<le> 65536" by (auto simp: n_def)
  obtain j where j: "pow2From n 1 = 2 ^ j" "(2 :: nat) ^ j < 2 * n \<or> (2 :: nat) ^ j = 1" using pow2From_power [of 1 n] by auto
  have "(2 :: nat) ^ j < 2 ^ 17" using j(2) n(2) by auto
  then have "j \<le> 16" using power_strict_increasing_iff [of "2 :: nat" j 17] by simp
  then have "ringOf j (NewLockFreeQueue sz)"
    using j(1) by (simp add: ringOf_def NewLockFreeQueue_def Let_def n_def [symmetric] mask_eq_exp_minus_1)
  then show ?thesis ..
qed

lemma unat_u64 [simp]: "k < 2 ^ 64 \<Longrightarrow> unat (word_of_nat k :: u64) = k"
  by (simp add: unsigned_of_nat take_bit_nat_eq_self)

lemma qslot_mod:
  assumes "ringOf j q" and "k < 2 ^ 64"
  shows "qslot q (word_of_nat k) = k mod 2 ^ j"
proof -
  have "unat (word_of_nat k :: u64) = k" using assms(2) by simp
  moreover have "qslot q (word_of_nat k) = unat (take_bit j (word_of_nat k :: u64))"
    using assms(1) by (simp only: qslot_def ringOf_def take_bit_eq_mask)
  ultimately have "qslot q (word_of_nat k) = take_bit j k" by (simp only: unsigned_take_bit_eq)
  then show ?thesis by (simp only: take_bit_eq_mod)
qed

lemma writeSlot_ring [simp]: "ringOf j (writeSlot i x q) = ringOf j q"
  by (simp add: ringOf_def writeSlot_def)

lemma writeSlot_fields [simp]: "lqHead (writeSlot i x q) = lqHead q" "lqTail (writeSlot i x q) = lqTail q"
  by (simp_all add: writeSlot_def)

lemma nat_mod_inj: "a < b \<Longrightarrow> b < a + (n :: nat) \<Longrightarrow> a mod n \<noteq> b mod n"
proof
  assume "a < b" "b < a + n" "a mod n = b mod n"
  then have "n dvd b - a" using mod_eq_dvd_iff_nat [of a b n] by simp
  moreover have "0 < b - a" "b - a < n" using \<open>a < b\<close> \<open>b < a + n\<close> by auto
  ultimately show False using nat_dvd_not_less by blast
qed

section \<open>The invariant\<close>

text \<open>The slot of the item being cleared is empty although the head has not moved yet.\<close>

definition clearing :: "'p consumer \<Rightarrow> bool" where
  "clearing cp = (case cp of CCleared x h \<Rightarrow> True | _ \<Rightarrow> False)"

definition prodOK :: "nat \<Rightarrow> 'p list \<Rightarrow> 'p list \<Rightarrow> 'p lfqueue \<Rightarrow> 'p producer \<Rightarrow> bool" where
  "prodOK j Us Os q pp = (case pp of PIdle \<Rightarrow> True | PTail x t \<Rightarrow> t = word_of_nat (length Us)
     | PHead x t \<Rightarrow> t = word_of_nat (length Us) \<and> length Us < length Os + 2 ^ j
     | PWritten x t \<Rightarrow> t = word_of_nat (length Us) \<and> length Us < length Os + 2 ^ j
         \<and> lqBuffer q ! (length Us mod 2 ^ j) = Some x)"

definition consOK :: "'p list \<Rightarrow> 'p list \<Rightarrow> 'p consumer \<Rightarrow> bool" where
  "consOK Us Os cp = (case cp of CIdle \<Rightarrow> True | CHead h \<Rightarrow> h = word_of_nat (length Os)
     | CTail h \<Rightarrow> h = word_of_nat (length Os) \<and> length Os < length Us
     | CItem x h \<Rightarrow> h = word_of_nat (length Os) \<and> length Os < length Us \<and> x = Us ! length Os
     | CCleared x h \<Rightarrow> h = word_of_nat (length Os) \<and> length Os < length Us \<and> x = Us ! length Os)"

definition spsc_inv :: "nat \<Rightarrow> 'p list \<Rightarrow> 'p list \<Rightarrow> 'p spsc_conf \<Rightarrow> bool" where
  "spsc_inv j Us Os c \<longleftrightarrow> ringOf j (scQueue c) \<and> prefix Os Us \<and> length Us \<le> length Os + 2 ^ j
     \<and> lqTail (scQueue c) = word_of_nat (length Us) \<and> lqHead (scQueue c) = word_of_nat (length Os)
     \<and> (\<forall>k. length Os + (if clearing (scCons c) then 1 else 0) \<le> k \<and> k < length Us
          \<longrightarrow> lqBuffer (scQueue c) ! (k mod 2 ^ j) = Some (Us ! k))
     \<and> prodOK j Us Os (scQueue c) (scProd c) \<and> consOK Us Os (scCons c)"

lemma word_le_nat: "m < 2 ^ 64 \<Longrightarrow> n < 2 ^ 64 \<Longrightarrow> (word_of_nat m :: u64) \<le> word_of_nat n \<longleftrightarrow> m \<le> n"
  by (simp add: word_le_nat_alt)

lemma qfull_iff:
  assumes "ringOf j q" and "m \<le> n" "n < 2 ^ 64"
  shows "qfull q (word_of_nat n) (word_of_nat m) \<longleftrightarrow> m + 2 ^ j \<le> n"
proof -
  have "(word_of_nat n - word_of_nat m :: u64) = word_of_nat (n - m)" using assms(2) by (simp add: of_nat_diff)
  moreover have "(2 :: nat) ^ j \<le> 2 ^ 16" using assms(1) power_increasing [of j 16 "2 :: nat"] by (simp add: ringOf_def)
  ultimately show ?thesis
    using assms word_le_nat [of "2 ^ j" "n - m"] by (auto simp: qfull_def ringOf_def)
qed

lemma prefix_nth_eq: "prefix Os Us \<Longrightarrow> length Os < length Us \<Longrightarrow> prefix (Os @ [Us ! length Os]) Us"
  by (auto simp: prefix_def) (metis append.assoc append_Cons append_Nil hd_drop_conv_nth list.exhaust list.sel(1) nth_append_length self_append_conv)

lemma word_lt_nat: "m < 2 ^ 64 \<Longrightarrow> n < 2 ^ 64 \<Longrightarrow> (word_of_nat m :: u64) < word_of_nat n \<longleftrightarrow> m < n"
  by (simp add: word_less_nat_alt)

lemma Suc_word: "(word_of_nat k :: u64) + 1 = word_of_nat (Suc k)"
  by (simp add: add.commute)

text \<open>A write by the producer and a clearing by the consumer leave the other live slots alone.\<close>

lemma slot_other:
  assumes "a \<noteq> b" "a < b + 2 ^ j" "b < a + (2 :: nat) ^ j"
  shows "a mod 2 ^ j \<noteq> b mod 2 ^ j"
  using nat_mod_inj [of a b "2 ^ j"] nat_mod_inj [of b a "2 ^ j"] assms by (metis linorder_neqE_nat)

lemma writeSlot_at:
  assumes "ringOf j q" and "k < 2 ^ 64"
  shows "lqBuffer (writeSlot (word_of_nat k) v q) = (lqBuffer q)[k mod 2 ^ j := v]"
  using qslot_mod [OF assms] by (simp add: writeSlot_def)

lemma live_ring: "ringOf j q \<Longrightarrow> k mod 2 ^ j < length (lqBuffer q)"
  by (simp add: ringOf_def)

lemma p_write_inv:
  assumes "spsc_inv j Us Os c" and "length Us < 2 ^ 64" and "scProd c = PHead x t"
  shows "spsc_inv j Us Os (c\<lparr>scProd := PWritten x t, scQueue := writeSlot t (Some x) (scQueue c)\<rparr>)"
proof -
  note i = assms(1) [unfolded spsc_inv_def]
  have t: "t = word_of_nat (length Us)" "length Us < length Os + 2 ^ j" using i assms(3) by (auto simp: prodOK_def)
  have b: "lqBuffer (writeSlot t (Some x) (scQueue c)) = (lqBuffer (scQueue c))[length Us mod 2 ^ j := Some x]"
    using writeSlot_at i assms(2) t(1) by blast
  have keep: "(lqBuffer (scQueue c))[length Us mod 2 ^ j := Some x] ! (k mod 2 ^ j) = lqBuffer (scQueue c) ! (k mod 2 ^ j)"
    if "length Os \<le> k" "k < length Us" for k
    using slot_other [of "length Us" k j] that t(2) by (simp add: nth_list_update_neq)
  have "(lqBuffer (scQueue c))[length Us mod 2 ^ j := Some x] ! (length Us mod 2 ^ j) = Some x"
    using live_ring i by (metis nth_list_update_eq)
  then show ?thesis
    using i t keep b unfolding spsc_inv_def by (auto simp: prodOK_def)
qed

lemma c_clear_inv:
  assumes "spsc_inv j Us Os c" and "length Us < 2 ^ 64" and "scCons c = CItem x h"
  shows "spsc_inv j Us Os (c\<lparr>scCons := CCleared x h, scQueue := writeSlot h None (scQueue c)\<rparr>)"
proof -
  note i = assms(1) [unfolded spsc_inv_def]
  have h: "h = word_of_nat (length Os)" "length Os < length Us" using i assms(3) by (auto simp: consOK_def)
  have b: "lqBuffer (writeSlot h None (scQueue c)) = (lqBuffer (scQueue c))[length Os mod 2 ^ j := None]"
    using writeSlot_at [of j "scQueue c" "length Os"] i assms(2) h by auto
  have keep: "(lqBuffer (scQueue c))[length Os mod 2 ^ j := None] ! (k mod 2 ^ j) = lqBuffer (scQueue c) ! (k mod 2 ^ j)"
    if "length Os < k" "k < length Os + 2 ^ j" for k
    using slot_other [of "length Os" k j] that by (simp add: nth_list_update_neq)
  have "prodOK j Us Os (writeSlot h None (scQueue c)) (scProd c)"
    using i h keep [of "length Us"] b by (auto simp: prodOK_def split: producer.splits)
  then show ?thesis
    using i h keep b assms(3) unfolding spsc_inv_def by (auto simp: consOK_def clearing_def)
qed

lemma spsc_inv_step:
  "spsc sz Us Os c \<Longrightarrow> ringOf j (NewLockFreeQueue sz :: 'p lfqueue) \<Longrightarrow> length Us < 2 ^ 64 \<Longrightarrow> spsc_inv j Us Os (c :: 'p spsc_conf)"
proof (induction rule: spsc.induct)
  case init
  then show ?case
    by (simp add: spsc_inv_def prodOK_def consOK_def) (simp add: NewLockFreeQueue_def Let_def)
next
  case (p_head Us Os c x t)
  then show ?case using qfull_iff [of j "scQueue c" "length Os" "length Us"]
    by (auto simp: spsc_inv_def prodOK_def dest: prefix_length_le)
next
  case (p_write Us Os c x t)
  then show ?case by (intro p_write_inv) auto
next
  case (p_store Us Os c x t)
  then have i: "spsc_inv j Us Os c" by simp
  have pf: "prefix Os (Us @ [x])" using i by (simp add: spsc_inv_def)
  have "(Us @ [x]) ! k = (if k < length Us then Us ! k else x)" if "k < Suc (length Us)" for k
    using that by (auto simp: nth_append less_Suc_eq)
  then show ?case using i p_store(2) pf
    by (auto simp: spsc_inv_def prodOK_def consOK_def ringOf_def Suc_word nth_append less_Suc_eq split: consumer.splits)
next
  case (c_tail Us Os c h)
  then show ?case using word_le_nat [of "length Us" "length Os"] prefix_length_le [of Os Us]
    by (auto simp: spsc_inv_def consOK_def clearing_def)
next
  case (c_item Us Os c h x)
  then have i: "spsc_inv j Us Os c" by simp
  then have "h = word_of_nat (length Os)" "length Os < length Us" using c_item(2) by (auto simp: spsc_inv_def consOK_def)
  moreover have "lqBuffer (scQueue c) ! (length Os mod 2 ^ j) = Some (Us ! length Os)"
    using i calculation c_item(2) by (auto simp: spsc_inv_def clearing_def)
  ultimately show ?case
    using i c_item(2,3,6) qslot_mod [of j "scQueue c" "length Os"] by (auto simp: spsc_inv_def consOK_def clearing_def)
next
  case (c_clear Us Os c x h)
  then show ?case by (intro c_clear_inv) auto
next
  case (c_store Us Os c x h)
  then have i: "spsc_inv j Us Os c" by simp
  then have "h = word_of_nat (length Os)" "length Os < length Us" "x = Us ! length Os"
    using c_store(2) by (auto simp: spsc_inv_def consOK_def)
  with i c_store(2) prefix_nth_eq [of Os Us] show ?case
    by (auto simp: spsc_inv_def consOK_def prodOK_def clearing_def ringOf_def Suc_word split: producer.splits)
qed (auto simp: spsc_inv_def prodOK_def consOK_def clearing_def)

lemma sint_small: "n \<le> 65536 \<Longrightarrow> sint (word_of_nat n :: u64) = int n"
  by (simp add: signed_of_nat signed_take_bit_int_eq_self)

lemma ring_cap: "ringOf j q \<Longrightarrow> LFCap q = 2 ^ j \<and> (2 :: nat) ^ j \<le> 65536"
  using power_increasing [of j 16 "2 :: nat"] by (simp add: ringOf_def LFCap_def)

section \<open>Properties\<close>

text \<open>
  C35. The lock-free ring is a bounded queue under every interleaving of one producer and one consumer, for
  fewer than \<open>2 ^ 64\<close> items: the items popped are a prefix of the items pushed, in order, so none is lost,
  repeated or overwritten; at most the capacity is queued and \<open>Len\<close> reports how many; and between two
  operations a pop returns the oldest item if there is one and a push succeeds exactly while there is room.
\<close>

theorem spsc_is_fifo:
  assumes "spsc sz Us Os c" and "length Us < 2 ^ 64"
  shows "prefix Os Us \<and> length Us \<le> length Os + LFCap (scQueue c) \<and> LFLen (scQueue c) = int (length Us - length Os)
    \<and> (scProd c = PIdle \<and> scCons c = CIdle \<longrightarrow>
        fst (TryPop (scQueue c)) = (if length Os < length Us then (Some (Us ! length Os), True) else (None, False))
      \<and> fst (TryPush v (scQueue c)) = (length Us < length Os + LFCap (scQueue c)))"
proof -
  let ?q = "scQueue c"
  obtain j where "ringOf j (NewLockFreeQueue sz :: 'a lfqueue)" using NewLockFreeQueue_ring by blast
  note i = spsc_inv_step [OF assms(1) this assms(2), unfolded spsc_inv_def]
  have r: "ringOf j ?q" and len: "length Os \<le> length Us" using i prefix_length_le by blast+
  note cap = ring_cap [OF r]
  have diff: "lqTail ?q - lqHead ?q = word_of_nat (length Us - length Os)" using i len by (simp add: of_nat_diff)
  have "length Us \<le> length Os + 2 ^ j" using i by blast
  then have "length Us - length Os \<le> 65536" using cap by linarith
  then have "LFLen ?q = int (length Us - length Os)" unfolding LFLen_def diff by (rule sint_small)
  moreover have "fst (TryPop ?q) = (if length Os < length Us then (Some (Us ! length Os), True) else (None, False))"
    if "scCons c = CIdle"
  proof -
    have "lqHead ?q \<ge> lqTail ?q \<longleftrightarrow> \<not> length Os < length Us"
      using i word_le_nat [of "length Us" "length Os"] assms(2) len by auto
    moreover have "lqBuffer ?q ! qslot ?q (lqHead ?q) = Some (Us ! length Os)" if "length Os < length Us"
      using i \<open>scCons c = CIdle\<close> that qslot_mod [OF r, of "length Os"] assms(2) by (auto simp: clearing_def)
    ultimately show ?thesis by (auto simp: TryPop_def Let_def)
  qed
  moreover have "fst (TryPush v ?q) = (length Us < length Os + LFCap ?q)"
    using i qfull_iff [OF r len assms(2)] cap by (auto simp: TryPush_def Let_def)
  ultimately show ?thesis using i cap by simp
qed

theorem spsc_is_fifo_witness:
  "\<exists>c. spsc 1 [7 :: nat] [] c \<and> fst (TryPop (scQueue c)) = (Some 7, True) \<and> \<not> fst (TryPush (Some 8) (scQueue c))"
proof -
  let ?q = "NewLockFreeQueue 1 :: nat lfqueue"
  have q: "lqTail ?q = 0" "lqHead ?q = 0" "length (lqBuffer ?q) = 1"
    by (simp_all add: NewLockFreeQueue_def Let_def pow2From.simps)
  have "spsc 1 [] [] \<lparr>scQueue = ?q, scProd = PTail 7 0, scCons = CIdle\<rparr>"
    using spsc.p_tail [OF spsc.init, of 1 "7 :: nat"] q by simp
  from spsc.p_head [OF this] have "spsc 1 [] [] \<lparr>scQueue = ?q, scProd = PHead 7 0, scCons = CIdle\<rparr>"
    using q by (simp add: qfull_def)
  from spsc.p_write [OF this] have "spsc 1 [] [] \<lparr>scQueue = writeSlot 0 (Some 7) ?q, scProd = PWritten 7 0, scCons = CIdle\<rparr>" by simp
  from spsc.p_store [OF this] have s: "spsc 1 [7] [] \<lparr>scQueue = (writeSlot 0 (Some 7) ?q)\<lparr>lqTail := 1\<rparr>, scProd = PIdle, scCons = CIdle\<rparr>"
    by simp
  from spsc_is_fifo [OF this, of "Some 8"] s q show ?thesis by (auto simp: LFCap_def writeSlot_def)
qed

text \<open>A pushed \<^verbatim>\<open>nil\<close> is never popped: it stays at the head and hides everything behind it.\<close>

lemma nil_jams_queue:
  assumes "lqHead q = lqTail q" and "fst (TryPush None q)" and "lqTail q < lqTail q + 1" and "qslot q (lqTail q) < length (lqBuffer q)"
  shows "TryPop (snd (TryPush None q)) = ((None, False), snd (TryPush None q))"
  using assms by (simp add: TryPush_def TryPop_def Let_def writeSlot_def qslot_def split: if_splits)

end
