(* ===== verification/ControlPlane.thy ===== *)
theory ControlPlane
  imports Interfaces "HOL-Library.Char_ord" "HOL-Library.List_Lexorder"
begin

text \<open>
  High availability of the control plane (\<^verbatim>\<open>pkg/controlplaneha/coordinator.go\<close>): nodes share a state, each tick
  enters the node into it, elects a leader among the nodes seen lately, and reports the node's role.

  The shared state lives in a file or a database. Reading, writing and the database transaction are
  arguments on a world \<^typ>\<open>'w\<close>; an error is its text. Strings are ordered byte by byte, as in Go. The order of
  \<^verbatim>\<open>sort.Slice\<close> on equal identifiers is open, but the election only returns an identifier.
\<close>

section \<open>Model\<close>

abbreviation DefaultHeartbeatInterval :: duration where "DefaultHeartbeatInterval \<equiv> 10 * second"
abbreviation DefaultElectionTimeout :: duration where "DefaultElectionTimeout \<equiv> 45 * second"

record ha_config =
  hcMode :: string
  hcNodeID :: string
  hcConfiguredRole :: string
  hcConfiguredLeader :: string
  hcPeers :: "string list"
  hcStateBackend :: string
  hcAddress :: string
  hcVersion :: string
  hcHeartbeatInterval :: duration
  hcElectionTimeout :: duration

record ha_status =
  hsUpdatedAt :: time
  hsMode :: string
  hsNodeID :: string
  hsRole :: string
  hsLeaderID :: string
  hsHealthy :: bool
  hsPeerCount :: nat
  hsPeers :: "string list"
  hsStateBackend :: string
  hsLastCheckpoint :: time
  hsFailoverReady :: bool
  hsMessage :: string

record coordinator =
  coCfg :: ha_config
  coStatus :: ha_status

record persisted_node =
  pnNodeID :: string
  pnRole :: string
  pnAddress :: string
  pnHealthy :: bool
  pnLastSeen :: time
  pnVersion :: string

record persisted_state =
  psVersion :: int
  psUpdatedAt :: time
  psLeaderID :: string
  psNodes :: "(string \<times> persisted_node) list"

definition normalizeMode :: "string \<Rightarrow> string" where
  "normalizeMode mode = (let m = toLower (trimSpace mode) in
     if m = ''active-passive'' \<or> m = ''external'' then m else ''standalone'')"

definition normalizeRole :: "string \<Rightarrow> string" where
  "normalizeRole role = (let r = toLower (trimSpace role) in
     if r = ''leader'' \<or> r = ''follower'' \<or> r = ''observer'' then r else ''leader'')"

fun dedupeFrom :: "string set \<Rightarrow> string list \<Rightarrow> string list" where
  "dedupeFrom seen [] = []"
| "dedupeFrom seen (v # vs) = (let t = trimSpace v in
     if t = [] then dedupeFrom seen vs
     else if t \<in> seen then dedupeFrom seen vs
     else t # dedupeFrom (insert t seen) vs)"

definition dedupe :: "string list \<Rightarrow> string list" where
  "dedupe vs = dedupeFrom {} vs"

fun firstNonEmpty :: "string list \<Rightarrow> string" where
  "firstNonEmpty [] = []"
| "firstNonEmpty (v # vs) = (if trimSpace v \<noteq> [] then trimSpace v else firstNonEmpty vs)"

definition haNodeID :: "ha_config \<Rightarrow> string" where
  "haNodeID c = (if hcNodeID c \<noteq> [] then hcNodeID c else ''control-plane'')"

definition standaloneStatus :: "time \<Rightarrow> bool \<Rightarrow> ha_config \<Rightarrow> ha_status" where
  "standaloneStatus now healthy c =
     (let nodeID = haNodeID c;
          role = (if hcConfiguredRole c = [] \<or> hcConfiguredRole c = ''observer'' then ''leader'' else hcConfiguredRole c);
          leaderID = (if hcConfiguredLeader c = [] \<and> role = ''leader'' then nodeID else hcConfiguredLeader c)
      in \<lparr>hsUpdatedAt = now, hsMode = hcMode c, hsNodeID = nodeID, hsRole = role, hsLeaderID = leaderID,
          hsHealthy = healthy, hsPeerCount = length (hcPeers c), hsPeers = hcPeers c,
          hsStateBackend = hcStateBackend c, hsLastCheckpoint = zeroTime, hsFailoverReady = False,
          hsMessage = ''single-node control plane''\<rparr>)"

definition degradedStatus :: "time \<Rightarrow> bool \<Rightarrow> string \<Rightarrow> ha_config \<Rightarrow> ha_status" where
  "degradedStatus now healthy err c =
     (let s = standaloneStatus now healthy c;
          s = s\<lparr>hsMode := hcMode c, hsRole := ''follower''\<rparr>;
          s = (if hcConfiguredRole c = ''leader'' then s\<lparr>hsRole := ''leader''\<rparr> else s)
      in s\<lparr>hsLeaderID := firstNonEmpty [hcConfiguredLeader c, hsLeaderID s], hsFailoverReady := False,
           hsMessage := ''control plane '' @ hcMode c @ '' degraded: '' @ err\<rparr>)"

definition NewCoordinator :: "time \<Rightarrow> bool \<Rightarrow> ha_config \<Rightarrow> coordinator" where
  "NewCoordinator now healthy cfg0 =
     (let cfg = cfg0\<lparr>hcMode := normalizeMode (hcMode cfg0), hcConfiguredRole := normalizeRole (hcConfiguredRole cfg0),
            hcNodeID := trimSpace (hcNodeID cfg0), hcConfiguredLeader := trimSpace (hcConfiguredLeader cfg0),
            hcStateBackend := trimSpace (hcStateBackend cfg0), hcPeers := dedupe (hcPeers cfg0)\<rparr>;
          cfg = (if hcHeartbeatInterval cfg \<le> 0 then cfg\<lparr>hcHeartbeatInterval := DefaultHeartbeatInterval\<rparr> else cfg);
          cfg = (if hcElectionTimeout cfg \<le> 0 then cfg\<lparr>hcElectionTimeout := DefaultElectionTimeout\<rparr> else cfg)
      in \<lparr>coCfg = cfg, coStatus = standaloneStatus now healthy cfg\<rparr>)"

definition activeNodes :: "(string \<times> persisted_node) list \<Rightarrow> time \<Rightarrow> duration \<Rightarrow> persisted_node list" where
  "activeNodes nodes now timeout =
     filter (\<lambda>n. \<not> (pnNodeID n = [] \<or> timeSub now (pnLastSeen n) > timeout)) (map snd nodes)"

definition electLeader :: "ha_config \<Rightarrow> persisted_node list \<Rightarrow> string" where
  "electLeader c nodes =
     (if hcConfiguredLeader c \<noteq> [] \<and> (\<exists>n \<in> set nodes. pnNodeID n = hcConfiguredLeader c \<and> pnHealthy n)
      then hcConfiguredLeader c
      else case find pnHealthy (sort_key pnNodeID nodes) of Some n \<Rightarrow> pnNodeID n | None \<Rightarrow> [])"

definition reconcileState :: "ha_config \<Rightarrow> persisted_state \<Rightarrow> time \<Rightarrow> bool \<Rightarrow> persisted_state \<times> ha_status" where
  "reconcileState c state now healthy =
     (let nodeID = haNodeID c;
          self = \<lparr>pnNodeID = nodeID, pnRole = hcConfiguredRole c, pnAddress = trimSpace (hcAddress c),
                  pnHealthy = healthy, pnLastSeen = now, pnVersion = trimSpace (hcVersion c)\<rparr>;
          nodes = AList.update nodeID self (psNodes state);
          active = activeNodes nodes now (hcElectionTimeout c);
          leader0 = electLeader c active;
          leaderID = (if leader0 = [] then nodeID else leader0);
          nodes' = filter (\<lambda>(i, n). \<not> timeSub now (pnLastSeen n) > wrap64 (hcElectionTimeout c * 3)) nodes;
          role = (if nodeID = leaderID then ''leader'' else ''follower'');
          failoverReady = (hcMode c = ''active-passive'' \<and> healthy \<and> 1 < length active)
      in (state\<lparr>psVersion := 1, psUpdatedAt := now, psLeaderID := leaderID, psNodes := nodes'\<rparr>,
          \<lparr>hsUpdatedAt = now, hsMode = hcMode c, hsNodeID = nodeID, hsRole = role, hsLeaderID = leaderID,
           hsHealthy = healthy, hsPeerCount = length (hcPeers c), hsPeers = hcPeers c,
           hsStateBackend = hcStateBackend c, hsLastCheckpoint = now, hsFailoverReady = failoverReady,
           hsMessage = ''control plane '' @ hcMode c @ ''; role='' @ role @ '' leader='' @ leaderID
             @ '' active_nodes='' @ showNat (length active) @ '' failover_ready='' @ (if failoverReady then ''true'' else ''false'')\<rparr>))"

definition isPostgresBackend :: "string \<Rightarrow> bool" where
  "isPostgresBackend v = (let t = toLower (trimSpace v) in hasPrefix t ''postgres://'' \<or> hasPrefix t ''postgresql://'')"

record 'w ha_io =
  ioRead :: "string \<Rightarrow> 'w \<Rightarrow> string + persisted_state"
  ioWrite :: "string \<Rightarrow> persisted_state \<Rightarrow> 'w \<Rightarrow> string option \<times> 'w"
  ioTransact :: "string \<Rightarrow> (persisted_state \<Rightarrow> persisted_state \<times> ha_status) \<Rightarrow> 'w \<Rightarrow> (string + persisted_state \<times> ha_status) \<times> 'w"

definition reconcilePostgres :: "'w ha_io \<Rightarrow> ha_config \<Rightarrow> time \<Rightarrow> bool \<Rightarrow> 'w \<Rightarrow> (string + ha_status) \<times> 'w" where
  "reconcilePostgres io c now healthy w =
     (case ioTransact io (hcStateBackend c) (\<lambda>st. reconcileState c st now healthy) w of
        (Inl err, w') \<Rightarrow> (Inl err, w')
      | (Inr (state, status), w') \<Rightarrow> (Inr (status\<lparr>hsLastCheckpoint := psUpdatedAt state\<rparr>), w'))"

definition reconcile :: "'w ha_io \<Rightarrow> ha_config \<Rightarrow> time \<Rightarrow> bool \<Rightarrow> 'w \<Rightarrow> (string + ha_status) \<times> 'w" where
  "reconcile io c now healthy w =
     (if hcMode c = ''standalone'' \<or> hcMode c = ''external'' then (Inr (standaloneStatus now healthy c), w)
      else if hcStateBackend c = [] \<or> equalFold (hcStateBackend c) ''local''
        then (Inr (degradedStatus now healthy ''shared state backend is not configured'' c), w)
      else if containsStr (hcStateBackend c) ''://'' then
        (if isPostgresBackend (hcStateBackend c) then reconcilePostgres io c now healthy w
         else (Inr (degradedStatus now healthy (''unsupported shared state backend '' @ goQuote (hcStateBackend c)) c), w))
      else case ioRead io (hcStateBackend c) w of
        Inl err \<Rightarrow> (Inl err, w)
      | Inr state \<Rightarrow>
          (let (state', status) = reconcileState c state now healthy in
           case ioWrite io (hcStateBackend c) state' w of
             (Some err, w') \<Rightarrow> (Inl err, w')
           | (None, w') \<Rightarrow> (Inr status, w')))"

definition Tick :: "'w ha_io \<Rightarrow> time \<Rightarrow> bool \<Rightarrow> coordinator \<Rightarrow> 'w \<Rightarrow> string option \<times> coordinator \<times> 'w" where
  "Tick io now healthy co w =
     (case reconcile io (coCfg co) now healthy w of
        (Inr status, w') \<Rightarrow> (None, co\<lparr>coStatus := status\<rparr>, w')
      | (Inl err, w') \<Rightarrow> (Some err, co\<lparr>coStatus := degradedStatus now healthy err (coCfg co)\<rparr>, w'))"

section \<open>The election\<close>

definition healthyIDs :: "persisted_node list \<Rightarrow> string set" where
  "healthyIDs ns = pnNodeID ` {n \<in> set ns. pnHealthy n}"

lemma find_sorted_Min:
  assumes "sorted (map f xs)" "\<exists>x \<in> set xs. P x"
  shows "\<exists>x. find P xs = Some x \<and> f x = Min (f ` {x \<in> set xs. P x})"
  using assms
proof (induction xs)
  case (Cons a xs)
  show ?case
  proof (cases "P a")
    case True
    have "Min (f ` {x \<in> set (a # xs). P x}) = f a"
      by (rule Min_eqI) (use Cons.prems True in auto)
    with True show ?thesis by simp
  next
    case False
    then have "{x \<in> set (a # xs). P x} = {x \<in> set xs. P x}" by auto
    with Cons False show ?thesis by auto
  qed
qed simp

lemma electLeader_eq:
  "electLeader c ns =
     (if hcConfiguredLeader c \<noteq> [] \<and> hcConfiguredLeader c \<in> healthyIDs ns then hcConfiguredLeader c
      else if healthyIDs ns = {} then [] else Min (healthyIDs ns))"
proof -
  let ?ss = "sort_key pnNodeID ns"
  have some: "\<exists>x. find pnHealthy ?ss = Some x \<and> pnNodeID x = Min (healthyIDs ns)" if "healthyIDs ns \<noteq> {}"
    using find_sorted_Min [of pnNodeID ?ss pnHealthy] that by (auto simp: healthyIDs_def)
  have none: "find pnHealthy ?ss = None" if "healthyIDs ns = {}"
    using that by (auto simp: healthyIDs_def find_None_iff)
  have conf: "(\<exists>n \<in> set ns. pnNodeID n = hcConfiguredLeader c \<and> pnHealthy n) \<longleftrightarrow> hcConfiguredLeader c \<in> healthyIDs ns"
    unfolding healthyIDs_def by (auto intro: rev_image_eqI)
  show ?thesis
  proof (cases "healthyIDs ns = {}")
    case True
    then show ?thesis by (simp add: electLeader_def conf none)
  next
    case False
    then obtain x where "find pnHealthy ?ss = Some x" "pnNodeID x = Min (healthyIDs ns)"
      using some by blast
    with False show ?thesis by (simp add: electLeader_def conf)
  qed
qed

text \<open>Two nodes that see the same healthy identifiers elect the same leader, whatever the order of the map.\<close>

lemma electLeader_agree:
  "healthyIDs ns = healthyIDs ns' \<Longrightarrow> hcConfiguredLeader c = hcConfiguredLeader c' \<Longrightarrow> electLeader c ns = electLeader c' ns'"
  by (simp add: electLeader_eq)

section \<open>A cluster of ticks\<close>

text \<open>
  A tick of the cluster is the configuration of the node that reconciles, its clock and its health. The
  database transaction holds an advisory lock, so ticks on the shared state follow one another.
\<close>

type_synonym ha_tick = "ha_config \<times> time \<times> bool"

fun runTicks :: "ha_tick list \<Rightarrow> persisted_state \<Rightarrow> ha_status list \<times> persisted_state" where
  "runTicks [] st = ([], st)"
| "runTicks ((c, now, h) # ts) st =
     (let (st', s) = reconcileState c st now h; (ss, st'') = runTicks ts st' in (s # ss, st''))"

definition tickID :: "ha_tick \<Rightarrow> string" where
  "tickID t = haNodeID (fst t)"

definition tickOk :: "time \<Rightarrow> duration \<Rightarrow> string \<Rightarrow> (string \<Rightarrow> bool) \<Rightarrow> ha_tick \<Rightarrow> bool" where
  "tickOk t0 to L H t = (case t of (c, now, h) \<Rightarrow>
     hcElectionTimeout c = to \<and> hcConfiguredLeader c = L \<and> h = H (haNodeID c) \<and> t0 \<le> now \<and> now \<le> t0 + to)"

definition fresh :: "time \<Rightarrow> duration \<Rightarrow> (string \<Rightarrow> bool) \<Rightarrow> string set \<Rightarrow> string \<times> persisted_node \<Rightarrow> bool" where
  "fresh t0 to H S kn = (case kn of (k, n) \<Rightarrow>
     k \<in> S \<and> k \<noteq> [] \<and> pnNodeID n = k \<and> pnHealthy n = H k \<and> t0 \<le> pnLastSeen n \<and> pnLastSeen n \<le> t0 + to)"

definition seen :: "time \<Rightarrow> duration \<Rightarrow> (string \<Rightarrow> bool) \<Rightarrow> string set \<Rightarrow> persisted_state \<Rightarrow> bool" where
  "seen t0 to H S st =
     ((\<forall>kn \<in> set (psNodes st). fresh t0 to H S kn \<or> pnLastSeen (snd kn) < t0 - to) \<and>
      (\<forall>k \<in> S. \<exists>n. (k, n) \<in> set (psNodes st) \<and> fresh t0 to H S (k, n)))"

definition chosen :: "string \<Rightarrow> (string \<Rightarrow> bool) \<Rightarrow> string set \<Rightarrow> string" where
  "chosen L H S = (if L \<noteq> [] \<and> L \<in> S \<and> H L then L else Min {i \<in> S. H i})"

lemma haNodeID_ne [simp]: "haNodeID c \<noteq> []"
  by (simp add: haNodeID_def)

lemma set_alist_update: "set (AList.update k v al) \<subseteq> insert (k, v) (set al)"
  by (induction al) auto

lemma alist_update_keeps: "x \<in> set al \<Longrightarrow> fst x \<noteq> k \<Longrightarrow> x \<in> set (AList.update k v al)"
  by (induction al) auto

lemma alist_update_has: "(k, v) \<in> set (AList.update k v al)"
  by (induction al) auto

lemma seen_update:
  assumes "seen t0 to H S st" "fresh t0 to H (insert k S) (k, n)"
  shows "seen t0 to H (insert k S) (st\<lparr>psNodes := AList.update k n (psNodes st)\<rparr>)"
proof -
  have mono: "fresh t0 to H (insert k S) kn" if "fresh t0 to H S kn" for kn
    using that by (auto simp: fresh_def)
  have "\<exists>m. (j, m) \<in> set (AList.update k n (psNodes st)) \<and> fresh t0 to H (insert k S) (j, m)"
    if "j \<in> insert k S" for j
  proof (cases "j = k")
    case False
    with that assms(1) obtain m where "(j, m) \<in> set (psNodes st)" "fresh t0 to H S (j, m)"
      by (auto simp: seen_def)
    with False mono alist_update_keeps [of "(j, m)" "psNodes st" k n] show ?thesis by auto
  next
    case True
    with assms(2) alist_update_has [of k n "psNodes st"] show ?thesis by blast
  qed
  with assms mono set_alist_update [of k n "psNodes st"] show ?thesis
    unfolding seen_def by fastforce
qed

lemma seen_ids:
  assumes "seen t0 to H S st"
  shows "finite S" "[] \<notin> S"
proof -
  have "S \<subseteq> fst ` set (psNodes st)"
    using assms by (force simp: seen_def)
  then show "finite S" by (rule finite_subset) simp
  show "[] \<notin> S"
    using assms by (auto simp: seen_def fresh_def)
qed

lemma chosen_in: "finite S \<Longrightarrow> {i \<in> S. H i} \<noteq> {} \<Longrightarrow> chosen L H S \<in> {i \<in> S. H i}"
  using Min_in [of "{i \<in> S. H i}"] by (auto simp: chosen_def)

lemma seen_healthy:
  assumes "seen t0 to H S st" "0 \<le> to" "to < 2 ^ 63 - 1" "t0 \<le> now" "now \<le> t0 + to"
  shows "healthyIDs (activeNodes (psNodes st) now to) = {i \<in> S. H i}"
proof -
  have act: "n \<in> set (activeNodes (psNodes st) now to) \<longleftrightarrow> (\<exists>k. (k, n) \<in> set (psNodes st) \<and> fresh t0 to H S (k, n))" for n
  proof -
    have "timeSub now (pnLastSeen n) \<le> to" if "fresh t0 to H S (k, n)" for k
      using that assms by (auto simp: fresh_def intro!: timeSub_le)
    moreover have "to < timeSub now (pnLastSeen n)" if "pnLastSeen n < t0 - to"
      using that assms by (auto simp: timeSub_def)
    moreover have "fresh t0 to H S (k, n) \<or> pnLastSeen n < t0 - to" if "(k, n) \<in> set (psNodes st)" for k
      using that assms(1) by (force simp: seen_def)
    moreover have "pnNodeID n \<noteq> []" if "fresh t0 to H S (k, n)" for k
      using that by (auto simp: fresh_def)
    ultimately show ?thesis
      by (auto simp: activeNodes_def image_iff not_less)
         (meson not_less, metis snd_conv)
  qed
  have "i \<in> healthyIDs (activeNodes (psNodes st) now to) \<longleftrightarrow> i \<in> S \<and> H i" for i
  proof
    assume "i \<in> healthyIDs (activeNodes (psNodes st) now to)"
    then show "i \<in> S \<and> H i" by (auto simp: healthyIDs_def act fresh_def)
  next
    assume i: "i \<in> S \<and> H i"
    then obtain n where "(i, n) \<in> set (psNodes st)" "fresh t0 to H S (i, n)"
      using assms(1) by (auto simp: seen_def)
    with i show "i \<in> healthyIDs (activeNodes (psNodes st) now to)"
      unfolding healthyIDs_def by (intro rev_image_eqI [of n]) (auto simp: act fresh_def)
  qed
  then show ?thesis by auto
qed

text \<open>The clearing of nodes that were not seen for three timeouts keeps the fresh ones.\<close>

lemma seen_cleared:
  assumes "seen t0 to H S st" "0 \<le> to" "to * 3 < 2 ^ 63" "now \<le> t0 + to"
    and "psNodes st' = filter (\<lambda>(i, n). \<not> timeSub now (pnLastSeen n) > wrap64 (to * 3)) (psNodes st)"
  shows "seen t0 to H S st'"
proof -
  have "timeSub now (pnLastSeen n) \<le> to * 3" if "fresh t0 to H S (k, n)" for k n
    using that assms by (auto simp: fresh_def intro!: timeSub_le)
  with assms show ?thesis by (fastforce simp: seen_def)
qed

lemma reconcileState_tick:
  assumes "seen t0 to H S st" "tickOk t0 to L H (c, now, h)" "0 \<le> to" "to * 3 < 2 ^ 63"
    and "reconcileState c st now h = (st', s)"
  shows "seen t0 to H (insert (haNodeID c) S) st'"
    and "hsNodeID s = haNodeID c"
    and "{i \<in> insert (haNodeID c) S. H i} \<noteq> {} \<Longrightarrow> hsLeaderID s = chosen L H (insert (haNodeID c) S)"
    and "hsRole s = (if hsNodeID s = hsLeaderID s then ''leader'' else ''follower'')"
proof -
  let ?S = "insert (haNodeID c) S"
  let ?self = "\<lparr>pnNodeID = haNodeID c, pnRole = hcConfiguredRole c, pnAddress = trimSpace (hcAddress c),
                pnHealthy = h, pnLastSeen = now, pnVersion = trimSpace (hcVersion c)\<rparr>"
  let ?st = "st\<lparr>psNodes := AList.update (haNodeID c) ?self (psNodes st)\<rparr>"
  let ?e = "electLeader c (activeNodes (psNodes ?st) now to)"
  have tick: "hcElectionTimeout c = to" "hcConfiguredLeader c = L" "h = H (haNodeID c)" "t0 \<le> now" "now \<le> t0 + to"
    using assms(2) by (auto simp: tickOk_def)
  have up: "seen t0 to H ?S ?st"
    using assms(1) tick by (intro seen_update) (auto simp: fresh_def)
  then have "healthyIDs (activeNodes (psNodes ?st) now to) = {i \<in> ?S. H i}"
    by (rule seen_healthy) (use assms tick in auto)
  then have e: "?e = (if {i \<in> ?S. H i} = {} then [] else chosen L H ?S)"
    by (auto simp: electLeader_eq chosen_def tick)
  have ne: "chosen L H ?S \<noteq> []" if "{i \<in> ?S. H i} \<noteq> {}"
    using that seen_ids [OF up] chosen_in [of ?S H L] by (metis (no_types, lifting) mem_Collect_eq)
  show "seen t0 to H ?S st'"
    by (rule seen_cleared [OF up]) (use assms tick in \<open>auto simp: reconcileState_def Let_def\<close>)
  show "hsNodeID s = haNodeID c" "hsRole s = (if hsNodeID s = hsLeaderID s then ''leader'' else ''follower'')"
    using assms(5) by (auto simp: reconcileState_def Let_def)
  show "hsLeaderID s = chosen L H ?S" if "{i \<in> ?S. H i} \<noteq> {}"
    using assms(5) that e ne by (auto simp: reconcileState_def Let_def tick)
qed

lemma runTicks_seen:
  assumes "seen t0 to H S st" "\<forall>t \<in> set ts. tickOk t0 to L H t" "0 \<le> to" "to * 3 < 2 ^ 63"
  shows "seen t0 to H (S \<union> tickID ` set ts) (snd (runTicks ts st))"
  using assms(1,2)
proof (induction ts arbitrary: st S)
  case (Cons t ts)
  obtain c now h where t: "t = (c, now, h)" by (cases t)
  obtain st' s where r: "reconcileState c st now h = (st', s)" by (cases "reconcileState c st now h")
  have "seen t0 to H (insert (haNodeID c) S) st'"
    using reconcileState_tick(1) [OF Cons.prems(1) _ assms(3,4) r] Cons.prems(2) t by auto
  from Cons.IH [OF this] Cons.prems(2) show ?case
    by (auto simp: t r tickID_def split: prod.splits)
qed simp

lemma runTicks_agree:
  assumes "seen t0 to H S st" "\<forall>t \<in> set ts. tickOk t0 to L H t \<and> tickID t \<in> S" "0 \<le> to" "to * 3 < 2 ^ 63"
    and "{i \<in> S. H i} \<noteq> {}" "s \<in> set (fst (runTicks ts st))"
  shows "hsLeaderID s = chosen L H S \<and> hsRole s = (if hsNodeID s = chosen L H S then ''leader'' else ''follower'')
       \<and> hsNodeID s \<in> S"
  using assms(1,2,6)
proof (induction ts arbitrary: st)
  case (Cons t ts)
  obtain c now h where t: "t = (c, now, h)" by (cases t)
  obtain st' s' where r: "reconcileState c st now h = (st', s')" by (cases "reconcileState c st now h")
  have S: "insert (haNodeID c) S = S" using Cons.prems(2) by (auto simp: t tickID_def)
  have ok: "tickOk t0 to L H (c, now, h)" using Cons.prems(2) by (simp add: t)
  note step = reconcileState_tick [OF Cons.prems(1) ok assms(3,4) r, unfolded S]
  have "s = s' \<or> s \<in> set (fst (runTicks ts st'))"
    using Cons.prems(3) by (auto simp: t r split: prod.splits)
  then show ?case
  proof
    assume "s = s'"
    with step assms(5) S show ?thesis by auto
  qed (use Cons.IH [OF step(1)] Cons.prems(2) in auto)
qed simp



text \<open>With no healthy node every node elects itself: the guard of the election falls back to the caller.\<close>

lemma unhealthy_all_lead:
  assumes "\<forall>kn \<in> set (psNodes st). \<not> pnHealthy (snd kn)"
  shows "hsRole (snd (reconcileState c st now False)) = ''leader''"
proof -
  have "healthyIDs (activeNodes (AList.update (haNodeID c) n (psNodes st)) now to) = {}" if "\<not> pnHealthy n" for n to
    using assms that set_alist_update [of "haNodeID c" n "psNodes st"] by (fastforce simp: healthyIDs_def activeNodes_def)
  then show ?thesis by (simp add: reconcileState_def electLeader_eq Let_def)
qed

text \<open>A role that is not configured is read as leader, so without its backend every such node reports itself as leader.\<close>

lemma degraded_unset_role_leads:
  "trimSpace (hcConfiguredRole cfg) = [] \<Longrightarrow>
     hsRole (degradedStatus t h e (coCfg (NewCoordinator now h0 cfg))) = ''leader''"
  by (simp add: degradedStatus_def NewCoordinator_def normalizeRole_def toLower_def Let_def)

section \<open>Failures of the backend\<close>

lemma reconcile_ready:
  assumes "reconcile io c now healthy w = (Inr s, w')" "hsFailoverReady s"
    and "\<forall>d f w r w'. ioTransact io d f w = (Inr r, w') \<longrightarrow> (\<exists>st. r = f st)"
  shows "healthy \<and> hcMode c = ''active-passive'' \<and> (\<exists>st. hsLeaderID s = psLeaderID (fst (reconcileState c st now healthy))
     \<and> 1 < length (activeNodes (AList.update (haNodeID c) \<lparr>pnNodeID = haNodeID c, pnRole = hcConfiguredRole c,
         pnAddress = trimSpace (hcAddress c), pnHealthy = healthy, pnLastSeen = now, pnVersion = trimSpace (hcVersion c)\<rparr>
         (psNodes st)) now (hcElectionTimeout c)))"
proof -
  have deg: "\<not> hsFailoverReady (standaloneStatus now healthy c)" "\<not> hsFailoverReady (degradedStatus now healthy e c)" for e
    by (auto simp: standaloneStatus_def degradedStatus_def Let_def)
  have "\<exists>st. let s' = snd (reconcileState c st now healthy) in hsLeaderID s = hsLeaderID s' \<and> hsFailoverReady s'"
  proof (cases "isPostgresBackend (hcStateBackend c) \<and> containsStr (hcStateBackend c) ''://''")
    case True
    with assms(1,2) deg obtain state status where
      "ioTransact io (hcStateBackend c) (\<lambda>st. reconcileState c st now healthy) w = (Inr (state, status), w')"
      "s = status\<lparr>hsLastCheckpoint := psUpdatedAt state\<rparr>"
      by (auto simp: reconcile_def reconcilePostgres_def split: if_splits sum.splits prod.splits)
    with assms(2) assms(3) [rule_format, OF this(1)] show ?thesis
      by (metis (no_types, lifting) ha_status.ext_inject ha_status.surjective ha_status.update_convs(10) snd_conv)
  next
    case False
    with assms(1,2) deg show ?thesis
      by (auto simp: reconcile_def Let_def split: if_splits sum.splits prod.splits option.splits) (metis snd_conv)
  qed
  then show ?thesis
    by (auto simp: reconcileState_def Let_def)
qed

lemma reconcile_Inl_mode:
  "reconcile io c now healthy w = (Inl e, w') \<Longrightarrow> hcMode c \<noteq> ''standalone'' \<and> hcMode c \<noteq> ''external''"
  by (auto simp: reconcile_def split: if_splits)



end
