(* ===== verification/GoTime.thy ===== *)
theory GoTime
  imports Prelude "HOL-Library.Log_Nat"
begin

text \<open>
  The parts of Go's \<^verbatim>\<open>time\<close> package that the components use besides the arithmetic of the prelude: an instant as an RFC 3339
  text in UTC, and \<^verbatim>\<open>time.ParseDuration\<close> with its errors. The fraction of a duration is a \<^verbatim>\<open>float64\<close> product,
  so rounding to the nearest 53-bit float is written out here.
\<close>

section \<open>Calendar\<close>

text \<open>The civil date of a day number (days since 1970-01-01), in the proleptic Gregorian calendar.\<close>

definition civilDate :: "int \<Rightarrow> int \<times> int \<times> int" where
  "civilDate days =
     (let z = days + 719468; era = z div 146097; doe = z mod 146097;
          yoe = (doe - doe div 1460 + doe div 36524 - doe div 146096) div 365;
          doy = doe - (365 * yoe + yoe div 4 - yoe div 100);
          mp = (5 * doy + 2) div 153;
          d = doy - (153 * mp + 2) div 5 + 1;
          mo = (if mp < 10 then mp + 3 else mp - 9);
          y = yoe + era * 400 + (if mo \<le> 2 then 1 else 0)
      in (y, mo, d))"

definition padded :: "nat \<Rightarrow> int \<Rightarrow> string" where
  "padded w n = (let s = showNat (nat \<bar>n\<bar>) in (if n < 0 then ''-'' else []) @ replicate (w - length s) (CHR ''0'') @ s)"

definition formatRFC3339 :: "time \<Rightarrow> string" where
  "formatRFC3339 t =
     (let secs = t div second; days = secs div 86400; s = secs mod 86400; (y, mo, d) = civilDate days
      in padded 4 y @ ''-'' @ padded 2 mo @ ''-'' @ padded 2 d @ ''T'' @ padded 2 (s div 3600) @ '':''
         @ padded 2 (s div 60 mod 60) @ '':'' @ padded 2 (s mod 60) @ ''Z'')"

section \<open>Rounding to a float64\<close>

text \<open>A positive float is a pair of numerator and denominator. The values here are far from the bounds of the exponent.\<close>

definition roundHalfEven :: "nat \<Rightarrow> nat \<Rightarrow> nat" where
  "roundHalfEven p q = (let d = p div q; r = p mod q in if 2 * r < q \<or> (2 * r = q \<and> even d) then d else d + 1)"

definition f64 :: "nat \<Rightarrow> nat \<Rightarrow> nat \<times> nat" where
  "f64 p q =
     (if p = 0 then (0, 1)
      else let k = 53 - (int (floorlog 2 p) - int (floorlog 2 q));
               num = (\<lambda>k. p * 2 ^ nat k); den = (\<lambda>k. q * 2 ^ nat (- k));
               k = (if den k * 2 ^ 53 \<le> num k then k - 1 else k);
               m = roundHalfEven (num k) (den k)
           in (m * 2 ^ nat (- k), 2 ^ nat k))"

definition f64mul :: "nat \<times> nat \<Rightarrow> nat \<times> nat \<Rightarrow> nat \<times> nat" where
  "f64mul a b = f64 (fst a * fst b) (snd a * snd b)"

definition f64div :: "nat \<times> nat \<Rightarrow> nat \<times> nat \<Rightarrow> nat \<times> nat" where
  "f64div a b = f64 (fst a * snd b) (snd a * fst b)"

definition f64trunc :: "nat \<times> nat \<Rightarrow> nat" where
  "f64trunc a = fst a div snd a"

section \<open>Durations\<close>

definition timeQuote :: "string \<Rightarrow> string" where
  "timeQuote s = CHR 0x22 # concat (map (\<lambda>c. let n = (of_char c :: nat) in
     if 128 \<le> n \<or> n < 32 then CHR 0x5C # ''x'' @ hex2 n
     else if n = 34 \<or> n = 92 then [CHR 0x5C, c] else [c]) s) @ [CHR 0x22]"

definition digitVal :: "char \<Rightarrow> nat" where
  "digitVal c = of_char c - 48"

text \<open>\<^verbatim>\<open>leadingInt\<close> fails on overflow; \<^verbatim>\<open>leadingFraction\<close> then drops the remaining digits.\<close>

fun leadingInt :: "nat \<Rightarrow> string \<Rightarrow> (nat \<times> string) option" where
  "leadingInt x [] = Some (x, [])"
| "leadingInt x (c # s) =
     (if \<not> isDigit c then Some (x, c # s)
      else if 2 ^ 63 div 10 < x then None
      else let x' = x * 10 + digitVal c in if 2 ^ 63 < x' then None else leadingInt x' s)"

fun leadingFraction :: "nat \<Rightarrow> nat \<Rightarrow> bool \<Rightarrow> string \<Rightarrow> nat \<times> nat \<times> string" where
  "leadingFraction x scale over [] = (x, scale, [])"
| "leadingFraction x scale over (c # s) =
     (if \<not> isDigit c then (x, scale, c # s)
      else if over \<or> (2 ^ 63 - 1) div 10 < x then leadingFraction x scale True s
      else let y = x * 10 + digitVal c in
        if 2 ^ 63 < y then leadingFraction x scale True s else leadingFraction y (scale * 10) False s)"

definition unitOf :: "string \<Rightarrow> nat option" where
  "unitOf u =
     (if u = ''ns'' then Some 1
      else if u = ''us'' \<or> u = [CHR 0xC2, CHR 0xB5, CHR ''s''] \<or> u = [CHR 0xCE, CHR 0xBC, CHR ''s''] then Some 1000
      else if u = ''ms'' then Some (10 ^ 6)
      else if u = ''s'' then Some (10 ^ 9)
      else if u = ''m'' then Some (60 * 10 ^ 9)
      else if u = ''h'' then Some (3600 * 10 ^ 9)
      else None)"

lemma leadingInt_length: "leadingInt x s = Some (v, s') \<Longrightarrow> length s' \<le> length s"
  by (induction x s rule: leadingInt.induct) (auto simp: Let_def split: if_splits)

lemma leadingFraction_length: "leadingFraction x sc ov s = (f, sc', s') \<Longrightarrow> length s' \<le> length s"
  by (induction x sc ov s rule: leadingFraction.induct) (auto simp: Let_def split: if_splits)

definition unitEnd :: "char \<Rightarrow> bool" where
  "unitEnd c = (c = CHR ''.'' \<or> isDigit c)"

definition durErr :: "string \<Rightarrow> string \<Rightarrow> string" where
  "durErr what orig = ''time: '' @ what @ ''duration '' @ timeQuote orig"

text \<open>One number with its unit, and the rest of the text.\<close>

definition durFraction :: "string \<Rightarrow> nat \<times> nat \<times> string \<times> bool" where
  "durFraction s1 =
     (if s1 \<noteq> [] \<and> hd s1 = CHR ''.''
      then let (f, scale, s2) = leadingFraction 0 1 False (tl s1) in (f, scale, s2, length s2 \<noteq> length (tl s1))
      else (0, 1, s1, False))"

definition durUnit :: "string \<Rightarrow> string \<Rightarrow> string + nat \<times> string" where
  "durUnit orig s2 =
     (let u = takeWhile (\<lambda>c. \<not> unitEnd c) s2; s3 = dropWhile (\<lambda>c. \<not> unitEnd c) s2 in
      if u = [] then Inl (durErr ''missing unit in '' orig)
      else case unitOf u of
        None \<Rightarrow> Inl (''time: unknown unit '' @ timeQuote u @ '' in duration '' @ timeQuote orig)
      | Some unit \<Rightarrow> Inr (unit, s3))"

definition durValue :: "string \<Rightarrow> nat \<Rightarrow> nat \<Rightarrow> nat \<Rightarrow> nat \<Rightarrow> string + nat" where
  "durValue orig v f scale unit =
     (if 2 ^ 63 div unit < v then Inl (durErr ''invalid '' orig)
      else let v' = v * unit + (if 0 < f then f64trunc (f64mul (f64 f 1) (f64div (unit, 1) (scale, 1))) else 0) in
        if 2 ^ 63 < v' then Inl (durErr ''invalid '' orig) else Inr v')"

definition durItem :: "string \<Rightarrow> string \<Rightarrow> string + nat \<times> string" where
  "durItem orig s =
     (if \<not> unitEnd (hd s) then Inl (durErr ''invalid '' orig)
      else case leadingInt 0 s of
        None \<Rightarrow> Inl (durErr ''invalid '' orig)
      | Some (v, s1) \<Rightarrow>
          (let pre = (length s1 \<noteq> length s); (f, scale, s2, post) = durFraction s1 in
           if \<not> pre \<and> \<not> post then Inl (durErr ''invalid '' orig)
           else case durUnit orig s2 of
             Inl e \<Rightarrow> Inl e
           | Inr (unit, s3) \<Rightarrow>
               (case durValue orig v f scale unit of Inl e \<Rightarrow> Inl e | Inr v' \<Rightarrow> Inr (v', s3))))"

lemma durFraction_length: "durFraction s = (f, sc, s', post) \<Longrightarrow> length s' \<le> length s"
  using leadingFraction_length
  by (cases s) (fastforce simp: durFraction_def split: if_splits prod.splits)+

lemma durUnit_length: "durUnit orig s = Inr (u, s') \<Longrightarrow> length s' < length s"
proof -
  assume "durUnit orig s = Inr (u, s')"
  then have "takeWhile (\<lambda>c. \<not> unitEnd c) s \<noteq> []" "s' = dropWhile (\<lambda>c. \<not> unitEnd c) s"
    by (auto simp: durUnit_def Let_def split: if_splits option.splits)
  then show ?thesis
    by (metis length_append length_greater_0_conv less_add_same_cancel2 takeWhile_dropWhile_id)
qed

lemma durItem_length: "durItem orig s = Inr (v, s') \<Longrightarrow> length s' < length s"
  by (auto simp: durItem_def Let_def split: if_splits option.splits prod.splits sum.splits
      dest!: leadingInt_length durFraction_length durUnit_length)

function durLoop :: "string \<Rightarrow> nat \<Rightarrow> string \<Rightarrow> string + nat" where
  "durLoop orig d s =
     (if s = [] then Inr d
      else case durItem orig s of
        Inl e \<Rightarrow> Inl e
      | Inr (v, s') \<Rightarrow> if 2 ^ 63 < d + v then Inl (durErr ''invalid '' orig) else durLoop orig (d + v) s')"
  by pat_completeness auto
termination
  by (relation "measure (\<lambda>(orig, d, s). length s)") (auto dest: durItem_length)

declare durLoop.simps [simp del]

lemma durLoop_le: "durLoop orig d s = Inr r \<Longrightarrow> d \<le> 2 ^ 63 \<Longrightarrow> r \<le> 2 ^ 63"
  by (induction orig d s rule: durLoop.induct)
     (subst (asm) (2) durLoop.simps, auto simp: not_less split: if_splits sum.splits)

definition parseDuration :: "string \<Rightarrow> string + duration" where
  "parseDuration orig =
     (let neg = (orig \<noteq> [] \<and> hd orig = CHR ''-'');
          s = (if orig \<noteq> [] \<and> (hd orig = CHR ''-'' \<or> hd orig = CHR ''+'') then tl orig else orig)
      in if s = ''0'' then Inr 0
         else if s = [] then Inl (durErr ''invalid '' orig)
         else case durLoop orig 0 s of
           Inl e \<Rightarrow> Inl e
         | Inr d \<Rightarrow> if neg then Inr (- int d)
                    else if 2 ^ 63 - 1 < d then Inl (durErr ''invalid '' orig) else Inr (int d))"

text \<open>A parsed duration fits an \<^verbatim>\<open>int64\<close>.\<close>

lemma parseDuration_bounds: "parseDuration s = Inr d \<Longrightarrow> - (2 ^ 63) \<le> d \<and> d < 2 ^ 63"
proof -
  assume p: "parseDuration s = Inr d"
  have "int r \<le> 2 ^ 63" if "durLoop s 0 t = Inr r" for t r
    using durLoop_le [OF that] by simp
  then show ?thesis
    using p by (fastforce simp: parseDuration_def Let_def not_less split: if_splits sum.splits)
qed

end
