(* ===== verification/AlertFlow.thy ===== *)
theory AlertFlow
  imports Interfaces GoTime
begin

text \<open>
  The workflow of alerts (\<^verbatim>\<open>pkg/alertflow/manager.go\<close>): alerts with one deduplication key are one record with a counter,
  repeated ones notify at most once per window, operators assign, silence, close and reopen them, and the store
  keeps the newest 500.

  The maps \<^verbatim>\<open>alerts\<close> and \<^verbatim>\<open>byDedupKey\<close> are functions; a pointer to an alert is its entry in \<^verbatim>\<open>alerts\<close>, which is how
  every operation reaches it. The details are an association list, with nil for the empty one. The clock is an argument of the
  operations that read it.
\<close>

section \<open>Model\<close>

datatype alert_status = StatusOpen | StatusAssigned | StatusSuppressed | StatusClosed

fun statusStr :: "alert_status \<Rightarrow> string" where
  "statusStr StatusOpen = ''open''"
| "statusStr StatusAssigned = ''assigned''"
| "statusStr StatusSuppressed = ''suppressed''"
| "statusStr StatusClosed = ''closed''"

record notify_alert =
  naID :: string
  naTimestamp :: time
  naSeverity :: string
  naPattern :: string
  naHeadline :: string
  naReason :: string
  naSource :: string
  naDetails :: "(string \<times> string) list"

record flow_alert =
  faID :: string
  faDedupKey :: string
  faSeverity :: string
  faPattern :: string
  faHeadline :: string
  faReason :: string
  faSource :: string
  faStatus :: alert_status
  faAssignee :: string
  faCount :: int
  faFirstSeen :: time
  faLastSeen :: time
  faLastNotifiedAt :: time
  faSilenceUntil :: time
  faNote :: string
  faDetails :: "(string \<times> string) list"

record flow_summary =
  fsTotal :: nat
  fsOpen :: nat
  fsAssigned :: nat
  fsSuppressed :: nat
  fsClosed :: nat

record flow_snapshot =
  fnUpdatedAt :: string
  fnSummary :: flow_summary
  fnAlerts :: "flow_alert list"

record update_request =
  urAction :: string
  urAlertID :: string
  urAssignee :: string
  urDuration :: string
  urNote :: string
  urClassification :: string

record flow_manager =
  fmAlerts :: "string \<rightharpoonup> flow_alert"
  fmByDedupKey :: "string \<rightharpoonup> string"
  fmOrder :: "string list"
  fmDedupWindow :: duration
  fmMaxAlerts :: nat

definition NewManager :: flow_manager where
  "NewManager = \<lparr>fmAlerts = Map.empty, fmByDedupKey = Map.empty, fmOrder = [],
     fmDedupWindow = 10 * minute, fmMaxAlerts = 500\<rparr>"

definition SetDedupWindow :: "duration \<Rightarrow> flow_manager \<Rightarrow> flow_manager" where
  "SetDedupWindow window m = (if window \<le> 0 then m else m\<lparr>fmDedupWindow := window\<rparr>)"

definition cloneMap :: "(string \<times> string) list \<Rightarrow> (string \<times> string) list" where
  "cloneMap input = (if input = [] then [] else input)"

definition cloneAlert :: "flow_alert \<Rightarrow> flow_alert" where
  "cloneAlert a = a\<lparr>faDetails := cloneMap (faDetails a)\<rparr>"

definition statusFor :: "string \<Rightarrow> time \<Rightarrow> time \<Rightarrow> alert_status" where
  "statusFor assignee silenceUntil now =
     (if silenceUntil \<noteq> zeroTime \<and> now < silenceUntil then StatusSuppressed
      else if trimSpace assignee \<noteq> [] then StatusAssigned else StatusOpen)"

definition refreshStatus :: "flow_alert \<Rightarrow> time \<Rightarrow> flow_alert" where
  "refreshStatus a now =
     (if faStatus a = StatusClosed then a else a\<lparr>faStatus := statusFor (faAssignee a) (faSilenceUntil a) now\<rparr>)"

definition shouldNotify :: "duration \<Rightarrow> flow_alert \<Rightarrow> time \<Rightarrow> bool \<times> flow_alert" where
  "shouldNotify window a now =
     (let a = refreshStatus a now in
      (if faStatus a = StatusSuppressed then False
       else if faLastNotifiedAt a = zeroTime then True
       else window \<le> timeSub now (faLastNotifiedAt a), a))"

definition dedupKey :: "notify_alert \<Rightarrow> string" where
  "dedupKey i = joinWith ''|'' [trimSpace (toUpper (naSeverity i)), trimSpace (toUpper (naPattern i)),
     trimSpace (toUpper (naSource i)), trimSpace (toUpper (naHeadline i))]"

definition stableID :: "notify_alert \<Rightarrow> time \<Rightarrow> string" where
  "stableID i now =
     (if trimSpace (naID i) \<noteq> [] then trimSpace (naID i)
      else let base = (if trimSpace (naPattern i) = [] then ''alert'' else trimSpace (naPattern i))
           in toLower base @ ''-'' @ showInt (wrap64 now))"

function trimLocked :: "flow_manager \<Rightarrow> flow_manager" where
  "trimLocked m =
     (if fmMaxAlerts m < length (fmOrder m) then
        let oldest = hd (fmOrder m);
            m = m\<lparr>fmOrder := tl (fmOrder m)\<rparr>;
            m = (case fmAlerts m oldest of
                   Some item \<Rightarrow> m\<lparr>fmByDedupKey := (fmByDedupKey m)(faDedupKey item := None)\<rparr>
                 | None \<Rightarrow> m)
        in trimLocked (m\<lparr>fmAlerts := (fmAlerts m)(oldest := None)\<rparr>)
      else m)"
  by pat_completeness auto
termination
  by (relation "measure (\<lambda>m. length (fmOrder m))") (auto simp: Let_def split: option.splits)

declare trimLocked.simps [simp del]

definition mergeAlert :: "duration \<Rightarrow> notify_alert \<Rightarrow> time \<Rightarrow> flow_alert \<Rightarrow> bool \<times> flow_alert" where
  "mergeAlert window input now a =
     (let a = a\<lparr>faCount := wrap64 (faCount a + 1), faLastSeen := now\<rparr>;
          a = (if faStatus a = StatusClosed then a\<lparr>faStatus := statusFor (faAssignee a) (faSilenceUntil a) now\<rparr> else a);
          a = (if naReason input \<noteq> [] then a\<lparr>faReason := naReason input\<rparr> else a);
          a = a\<lparr>faDetails := AList.update ''dedup_count'' (showInt (faCount a)) (faDetails a)\<rparr>;
          (deliver, a) = shouldNotify window a now
      in (deliver, if deliver then a\<lparr>faLastNotifiedAt := now\<rparr> else a))"

definition newAlert :: "notify_alert \<Rightarrow> string \<Rightarrow> time \<Rightarrow> flow_alert" where
  "newAlert input key now =
     \<lparr>faID = stableID input now, faDedupKey = key, faSeverity = naSeverity input, faPattern = naPattern input,
      faHeadline = naHeadline input, faReason = naReason input, faSource = naSource input, faStatus = StatusOpen,
      faAssignee = [], faCount = 1, faFirstSeen = now, faLastSeen = now, faLastNotifiedAt = zeroTime,
      faSilenceUntil = zeroTime, faNote = [],
      faDetails = AList.update ''dedup_count'' ''1'' (cloneMap (naDetails input))\<rparr>"

definition flowIngest :: "time \<Rightarrow> notify_alert \<Rightarrow> flow_manager \<Rightarrow> (flow_alert \<times> bool) \<times> flow_manager" where
  "flowIngest clk input m =
     (let now = (if naTimestamp input = zeroTime then clk else naTimestamp input);
          key = dedupKey input;
          insertNew =
            (let rec = newAlert input key now;
                 m = m\<lparr>fmAlerts := (fmAlerts m)(faID rec \<mapsto> rec), fmByDedupKey := (fmByDedupKey m)(key \<mapsto> faID rec),
                        fmOrder := fmOrder m @ [faID rec]\<rparr>;
                 m = trimLocked m;
                 rec = rec\<lparr>faLastNotifiedAt := now\<rparr>
             in ((cloneAlert rec, True),
                 if fmAlerts m (faID rec) = None then m else m\<lparr>fmAlerts := (fmAlerts m)(faID rec \<mapsto> rec)\<rparr>))
      in case fmByDedupKey m key of
           Some existingID \<Rightarrow>
             (case fmAlerts m existingID of
                Some existing \<Rightarrow>
                  (let (deliver, a) = mergeAlert (fmDedupWindow m) input now existing in
                   ((cloneAlert a, deliver), m\<lparr>fmAlerts := (fmAlerts m)(existingID \<mapsto> a)\<rparr>))
              | None \<Rightarrow> insertNew)
         | None \<Rightarrow> insertNew)"

definition countStatus :: "alert_status \<Rightarrow> flow_summary \<Rightarrow> flow_summary" where
  "countStatus st s =
     (let s = s\<lparr>fsTotal := fsTotal s + 1\<rparr> in
      case st of
        StatusOpen \<Rightarrow> s\<lparr>fsOpen := fsOpen s + 1\<rparr>
      | StatusAssigned \<Rightarrow> s\<lparr>fsAssigned := fsAssigned s + 1\<rparr>
      | StatusSuppressed \<Rightarrow> s\<lparr>fsSuppressed := fsSuppressed s + 1\<rparr>
      | StatusClosed \<Rightarrow> s\<lparr>fsClosed := fsClosed s + 1\<rparr>)"

fun snapLoop :: "time \<Rightarrow> string \<Rightarrow> string \<Rightarrow> string list \<Rightarrow> (string \<rightharpoonup> flow_alert) \<Rightarrow> flow_summary
    \<Rightarrow> (string \<rightharpoonup> flow_alert) \<times> flow_summary \<times> flow_alert list" where
  "snapLoop now status assignee [] al s = (al, s, [])"
| "snapLoop now status assignee (i # is) al s =
     (case al i of
        None \<Rightarrow> snapLoop now status assignee is al s
      | Some item \<Rightarrow>
          (let item = refreshStatus item now;
               (al', s', out) = snapLoop now status assignee is (al(i \<mapsto> item)) (countStatus (faStatus item) s)
           in (al', s',
               if status \<noteq> [] \<and> statusStr (faStatus item) \<noteq> toLower (trimSpace status) then out
               else if assignee \<noteq> [] \<and> \<not> equalFold (faAssignee item) assignee then out
               else cloneAlert item # out)))"

definition flowSnapshot :: "time \<Rightarrow> string \<Rightarrow> string \<Rightarrow> flow_manager \<Rightarrow> flow_snapshot \<times> flow_manager" where
  "flowSnapshot clk status assignee m =
     (let (al, s, out) = snapLoop clk status assignee (rev (fmOrder m)) (fmAlerts m) \<lparr>fsTotal = 0, fsOpen = 0, fsAssigned = 0, fsSuppressed = 0, fsClosed = 0\<rparr>
      in (\<lparr>fnUpdatedAt = formatRFC3339 clk, fnSummary = s, fnAlerts = sort_key (\<lambda>a. - faLastSeen a) out\<rparr>,
          m\<lparr>fmAlerts := al\<rparr>))"

definition replaceChar :: "char \<Rightarrow> char \<Rightarrow> string \<Rightarrow> string" where
  "replaceChar a b s = map (\<lambda>c. if c = a then b else c) s"

definition normalizeClassification :: "string \<Rightarrow> string" where
  "normalizeClassification value =
     (let n = replaceChar (CHR '' '') (CHR ''_'') (replaceChar (CHR ''-'') (CHR ''_'') (toLower (trimSpace value))) in
      if n = ''tp'' \<or> n = ''true_positive'' then ''true_positive''
      else if n = ''fp'' \<or> n = ''false_positive'' then ''false_positive''
      else if n = ''benign'' then ''benign''
      else if n = ''duplicate'' then ''duplicate''
      else if n = ''needs_review'' \<or> n = ''review'' then ''needs_review''
      else [])"

definition updateItem :: "time \<Rightarrow> update_request \<Rightarrow> flow_alert \<Rightarrow> string + flow_alert" where
  "updateItem now req item =
     (let action = toLower (trimSpace (urAction req)); note = trimSpace (urNote req) in
      if action = ''assign'' then
        (let item = item\<lparr>faAssignee := trimSpace (urAssignee req), faNote := note\<rparr>
         in Inr (item\<lparr>faStatus := statusFor (faAssignee item) (faSilenceUntil item) now\<rparr>))
      else if action = ''silence'' then
        (case (if trimSpace (urDuration req) \<noteq> [] then parseDuration (trimSpace (urDuration req)) else Inr (30 * minute)) of
           Inl err \<Rightarrow> Inl (''invalid duration: '' @ err)
         | Inr d \<Rightarrow> Inr (item\<lparr>faSilenceUntil := now + d, faNote := note, faStatus := StatusSuppressed\<rparr>))
      else if action = ''unsilence'' then
        (let item = item\<lparr>faSilenceUntil := zeroTime, faNote := note\<rparr>
         in Inr (item\<lparr>faStatus := statusFor (faAssignee item) (faSilenceUntil item) now\<rparr>))
      else if action = ''close'' then Inr (item\<lparr>faNote := note, faStatus := StatusClosed\<rparr>)
      else if action = ''reopen'' then
        (let item = item\<lparr>faNote := note\<rparr>
         in Inr (item\<lparr>faStatus := statusFor (faAssignee item) (faSilenceUntil item) now\<rparr>))
      else if action = ''annotate'' then
        (let cl = normalizeClassification (urClassification req) in
         if cl = [] then Inl ''classification must be true_positive, false_positive, benign, duplicate, or needs_review''
         else Inr (item\<lparr>faDetails := AList.update ''classification_updated_at'' (formatRFC3339 now)
                          (AList.update ''classification'' cl (faDetails item)), faNote := note\<rparr>))
      else Inl (''unsupported action '' @ goQuote (urAction req)))"

definition flowUpdate :: "time \<Rightarrow> update_request \<Rightarrow> flow_manager \<Rightarrow> (string + flow_alert) \<times> flow_manager" where
  "flowUpdate clk req m =
     (let i = trimSpace (urAlertID req) in
      case fmAlerts m i of
        None \<Rightarrow> (Inl (''alert '' @ goQuote (urAlertID req) @ '' not found''), m)
      | Some item \<Rightarrow>
          (case updateItem clk req item of
             Inl err \<Rightarrow> (Inl err, m)
           | Inr item' \<Rightarrow> (Inr (cloneAlert item'), m\<lparr>fmAlerts := (fmAlerts m)(i \<mapsto> item')\<rparr>)))"

section \<open>Consistency of the store\<close>

definition flow_inv :: "flow_manager \<Rightarrow> bool" where
  "flow_inv m = (distinct (fmOrder m) \<and> set (fmOrder m) = dom (fmAlerts m) \<and> length (fmOrder m) \<le> fmMaxAlerts m
     \<and> 0 < fmMaxAlerts m \<and> (\<forall>i a. fmAlerts m i = Some a \<longrightarrow> faID a = i)
     \<and> (\<forall>k i. fmByDedupKey m k = Some i \<longleftrightarrow> (\<exists>a. fmAlerts m i = Some a \<and> faDedupKey a = k)))"

lemma flow_inv_key: "flow_inv m \<Longrightarrow> fmAlerts m i = Some a \<Longrightarrow> fmByDedupKey m (faDedupKey a) = Some i"
  by (auto simp: flow_inv_def)

definition alertCore :: "flow_alert \<Rightarrow> string \<times> string" where
  "alertCore a = (faID a, faDedupKey a)"

lemma flow_inv_core:
  assumes "flow_inv m" "\<And>i. map_option alertCore (al i) = map_option alertCore (fmAlerts m i)"
  shows "flow_inv (m\<lparr>fmAlerts := al\<rparr>)"
proof -
  have "(\<exists>a. al i = Some a \<and> alertCore a = c) \<longleftrightarrow> (\<exists>a. fmAlerts m i = Some a \<and> alertCore a = c)" for i c
    using assms(2) [of i] by (cases "al i"; cases "fmAlerts m i") auto
  then have key: "(\<exists>a. al i = Some a \<and> faDedupKey a = k) \<longleftrightarrow> (\<exists>a. fmAlerts m i = Some a \<and> faDedupKey a = k)"
    and ident: "(\<exists>a. al i = Some a \<and> faID a = j) \<longleftrightarrow> (\<exists>a. fmAlerts m i = Some a \<and> faID a = j)" for i k j
    unfolding alertCore_def by (metis prod.inject)+
  have "al i = None \<longleftrightarrow> fmAlerts m i = None" for i
    using assms(2) [of i] by (metis option.map_disc_iff)
  then have "dom al = dom (fmAlerts m)" by (auto simp: dom_def)
  moreover have "faID a = i" if "al i = Some a" for i a
    using that ident [of i "faID a"] assms(1) by (auto simp: flow_inv_def)
  ultimately show ?thesis
    using assms(1) key by (simp add: flow_inv_def)
qed

lemma flow_inv_upd:
  assumes "flow_inv m" "fmAlerts m i = Some a" "alertCore a' = alertCore a"
  shows "flow_inv (m\<lparr>fmAlerts := (fmAlerts m)(i \<mapsto> a')\<rparr>)"
  by (rule flow_inv_core [OF assms(1)]) (use assms in auto)

lemma refreshStatus_core [simp]: "alertCore (refreshStatus a now) = alertCore a"
  "faLastNotifiedAt (refreshStatus a now) = faLastNotifiedAt a"
  by (auto simp: refreshStatus_def alertCore_def)

lemma mergeAlert_core:
  assumes "mergeAlert w input now a = (d, a')"
  shows "alertCore a' = alertCore a" "faLastNotifiedAt a' = (if d then now else faLastNotifiedAt a)"
    "d \<Longrightarrow> faLastNotifiedAt a = zeroTime \<or> w \<le> timeSub now (faLastNotifiedAt a)"
    "d \<Longrightarrow> faStatus a' \<noteq> StatusSuppressed \<and> (faSilenceUntil a' = zeroTime \<or> faSilenceUntil a' \<le> now)"
  using assms by (auto simp: mergeAlert_def shouldNotify_def refreshStatus_def statusFor_def alertCore_def Let_def
      split: if_splits)

lemma snapLoop_core:
  "snapLoop now st as is al s = (al', s', out) \<Longrightarrow> map_option alertCore (al' i) = map_option alertCore (al i)
     \<and> map_option faLastNotifiedAt (al' i) = map_option faLastNotifiedAt (al i)"
proof (induction "is" arbitrary: al s al' s' out)
  case (Cons j js)
  show ?case
  proof (cases "al j")
    case None
    with Cons show ?thesis by simp
  next
    case (Some a)
    obtain al1 s1 out1 where r: "snapLoop now st as js (al(j \<mapsto> refreshStatus a now)) (countStatus (faStatus (refreshStatus a now)) s) = (al1, s1, out1)"
      by (metis prod_cases3)
    with Cons.prems Some have "al' = al1" by (simp add: Let_def)
    with Cons.IH [OF r] Some show ?thesis by (cases "i = j") auto
  qed
qed simp

lemma updateItem_core:
  "updateItem now req a = Inr a' \<Longrightarrow> alertCore a' = alertCore a \<and> faLastNotifiedAt a' = faLastNotifiedAt a"
  by (auto simp: updateItem_def alertCore_def Let_def split: if_splits sum.splits)

text \<open>A new record enters a consistent store: within the capacity nothing else changes, at the capacity the oldest leaves.\<close>

definition addNew :: "string \<Rightarrow> flow_alert \<Rightarrow> flow_manager \<Rightarrow> flow_manager" where
  "addNew key rec m = m\<lparr>fmAlerts := (fmAlerts m)(faID rec \<mapsto> rec), fmByDedupKey := (fmByDedupKey m)(key \<mapsto> faID rec),
     fmOrder := fmOrder m @ [faID rec]\<rparr>"

lemma trimLocked_room [simp]: "length (fmOrder m) \<le> fmMaxAlerts m \<Longrightarrow> trimLocked m = m"
  by (simp add: trimLocked.simps)

lemma addNew_inv_room:
  assumes "flow_inv m" "faDedupKey rec = key" "fmAlerts m (faID rec) = None" "fmByDedupKey m key = None"
    and "length (fmOrder m) < fmMaxAlerts m"
  shows "flow_inv (addNew key rec m)"
proof -
  have "faDedupKey a \<noteq> key" if "fmAlerts m i = Some a" for i a
    using flow_inv_key [OF assms(1) that] assms(4) by auto
  with assms show ?thesis by (auto simp: flow_inv_def addNew_def dom_def)
qed

definition popOldest :: "flow_manager \<Rightarrow> flow_manager" where
  "popOldest m = m\<lparr>fmOrder := tl (fmOrder m),
     fmByDedupKey := (fmByDedupKey m)(faDedupKey (the (fmAlerts m (hd (fmOrder m)))) := None),
     fmAlerts := (fmAlerts m)(hd (fmOrder m) := None)\<rparr>"

lemma flow_inv_hd:
  assumes "flow_inv m" "fmOrder m \<noteq> []"
  obtains a where "fmAlerts m (hd (fmOrder m)) = Some a"
  using assms by (metis domD flow_inv_def list.set_sel(1))

lemma popOldest_inv:
  assumes "flow_inv m" "fmOrder m \<noteq> []"
  shows "flow_inv (popOldest m)"
proof -
  obtain a where a: "fmAlerts m (hd (fmOrder m)) = Some a" using flow_inv_hd [OF assms] .
  have "faDedupKey b \<noteq> faDedupKey a" if "fmAlerts m i = Some b" "i \<noteq> hd (fmOrder m)" for i b
    using that flow_inv_key [OF assms(1)] a by (metis option.inject)
  with assms a show ?thesis
    by (cases "fmOrder m") (auto simp: flow_inv_def popOldest_def dom_def)
qed

lemma trimLocked_full:
  assumes "flow_inv m" "faDedupKey rec = key" "fmAlerts m (faID rec) = None" "fmByDedupKey m key = None"
    and "length (fmOrder m) = fmMaxAlerts m"
  shows "trimLocked (addNew key rec m) = addNew key rec (popOldest m)"
proof -
  have ne: "fmOrder m \<noteq> []" using assms(1,5) by (auto simp: flow_inv_def)
  obtain a where a: "fmAlerts m (hd (fmOrder m)) = Some a" using flow_inv_hd [OF assms(1) ne] .
  have "faDedupKey a \<noteq> key" using flow_inv_key [OF assms(1) a] assms(4) by auto
  moreover have "hd (fmOrder m) \<noteq> faID rec" using a assms(3) by auto
  moreover obtain x xs where "fmOrder m = x # xs" using ne by (cases "fmOrder m") auto
  ultimately show ?thesis
    using a assms(5) by (subst trimLocked.simps) (simp add: addNew_def popOldest_def Let_def fun_upd_twist)
qed

lemma trimLocked_addNew:
  assumes "flow_inv m" "faDedupKey rec = key" "fmAlerts m (faID rec) = None" "fmByDedupKey m key = None"
  shows "trimLocked (addNew key rec m) = addNew key rec (if length (fmOrder m) < fmMaxAlerts m then m else popOldest m)"
    and "flow_inv (trimLocked (addNew key rec m))"
proof -
  have le: "length (fmOrder m) \<le> fmMaxAlerts m" "0 < fmMaxAlerts m" using assms(1) by (auto simp: flow_inv_def)
  then show eq: "trimLocked (addNew key rec m) = addNew key rec (if length (fmOrder m) < fmMaxAlerts m then m else popOldest m)"
    using trimLocked_full [OF assms] by (auto simp: addNew_def)
  show "flow_inv (trimLocked (addNew key rec m))"
  proof (cases "length (fmOrder m) < fmMaxAlerts m")
    case True
    with eq addNew_inv_room [OF assms] show ?thesis by simp
  next
    case False
    then have "fmOrder m \<noteq> []" using le by auto
    then have "flow_inv (addNew key rec (popOldest m))"
      by (intro addNew_inv_room popOldest_inv) (use assms le in \<open>auto simp: popOldest_def\<close>)
    with False eq show ?thesis by simp
  qed
qed

section \<open>Operations on a consistent store\<close>

definition flowNow :: "time \<Rightarrow> notify_alert \<Rightarrow> time" where
  "flowNow clk input = (if naTimestamp input = zeroTime then clk else naTimestamp input)"

definition freshInput :: "time \<Rightarrow> notify_alert \<Rightarrow> flow_manager \<Rightarrow> bool" where
  "freshInput clk input m =
     (fmByDedupKey m (dedupKey input) = None \<longrightarrow> fmAlerts m (stableID input (flowNow clk input)) = None)"

lemma flowIngest_merge:
  assumes "fmByDedupKey m (dedupKey input) = Some i" "fmAlerts m i = Some a"
  shows "flowIngest clk input m = (let (d, a') = mergeAlert (fmDedupWindow m) input (flowNow clk input) a
     in ((cloneAlert a', d), m\<lparr>fmAlerts := (fmAlerts m)(i \<mapsto> a')\<rparr>))"
  using assms by (simp add: flowIngest_def flowNow_def)

lemma flow_inv_lookup:
  "flow_inv m \<Longrightarrow> fmByDedupKey m k = Some i \<Longrightarrow> \<exists>a. fmAlerts m i = Some a \<and> faDedupKey a = k"
  by (auto simp: flow_inv_def)

lemma flowIngest_new:
  assumes "flow_inv m" "fmByDedupKey m (dedupKey input) = None" "freshInput clk input m"
  shows "flowIngest clk input m =
     (let now = flowNow clk input; rec = (newAlert input (dedupKey input) now)\<lparr>faLastNotifiedAt := now\<rparr>
      in ((cloneAlert rec, True),
          addNew (dedupKey input) rec (if length (fmOrder m) < fmMaxAlerts m then m else popOldest m)))"
proof -
  let ?now = "flowNow clk input" and ?key = "dedupKey input"
  let ?new = "newAlert input ?key ?now"
  have f: "faDedupKey ?new = ?key" "fmAlerts m (faID ?new) = None"
    using assms(2,3) by (auto simp: newAlert_def freshInput_def)
  have t: "trimLocked (m\<lparr>fmAlerts := (fmAlerts m)(faID ?new \<mapsto> ?new), fmByDedupKey := (fmByDedupKey m)(?key \<mapsto> faID ?new),
      fmOrder := fmOrder m @ [faID ?new]\<rparr>) = addNew ?key ?new (if length (fmOrder m) < fmMaxAlerts m then m else popOldest m)"
    using trimLocked_addNew(1) [OF assms(1) f assms(2)] by (simp add: addNew_def)
  show ?thesis
    unfolding flowIngest_def Let_def flowNow_def [symmetric] assms(2) option.case t
    by (simp add: addNew_def)
qed

lemma flowIngest_inv:
  assumes "flow_inv m" "freshInput clk input m"
  shows "flow_inv (snd (flowIngest clk input m))"
proof (cases "fmByDedupKey m (dedupKey input)")
  case None
  let ?rec = "(newAlert input (dedupKey input) (flowNow clk input))\<lparr>faLastNotifiedAt := flowNow clk input\<rparr>"
  have f: "faDedupKey ?rec = dedupKey input" "fmAlerts m (faID ?rec) = None"
    using assms(2) None by (auto simp: newAlert_def freshInput_def)
  from flowIngest_new [OF assms(1) None assms(2)] trimLocked_addNew [OF assms(1) f None] show ?thesis
    by (simp add: Let_def)
next
  case (Some i)
  from flow_inv_lookup [OF assms(1) Some] obtain a where a: "fmAlerts m i = Some a" by auto
  then show ?thesis
    using flow_inv_upd [OF assms(1) a] mergeAlert_core(1)
    by (auto simp: flowIngest_merge [OF Some a] split: prod.splits)
qed

lemma SetDedupWindow_inv: "flow_inv m \<Longrightarrow> flow_inv (SetDedupWindow d m)"
  by (simp add: SetDedupWindow_def flow_inv_def)

lemma flowUpdate_inv: "flow_inv m \<Longrightarrow> flow_inv (snd (flowUpdate clk req m))"
  by (auto simp: flowUpdate_def Let_def intro: flow_inv_upd dest: updateItem_core split: option.splits sum.splits)

lemma flowSnapshot_inv: "flow_inv m \<Longrightarrow> flow_inv (snd (flowSnapshot clk st as m))"
  using snapLoop_core by (fastforce simp: flowSnapshot_def Let_def intro!: flow_inv_core split: prod.splits)

section \<open>Sequences of operations\<close>

datatype flow_op =
    OpIngest time notify_alert
  | OpUpdate time update_request
  | OpSnapshot time string string
  | OpWindow duration

fun flowStep :: "flow_op \<Rightarrow> flow_manager \<Rightarrow> flow_manager" where
  "flowStep (OpIngest clk input) m = snd (flowIngest clk input m)"
| "flowStep (OpUpdate clk req) m = snd (flowUpdate clk req m)"
| "flowStep (OpSnapshot clk st as) m = snd (flowSnapshot clk st as m)"
| "flowStep (OpWindow d) m = SetDedupWindow d m"

fun flowNotifies :: "flow_op \<Rightarrow> flow_manager \<Rightarrow> (string \<times> time) list" where
  "flowNotifies (OpIngest clk input) m =
     (if snd (fst (flowIngest clk input m)) then [(dedupKey input, flowNow clk input)] else [])"
| "flowNotifies _ m = []"

abbreviation runFlow :: "flow_op list \<Rightarrow> flow_manager \<Rightarrow> flow_manager" where
  "runFlow \<equiv> runAll flowStep"

text \<open>What a caller owes: a new key does not bring the identifier of a stored alert.\<close>

definition flowOk :: "flow_op \<Rightarrow> flow_manager \<Rightarrow> bool" where
  "flowOk p m = (case p of OpIngest clk input \<Rightarrow> freshInput clk input m | _ \<Rightarrow> True)"

lemma flowOk_simps [simp]:
  "flowOk (OpIngest clk input) m = freshInput clk input m" "flowOk (OpUpdate clk req) m" "flowOk (OpSnapshot clk st as) m"
  "flowOk (OpWindow d) m"
  by (simp_all add: flowOk_def)

abbreviation freshRun :: "flow_op list \<Rightarrow> flow_manager \<Rightarrow> bool" where
  "freshRun \<equiv> okRun flowOk flowStep"

fun notified :: "flow_op list \<Rightarrow> flow_manager \<Rightarrow> (string \<times> time) list" where
  "notified [] m = []"
| "notified (p # ps) m = flowNotifies p m @ notified ps (flowStep p m)"

interpretation flowsys: client_protocol flowOk flowStep flow_inv
  by unfold_locales
    (auto simp: flowOk_def flowIngest_inv flowUpdate_inv flowSnapshot_inv SetDedupWindow_inv split: flow_op.splits)

lemma NewManager_inv: "flow_inv NewManager"
  by (simp add: flow_inv_def NewManager_def)

lemma flowStep_max [simp]: "fmMaxAlerts (flowStep p m) = fmMaxAlerts m"
proof -
  have "fmMaxAlerts (trimLocked m) = fmMaxAlerts m" for m
    by (induction m rule: trimLocked.induct) (subst trimLocked.simps, auto simp: Let_def split: option.splits)
  then show ?thesis
    by (cases p) (auto simp: flowIngest_def flowUpdate_def flowSnapshot_def SetDedupWindow_def Let_def split: option.splits sum.splits prod.splits)
qed

lemma runFlow_max [simp]: "fmMaxAlerts (runFlow ps m) = fmMaxAlerts m"
  by (rule flowsys.runAll_const) simp



section \<open>Notifications\<close>

definition flowLookup :: "flow_manager \<Rightarrow> string \<Rightarrow> flow_alert option" where
  "flowLookup m k = (case fmByDedupKey m k of None \<Rightarrow> None | Some i \<Rightarrow> fmAlerts m i)"

definition lastNotified :: "flow_manager \<Rightarrow> string \<Rightarrow> time option" where
  "lastNotified m k = map_option faLastNotifiedAt (flowLookup m k)"

lemma lastNotified_other:
  assumes "flow_inv m" "freshInput clk input m" "length (fmOrder m) < fmMaxAlerts m" "k \<noteq> dedupKey input"
  shows "lastNotified (snd (flowIngest clk input m)) k = lastNotified m k"
proof (cases "fmByDedupKey m (dedupKey input)")
  case None
  have "i \<noteq> stableID input (flowNow clk input)" if "fmByDedupKey m k = Some i" for i
    using flow_inv_lookup [OF assms(1) that] assms(2) None by (auto simp: freshInput_def)
  then show ?thesis
    using assms(3,4) by (auto simp: flowIngest_new [OF assms(1) None assms(2)] Let_def addNew_def newAlert_def
        lastNotified_def flowLookup_def split: option.splits)
next
  case (Some i)
  from flow_inv_lookup [OF assms(1) Some] obtain a where a: "fmAlerts m i = Some a" "faDedupKey a = dedupKey input" by auto
  have "j \<noteq> i" if "fmByDedupKey m k = Some j" for j
    using flow_inv_lookup [OF assms(1) that] a assms(4) by auto
  then show ?thesis
    by (auto simp: flowIngest_merge [OF Some a(1)] lastNotified_def flowLookup_def split: option.splits prod.splits)
qed

lemma lastNotified_same:
  assumes "flow_inv m" "freshInput clk input m" "length (fmOrder m) < fmMaxAlerts m" "flowIngest clk input m = ((a, d), m')"
  shows "lastNotified m' (dedupKey input) = (if d then Some (flowNow clk input) else lastNotified m (dedupKey input))"
    and "d \<Longrightarrow> lastNotified m (dedupKey input) = Some t \<Longrightarrow> t \<noteq> zeroTime \<Longrightarrow> fmDedupWindow m \<le> timeSub (flowNow clk input) t"
proof -
  let ?k = "dedupKey input"
  have "lastNotified m' ?k = (if d then Some (flowNow clk input) else lastNotified m ?k) \<and>
    (d \<longrightarrow> lastNotified m ?k = Some t \<longrightarrow> t \<noteq> zeroTime \<longrightarrow> fmDedupWindow m \<le> timeSub (flowNow clk input) t)"
  proof (cases "fmByDedupKey m ?k")
    case None
    with assms(3,4) flowIngest_new [OF assms(1) None assms(2)] show ?thesis
      by (auto simp: Let_def addNew_def newAlert_def lastNotified_def flowLookup_def)
  next
    case (Some i)
    from flow_inv_lookup [OF assms(1) Some] obtain b where b: "fmAlerts m i = Some b" by auto
    obtain d' b' where r: "mergeAlert (fmDedupWindow m) input (flowNow clk input) b = (d', b')" by fastforce
    with assms(4) have "d' = d" "m' = m\<lparr>fmAlerts := (fmAlerts m)(i \<mapsto> b')\<rparr>" by (auto simp: flowIngest_merge [OF Some b])
    with mergeAlert_core(2,3) [OF r] Some b show ?thesis
      by (auto simp: lastNotified_def flowLookup_def)
  qed
  then show "lastNotified m' ?k = (if d then Some (flowNow clk input) else lastNotified m ?k)"
    "d \<Longrightarrow> lastNotified m ?k = Some t \<Longrightarrow> t \<noteq> zeroTime \<Longrightarrow> fmDedupWindow m \<le> timeSub (flowNow clk input) t" by auto
qed

lemma lastNotified_map:
  "(\<And>i. map_option faLastNotifiedAt (al i) = map_option faLastNotifiedAt (fmAlerts m i)) \<Longrightarrow>
     lastNotified (m\<lparr>fmAlerts := al\<rparr>) k = lastNotified m k"
  by (auto simp: lastNotified_def flowLookup_def split: option.splits)

lemma lastNotified_admin:
  "lastNotified (snd (flowUpdate clk req m)) k = lastNotified m k"
  "lastNotified (snd (flowSnapshot clk st as m)) k = lastNotified m k"
proof -
  show "lastNotified (snd (flowUpdate clk req m)) k = lastNotified m k"
    by (auto simp: flowUpdate_def Let_def dest: updateItem_core intro!: lastNotified_map split: option.splits sum.splits)
  show "lastNotified (snd (flowSnapshot clk st as m)) k = lastNotified m k"
    using snapLoop_core by (auto simp: flowSnapshot_def Let_def intro!: lastNotified_map split: prod.splits)
qed

definition keyTimes :: "string \<Rightarrow> (string \<times> time) list \<Rightarrow> time list" where
  "keyTimes k ns = map snd (filter (\<lambda>(k', t). k' = k) ns)"

definition quietOp :: "flow_op \<Rightarrow> bool" where
  "quietOp p = (case p of OpIngest clk input \<Rightarrow> clk \<noteq> zeroTime | OpWindow d \<Rightarrow> False | _ \<Rightarrow> True)"

lemma flowStep_order:
  assumes "flow_inv m" "flowOk p m"
  shows "length (fmOrder (flowStep p m)) \<le> Suc (length (fmOrder m))"
proof (cases p)
  case (OpIngest clk input)
  show ?thesis
  proof (cases "fmByDedupKey m (dedupKey input)")
    case None
    with flowIngest_new [OF assms(1) None] assms(2) OpIngest show ?thesis
      by (simp add: Let_def addNew_def popOldest_def)
  next
    case (Some i)
    from flow_inv_lookup [OF assms(1) Some] obtain a where "fmAlerts m i = Some a" by auto
    with flowIngest_merge [OF Some] OpIngest show ?thesis by (auto split: prod.splits)
  qed
qed (auto simp: flowUpdate_def flowSnapshot_def SetDedupWindow_def Let_def split: option.splits sum.splits prod.splits)

lemma flowStep_window: "\<nexists>d. p = OpWindow d \<Longrightarrow> fmDedupWindow (flowStep p m) = fmDedupWindow m"
proof -
  have "fmDedupWindow (trimLocked m) = fmDedupWindow m" for m
    by (induction m rule: trimLocked.induct) (subst trimLocked.simps, auto simp: Let_def split: option.splits)
  moreover assume "\<nexists>d. p = OpWindow d"
  ultimately show ?thesis
    by (cases p) (auto simp: flowIngest_def flowUpdate_def flowSnapshot_def SetDedupWindow_def Let_def split: option.splits sum.splits prod.splits)
qed

text \<open>One operation: the last notification of a key moves exactly when the operation notifies for it, and then by at least the window.\<close>

lemma flowStep_notify:
  assumes "flow_inv m" "flowOk p m"
    and "length (fmOrder m) < fmMaxAlerts m" "quietOp p" "0 < fmDedupWindow m"
  shows "keyTimes k (flowNotifies p m) = [] \<and> lastNotified (flowStep p m) k = lastNotified m k
    \<or> (\<exists>t. keyTimes k (flowNotifies p m) = [t] \<and> lastNotified (flowStep p m) k = Some t \<and> t \<noteq> zeroTime
         \<and> (\<forall>s. lastNotified m k = Some s \<longrightarrow> s \<noteq> zeroTime \<longrightarrow> s + fmDedupWindow m \<le> t))"
proof (cases p)
  case (OpIngest clk input)
  then have f: "freshInput clk input m" using assms(2) by simp
  obtain a d m' where r: "flowIngest clk input m = ((a, d), m')" by (metis surj_pair)
  have nz: "flowNow clk input \<noteq> zeroTime" using assms(4) OpIngest by (auto simp: quietOp_def flowNow_def)
  show ?thesis
  proof (cases "k = dedupKey input")
    case True
    have "s + fmDedupWindow m \<le> flowNow clk input" if "d" "lastNotified m k = Some s" "s \<noteq> zeroTime" for s
      using timeSub_geD [OF _ lastNotified_same(2) [OF assms(1) f assms(3) r, of s]] that True assms(5) by auto
    with lastNotified_same(1) [OF assms(1) f assms(3) r] True r nz OpIngest show ?thesis
      by (cases d) (auto simp: keyTimes_def)
  next
    case False
    with lastNotified_other [OF assms(1) f assms(3) False] OpIngest show ?thesis by (simp add: keyTimes_def)
  qed
qed (use assms(4) in \<open>auto simp: keyTimes_def lastNotified_admin quietOp_def\<close>)

lemma notified_spaced:
  assumes "flow_inv m" "freshRun ps m" "list_all quietOp ps" "length (fmOrder m) + length ps \<le> fmMaxAlerts m"
    and "0 < fmDedupWindow m"
  shows "successively (\<lambda>s t. s + fmDedupWindow m \<le> t) (keyTimes k (notified ps m))
    \<and> (\<forall>s. lastNotified m k = Some s \<longrightarrow> s \<noteq> zeroTime \<longrightarrow>
         successively (\<lambda>s t. s + fmDedupWindow m \<le> t) (s # keyTimes k (notified ps m)))"
  using assms
proof (induction ps arbitrary: m)
  case (Cons p ps)
  have ok: "flowOk p m" "quietOp p" "length (fmOrder m) < fmMaxAlerts m"
    using Cons.prems by auto
  have w: "fmDedupWindow (flowStep p m) = fmDedupWindow m" by (rule flowStep_window) (use ok(2) in \<open>auto simp: quietOp_def\<close>)
  have "flow_inv (flowStep p m)" by (rule flowsys.step_keeps [OF Cons.prems(1) ok(1)])
  from Cons.IH [OF this] Cons.prems flowStep_order [OF Cons.prems(1) ok(1)] w
  have IH: "successively (\<lambda>s t. s + fmDedupWindow m \<le> t) (keyTimes k (notified ps (flowStep p m)))"
    "\<And>s. lastNotified (flowStep p m) k = Some s \<Longrightarrow> s \<noteq> zeroTime \<Longrightarrow>
       successively (\<lambda>s t. s + fmDedupWindow m \<le> t) (s # keyTimes k (notified ps (flowStep p m)))"
    by auto
  have split: "keyTimes k (notified (p # ps) m) = keyTimes k (flowNotifies p m) @ keyTimes k (notified ps (flowStep p m))"
    by (simp add: keyTimes_def)
  from flowStep_notify [OF Cons.prems(1) ok(1) ok(3) ok(2) Cons.prems(5), of k] IH show ?case
    unfolding split by auto
qed (simp add: keyTimes_def)

lemma runFlow_window: "0 < fmDedupWindow m \<Longrightarrow> 0 < fmDedupWindow (runFlow ps m)"
proof (induction ps arbitrary: m)
  case (Cons p ps)
  have "0 < fmDedupWindow (flowStep p m)"
    using Cons.prems flowStep_window [of p m] by (cases "\<exists>d. p = OpWindow d") (auto simp: SetDedupWindow_def)
  with Cons.IH show ?case by simp
qed simp

text \<open>
  Repeated alerts do not flood the channels. Take any reachable manager and any further sequence of
  ingests, workflow actions and snapshots that fits into the free capacity, with fresh identifiers, a fixed window and a
  clock that is set. Then for every deduplication key the notifications that the manager lets through are pairwise
  a full window apart, in the order they are sent, and the first is a window after the last one the key had
  before. Closing, reopening, assigning or silencing the alert in between does not change this.
\<close>

lemma notifications_spaced:
  assumes "m = runFlow qs NewManager" "freshRun qs NewManager" "freshRun ps m"
    and "list_all quietOp ps" "length (fmOrder m) + length ps \<le> 500"
  shows "successively (\<lambda>s t. s + fmDedupWindow m \<le> t) (keyTimes k (notified ps m)) \<and> 0 < fmDedupWindow m
    \<and> (\<forall>s. lastNotified m k = Some s \<and> s \<noteq> zeroTime \<longrightarrow>
         successively (\<lambda>s t. s + fmDedupWindow m \<le> t) (s # keyTimes k (notified ps m)))"
proof -
  have "flow_inv m" "fmMaxAlerts m = 500" "0 < fmDedupWindow m"
    unfolding assms(1) using flowsys.runAll_inv [OF NewManager_inv assms(2)] runFlow_window [of NewManager qs]
    by (simp_all add: NewManager_def)
  with notified_spaced [of m ps k] assms show ?thesis by auto
qed

text \<open>An open alert that nobody touches: the window alone decides.\<close>

definition openAlert :: "flow_manager \<Rightarrow> string \<Rightarrow> time \<Rightarrow> bool" where
  "openAlert m k t = (\<exists>i a. fmByDedupKey m k = Some i \<and> fmAlerts m i = Some a \<and> faStatus a = StatusOpen
     \<and> faSilenceUntil a = zeroTime \<and> faAssignee a = [] \<and> faLastNotifiedAt a = t)"

lemma trimSpace_Nil [simp]: "trimSpace [] = []"
  by (simp add: trimSpace_def runes.simps)

lemma ingest_open:
  assumes "openAlert m (dedupKey input) t" "t \<noteq> zeroTime"
  shows "(snd (fst (flowIngest clk input m)) \<longleftrightarrow> fmDedupWindow m \<le> timeSub (flowNow clk input) t)
    \<and> openAlert (snd (flowIngest clk input m)) (dedupKey input)
        (if fmDedupWindow m \<le> timeSub (flowNow clk input) t then flowNow clk input else t)"
proof -
  obtain i a where a: "fmByDedupKey m (dedupKey input) = Some i" "fmAlerts m i = Some a" "faStatus a = StatusOpen"
    "faSilenceUntil a = zeroTime" "faAssignee a = []" "faLastNotifiedAt a = t"
    using assms(1) by (auto simp: openAlert_def)
  then show ?thesis
    using assms(2) by (auto simp: flowIngest_merge [OF a(1,2)] openAlert_def mergeAlert_def shouldNotify_def refreshStatus_def
        statusFor_def Let_def)
qed

lemma ingest_first:
  "snd (fst (flowIngest clk input NewManager)) \<and> openAlert (snd (flowIngest clk input NewManager)) (dedupKey input) (flowNow clk input)"
proof -
  have "freshInput clk input NewManager" "fmByDedupKey NewManager (dedupKey input) = None"
    by (simp_all add: freshInput_def NewManager_def)
  from flowIngest_new [OF NewManager_inv this(2,1)] show ?thesis
    by (simp add: Let_def openAlert_def addNew_def newAlert_def)
qed

lemma notifications_spaced_example:
  "\<exists>k ps qs m. m = runFlow qs NewManager \<and> keyTimes k (notified ps m) = [5, 5 + 600000000000]
    \<and> successively (\<lambda>s t. s + fmDedupWindow m \<le> t) (keyTimes k (notified ps m)) \<and> 0 < fmDedupWindow m
    \<and> (\<forall>s. lastNotified m k = Some s \<and> s \<noteq> zeroTime \<longrightarrow>
         successively (\<lambda>s t. s + fmDedupWindow m \<le> t) (s # keyTimes k (notified ps m)))"
proof -
  define n where "n = (\<lambda>t. \<lparr>naID = ''x'', naTimestamp = t, naSeverity = [], naPattern = [], naHeadline = [], naReason = [],
    naSource = [], naDetails = []\<rparr>)"
  define K where "K = dedupKey (n 5)"
  define m1 where "m1 = snd (flowIngest 1 (n 5) NewManager)"
  define m2 where "m2 = snd (flowIngest 1 (n 6) m1)"
  let ?ps = "[OpIngest 1 (n 5), OpIngest 1 (n 6), OpIngest 1 (n (5 + 600000000000))]"
  have k: "dedupKey (n t) = K" for t by (simp add: n_def dedupKey_def K_def)
  have now: "0 < t \<Longrightarrow> flowNow 1 (n t) = t" for t by (simp add: n_def flowNow_def zeroTime_def)
  have w: "fmDedupWindow NewManager = 600000000000" by (simp add: NewManager_def)
  have w1: "fmDedupWindow m1 = 600000000000" using flowStep_window [of "OpIngest 1 (n 5)" NewManager] w by (simp add: m1_def)
  have w2: "fmDedupWindow m2 = 600000000000" using flowStep_window [of "OpIngest 1 (n 6)" m1] w1 by (simp add: m2_def)
  have s1: "snd (fst (flowIngest 1 (n 5) NewManager))" "openAlert m1 K 5"
    using ingest_first [of 1 "n 5"] by (auto simp: k now m1_def)
  have s2: "\<not> snd (fst (flowIngest 1 (n 6) m1))" "openAlert m2 K 5"
    using ingest_open [of m1 "n 6" 5 1] s1(2) by (auto simp: k now m2_def w1 timeSub_def zeroTime_def)
  have s3: "snd (fst (flowIngest 1 (n (5 + 600000000000)) m2))"
    using ingest_open [of m2 "n (5 + 600000000000)" 5 1] s2(2) now [of "5 + 600000000000"] by (auto simp: k w2 timeSub_def zeroTime_def)
  have t: "keyTimes K (notified ?ps NewManager) = [5, 5 + 600000000000]"
    using s1(1) s2(1) s3 now [of "5 + 600000000000"] by (simp add: keyTimes_def k now flip: m1_def m2_def)
  have f: "freshRun ?ps NewManager"
  proof -
    have "freshInput 1 (n 5) NewManager" by (simp add: freshInput_def NewManager_def)
    with s1(2) s2(2) show ?thesis by (auto simp: freshInput_def k openAlert_def simp flip: m1_def m2_def)
  qed
  have q: "list_all quietOp ?ps" "length (fmOrder NewManager) + length ?ps \<le> 500"
    by (simp_all add: quietOp_def NewManager_def zeroTime_def)
  from notifications_spaced [of NewManager "[]" ?ps K, OF _ _ f q] t show ?thesis
    by (intro exI [of _ K] exI [of _ ?ps] exI [of _ "[]"] exI [of _ NewManager]) simp
qed

text \<open>
  Without the freshness of identifiers the index breaks: an alert that carries the identifier of a stored one and another key
  replaces it, and the next alert with the first key is counted on the second one.
\<close>

lemma reused_id_misattributed:
  assumes "trimSpace (naID i) \<noteq> []" "naID j = naID i" "dedupKey i \<noteq> dedupKey j"
  shows "faDedupKey (fst (fst (flowIngest clk i (runFlow [OpIngest clk i, OpIngest clk j] NewManager)))) = dedupKey j"
  using assms
  by (simp add: flowIngest_def NewManager_def newAlert_def stableID_def mergeAlert_def shouldNotify_def refreshStatus_def
      cloneAlert_def Let_def)

lemma flowUpdate_error: "flowUpdate clk req m = (Inl e, m') \<Longrightarrow> m' = m"
  by (auto simp: flowUpdate_def Let_def split: option.splits sum.splits)

end
