(* ===== verification/EdgeReduce.thy ===== *)
theory EdgeReduce
  imports Interfaces "HOL-Library.Multiset"
begin

text \<open>
  The edge reducer (\<^verbatim>\<open>internal/engine/edgereduce/reducer.go\<close>): equal edges within a time window are merged into one cached
  edge with a count, the least recently used edge is flushed when the cache is full, and timers flush old edges or all.

  A cached edge is a pointer shared by the map and the list, so edges live in a heap and both hold addresses; the list
  element of an edge is its address in the list. The callback \<^verbatim>\<open>flushFn\<close> is an argument on a world \<^typ>\<open>'w\<close>, or nil. The list
  only ever holds edges, so the failing type assertion of \<^verbatim>\<open>Ingest\<close> has no branch here. Ranges over the map take the
  entries in the order of the association list, which stands for any order.
\<close>

section \<open>Model\<close>

record reduce_event =
  reType :: u32
  rePid :: u32
  reChildPid :: u32
  reDaddr :: u32
  rePathname :: string
  reInode :: u64
  reDevMajor :: u32
  reDevMinor :: u32
  reTimestampNs :: u64

abbreviation MergeWindow :: duration where "MergeWindow \<equiv> 5 * second"

definition neverMergeTypes :: "u32 \<Rightarrow> bool" where
  "neverMergeTypes t = (t = 2 \<or> t = 20 \<or> t = 21 \<or> t = 1)"

record cached_edge =
  ceSource :: string
  ceTarget :: string
  ceRelation :: string
  ceCount :: int
  ceFirstSeen :: time
  ceLastSeen :: time

definition edgeKey :: "string \<Rightarrow> string \<Rightarrow> string \<Rightarrow> string" where
  "edgeKey s t r = s @ ''|'' @ t @ ''|'' @ r"

definition ceKey :: "cached_edge \<Rightarrow> string" where
  "ceKey ce = edgeKey (ceSource ce) (ceTarget ce) (ceRelation ce)"

record reducer_stats =
  rsTotalEdges :: int
  rsMergedEdges :: int
  rsFlushedEdges :: int
  rsCacheEvictions :: int

record edge_reducer =
  erHeap :: "nat \<Rightarrow> cached_edge"
  erNext :: nat
  erCache :: "(string \<times> nat) list"
  erLru :: "nat list"
  erMaxSize :: int
  erWindow :: duration
  erStats :: reducer_stats

type_synonym 'w flush_fn = "(cached_edge \<Rightarrow> 'w \<Rightarrow> string option \<times> 'w) option"

definition noEdge :: cached_edge where
  "noEdge = \<lparr>ceSource = [], ceTarget = [], ceRelation = [], ceCount = 0, ceFirstSeen = zeroTime, ceLastSeen = zeroTime\<rparr>"

definition NewEdgeReducer :: "int \<Rightarrow> duration \<Rightarrow> edge_reducer" where
  "NewEdgeReducer maxSize window =
     \<lparr>erHeap = (\<lambda>_. noEdge), erNext = 0, erCache = [], erLru = [],
      erMaxSize = (if maxSize \<le> 0 then 10000 else maxSize),
      erWindow = (if window \<le> 0 then MergeWindow else window),
      erStats = \<lparr>rsTotalEdges = 0, rsMergedEdges = 0, rsFlushedEdges = 0, rsCacheEvictions = 0\<rparr>\<rparr>"

definition intToIP :: "u32 \<Rightarrow> string" where
  "intToIP ip = showU (drop_bit 24 ip) @ ''.'' @ showU (and (drop_bit 16 ip) 0xFF) @ ''.''
     @ showU (and (drop_bit 8 ip) 0xFF) @ ''.'' @ showU (and ip 0xFF)"

definition targetFor :: "reduce_event \<Rightarrow> string" where
  "targetFor e =
     (if 0 < reChildPid e then ''p:'' @ showU (reChildPid e)
      else if 0 < reDaddr e then ''n:'' @ intToIP (reDaddr e)
      else if rePathname e \<noteq> [] then
        (if 0 < reInode e then ''f:'' @ showU (reInode e) @ '':'' @ showU (reDevMajor e) @ '':'' @ showU (reDevMinor e)
         else ''f:path:'' @ rePathname e)
      else ''?'')"

definition relationFor :: "reduce_event \<Rightarrow> string" where
  "relationFor e = (if reType e = 1 then ''wasInformedBy'' else ''used'')"

definition evtTime :: "reduce_event \<Rightarrow> time" where
  "evtTime e = sint (reTimestampNs e)"

definition evtKey :: "reduce_event \<Rightarrow> string" where
  "evtKey e = edgeKey (''p:'' @ showU (rePid e)) (targetFor e) (relationFor e)"

definition flushLocked :: "'w flush_fn \<Rightarrow> nat \<Rightarrow> edge_reducer \<Rightarrow> 'w \<Rightarrow> string option \<times> edge_reducer \<times> 'w" where
  "flushLocked flushFn h er w =
     (case flushFn of
        None \<Rightarrow> (None, er, w)
      | Some f \<Rightarrow>
          (let st = erStats er; er = er\<lparr>erStats := st\<lparr>rsFlushedEdges := wrap64 (rsFlushedEdges st + 1)\<rparr>\<rparr>;
               (err, w) = f (erHeap er h) w
           in (err, er, w)))"

definition moveToFront :: "nat \<Rightarrow> nat list \<Rightarrow> nat list" where
  "moveToFront h l = (if h \<in> set l then h # remove1 h l else l)"

definition pushEdge :: "string \<Rightarrow> cached_edge \<Rightarrow> edge_reducer \<Rightarrow> edge_reducer" where
  "pushEdge key ce er =
     er\<lparr>erHeap := (erHeap er)(erNext er := ce), erNext := Suc (erNext er),
        erLru := erNext er # erLru er, erCache := AList.update key (erNext er) (erCache er)\<rparr>"

definition evictBack :: "'w flush_fn \<Rightarrow> edge_reducer \<Rightarrow> 'w \<Rightarrow> string option \<times> edge_reducer \<times> 'w" where
  "evictBack flushFn er w =
     (if erMaxSize er \<le> int (length (erLru er)) \<and> erLru er \<noteq> [] then
        let b = last (erLru er) in
        case flushLocked flushFn b er w of
          (Some err, er, w) \<Rightarrow> (Some err, er, w)
        | (None, er, w) \<Rightarrow>
            (let st = erStats er in
             (None, er\<lparr>erCache := AList.delete (ceKey (erHeap er b)) (erCache er), erLru := butlast (erLru er),
                erStats := st\<lparr>rsCacheEvictions := wrap64 (rsCacheEvictions st + 1)\<rparr>\<rparr>, w))
      else (None, er, w))"

definition insertEdge :: "'w flush_fn \<Rightarrow> string \<Rightarrow> cached_edge \<Rightarrow> edge_reducer \<Rightarrow> 'w
    \<Rightarrow> (string + cached_edge \<times> bool) \<times> edge_reducer \<times> 'w" where
  "insertEdge flushFn key ce er w =
     (case evictBack flushFn er w of
        (Some err, er, w) \<Rightarrow> (Inl err, er, w)
      | (None, er, w) \<Rightarrow> (Inr (ce, False), pushEdge key ce er, w))"

definition erIngest :: "'w flush_fn \<Rightarrow> reduce_event \<Rightarrow> edge_reducer \<Rightarrow> 'w
    \<Rightarrow> (string + cached_edge \<times> bool) \<times> edge_reducer \<times> 'w" where
  "erIngest flushFn evt er w =
     (let st = erStats er;
          er = er\<lparr>erStats := st\<lparr>rsTotalEdges := wrap64 (rsTotalEdges st + 1)\<rparr>\<rparr>;
          source = ''p:'' @ showU (rePid evt); target = targetFor evt; relation = relationFor evt; now = evtTime evt
      in if neverMergeTypes (reType evt)
         then (Inr (\<lparr>ceSource = source, ceTarget = target, ceRelation = relation, ceCount = 1,
                     ceFirstSeen = zeroTime, ceLastSeen = now\<rparr>, False), er, w)
         else let key = edgeKey source target relation;
                  ce = \<lparr>ceSource = source, ceTarget = target, ceRelation = relation, ceCount = 1,
                        ceFirstSeen = now, ceLastSeen = now\<rparr>
           in case map_of (erCache er) key of
                None \<Rightarrow> insertEdge flushFn key ce er w
              | Some h \<Rightarrow>
                  (let existing = erHeap er h in
                   if timeSub now (ceLastSeen existing) < erWindow er then
                     let existing = existing\<lparr>ceCount := wrap64 (ceCount existing + 1), ceLastSeen := now\<rparr>; st = erStats er
                     in (Inr (existing, True),
                         er\<lparr>erHeap := (erHeap er)(h := existing), erLru := moveToFront h (erLru er),
                            erStats := st\<lparr>rsMergedEdges := wrap64 (rsMergedEdges st + 1)\<rparr>\<rparr>, w)
                   else case flushLocked flushFn h er w of
                          (Some err, er, w) \<Rightarrow> (Inl err, er, w)
                        | (None, er, w) \<Rightarrow> insertEdge flushFn key ce er w))"

fun flushEach :: "'w flush_fn \<Rightarrow> (string \<times> nat) list \<Rightarrow> edge_reducer \<Rightarrow> 'w \<Rightarrow> edge_reducer \<times> 'w" where
  "flushEach flushFn [] er w = (er, w)"
| "flushEach flushFn ((k, h) # es) er w =
     (case flushLocked flushFn h er w of (err, er', w') \<Rightarrow> flushEach flushFn es er' w')"

definition FlushAll :: "'w flush_fn \<Rightarrow> edge_reducer \<Rightarrow> 'w \<Rightarrow> nat \<times> edge_reducer \<times> 'w" where
  "FlushAll flushFn er w =
     (case flushEach flushFn (erCache er) er w of
        (er', w') \<Rightarrow> (length (erCache er), er'\<lparr>erCache := [], erLru := []\<rparr>, w'))"

fun flushOldLoop :: "'w flush_fn \<Rightarrow> time \<Rightarrow> (string \<times> nat) list \<Rightarrow> edge_reducer \<Rightarrow> 'w \<Rightarrow> nat \<times> edge_reducer \<times> 'w" where
  "flushOldLoop flushFn cutoff [] er w = (0, er, w)"
| "flushOldLoop flushFn cutoff ((k, h) # es) er w =
     (if ceLastSeen (erHeap er h) < cutoff then
        (case flushLocked flushFn h er w of (err, er1, w1) \<Rightarrow>
         case flushOldLoop flushFn cutoff es
                (er1\<lparr>erCache := AList.delete k (erCache er1), erLru := remove1 h (erLru er1)\<rparr>) w1 of
           (n, er2, w2) \<Rightarrow> (Suc n, er2, w2))
      else flushOldLoop flushFn cutoff es er w)"

definition FlushOld :: "'w flush_fn \<Rightarrow> time \<Rightarrow> edge_reducer \<Rightarrow> 'w \<Rightarrow> nat \<times> edge_reducer \<times> 'w" where
  "FlushOld flushFn clk er w = flushOldLoop flushFn (clk - erWindow er) (erCache er) er w"

record proto_edge =
  peSource :: string
  peTarget :: string
  peRelation :: string
  peTimestampNs :: u64
  peCount :: u32

definition ToProtoEdge :: "cached_edge \<Rightarrow> proto_edge" where
  "ToProtoEdge ce = \<lparr>peSource = ceSource ce, peTarget = ceTarget ce, peRelation = ceRelation ce,
     peTimestampNs = word_of_int (ceLastSeen ce), peCount = word_of_int (ceCount ce)\<rparr>"

section \<open>Accounting\<close>

text \<open>The callback that records what it is given and never fails.\<close>

definition recorder :: "cached_edge list flush_fn" where
  "recorder = Some (\<lambda>e w. (None, w @ [e]))"

definition cachedCount :: "edge_reducer \<Rightarrow> int" where
  "cachedCount er = (\<Sum>(k, h) \<leftarrow> erCache er. ceCount (erHeap er h))"

definition loggedCount :: "cached_edge list \<Rightarrow> int" where
  "loggedCount es = (\<Sum>e \<leftarrow> es. ceCount e)"

definition red_inv :: "int \<Rightarrow> edge_reducer \<Rightarrow> cached_edge list \<Rightarrow> bool" where
  "red_inv n er es = (distinct (erLru er) \<and> distinct (map fst (erCache er)) \<and> mset (map snd (erCache er)) = mset (erLru er)
     \<and> (\<forall>(k, h) \<in> set (erCache er). ceKey (erHeap er h) = k \<and> h < erNext er \<and> 1 \<le> ceCount (erHeap er h))
     \<and> (\<forall>e \<in> set es. 1 \<le> ceCount e) \<and> cachedCount er + loggedCount es = n
     \<and> int (length (erLru er)) \<le> erMaxSize er \<and> 0 < erMaxSize er)"

lemma red_inv_stats [simp]: "red_inv n (er\<lparr>erStats := st\<rparr>) es = red_inv n er es"
  by (simp add: red_inv_def cachedCount_def)

lemma flushLocked_recorder:
  "\<exists>st. flushLocked recorder h er w = (None, er\<lparr>erStats := st\<rparr>, w @ [erHeap er h])"
  unfolding flushLocked_def recorder_def Let_def by (auto intro!: exI)

lemma sum_delete:
  "distinct (map fst c) \<Longrightarrow> (k, h) \<in> set c \<Longrightarrow>
     (\<Sum>(k, h) \<leftarrow> AList.delete k c. (f h :: int)) = (\<Sum>(k, h) \<leftarrow> c. f h) - f h
     \<and> mset (map snd (AList.delete k c)) = mset (map snd c) - {#h#}"
proof (induction c)
  case (Cons a c)
  show ?case
  proof (cases "a = (k, h)")
    case True
    then have "k \<notin> fst ` set c" using Cons.prems(1) by auto
    then have "AList.delete k c = c" by simp
    with True show ?thesis by simp
  next
    case False
    then have m: "(k, h) \<in> set c" using Cons.prems(2) by auto
    then have "fst a \<noteq> k" using Cons.prems(1) by (auto intro: rev_image_eqI)
    then have "AList.delete k (a # c) = a # AList.delete k c" by (cases a) simp
    moreover have "h \<in># mset (map snd c)" using m by force
    ultimately show ?thesis using Cons.IH [OF _ m] Cons.prems(1) by (cases a) simp
  qed
qed simp

text \<open>An edge leaves the cache and the list for the log.\<close>

lemma red_inv_leave:
  assumes "red_inv n er es" "(k, h) \<in> set (erCache er)"
  shows "red_inv n (er\<lparr>erCache := AList.delete k (erCache er), erLru := remove1 h (erLru er)\<rparr>) (es @ [erHeap er h])"
proof -
  have d: "distinct (map fst (erCache er))" using assms(1) by (simp add: red_inv_def)
  note s = sum_delete [OF d assms(2), of "\<lambda>h. ceCount (erHeap er h)"]
  have sub: "set (AList.delete k (erCache er)) \<subseteq> set (erCache er)" by (auto simp: AList.delete_eq)
  have "length (remove1 h (erLru er)) \<le> length (erLru er)" by (simp add: length_remove1)
  then show ?thesis
    using assms s sub by (fastforce simp: red_inv_def cachedCount_def loggedCount_def AList.distinct_delete)
qed

lemma red_inv_lru: "red_inv n er es \<Longrightarrow> set (map snd (erCache er)) = set (erLru er)"
  by (metis red_inv_def set_mset_mset)

lemma red_inv_cached:
  assumes "red_inv n er es" "h \<in> set (erLru er)"
  shows "(ceKey (erHeap er h), h) \<in> set (erCache er)"
  using assms red_inv_lru [OF assms(1)] by (fastforce simp: red_inv_def)

lemma butlast_remove1: "distinct xs \<Longrightarrow> xs \<noteq> [] \<Longrightarrow> remove1 (last xs) xs = butlast xs"
  by (induction xs rule: rev_induct) (auto simp: remove1_append)

lemma evictBack_inv:
  assumes "red_inv n er es" "evictBack recorder er es = (r, er', es')"
  shows "r = None \<and> red_inv n er' es' \<and> int (length (erLru er')) < erMaxSize er' \<and> erNext er' = erNext er
    \<and> set (erCache er') \<subseteq> set (erCache er)"
proof (cases "erMaxSize er \<le> int (length (erLru er)) \<and> erLru er \<noteq> []")
  case True
  let ?b = "last (erLru er)"
  obtain st where f: "flushLocked recorder ?b er es = (None, er\<lparr>erStats := st\<rparr>, es @ [erHeap er ?b])"
    using flushLocked_recorder by blast
  have c: "(ceKey (erHeap er ?b), ?b) \<in> set (erCache er)" using red_inv_cached [OF assms(1)] True by simp
  have d: "remove1 ?b (erLru er) = butlast (erLru er)" using assms(1) True by (simp add: butlast_remove1 red_inv_def)
  have i: "red_inv n (er\<lparr>erCache := AList.delete (ceKey (erHeap er ?b)) (erCache er), erLru := butlast (erLru er)\<rparr>) (es @ [erHeap er ?b])"
    using red_inv_leave [OF assms(1) c] d by simp
  obtain st' where "er' = er\<lparr>erCache := AList.delete (ceKey (erHeap er ?b)) (erCache er), erLru := butlast (erLru er), erStats := st'\<rparr>"
    "es' = es @ [erHeap er ?b]" "r = None"
    using assms(2) True f by (auto simp: evictBack_def Let_def)
  moreover have "int (length (butlast (erLru er))) < erMaxSize er"
    using assms(1) True by (cases "erLru er" rule: rev_cases) (auto simp: red_inv_def)
  ultimately show ?thesis
    using i red_inv_stats [of n st' "er\<lparr>erCache := AList.delete (ceKey (erHeap er ?b)) (erCache er), erLru := butlast (erLru er)\<rparr>"]
    by (auto simp: AList.delete_eq)
next
  case False
  with assms show ?thesis by (auto simp: evictBack_def red_inv_def)
qed

lemma update_new: "k \<notin> fst ` set al \<Longrightarrow> AList.update k v al = al @ [(k, v)]"
  by (induction al) auto

lemma pushEdge_inv:
  assumes "red_inv n er es" "ceKey ce = key" "ceCount ce = 1" "key \<notin> fst ` set (erCache er)"
    and "int (length (erLru er)) < erMaxSize er"
  shows "red_inv (n + 1) (pushEdge key ce er) es"
proof -
  have old: "h < erNext er" if "(k, h) \<in> set (erCache er)" for k h
    using that assms(1) by (auto simp: red_inv_def)
  have new: "erNext er \<notin> set (erLru er)"
    using red_inv_lru [OF assms(1)] old by fastforce
  have "(\<Sum>(k, h) \<leftarrow> erCache er. ceCount (((erHeap er)(erNext er := ce)) h)) = cachedCount er"
    unfolding cachedCount_def by (intro arg_cong [where f = sum_list] map_cong) (auto dest: old)
  then show ?thesis
    using assms new old
    by (fastforce simp: red_inv_def pushEdge_def cachedCount_def update_new)
qed

lemma sum_change:
  "distinct (map snd c) \<Longrightarrow> (k, h) \<in> set c \<Longrightarrow>
     (\<Sum>(k, j) \<leftarrow> c. ceCount ((hp(h := e)) j)) = (\<Sum>(k, j) \<leftarrow> c. ceCount (hp j)) + ceCount e - ceCount (hp h)"
proof (induction c)
  case (Cons a c)
  show ?case
  proof (cases "snd a = h")
    case True
    then have "\<forall>x \<in> set c. snd x \<noteq> h" using Cons.prems(1) by (auto simp: image_iff)
    then have "(\<Sum>(k, j) \<leftarrow> c. ceCount ((hp(h := e)) j)) = (\<Sum>(k, j) \<leftarrow> c. ceCount (hp j))"
      by (intro arg_cong [where f = sum_list] map_cong) auto
    with True show ?thesis by (cases a) simp
  next
    case False
    then have "(k, h) \<in> set c" using Cons.prems(2) by auto
    with Cons False show ?thesis by (cases a) simp
  qed
qed simp

lemma count_bound:
  assumes "red_inv n er es" "(k, h) \<in> set (erCache er)"
  shows "ceCount (erHeap er h) \<le> n"
proof -
  have pos: "\<forall>(k, j) \<in> set (erCache er). 1 \<le> ceCount (erHeap er j)" "\<forall>e \<in> set es. 1 \<le> ceCount e"
    using assms(1) by (auto simp: red_inv_def)
  have "0 \<le> loggedCount es"
    unfolding loggedCount_def using pos(2) by (intro sum_list_nonneg) auto
  moreover have le: "ceCount (erHeap er h) \<le> (\<Sum>(k, j) \<leftarrow> c. ceCount (erHeap er j))"
    if "(k, h) \<in> set c" "\<forall>(k, j) \<in> set c. 1 \<le> ceCount (erHeap er j)" for c
    using that
  proof (induction c)
    case (Cons a c)
    have "0 \<le> (\<Sum>(k, j) \<leftarrow> c. ceCount (erHeap er j))"
      using Cons.prems(2) by (intro sum_list_nonneg) auto
    with Cons show ?case by (cases a) auto
  qed simp
  ultimately show ?thesis
    using le [OF assms(2) pos(1)] assms(1) by (simp add: red_inv_def cachedCount_def)
qed

lemma merge_inv:
  assumes "red_inv n er es" "(k, h) \<in> set (erCache er)" "n + 1 < 2 ^ 63"
    and "e = (erHeap er h)\<lparr>ceCount := wrap64 (ceCount (erHeap er h) + 1), ceLastSeen := now\<rparr>"
  shows "red_inv (n + 1) (er\<lparr>erHeap := (erHeap er)(h := e), erLru := moveToFront h (erLru er)\<rparr>) es"
proof -
  have "snd (k, h) \<in> set (map snd (erCache er))" using assms(2) by (metis image_eqI set_map)
  then have h: "h \<in> set (erLru er)" "1 \<le> ceCount (erHeap er h)" "ceKey (erHeap er h) = k"
    using assms(1,2) red_inv_lru [OF assms(1)] by (auto simp: red_inv_def)
  have "wrap64 (ceCount (erHeap er h) + 1) = ceCount (erHeap er h) + 1"
    by (rule wrap64_id) (use h(2) count_bound [OF assms(1,2)] assms(3) in linarith)+
  then have c: "ceCount e = ceCount (erHeap er h) + 1" "ceKey e = ceKey (erHeap er h)"
    by (simp_all add: ceKey_def assms(4))
  have m: "mset (moveToFront h (erLru er)) = mset (erLru er)" using h by (simp add: moveToFront_def)
  then have l: "distinct (moveToFront h (erLru er))" "length (moveToFront h (erLru er)) = length (erLru er)"
    using assms(1) by (metis red_inv_def mset_eq_imp_distinct_iff, metis mset_eq_length)
  have "distinct (map snd (erCache er))"
    using assms(1) by (metis red_inv_def mset_eq_imp_distinct_iff)
  from sum_change [OF this assms(2), of "erHeap er" e] assms(1) l m c h show ?thesis
    by (auto simp: red_inv_def cachedCount_def)
qed

definition noExpiry :: "reduce_event \<Rightarrow> edge_reducer \<Rightarrow> bool" where
  "noExpiry evt er = (neverMergeTypes (reType evt)
     \<or> (case map_of (erCache er) (evtKey evt) of None \<Rightarrow> True
         | Some h \<Rightarrow> timeSub (evtTime evt) (ceLastSeen (erHeap er h)) < erWindow er))"

definition mergeable :: "reduce_event \<Rightarrow> int" where
  "mergeable evt = (if neverMergeTypes (reType evt) then 0 else 1)"

lemma insertEdge_inv:
  assumes "red_inv n er es" "ceKey ce = key" "ceCount ce = 1" "key \<notin> fst ` set (erCache er)"
    and "insertEdge recorder key ce er es = (r, er', es')"
  shows "red_inv (n + 1) er' es' \<and> r = Inr (ce, False)"
proof -
  obtain x er1 es1 where ev: "evictBack recorder er es = (x, er1, es1)" by (metis prod_cases3)
  have i: "x = None" "red_inv n er1 es1" "int (length (erLru er1)) < erMaxSize er1" "key \<notin> fst ` set (erCache er1)"
    using evictBack_inv [OF assms(1) ev] assms(4) by blast+
  with pushEdge_inv [OF i(2) assms(2,3) i(4,3)] assms(5) ev show ?thesis by (simp add: insertEdge_def)
qed

lemma erIngest_inv:
  assumes "red_inv n er es" "noExpiry evt er" "n + 1 < 2 ^ 63" "erIngest recorder evt er es = (r, er', es')"
  shows "red_inv (n + mergeable evt) er' es' \<and> \<not> isl r"
proof (cases "neverMergeTypes (reType evt)")
  case True
  with assms show ?thesis by (auto simp: erIngest_def mergeable_def Let_def)
next
  case False
  let ?er = "er\<lparr>erStats := (erStats er)\<lparr>rsTotalEdges := wrap64 (rsTotalEdges (erStats er) + 1)\<rparr>\<rparr>"
  have i: "red_inv n ?er es" using assms(1) by simp
  let ?ce = "\<lparr>ceSource = ''p:'' @ showU (rePid evt), ceTarget = targetFor evt, ceRelation = relationFor evt, ceCount = 1,
              ceFirstSeen = evtTime evt, ceLastSeen = evtTime evt\<rparr>"
  show ?thesis
  proof (cases "map_of (erCache er) (evtKey evt)")
    case None
    then have "evtKey evt \<notin> fst ` set (erCache ?er)" by (simp add: map_of_eq_None_iff)
    moreover have "insertEdge recorder (evtKey evt) ?ce ?er es = (r, er', es')"
      using assms(4) False None by (simp add: erIngest_def evtKey_def Let_def)
    ultimately show ?thesis
      using insertEdge_inv [OF i, of ?ce "evtKey evt"] False by (simp add: ceKey_def evtKey_def mergeable_def)
  next
    case (Some h)
    let ?e = "(erHeap er h)\<lparr>ceCount := wrap64 (ceCount (erHeap er h) + 1), ceLastSeen := evtTime evt\<rparr>"
    have w: "timeSub (evtTime evt) (ceLastSeen (erHeap er h)) < erWindow er" using assms(2) False Some by (simp add: noExpiry_def)
    obtain st where "er' = er\<lparr>erHeap := (erHeap er)(h := ?e), erLru := moveToFront h (erLru er)\<rparr>\<lparr>erStats := st\<rparr>" "es' = es" "\<not> isl r"
      using assms(4) False Some w by (auto simp: erIngest_def evtKey_def Let_def)
    with merge_inv [OF assms(1) map_of_SomeD [OF Some] assms(3) refl, of "evtTime evt"] False show ?thesis
      by (simp add: mergeable_def)
  qed
qed

lemma flushEach_recorder:
  "\<exists>st. flushEach recorder es er w = (er\<lparr>erStats := st\<rparr>, w @ map (\<lambda>(k, h). erHeap er h) es)"
proof (induction es arbitrary: er w)
  case Nil
  show ?case by (auto intro!: exI [of _ "erStats er"])
next
  case (Cons a es)
  obtain k h where a: "a = (k, h)" by (cases a)
  obtain st where "flushLocked recorder h er w = (None, er\<lparr>erStats := st\<rparr>, w @ [erHeap er h])"
    using flushLocked_recorder by blast
  with Cons.IH [of "er\<lparr>erStats := st\<rparr>" "w @ [erHeap er h]"] a show ?case by auto
qed

lemma FlushAll_inv:
  assumes "red_inv n er es" "FlushAll recorder er es = (c, er', es')"
  shows "red_inv n er' es' \<and> erCache er' = []"
proof -
  obtain st where f: "flushEach recorder (erCache er) er es = (er\<lparr>erStats := st\<rparr>, es @ map (\<lambda>(k, h). erHeap er h) (erCache er))"
    using flushEach_recorder by blast
  have "loggedCount (es @ map (\<lambda>(k, h). erHeap er h) (erCache er)) = loggedCount es + cachedCount er"
    unfolding loggedCount_def cachedCount_def by (simp add: comp_def case_prod_unfold)
  moreover have "\<forall>e \<in> set (map (\<lambda>(k, h). erHeap er h) (erCache er)). 1 \<le> ceCount e"
    using assms(1) by (auto simp: red_inv_def)
  ultimately show ?thesis
    using assms f by (auto simp: FlushAll_def red_inv_def cachedCount_def [of "_\<lparr>erCache := _, erLru := _\<rparr>"])
qed

lemma flushOldLoop_inv:
  assumes "red_inv n er w" "set es \<subseteq> set (erCache er)" "distinct (map fst es)"
    and "flushOldLoop recorder cutoff es er w = (c, er', w')"
  shows "red_inv n er' w'"
  using assms
proof (induction es arbitrary: er w c er' w')
  case (Cons a es)
  obtain k h where a: "a = (k, h)" by (cases a)
  show ?case
  proof (cases "ceLastSeen (erHeap er h) < cutoff")
    case True
    obtain st where f: "flushLocked recorder h er w = (None, er\<lparr>erStats := st\<rparr>, w @ [erHeap er h])"
      using flushLocked_recorder by blast
    let ?er = "er\<lparr>erStats := st, erCache := AList.delete k (erCache er), erLru := remove1 h (erLru er)\<rparr>"
    have i: "red_inv n ?er (w @ [erHeap er h])"
      using red_inv_leave [of n "er\<lparr>erStats := st\<rparr>" w k h] Cons.prems(1,2) a by simp
    have s: "set es \<subseteq> set (erCache ?er)"
      using Cons.prems(2,3) a by (auto simp: AList.delete_eq image_iff)
    obtain c1 er1 w1 where l: "flushOldLoop recorder cutoff es ?er (w @ [erHeap er h]) = (c1, er1, w1)"
      by (metis prod_cases3)
    from Cons.IH [OF i s _ l] Cons.prems(3,4) a True f l show ?thesis by simp
  next
    case False
    with Cons a show ?thesis by simp
  qed
qed simp

lemma FlushOld_inv: "red_inv n er w \<Longrightarrow> FlushOld recorder clk er w = (c, er', w') \<Longrightarrow> red_inv n er' w'"
  unfolding FlushOld_def by (rule flushOldLoop_inv) (auto simp: red_inv_def)

datatype reduce_op = ROIngest reduce_event | ROFlushAll | ROFlushOld time

fun redStep :: "'w flush_fn \<Rightarrow> reduce_op \<Rightarrow> edge_reducer \<times> 'w \<Rightarrow> edge_reducer \<times> 'w" where
  "redStep f (ROIngest evt) (er, w) = snd (erIngest f evt er w)"
| "redStep f ROFlushAll (er, w) = snd (FlushAll f er w)"
| "redStep f (ROFlushOld clk) (er, w) = snd (FlushOld f clk er w)"

fun runReduce :: "'w flush_fn \<Rightarrow> reduce_op list \<Rightarrow> edge_reducer \<times> 'w \<Rightarrow> edge_reducer \<times> 'w" where
  "runReduce f [] s = s"
| "runReduce f (p # ps) s = runReduce f ps (redStep f p s)"

text \<open>No event of the sequence meets a cached edge of its key that has left the window.\<close>

fun noExpiryRun :: "'w flush_fn \<Rightarrow> reduce_op list \<Rightarrow> edge_reducer \<times> 'w \<Rightarrow> bool" where
  "noExpiryRun f [] s = True"
| "noExpiryRun f (p # ps) s =
     ((case p of ROIngest evt \<Rightarrow> noExpiry evt (fst s) | _ \<Rightarrow> True) \<and> noExpiryRun f ps (redStep f p s))"

fun mergeableCount :: "reduce_op list \<Rightarrow> int" where
  "mergeableCount [] = 0"
| "mergeableCount (ROIngest evt # ps) = mergeable evt + mergeableCount ps"
| "mergeableCount (p # ps) = mergeableCount ps"

lemma redStep_inv:
  assumes "red_inv n (fst s) (snd s)" "case p of ROIngest evt \<Rightarrow> noExpiry evt (fst s) | _ \<Rightarrow> True" "n + 1 < 2 ^ 63"
  shows "red_inv (n + mergeableCount [p]) (fst (redStep recorder p s)) (snd (redStep recorder p s))"
proof -
  obtain er w where s: "s = (er, w)" by (cases s)
  show ?thesis
  proof (cases p)
    case (ROIngest evt)
    obtain r er' w' where e: "erIngest recorder evt er w = (r, er', w')" by (metis prod_cases3)
    with erIngest_inv [OF _ _ assms(3) e] assms ROIngest s show ?thesis by simp
  next
    case ROFlushAll
    obtain c er' w' where "FlushAll recorder er w = (c, er', w')" by (metis prod_cases3)
    with FlushAll_inv [of n er w c er' w'] assms(1) ROFlushAll s show ?thesis by simp
  next
    case (ROFlushOld clk)
    obtain c er' w' where "FlushOld recorder clk er w = (c, er', w')" by (metis prod_cases3)
    with FlushOld_inv [of n er w clk c er' w'] assms(1) ROFlushOld s show ?thesis by simp
  qed
qed

lemma mergeableCount_Cons: "mergeableCount (p # ps) = mergeableCount [p] + mergeableCount ps"
  "0 \<le> mergeableCount [p]" "mergeableCount [p] \<le> 1"
  by (cases p; simp add: mergeable_def)+

lemma runReduce_inv:
  assumes "red_inv n (fst s) (snd s)" "noExpiryRun recorder ps s" "n + int (length ps) < 2 ^ 63"
  shows "red_inv (n + mergeableCount ps) (fst (runReduce recorder ps s)) (snd (runReduce recorder ps s))"
  using assms
proof (induction ps arbitrary: n s)
  case (Cons p ps)
  have "red_inv (n + mergeableCount [p]) (fst (redStep recorder p s)) (snd (redStep recorder p s))"
    by (rule redStep_inv) (use Cons.prems in auto)
  from Cons.IH [OF this] Cons.prems(2,3) mergeableCount_Cons(1) [of p ps] mergeableCount_Cons(2,3) [of p] show ?case
    by (simp add: add.assoc)
qed simp

lemma NewEdgeReducer_inv: "red_inv 0 (NewEdgeReducer maxSize window) []"
  by (simp add: red_inv_def NewEdgeReducer_def cachedCount_def loggedCount_def)

lemma redStep_max: "erMaxSize (fst (redStep recorder p s)) = erMaxSize (fst s)"
proof -
  have fl: "erMaxSize er' = erMaxSize er" if "flushLocked recorder h er w = (e, er', w')" for h er w e er' w'
    using that by (auto simp: flushLocked_def recorder_def Let_def)
  have ev: "erMaxSize er' = erMaxSize er" if "evictBack recorder er w = (e, er', w')" for er w e er' w'
    using that by (auto simp: evictBack_def Let_def dest: fl split: if_splits prod.splits option.splits)
  have ins: "erMaxSize (fst (snd (insertEdge recorder key ce er w))) = erMaxSize er" for key ce er w
    by (auto simp: insertEdge_def pushEdge_def dest: ev split: prod.splits option.splits)
  have old: "erMaxSize er' = erMaxSize er" if "flushOldLoop recorder cu es er w = (e, er', w')" for cu es er w e er' w'
    using that by (induction es arbitrary: er w e er' w') (auto split: if_splits prod.splits dest: fl)
  obtain er w where s: "s = (er, w)" by (cases s)
  show ?thesis
  proof (cases p)
    case (ROIngest evt)
    then show ?thesis
      by (auto simp: s erIngest_def Let_def ins dest: fl split: option.splits prod.splits)
  next
    case ROFlushAll
    then show ?thesis using flushEach_recorder [of "erCache er" er w] by (auto simp: s FlushAll_def)
  next
    case (ROFlushOld clk)
    then show ?thesis
      using old [of "clk - erWindow er" "erCache er" er w] by (simp add: s FlushOld_def) (metis prod.collapse)
  qed
qed

lemma runReduce_max: "erMaxSize (fst (runReduce recorder ps s)) = erMaxSize (fst s)"
  by (induction ps arbitrary: s) (auto simp: redStep_max)


definition sampleEvent :: "u32 \<Rightarrow> u64 \<Rightarrow> reduce_event" where
  "sampleEvent pid t = \<lparr>reType = 10, rePid = pid, reChildPid = 0, reDaddr = 0, rePathname = [], reInode = 0,
     reDevMajor = 0, reDevMinor = 0, reTimestampNs = t\<rparr>"

definition sampleEdge :: "u32 \<Rightarrow> int \<Rightarrow> time \<Rightarrow> time \<Rightarrow> cached_edge" where
  "sampleEdge pid c t0 t1 = \<lparr>ceSource = ''p:'' @ showU pid, ceTarget = ''?'', ceRelation = ''used'', ceCount = c,
     ceFirstSeen = t0, ceLastSeen = t1\<rparr>"

lemmas sample_simps = sampleEvent_def sampleEdge_def erIngest_def insertEdge_def evictBack_def pushEdge_def flushLocked_def
  recorder_def NewEdgeReducer_def moveToFront_def targetFor_def relationFor_def evtTime_def evtKey_def edgeKey_def ceKey_def
  neverMergeTypes_def timeSub_def mergeable_def noExpiry_def FlushAll_def Let_def showBase.simps digitChar_def


text \<open>
  An event that meets an expired edge of its key breaks this. The old edge is flushed but stays in the list; when it is
  evicted it is flushed again, and its eviction drops the map entry of the new edge, which a full flush then misses.
\<close>

lemma expired_edge_flushed_twice:
  "snd (runReduce recorder [ROIngest (sampleEvent 1 3), ROIngest (sampleEvent 1 200), ROIngest (sampleEvent 2 201), ROFlushAll]
     (NewEdgeReducer 2 100, [])) = [sampleEdge 1 1 3 3, sampleEdge 1 1 3 3, sampleEdge 2 1 201 201]"
  by (simp add: sample_simps)

end
