(* ===== verification/GoHeap.thy ===== *)
theory GoHeap
  imports Interfaces "HOL-Library.Multiset"
begin

text \<open>
  Go's \<^verbatim>\<open>container/heap\<close>: the sift operations over the methods \<^verbatim>\<open>Less\<close> and \<^verbatim>\<open>Swap\<close> of a client, and a locale with
  what the client owes them. Inside it the operations are shown to keep the heap order.
\<close>

section \<open>Sift operations\<close>

text \<open>In Go \<^verbatim>\<open>(j - 1) / 2\<close> is 0 at the root, as is the truncated subtraction here.\<close>

abbreviation parent :: "nat \<Rightarrow> nat" where
  "parent j \<equiv> (j - 1) div 2"

lemma parent_less: "0 < j \<Longrightarrow> parent j < j"
  by auto

lemma parent_kids: "0 < k \<Longrightarrow> parent k = i \<longleftrightarrow> k = 2 * i + 1 \<or> k = 2 * i + 2"
  by auto

function heapUp :: "(nat \<Rightarrow> nat \<Rightarrow> 'h \<Rightarrow> bool) \<Rightarrow> (nat \<Rightarrow> nat \<Rightarrow> 'h \<Rightarrow> 'h) \<Rightarrow> nat \<Rightarrow> 'h \<Rightarrow> 'h" where
  "heapUp hless swap j h =
     (let i = parent j in if i = j \<or> \<not> hless j i h then h else heapUp hless swap i (swap i j h))"
  by pat_completeness auto
termination
  by (relation "measure (\<lambda>(hless, swap, j, h). j)") auto

declare heapUp.simps [simp del]

definition smallerChild :: "(nat \<Rightarrow> nat \<Rightarrow> 'h \<Rightarrow> bool) \<Rightarrow> nat \<Rightarrow> nat \<Rightarrow> 'h \<Rightarrow> nat" where
  "smallerChild hless i n h = (let j1 = 2 * i + 1 in if j1 + 1 < n \<and> hless (j1 + 1) j1 h then j1 + 1 else j1)"

function heapDown :: "(nat \<Rightarrow> nat \<Rightarrow> 'h \<Rightarrow> bool) \<Rightarrow> (nat \<Rightarrow> nat \<Rightarrow> 'h \<Rightarrow> 'h) \<Rightarrow> nat \<Rightarrow> nat \<Rightarrow> 'h \<Rightarrow> 'h" where
  "heapDown hless swap i n h =
     (if n \<le> 2 * i + 1 then h
      else let j = smallerChild hless i n h in
        if \<not> hless j i h then h else heapDown hless swap j n (swap i j h))"
  by pat_completeness auto
termination
  by (relation "measure (\<lambda>(hless, swap, i, n, h). n - i)") (auto simp: smallerChild_def Let_def)

declare heapDown.simps [simp del]

section \<open>Heap order\<close>

definition swapAt :: "nat \<Rightarrow> nat \<Rightarrow> 'a list \<Rightarrow> 'a list" where
  "swapAt i j xs = xs[i := xs ! j, j := xs ! i]"

lemma swapAt_simps:
  assumes "i < length xs" "j < length xs"
  shows "swapAt i j xs ! i = xs ! j" "swapAt i j xs ! j = xs ! i" "length (swapAt i j xs) = length xs"
    "k \<noteq> i \<Longrightarrow> k \<noteq> j \<Longrightarrow> swapAt i j xs ! k = xs ! k" "mset (swapAt i j xs) = mset xs"
  using assms by (auto simp: swapAt_def nth_list_update mset_swap)

locale heap_interface =
  fixes hless :: "nat \<Rightarrow> nat \<Rightarrow> 'h \<Rightarrow> bool"
    and swap :: "nat \<Rightarrow> nat \<Rightarrow> 'h \<Rightarrow> 'h"
    and elems :: "'h \<Rightarrow> 'a list"
    and lt :: "'a \<Rightarrow> 'a \<Rightarrow> bool"
  assumes less_lt: "i < length (elems h) \<Longrightarrow> j < length (elems h) \<Longrightarrow> hless i j h = lt (elems h ! i) (elems h ! j)"
    and swap_elems: "i < length (elems h) \<Longrightarrow> j < length (elems h) \<Longrightarrow> elems (swap i j h) = swapAt i j (elems h)"
    and lt_asym: "lt a b \<Longrightarrow> \<not> lt b a"
    and le_trans: "\<not> lt b a \<Longrightarrow> \<not> lt c b \<Longrightarrow> \<not> lt c a"
begin

definition isHeap :: "nat \<Rightarrow> 'a list \<Rightarrow> bool" where
  "isHeap n xs = (\<forall>k < n. 0 < k \<longrightarrow> \<not> lt (xs ! k) (xs ! parent k))"

definition upAlmost :: "nat \<Rightarrow> 'a list \<Rightarrow> bool" where
  "upAlmost j xs = ((\<forall>k < length xs. 0 < k \<and> k \<noteq> j \<longrightarrow> \<not> lt (xs ! k) (xs ! parent k))
     \<and> (0 < j \<longrightarrow> (\<forall>k < length xs. 0 < k \<and> parent k = j \<longrightarrow> \<not> lt (xs ! k) (xs ! parent j))))"

definition downAlmost :: "nat \<Rightarrow> nat \<Rightarrow> 'a list \<Rightarrow> bool" where
  "downAlmost i n xs = ((\<forall>k < n. 0 < k \<and> parent k \<noteq> i \<longrightarrow> \<not> lt (xs ! k) (xs ! parent k))
     \<and> (0 < i \<longrightarrow> (\<forall>k < n. 0 < k \<and> parent k = i \<longrightarrow> \<not> lt (xs ! k) (xs ! parent i))))"

lemma upAlmost_swap:
  assumes "upAlmost j xs" "j < length xs" "0 < j" "lt (xs ! j) (xs ! parent j)"
  shows "upAlmost (parent j) (swapAt (parent j) j xs)"
proof -
  let ?i = "parent j" let ?ys = "swapAt ?i j xs"
  have lts: "?i < length xs" "?i < j" using assms(2,3) by auto
  note sw = swapAt_simps [OF lts(1) assms(2)]
  have old: "\<not> lt (xs ! k) (xs ! parent k)" if "k < length xs" "0 < k" "k \<noteq> j" for k
    using assms(1) that by (auto simp: upAlmost_def)
  have kid: "\<not> lt (xs ! k) (xs ! ?i)" if "k < length xs" "0 < k" "parent k = j" for k
    using assms(1,3) that by (auto simp: upAlmost_def)
  have sib: "\<not> lt (xs ! k) (xs ! j)" if "k < length xs" "0 < k" "k \<noteq> j" "parent k = ?i" for k
    using le_trans [OF lt_asym [OF assms(4)]] old [OF that(1-3)] that(4) by simp
  have "\<not> lt (?ys ! k) (?ys ! parent k)" if "k < length xs" "0 < k" "k \<noteq> ?i" for k
  proof -
    consider "k = j" | "k \<noteq> j" "parent k = j" | "k \<noteq> j" "parent k = ?i" | "k \<noteq> j" "parent k \<noteq> j" "parent k \<noteq> ?i"
      by blast
    then show ?thesis
    proof cases
      case 1
      then show ?thesis by (metis lt_asym [OF assms(4)] sw(1,2))
    next
      case 2
      then show ?thesis by (metis kid that sw(2) sw(4))
    next
      case 3
      then show ?thesis by (metis sib that sw(1) sw(4))
    next
      case 4
      then show ?thesis by (metis old that sw(4))
    qed
  qed
  moreover have "\<not> lt (?ys ! k) (?ys ! parent ?i)" if "0 < ?i" "k < length xs" "0 < k" "parent k = ?i" for k
  proof -
    have p: "parent ?i \<noteq> ?i" "parent ?i \<noteq> j" "k \<noteq> ?i"
      using parent_less [OF that(1)] parent_less [OF that(3)] lts that(4) by linarith+
    have top: "\<not> lt (xs ! ?i) (xs ! parent ?i)" using old [of ?i] that(1) lts by simp
    show ?thesis
    proof (cases "k = j")
      case True
      with top sw(2) sw(4) [OF p(1,2)] show ?thesis by simp
    next
      case False
      with le_trans [OF top, of "xs ! k"] old [OF that(2,3) False] that(4) sw(4) [OF p(3) False] sw(4) [OF p(1,2)]
      show ?thesis by simp
    qed
  qed
  ultimately show ?thesis unfolding upAlmost_def sw(3) by blast
qed

lemma heapUp_correct:
  "upAlmost j (elems h) \<Longrightarrow> j < length (elems h) \<Longrightarrow>
     isHeap (length (elems h)) (elems (heapUp hless swap j h)) \<and> mset (elems (heapUp hless swap j h)) = mset (elems h)
     \<and> length (elems (heapUp hless swap j h)) = length (elems h)"
proof (induction j arbitrary: h rule: less_induct)
  case (less j)
  let ?i = "parent j"
  have i: "?i < length (elems h)" using less.prems(2) by simp
  show ?case
  proof (cases "?i = j \<or> \<not> lt (elems h ! j) (elems h ! ?i)")
    case True
    then have "heapUp hless swap j h = h"
      using less_lt [OF less.prems(2) i] by (subst heapUp.simps) (auto simp: Let_def)
    moreover have "isHeap (length (elems h)) (elems h)"
      using less.prems(1) True by (auto simp: isHeap_def upAlmost_def)
    ultimately show ?thesis by simp
  next
    case False
    then have j: "0 < j" "?i < j" by auto
    have e: "elems (swap ?i j h) = swapAt ?i j (elems h)" by (rule swap_elems [OF i less.prems(2)])
    have u: "heapUp hless swap j h = heapUp hless swap ?i (swap ?i j h)"
      using False less_lt [OF less.prems(2) i] by (subst heapUp.simps) (auto simp: Let_def)
    have a: "upAlmost ?i (elems (swap ?i j h))"
      unfolding e using upAlmost_swap [OF less.prems j(1)] False by simp
    have l: "length (elems (swap ?i j h)) = length (elems h)" "mset (elems (swap ?i j h)) = mset (elems h)"
      using e swapAt_simps(3,5) [OF i less.prems(2)] by simp_all
    from less.IH [OF j(2) a] i l u show ?thesis by simp
  qed
qed

lemma downAlmost_swap:
  assumes "downAlmost i n xs" "n \<le> length xs" "j < n" "0 < j" "parent j = i" "lt (xs ! j) (xs ! i)"
    and small: "\<And>k. k < n \<Longrightarrow> 0 < k \<Longrightarrow> parent k = i \<Longrightarrow> \<not> lt (xs ! k) (xs ! j)"
  shows "downAlmost j n (swapAt i j xs)"
proof -
  let ?ys = "swapAt i j xs"
  have ij: "i < j" using parent_less [OF assms(4)] assms(5) by simp
  have b: "i < length xs" "j < length xs" using assms(2,3) ij by auto
  note sw = swapAt_simps [OF b]
  have old: "\<not> lt (xs ! k) (xs ! parent k)" if "k < n" "0 < k" "parent k \<noteq> i" for k
    using assms(1) that by (auto simp: downAlmost_def)
  have top: "\<not> lt (xs ! j) (xs ! parent i)" if "0 < i"
    using assms(1,3,4,5) that by (auto simp: downAlmost_def)
  have "\<not> lt (?ys ! k) (?ys ! parent k)" if k: "k < n" "0 < k" "parent k \<noteq> j" for k
  proof -
    consider "k = j" | "k \<noteq> j" "parent k = i" | "k = i" | "k \<noteq> j" "k \<noteq> i" "parent k \<noteq> i"
      by blast
    then show ?thesis
    proof cases
      case 1
      then show ?thesis by (metis lt_asym [OF assms(6)] assms(5) sw(1,2))
    next
      case 2
      then have "k \<noteq> i" using parent_less [OF k(2)] by auto
      with 2 show ?thesis by (metis small k sw(1) sw(4))
    next
      case 3
      with parent_less [OF k(2)] have p: "parent i \<noteq> i" "parent i \<noteq> j" using ij by linarith+
      with 3 k top show ?thesis by (metis sw(1) sw(4))
    next
      case 4
      then show ?thesis by (metis old k sw(4))
    qed
  qed
  moreover have "\<not> lt (?ys ! k) (?ys ! parent j)" if k: "k < n" "0 < k" "parent k = j" for k
  proof -
    have "k \<noteq> j" "k \<noteq> i" using parent_less [OF k(2)] k(3) ij by auto
    moreover have "\<not> lt (xs ! k) (xs ! j)" using old [OF k(1,2)] k(3) ij by auto
    ultimately show ?thesis using sw(1) sw(4) assms(5) by metis
  qed
  ultimately show ?thesis by (simp add: downAlmost_def)
qed

lemma smallerChild:
  assumes "2 * i + 1 < n" "n \<le> length (elems h)" "j = smallerChild hless i n h"
  shows "j < n" "0 < j" "parent j = i" "k < n \<Longrightarrow> 0 < k \<Longrightarrow> parent k = i \<Longrightarrow> \<not> lt (elems h ! k) (elems h ! j)"
proof -
  show "j < n" "0 < j" "parent j = i" using assms(1,3) by (auto simp: smallerChild_def Let_def)
  assume k: "k < n" "0 < k" "parent k = i"
  then have "k = 2 * i + 1 \<or> k = 2 * i + 2" using parent_kids by blast
  moreover have "\<not> lt a a" for a using lt_asym by blast
  moreover have "2 * i + 2 < n \<Longrightarrow> hless (2 * i + 2) (2 * i + 1) h = lt (elems h ! (2 * i + 2)) (elems h ! (2 * i + 1))"
    using less_lt [of "2 * i + 2" h "2 * i + 1"] assms(1,2) by auto
  ultimately show "\<not> lt (elems h ! k) (elems h ! j)"
    using k(1) lt_asym assms(3) by (auto simp: smallerChild_def Let_def)
qed

lemma heapDown_correct:
  "downAlmost i n (elems h) \<Longrightarrow> n \<le> length (elems h) \<Longrightarrow>
     isHeap n (elems (heapDown hless swap i n h)) \<and> mset (elems (heapDown hless swap i n h)) = mset (elems h)
     \<and> length (elems (heapDown hless swap i n h)) = length (elems h)
     \<and> (\<forall>k. n \<le> k \<longrightarrow> k < length (elems h) \<longrightarrow> elems (heapDown hless swap i n h) ! k = elems h ! k)"
proof (induction "n - i" arbitrary: i h rule: less_induct)
  case (less i h)
  show ?case
  proof (cases "n \<le> 2 * i + 1")
    case True
    then have "heapDown hless swap i n h = h" by (subst heapDown.simps) simp
    moreover have "parent k \<noteq> i" if "k < n" "0 < k" for k
      using parent_kids [OF that(2), of i] that(1) True by linarith
    then have "isHeap n (elems h)"
      using less.prems(1) unfolding isHeap_def downAlmost_def by blast
    ultimately show ?thesis by simp
  next
    case False
    let ?j = "smallerChild hless i n h"
    have c: "2 * i + 1 < n" using False by simp
    note sc = smallerChild [OF c less.prems(2) refl]
    have b: "i < length (elems h)" "?j < length (elems h)" using sc(1) c less.prems(2) by auto
    show ?thesis
    proof (cases "lt (elems h ! ?j) (elems h ! i)")
      case True
      have e: "elems (swap i ?j h) = swapAt i ?j (elems h)" by (rule swap_elems [OF b])
      have u: "heapDown hless swap i n h = heapDown hless swap ?j n (swap i ?j h)"
        using c True less_lt [OF b(2,1)] by (subst heapDown.simps) (simp add: Let_def)
      have a: "downAlmost ?j n (elems (swap i ?j h))"
        unfolding e by (rule downAlmost_swap [OF less.prems sc(1-3) True]) (rule sc(4))
      have l: "length (elems (swap i ?j h)) = length (elems h)" "mset (elems (swap i ?j h)) = mset (elems h)"
        "\<And>k. n \<le> k \<Longrightarrow> elems (swap i ?j h) ! k = elems h ! k"
        using e swapAt_simps [OF b] sc(1) c by (auto simp: swapAt_def)
      have m: "n - ?j < n - i" using parent_less [OF sc(2)] sc(1,3) by linarith
      from less.hyps [OF m a] l less.prems(2) u show ?thesis by simp
    next
      case False
      have u: "heapDown hless swap i n h = h"
        using c False less_lt [OF b(2,1)] by (subst heapDown.simps) (simp add: Let_def)
      have "\<not> lt (elems h ! k) (elems h ! parent k)" if "k < n" "0 < k" for k
        using that less.prems(1) le_trans [OF False sc(4) [OF that]] by (cases "parent k = i") (auto simp: downAlmost_def)
      with u show ?thesis by (simp add: isHeap_def)
    qed
  qed
qed

text \<open>The root of a heap precedes every element.\<close>

lemma isHeap_root: "isHeap n xs \<Longrightarrow> k < n \<Longrightarrow> \<not> lt (xs ! k) (xs ! 0)"
proof (induction k rule: less_induct)
  case (less k)
  show ?case
  proof (cases "k = 0")
    case True
    then show ?thesis using lt_asym by blast
  next
    case False
    then have p: "parent k < k" using parent_less by simp
    have "\<not> lt (xs ! parent k) (xs ! 0)" using less.IH [OF p less.prems(1)] p less.prems(2) by simp
    moreover have "\<not> lt (xs ! k) (xs ! parent k)" using less.prems False by (simp add: isHeap_def)
    ultimately show ?thesis by (rule le_trans)
  qed
qed

end

end
