(* ===== verification/EventQueue.thy ===== *)
theory EventQueue
  imports GoHeap Complex_Main
begin

text \<open>
  The priority queue of the central server (\<^verbatim>\<open>internal/stitcher/server/queue.go\<close>) over Go's heap, and the load
  controller that watches its depth (\<^verbatim>\<open>throttle.go\<close>). A risk score is compared and never computed with; a finite
  \<^verbatim>\<open>float64\<close> is a rational number, NaN is excluded.
\<close>

section \<open>Priority queue\<close>

record queue_event =
  qeID :: string
  qeHostID :: string
  qeEventType :: string
  qeRiskScore :: rat
  qeTainted :: bool
  qeTimestamp :: time
  qeIndex :: int

type_synonym priority_queue = "queue_event list"

definition qeLess :: "queue_event \<Rightarrow> queue_event \<Rightarrow> bool" where
  "qeLess a b =
     (if qeRiskScore a \<noteq> qeRiskScore b then qeRiskScore a > qeRiskScore b
      else if qeTainted a \<noteq> qeTainted b then qeTainted a
      else qeTimestamp a < qeTimestamp b)"

definition pqLess :: "nat \<Rightarrow> nat \<Rightarrow> priority_queue \<Rightarrow> bool" where
  "pqLess i j pq = qeLess (pq ! i) (pq ! j)"

definition pqSwap :: "nat \<Rightarrow> nat \<Rightarrow> priority_queue \<Rightarrow> priority_queue" where
  "pqSwap i j pq =
     (let pq = pq[i := pq ! j, j := pq ! i];
          pq = pq[i := (pq ! i)\<lparr>qeIndex := int i\<rparr>]
      in pq[j := (pq ! j)\<lparr>qeIndex := int j\<rparr>])"

definition pqPush :: "queue_event \<Rightarrow> priority_queue \<Rightarrow> priority_queue" where
  "pqPush item pq = pq @ [item\<lparr>qeIndex := int (length pq)\<rparr>]"

definition pqPop :: "priority_queue \<Rightarrow> queue_event \<times> priority_queue" where
  "pqPop pq = ((last pq)\<lparr>qeIndex := -1\<rparr>, butlast pq)"

record event_queue =
  eqQueue :: priority_queue
  eqEnqueued :: int
  eqProcessed :: int

definition NewEventQueueManager :: event_queue where
  "NewEventQueueManager = \<lparr>eqQueue = [], eqEnqueued = 0, eqProcessed = 0\<rparr>"

definition Enqueue :: "queue_event \<Rightarrow> event_queue \<Rightarrow> event_queue" where
  "Enqueue evt eq =
     (let q = pqPush evt (eqQueue eq) in
      eq\<lparr>eqQueue := heapUp pqLess pqSwap (length q - 1) q, eqEnqueued := wrap64 (eqEnqueued eq + 1)\<rparr>)"

definition Dequeue :: "event_queue \<Rightarrow> queue_event option \<times> event_queue" where
  "Dequeue eq =
     (if eqQueue eq = [] then (None, eq)
      else let n = length (eqQueue eq) - 1;
               q = heapDown pqLess pqSwap 0 n (pqSwap 0 n (eqQueue eq));
               (evt, q) = pqPop q
           in (Some evt, eq\<lparr>eqQueue := q, eqProcessed := wrap64 (eqProcessed eq + 1)\<rparr>))"

definition Peek :: "event_queue \<Rightarrow> queue_event option" where
  "Peek eq = (if eqQueue eq = [] then None else Some (eqQueue eq ! 0))"

definition eqSize :: "event_queue \<Rightarrow> nat" where
  "eqSize eq = length (eqQueue eq)"

section \<open>Load controller\<close>

datatype server_load = LoadLow | LoadMedium | LoadHigh | LoadCritical

record agent_stats =
  asAgentID :: string
  asEventsSent :: int
  asLastHeartbeat :: time
  asThrottleLevel :: int

record load_controller =
  lcLoad :: server_load
  lcQueue :: "event_queue option"
  lcAgents :: "(string \<times> agent_stats) list"
  lcThrottleLevel :: int
  lcLastAdjust :: time
  lcHighThreshold :: int
  lcCritThreshold :: int
  lcCheckInterval :: duration

definition NewLoadController :: "time \<Rightarrow> event_queue option \<Rightarrow> load_controller" where
  "NewLoadController clk q = \<lparr>lcLoad = LoadLow, lcQueue = q, lcAgents = [], lcThrottleLevel = 0, lcLastAdjust = clk,
     lcHighThreshold = 10000, lcCritThreshold = 50000, lcCheckInterval = 5 * second\<rparr>"

definition setLoad :: "server_load \<Rightarrow> int \<Rightarrow> load_controller \<Rightarrow> load_controller" where
  "setLoad l t lc = lc\<lparr>lcLoad := l, lcThrottleLevel := t\<rparr>"

text \<open>The last branch asks the queue again, this time without the nil check: a panic, \<^const>\<open>None\<close>.\<close>

definition loadTick :: "time \<Rightarrow> load_controller \<Rightarrow> load_controller option" where
  "loadTick clk lc0 =
     (let depth = (case lcQueue lc0 of None \<Rightarrow> 0 | Some q \<Rightarrow> int (eqSize q));
          next = (if depth \<ge> lcCritThreshold lc0 then Some (setLoad LoadCritical 3 lc0)
                  else if depth \<ge> lcHighThreshold lc0 then Some (setLoad LoadHigh 2 lc0)
                  else if depth \<ge> lcHighThreshold lc0 div 2 then Some (setLoad LoadMedium 1 lc0)
                  else case lcQueue lc0 of
                         None \<Rightarrow> None
                       | Some q \<Rightarrow> Some (if int (eqSize q) < lcHighThreshold lc0 div 4 then setLoad LoadLow 0 lc0 else lc0))
      in case next of
           None \<Rightarrow> None
         | Some lc \<Rightarrow>
             Some (if lcLoad lc = lcLoad lc0 then lc
                   else if lcThrottleLevel lc \<noteq> lcThrottleLevel lc0 then lc\<lparr>lcLastAdjust := clk\<rparr> else lc))"

definition RegisterAgent :: "time \<Rightarrow> string \<Rightarrow> load_controller \<Rightarrow> load_controller" where
  "RegisterAgent clk i lc = lc\<lparr>lcAgents := AList.update i
     \<lparr>asAgentID = i, asEventsSent = 0, asLastHeartbeat = clk, asThrottleLevel = 0\<rparr> (lcAgents lc)\<rparr>"

definition Heartbeat :: "time \<Rightarrow> string \<Rightarrow> load_controller \<Rightarrow> load_controller" where
  "Heartbeat clk i lc =
     (case map_of (lcAgents lc) i of
        None \<Rightarrow> lc
      | Some a \<Rightarrow> lc\<lparr>lcAgents := AList.update i
          (a\<lparr>asLastHeartbeat := clk, asEventsSent := wrap64 (asEventsSent a + 1)\<rparr>) (lcAgents lc)\<rparr>)"

section \<open>The queue is a heap\<close>

text \<open>The index of an event only mirrors its place, so events are compared without it.\<close>

definition qeCore :: "queue_event \<Rightarrow> queue_event" where
  "qeCore e = e\<lparr>qeIndex := 0\<rparr>"

lemma qeCore_simps [simp]: "qeLess (qeCore a) b = qeLess a b" "qeLess a (qeCore b) = qeLess a b"
  "qeCore (e\<lparr>qeIndex := k\<rparr>) = qeCore e"
  by (simp_all add: qeLess_def qeCore_def)

lemma pqSwap_core:
  assumes "i < length q" "j < length q"
  shows "map qeCore (pqSwap i j q) = swapAt i j (map qeCore q)"
  using assms by (auto simp: pqSwap_def swapAt_def Let_def map_update nth_list_update list_eq_iff_nth_eq)

interpretation pq: heap_interface pqLess pqSwap "map qeCore" qeLess
proof unfold_locales
  show "pqLess i j h = qeLess (map qeCore h ! i) (map qeCore h ! j)"
    if "i < length (map qeCore h)" "j < length (map qeCore h)" for i j h
    using that by (simp add: pqLess_def)
  show "map qeCore (pqSwap i j h) = swapAt i j (map qeCore h)"
    if "i < length (map qeCore h)" "j < length (map qeCore h)" for i j h
    using that by (simp add: pqSwap_core)
  show "\<not> qeLess b a" if "qeLess a b" for a b
    using that by (auto simp: qeLess_def split: if_splits)
  show "\<not> qeLess c a" if "\<not> qeLess b a" "\<not> qeLess c b" for a b c
    using that by (auto simp: qeLess_def split: if_splits)
qed

definition eq_inv :: "event_queue \<Rightarrow> bool" where
  "eq_inv eq = pq.isHeap (length (eqQueue eq)) (map qeCore (eqQueue eq))"

lemma Enqueue_inv:
  assumes "eq_inv eq"
  shows "eq_inv (Enqueue evt eq) \<and> mset (map qeCore (eqQueue (Enqueue evt eq))) = add_mset (qeCore evt) (mset (map qeCore (eqQueue eq)))"
proof -
  let ?q = "pqPush evt (eqQueue eq)" and ?n = "length (eqQueue eq)"
  have len: "length ?q = Suc ?n" by (simp add: pqPush_def)
  have nth: "map qeCore ?q ! k = map qeCore (eqQueue eq) ! k" if "k < ?n" for k
    using that by (simp add: pqPush_def nth_append)
  have old: "\<not> qeLess (map qeCore (eqQueue eq) ! k) (map qeCore (eqQueue eq) ! parent k)" if "k < ?n" "0 < k" for k
    using assms that by (simp add: eq_inv_def pq.isHeap_def)
  have "pq.upAlmost ?n (map qeCore ?q)"
    unfolding pq.upAlmost_def
  proof (intro conjI allI impI)
    fix k assume k: "k < length (map qeCore ?q)" "0 < k \<and> k \<noteq> ?n"
    then have "k < ?n" "parent k < ?n" using len parent_less [of k] by auto
    with old [of k] k nth show "\<not> qeLess (map qeCore ?q ! k) (map qeCore ?q ! parent k)" by metis
  next
    fix k assume k: "k < length (map qeCore ?q)" "0 < k \<and> parent k = ?n"
    then have "False" using parent_less [of k] len by auto
    then show "\<not> qeLess (map qeCore ?q ! k) (map qeCore ?q ! parent ?n)" ..
  qed
  then have "pq.isHeap (length (map qeCore ?q)) (map qeCore (heapUp pqLess pqSwap ?n ?q))
    \<and> mset (map qeCore (heapUp pqLess pqSwap ?n ?q)) = mset (map qeCore ?q)
    \<and> length (map qeCore (heapUp pqLess pqSwap ?n ?q)) = length (map qeCore ?q)"
    by (rule pq.heapUp_correct) (simp add: len)
  then show ?thesis
    by (simp add: Enqueue_def eq_inv_def len Let_def) (simp add: pqPush_def)
qed

lemma Dequeue_inv:
  assumes "eq_inv eq" "eqQueue eq \<noteq> []"
  obtains e eq' where "Dequeue eq = (Some e, eq')" "eq_inv eq'" "qeCore e = qeCore (eqQueue eq ! 0)"
    "mset (map qeCore (eqQueue eq)) = add_mset (qeCore e) (mset (map qeCore (eqQueue eq')))"
proof -
  let ?q = "eqQueue eq" let ?xs = "map qeCore ?q"
  define n where "n = length ?q - 1"
  have n: "length ?q = Suc n" "0 < length ?xs" "n < length ?xs" using assms(2) by (auto simp: n_def)
  let ?q1 = "pqSwap 0 n ?q" let ?q2 = "heapDown pqLess pqSwap 0 n ?q1"
  have x1: "map qeCore ?q1 = swapAt 0 n ?xs" using n by (intro pqSwap_core) auto
  note sw = swapAt_simps [OF n(2,3)]
  have "pq.downAlmost 0 n (map qeCore ?q1)"
    unfolding pq.downAlmost_def
  proof (intro conjI allI impI)
    fix k assume k: "k < n" "0 < k \<and> parent k \<noteq> 0"
    then have p: "k \<noteq> 0" "k \<noteq> n" "parent k \<noteq> 0" "parent k \<noteq> n" using parent_less [of k] by linarith+
    have "\<not> qeLess (?xs ! k) (?xs ! parent k)" using assms(1) k n(1) by (simp add: eq_inv_def pq.isHeap_def)
    then show "\<not> qeLess (map qeCore ?q1 ! k) (map qeCore ?q1 ! parent k)"
      unfolding x1 sw(4) [OF p(1,2)] sw(4) [OF p(3,4)] .
  qed simp
  then have d: "pq.isHeap n (map qeCore ?q2) \<and> mset (map qeCore ?q2) = mset (map qeCore ?q1)
    \<and> length (map qeCore ?q2) = length (map qeCore ?q1)
    \<and> (\<forall>k. n \<le> k \<longrightarrow> k < length (map qeCore ?q1) \<longrightarrow> map qeCore ?q2 ! k = map qeCore ?q1 ! k)"
    by (rule pq.heapDown_correct) (metis n(3) less_imp_le sw(3) x1)
  have len: "length ?q2 = Suc n" using d x1 sw(3) n(1) by (metis length_map)
  then have ne: "?q2 \<noteq> []" by auto
  have last: "qeCore (last ?q2) = qeCore (?q ! 0)"
  proof -
    have "qeCore (last ?q2) = map qeCore ?q2 ! n" using ne len by (simp add: last_conv_nth)
    also have "\<dots> = map qeCore ?q1 ! n" using d n(3) x1 sw(3) by (metis order_refl)
    also have "\<dots> = qeCore (?q ! 0)" unfolding x1 sw(2) using n by simp
    finally show ?thesis .
  qed
  have m: "mset ?xs = add_mset (qeCore (last ?q2)) (mset (map qeCore (butlast ?q2)))"
  proof -
    have "mset ?xs = mset (map qeCore (butlast ?q2 @ [last ?q2]))"
      using d x1 sw(5) append_butlast_last_id [OF ne] by metis
    then show ?thesis by simp
  qed
  have hp: "pq.isHeap n (map qeCore (butlast ?q2))"
  proof -
    have "map qeCore (butlast ?q2) ! k = map qeCore ?q2 ! k" if "k < n" for k
      using that len by (simp add: nth_butlast)
    moreover have "parent k < n" if "k < n" for k using that by auto
    ultimately show ?thesis using d unfolding pq.isHeap_def by metis
  qed
  show ?thesis
  proof (rule that [of "(last ?q2)\<lparr>qeIndex := -1\<rparr>" "eq\<lparr>eqQueue := butlast ?q2, eqProcessed := wrap64 (eqProcessed eq + 1)\<rparr>"])
    show "Dequeue eq = (Some ((last ?q2)\<lparr>qeIndex := -1\<rparr>), eq\<lparr>eqQueue := butlast ?q2, eqProcessed := wrap64 (eqProcessed eq + 1)\<rparr>)"
      using assms(2) by (simp add: Dequeue_def pqPop_def n_def Let_def)
    show "eq_inv (eq\<lparr>eqQueue := butlast ?q2, eqProcessed := wrap64 (eqProcessed eq + 1)\<rparr>)"
      using hp len by (simp add: eq_inv_def)
  qed (use last m in simp_all)
qed

datatype eq_op = OpEnqueue queue_event | OpDequeue

fun eqStep :: "eq_op \<Rightarrow> event_queue \<Rightarrow> event_queue" where
  "eqStep (OpEnqueue e) eq = Enqueue e eq"
| "eqStep OpDequeue eq = snd (Dequeue eq)"

lemma Dequeue_keeps:
  assumes "eq_inv eq"
  shows "eq_inv (snd (Dequeue eq))"
proof (cases "eqQueue eq = []")
  case True
  with assms show ?thesis by (simp add: Dequeue_def)
next
  case False
  from Dequeue_inv [OF assms False] show ?thesis by (metis snd_conv)
qed

interpretation eqsys: client_protocol "\<lambda>_ _. True" eqStep eq_inv
proof unfold_locales
  show "eq_inv (eqStep p s)" if "eq_inv s" for p s
    using that by (cases p) (auto simp: Enqueue_inv Dequeue_keeps)
qed

lemma not_qeLess:
  "\<not> qeLess x e \<Longrightarrow> qeRiskScore x \<le> qeRiskScore e \<and> (qeRiskScore x = qeRiskScore e \<longrightarrow> qeTainted x \<longrightarrow> qeTainted e)
     \<and> (qeRiskScore x = qeRiskScore e \<longrightarrow> qeTainted x = qeTainted e \<longrightarrow> qeTimestamp e \<le> qeTimestamp x)"
  by (auto simp: qeLess_def split: if_splits)

lemma NewEventQueueManager_inv: "eq_inv NewEventQueueManager"
  by (simp add: eq_inv_def NewEventQueueManager_def pq.isHeap_def)

text \<open>
  C6. The server's queue is a priority queue: after any sequence of enqueues and dequeues, an enqueue adds exactly its event,
  a dequeue of an empty queue returns nothing, and a dequeue of a non-empty one removes exactly one event, the
  one that \<^verbatim>\<open>Peek\<close> shows, before which no queued event is due: none has a higher score, none of the same score is tainted
  while it is not, and none of the same score and taint is older.
\<close>

theorem dequeue_is_most_urgent:
  "let eq = runAll eqStep ops NewEventQueueManager in
     mset (map qeCore (eqQueue (Enqueue evt eq))) = add_mset (qeCore evt) (mset (map qeCore (eqQueue eq)))
     \<and> (eqQueue eq = [] \<longrightarrow> Dequeue eq = (None, eq))
     \<and> (eqQueue eq \<noteq> [] \<longrightarrow> (\<exists>e eq'. Dequeue eq = (Some e, eq') \<and> map_option qeCore (Peek eq) = Some (qeCore e)
          \<and> mset (map qeCore (eqQueue eq)) = add_mset (qeCore e) (mset (map qeCore (eqQueue eq')))
          \<and> (\<forall>x \<in> set (eqQueue eq). qeRiskScore x \<le> qeRiskScore e
               \<and> (qeRiskScore x = qeRiskScore e \<longrightarrow> qeTainted x \<longrightarrow> qeTainted e)
               \<and> (qeRiskScore x = qeRiskScore e \<longrightarrow> qeTainted x = qeTainted e \<longrightarrow> qeTimestamp e \<le> qeTimestamp x))))"
proof -
  define eq where "eq = runAll eqStep ops NewEventQueueManager"
  have okr: "okRun (\<lambda>_ _. True) eqStep ps s" for ps and s :: event_queue
    by (induction ps arbitrary: s) auto
  have i: "eq_inv eq"
    unfolding eq_def by (rule eqsys.runAll_inv [OF NewEventQueueManager_inv okr])
  have "\<exists>e eq'. Dequeue eq = (Some e, eq') \<and> map_option qeCore (Peek eq) = Some (qeCore e)
      \<and> mset (map qeCore (eqQueue eq)) = add_mset (qeCore e) (mset (map qeCore (eqQueue eq')))
      \<and> (\<forall>x \<in> set (eqQueue eq). qeRiskScore x \<le> qeRiskScore e
               \<and> (qeRiskScore x = qeRiskScore e \<longrightarrow> qeTainted x \<longrightarrow> qeTainted e)
               \<and> (qeRiskScore x = qeRiskScore e \<longrightarrow> qeTainted x = qeTainted e \<longrightarrow> qeTimestamp e \<le> qeTimestamp x))"
    if ne: "eqQueue eq \<noteq> []"
  proof -
    obtain e eq' where d: "Dequeue eq = (Some e, eq')" "qeCore e = qeCore (eqQueue eq ! 0)"
      "mset (map qeCore (eqQueue eq)) = add_mset (qeCore e) (mset (map qeCore (eqQueue eq')))"
      using Dequeue_inv [OF i ne] by metis
    have "\<not> qeLess x e" if x: "x \<in> set (eqQueue eq)" for x
    proof -
      obtain k where k: "k < length (eqQueue eq)" "x = eqQueue eq ! k" using x by (metis in_set_conv_nth)
      have "\<not> qeLess (map qeCore (eqQueue eq) ! k) (map qeCore (eqQueue eq) ! 0)"
        using pq.isHeap_root [OF _ k(1)] i by (simp add: eq_inv_def)
      then have "\<not> qeLess x (qeCore (eqQueue eq ! 0))" using k ne by simp
      then show ?thesis using d(2) by (metis qeCore_simps(2))
    qed
    then have "\<forall>x \<in> set (eqQueue eq). qeRiskScore x \<le> qeRiskScore e
               \<and> (qeRiskScore x = qeRiskScore e \<longrightarrow> qeTainted x \<longrightarrow> qeTainted e)
               \<and> (qeRiskScore x = qeRiskScore e \<longrightarrow> qeTainted x = qeTainted e \<longrightarrow> qeTimestamp e \<le> qeTimestamp x)"
      by (blast dest: not_qeLess)
    moreover have "map_option qeCore (Peek eq) = Some (qeCore e)" using d(2) ne by (simp add: Peek_def)
    ultimately show ?thesis using d(1,3) by blast
  qed
  moreover have "eqQueue eq = [] \<Longrightarrow> Dequeue eq = (None, eq)" by (simp add: Dequeue_def)
  ultimately show ?thesis
    using Enqueue_inv [OF i, of evt] unfolding Let_def eq_def by blast
qed

theorem dequeue_is_most_urgent_witness:
  "\<exists>ops eq e eq'. eq = runAll eqStep ops NewEventQueueManager \<and> length (eqQueue eq) = 3 \<and> Dequeue eq = (Some e, eq')
     \<and> mset (map qeCore (eqQueue eq)) = add_mset (qeCore e) (mset (map qeCore (eqQueue eq')))
     \<and> (\<forall>x \<in> set (eqQueue eq). qeRiskScore x \<le> qeRiskScore e)"
proof -
  define ev where "ev = (\<lambda>r t. \<lparr>qeID = ''e'', qeHostID = [], qeEventType = [], qeRiskScore = r, qeTainted = False, qeTimestamp = t, qeIndex = 0\<rparr>)"
  define ops where "ops = [OpEnqueue (ev 2 1), OpEnqueue (ev 9 2), OpEnqueue (ev 5 3)]"
  define eq where "eq = runAll eqStep ops NewEventQueueManager"
  have len: "length (eqQueue eq) = 3"
    by (simp add: eq_def ops_def ev_def NewEventQueueManager_def Enqueue_def pqPush_def heapUp.simps pqLess_def pqSwap_def qeLess_def Let_def)
  then have "eqQueue eq \<noteq> []" by auto
  with dequeue_is_most_urgent [of ops "ev 0 0"] obtain e eq' where "Dequeue eq = (Some e, eq')"
    "mset (map qeCore (eqQueue eq)) = add_mset (qeCore e) (mset (map qeCore (eqQueue eq')))"
    "\<forall>x \<in> set (eqQueue eq). qeRiskScore x \<le> qeRiskScore e"
    unfolding Let_def eq_def by blast
  with len eq_def show ?thesis by blast
qed

section \<open>Load levels\<close>

text \<open>Between a quarter and half of the threshold the level stays; elsewhere it follows the depth.\<close>

lemma loadTick_levels:
  assumes "loadTick clk lc = Some lc'" "lcQueue lc = Some q" "lcHighThreshold lc = 10000" "lcCritThreshold lc = 50000"
  shows "lcThrottleLevel lc' = (if eqSize q \<ge> 50000 then 3 else if eqSize q \<ge> 10000 then 2 else if eqSize q \<ge> 5000 then 1
           else if eqSize q < 2500 then 0 else lcThrottleLevel lc)"
  using assms by (auto simp: loadTick_def setLoad_def Let_def split: if_splits)

text \<open>A controller without a queue survives the nil check and then panics.\<close>

lemma loadTick_nil_queue: "loadTick clk (NewLoadController clk0 None) = None"
  by (simp add: loadTick_def NewLoadController_def)

end
