(* ===== verification/Stitch.thy ===== *)
theory Stitch
  imports Interfaces
begin

text \<open>
  Stitching of connections across hosts (\<^verbatim>\<open>internal/stitcher/stitch/stitch.go\<close>, \<^verbatim>\<open>taint_prop.go\<close>, \<^verbatim>\<open>server.go\<close>): the two halves of
  a flow, reported by different agents, become one edge, and taint crosses the edge.

  A record that both a map and the caller hold by pointer is the entry of the map. \<^verbatim>\<open>time.Now\<close> is called for the record and
  again for the edge, so an operation takes two clock readings. The log line cuts the flow to 16 bytes and panics on
  a shorter one: \<^const>\<open>None\<close>.
\<close>

section \<open>Model\<close>

record flow_fingerprint =
  ffFlowID :: string
  ffSrcIP :: string
  ffDstIP :: string
  ffSrcPort :: u32
  ffDstPort :: u32

record conn_record =
  crFingerprint :: flow_fingerprint
  crAgentID :: string
  crPID :: u32
  crComm :: string
  crDirection :: string
  crTainted :: bool
  crTaintSource :: string
  crTimestamp :: time

record stitch_edge =
  seID :: string
  seFlowID :: string
  seSourceAgent :: string
  seSourcePID :: u32
  seSourceComm :: string
  seTargetAgent :: string
  seTargetPID :: u32
  seTargetComm :: string
  seRelation :: string
  seTainted :: bool
  seCreatedAt :: time

record stitch_table =
  stOutbound :: "(string \<times> conn_record) list"
  stInbound :: "(string \<times> conn_record) list"
  stEdges :: "stitch_edge list"
  stEdgeCounter :: int
  stWindow :: duration

record half_flow =
  hfFlowID :: string
  hfAgentID :: string
  hfPID :: u32
  hfComm :: string
  hfSrcIP :: string
  hfDstIP :: string
  hfSrcPort :: u32
  hfDstPort :: u32
  hfTainted :: bool
  hfTaintSource :: string

definition NewStitchTable :: stitch_table where
  "NewStitchTable = \<lparr>stOutbound = [], stInbound = [], stEdges = [], stEdgeCounter = 0, stWindow = 30 * second\<rparr>"

definition halfRecord :: "string \<Rightarrow> string \<Rightarrow> time \<Rightarrow> half_flow \<Rightarrow> conn_record" where
  "halfRecord dir src now a =
     \<lparr>crFingerprint = \<lparr>ffFlowID = hfFlowID a, ffSrcIP = hfSrcIP a, ffDstIP = hfDstIP a, ffSrcPort = hfSrcPort a, ffDstPort = hfDstPort a\<rparr>,
      crAgentID = hfAgentID a, crPID = hfPID a, crComm = hfComm a, crDirection = dir, crTainted = hfTainted a,
      crTaintSource = src, crTimestamp = now\<rparr>"

definition createEdge :: "time \<Rightarrow> conn_record \<Rightarrow> conn_record \<Rightarrow> stitch_table \<Rightarrow> stitch_edge \<times> stitch_table" where
  "createEdge now out inb st =
     (let st = st\<lparr>stEdgeCounter := stEdgeCounter st + 1\<rparr>;
          edge = \<lparr>seID = ''SE-'' @ showInt (stEdgeCounter st), seFlowID = ffFlowID (crFingerprint out),
            seSourceAgent = crAgentID out, seSourcePID = crPID out, seSourceComm = crComm out,
            seTargetAgent = crAgentID inb, seTargetPID = crPID inb, seTargetComm = crComm inb,
            seRelation = ''remote_call'', seTainted = (crTainted out \<or> crTainted inb), seCreatedAt = now\<rparr>;
          st = (if crTainted out
                then st\<lparr>stInbound := AList.update (ffFlowID (crFingerprint inb)) (inb\<lparr>crTainted := True\<rparr>) (stInbound st)\<rparr>
                else st);
          edge = (if crTainted out then edge\<lparr>seRelation := ''lateral_move''\<rparr> else edge)
      in (edge, st\<lparr>stEdges := stEdges st @ [edge]\<rparr>))"

text \<open>The distance of two instants; the negation wraps at the smallest \<^verbatim>\<open>int64\<close>.\<close>

definition timeDelta :: "time \<Rightarrow> time \<Rightarrow> duration" where
  "timeDelta t u = (let d = timeSub t u in if d < 0 then wrap64 (- d) else d)"

definition RecordOutbound :: "time \<Rightarrow> time \<Rightarrow> half_flow \<Rightarrow> stitch_table \<Rightarrow> (stitch_edge option \<times> stitch_table) option" where
  "RecordOutbound now now2 a st =
     (let rec = halfRecord ''outbound'' (hfTaintSource a) now a;
          st = st\<lparr>stOutbound := AList.update (hfFlowID a) rec (stOutbound st)\<rparr>
      in if length (hfFlowID a) < 16 then None
         else case map_of (stInbound st) (hfFlowID a) of
           Some inb \<Rightarrow>
             if timeDelta (crTimestamp rec) (crTimestamp inb) \<le> stWindow st
             then (case createEdge now2 rec inb st of (e, st) \<Rightarrow> Some (Some e, st))
             else Some (None, st)
         | None \<Rightarrow> Some (None, st))"

definition RecordInbound :: "time \<Rightarrow> time \<Rightarrow> half_flow \<Rightarrow> stitch_table \<Rightarrow> (stitch_edge option \<times> stitch_table) option" where
  "RecordInbound now now2 a st =
     (let rec = halfRecord ''inbound'' [] now a;
          st = st\<lparr>stInbound := AList.update (hfFlowID a) rec (stInbound st)\<rparr>
      in if length (hfFlowID a) < 16 then None
         else case map_of (stOutbound st) (hfFlowID a) of
           Some out \<Rightarrow>
             if timeDelta (crTimestamp rec) (crTimestamp out) \<le> stWindow st
             then (case createEdge now2 out rec st of (e, st) \<Rightarrow> Some (Some e, st))
             else Some (None, st)
         | None \<Rightarrow> Some (None, st))"

definition GetByFlowID :: "string \<Rightarrow> stitch_table \<Rightarrow> conn_record option \<times> conn_record option" where
  "GetByFlowID f st = (map_of (stOutbound st) f, map_of (stInbound st) f)"

definition GetByAgent :: "string \<Rightarrow> stitch_table \<Rightarrow> conn_record list \<times> conn_record list" where
  "GetByAgent i st = (filter (\<lambda>r. crAgentID r = i) (map snd (stOutbound st)), filter (\<lambda>r. crAgentID r = i) (map snd (stInbound st)))"

definition CleanOld :: "time \<Rightarrow> stitch_table \<Rightarrow> stitch_table" where
  "CleanOld now st =
     (let cutoff = now - stWindow st in
      st\<lparr>stOutbound := filter (\<lambda>(i, r). \<not> crTimestamp r < cutoff) (stOutbound st),
         stInbound := filter (\<lambda>(i, r). \<not> crTimestamp r < cutoff) (stInbound st)\<rparr>)"

section \<open>Taint across hosts\<close>

record taint_info =
  tiPID :: u32
  tiComm :: string
  tiTainted :: bool
  tiSource :: string
  tiSourceAgent :: string
  tiSourcePID :: u32
  tiUpdatedAt :: time

record taint_propagator =
  tpHostTaints :: "(string \<times> (u32 \<times> taint_info) list) list"
  tpPropagated :: int

definition NewTaintPropagator :: taint_propagator where
  "NewTaintPropagator = \<lparr>tpHostTaints = [], tpPropagated = 0\<rparr>"

definition putTaint :: "string \<Rightarrow> u32 \<Rightarrow> taint_info \<Rightarrow> taint_propagator \<Rightarrow> taint_propagator" where
  "putTaint agent pid info tp =
     (let hosts = mensure agent [] (tpHostTaints tp)
      in tp\<lparr>tpHostTaints := malter agent (AList.update pid info) hosts\<rparr>)"

definition MarkTainted :: "time \<Rightarrow> string \<Rightarrow> u32 \<Rightarrow> string \<Rightarrow> string \<Rightarrow> taint_propagator \<Rightarrow> taint_propagator" where
  "MarkTainted now agent pid comm source tp = putTaint agent pid
     \<lparr>tiPID = pid, tiComm = comm, tiTainted = True, tiSource = source, tiSourceAgent = [], tiSourcePID = 0, tiUpdatedAt = now\<rparr> tp"

definition taintPrefix :: "string \<Rightarrow> nat \<Rightarrow> string" where
  "taintPrefix value limit = (if length value \<le> limit then value else take limit value)"

definition PropagateViaStitch :: "time \<Rightarrow> stitch_edge \<Rightarrow> taint_propagator \<Rightarrow> taint_propagator" where
  "PropagateViaStitch now e tp =
     (if \<not> seTainted e then tp
      else let tp = putTaint (seTargetAgent e) (seTargetPID e)
             \<lparr>tiPID = seTargetPID e, tiComm = seTargetComm e, tiTainted = True,
              tiSource = ''cross-host-stitch:'' @ taintPrefix (seFlowID e) 16, tiSourceAgent = seSourceAgent e,
              tiSourcePID = seSourcePID e, tiUpdatedAt = now\<rparr> tp
           in tp\<lparr>tpPropagated := tpPropagated tp + 1\<rparr>)"

definition GetTaintInfo :: "string \<Rightarrow> u32 \<Rightarrow> taint_propagator \<Rightarrow> taint_info option" where
  "GetTaintInfo agent pid tp =
     (case map_of (tpHostTaints tp) agent of None \<Rightarrow> None | Some m \<Rightarrow> map_of m pid)"

definition stitchIsTainted :: "string \<Rightarrow> u32 \<Rightarrow> taint_propagator \<Rightarrow> bool" where
  "stitchIsTainted agent pid tp =
     (case map_of (tpHostTaints tp) agent of
        Some m \<Rightarrow> (case map_of m pid of Some info \<Rightarrow> tiTainted info | None \<Rightarrow> False)
      | None \<Rightarrow> False)"

section \<open>Central server\<close>

record central_server =
  csTable :: stitch_table
  csPropagator :: taint_propagator
  csAgents :: "(string \<times> bool) list"
  csStartedAt :: time

definition NewCentralServer :: "time \<Rightarrow> central_server" where
  "NewCentralServer now = \<lparr>csTable = NewStitchTable, csPropagator = NewTaintPropagator, csAgents = [], csStartedAt = now\<rparr>"

definition afterRecord :: "time \<Rightarrow> stitch_edge option \<times> stitch_table \<Rightarrow> central_server \<Rightarrow> stitch_edge option \<times> central_server" where
  "afterRecord now r cs = (case r of (edge, st) \<Rightarrow>
     (edge, case edge of
        None \<Rightarrow> cs\<lparr>csTable := st\<rparr>
      | Some e \<Rightarrow> cs\<lparr>csTable := st, csPropagator := PropagateViaStitch now e (csPropagator cs)\<rparr>))"

definition IngestOutbound :: "time \<Rightarrow> time \<Rightarrow> time \<Rightarrow> half_flow \<Rightarrow> central_server \<Rightarrow> (stitch_edge option \<times> central_server) option" where
  "IngestOutbound now now2 now3 a cs =
     (let cs = cs\<lparr>csAgents := AList.update (hfAgentID a) True (csAgents cs)\<rparr> in
      case RecordOutbound now now2 a (csTable cs) of None \<Rightarrow> None | Some r \<Rightarrow> Some (afterRecord now3 r cs))"

definition IngestInbound :: "time \<Rightarrow> time \<Rightarrow> time \<Rightarrow> half_flow \<Rightarrow> central_server \<Rightarrow> (stitch_edge option \<times> central_server) option" where
  "IngestInbound now now2 now3 a cs =
     (let cs = cs\<lparr>csAgents := AList.update (hfAgentID a) True (csAgents cs)\<rparr> in
      case RecordInbound now now2 a (csTable cs) of None \<Rightarrow> None | Some r \<Rightarrow> Some (afterRecord now3 r cs))"

definition csMarkTainted :: "time \<Rightarrow> string \<Rightarrow> u32 \<Rightarrow> string \<Rightarrow> string \<Rightarrow> central_server \<Rightarrow> central_server" where
  "csMarkTainted now agent pid comm source cs =
     cs\<lparr>csPropagator := MarkTainted now agent pid comm source (csPropagator cs)\<rparr>"

definition QueryStitchByAgent :: "string \<Rightarrow> central_server \<Rightarrow> stitch_edge list" where
  "QueryStitchByAgent i cs = filter (\<lambda>e. seSourceAgent e = i \<or> seTargetAgent e = i) (stEdges (csTable cs))"

definition QueryStitchByFlow :: "string \<Rightarrow> central_server \<Rightarrow> stitch_edge option" where
  "QueryStitchByFlow f cs = find (\<lambda>e. seFlowID e = f) (stEdges (csTable cs))"

section \<open>Runs of the server\<close>

datatype stitch_op =
    SOut time time time half_flow
  | SIn time time time half_flow
  | SMark time string u32 string string
  | SClean time

fun stitchStep :: "stitch_op \<Rightarrow> central_server \<Rightarrow> central_server option" where
  "stitchStep (SOut now now2 now3 a) cs = map_option snd (IngestOutbound now now2 now3 a cs)"
| "stitchStep (SIn now now2 now3 a) cs = map_option snd (IngestInbound now now2 now3 a cs)"
| "stitchStep (SMark now agent pid comm source) cs = Some (csMarkTainted now agent pid comm source cs)"
| "stitchStep (SClean now) cs = Some (cs\<lparr>csTable := CleanOld now (csTable cs)\<rparr>)"

fun stitchTime :: "stitch_op \<Rightarrow> time" where
  "stitchTime (SOut now _ _ _) = now"
| "stitchTime (SIn now _ _ _) = now"
| "stitchTime (SMark now _ _ _ _) = now"
| "stitchTime (SClean now) = now"

text \<open>An edge joins two halves of a flow.\<close>

definition joins :: "stitch_edge \<Rightarrow> half_flow \<Rightarrow> half_flow \<Rightarrow> bool" where
  "joins e x y = (seFlowID e = hfFlowID x \<and> hfFlowID y = hfFlowID x
     \<and> seSourceAgent e = hfAgentID x \<and> seSourcePID e = hfPID x \<and> seSourceComm e = hfComm x
     \<and> seTargetAgent e = hfAgentID y \<and> seTargetPID e = hfPID y \<and> seTargetComm e = hfComm y
     \<and> seRelation e = (if hfTainted x then ''lateral_move'' else ''remote_call'')
     \<and> (hfTainted x \<or> hfTainted y \<longrightarrow> seTainted e))"

text \<open>What the two maps hold, in terms of the operations so far.\<close>

definition outFrom :: "stitch_op set \<Rightarrow> string \<Rightarrow> conn_record \<Rightarrow> bool" where
  "outFrom H f r = (\<exists>now now2 now3 a. SOut now now2 now3 a \<in> H \<and> hfFlowID a = f \<and> 16 \<le> length f
     \<and> r = halfRecord ''outbound'' (hfTaintSource a) now a)"

definition taintedHalf :: "stitch_op set \<Rightarrow> string \<Rightarrow> bool" where
  "taintedHalf H f = (\<exists>now now2 now3 a. (SOut now now2 now3 a \<in> H \<or> SIn now now2 now3 a \<in> H) \<and> hfFlowID a = f \<and> hfTainted a)"

definition inFrom :: "stitch_op set \<Rightarrow> string \<Rightarrow> conn_record \<Rightarrow> bool" where
  "inFrom H f r = (\<exists>now now2 now3 a. SIn now now2 now3 a \<in> H \<and> hfFlowID a = f \<and> 16 \<le> length f
     \<and> (r = halfRecord ''inbound'' [] now a \<or> taintedHalf H f \<and> r = (halfRecord ''inbound'' [] now a)\<lparr>crTainted := True\<rparr>))"

definition edgeFrom :: "stitch_op set \<Rightarrow> duration \<Rightarrow> stitch_edge \<Rightarrow> bool" where
  "edgeFrom H w e = (\<exists>t t2 t3 x u u2 u3 y. SOut t t2 t3 x \<in> H \<and> SIn u u2 u3 y \<in> H \<and> joins e x y
     \<and> (timeDelta t u \<le> w \<or> timeDelta u t \<le> w) \<and> (seTainted e \<longrightarrow> taintedHalf H (seFlowID e)))"

definition stitch_inv :: "stitch_op set \<Rightarrow> central_server \<Rightarrow> bool" where
  "stitch_inv H cs = (let st = csTable cs in
     distinct (map fst (stOutbound st)) \<and> distinct (map fst (stInbound st)) \<and> stWindow st = 30 * second
     \<and> (\<forall>f r. map_of (stOutbound st) f = Some r \<longrightarrow> outFrom H f r)
     \<and> (\<forall>f r. map_of (stInbound st) f = Some r \<longrightarrow> inFrom H f r)
     \<and> (\<forall>e \<in> set (stEdges st). edgeFrom H (30 * second) e))"

lemma from_mono:
  "outFrom H f r \<Longrightarrow> outFrom (insert p H) f r" "inFrom H f r \<Longrightarrow> inFrom (insert p H) f r"
  "edgeFrom H w e \<Longrightarrow> edgeFrom (insert p H) w e"
  unfolding outFrom_def inFrom_def edgeFrom_def taintedHalf_def by blast+

lemma createEdge_table:
  assumes "createEdge now b i st = (e, st')"
  shows "stOutbound st' = stOutbound st" "stWindow st' = stWindow st" "stEdges st' = stEdges st @ [e]"
    "stInbound st' = (if crTainted b then AList.update (ffFlowID (crFingerprint i)) (i\<lparr>crTainted := True\<rparr>) (stInbound st) else stInbound st)"
    "seFlowID e = ffFlowID (crFingerprint b)" "seSourceAgent e = crAgentID b" "seSourcePID e = crPID b" "seSourceComm e = crComm b"
    "seTargetAgent e = crAgentID i" "seTargetPID e = crPID i" "seTargetComm e = crComm i"
    "seTainted e = (crTainted b \<or> crTainted i)" "seRelation e = (if crTainted b then ''lateral_move'' else ''remote_call'')"
  using assms by (auto simp: createEdge_def Let_def split: if_splits)

lemma halfRecord_simps [simp]:
  "ffFlowID (crFingerprint (halfRecord d s now a)) = hfFlowID a" "crAgentID (halfRecord d s now a) = hfAgentID a"
  "crPID (halfRecord d s now a) = hfPID a" "crComm (halfRecord d s now a) = hfComm a"
  "crTainted (halfRecord d s now a) = hfTainted a" "crTimestamp (halfRecord d s now a) = now"
  by (simp_all add: halfRecord_def)

text \<open>One record of a half: the new table, with or without an edge.\<close>

lemma RecordOutbound_cases:
  assumes "RecordOutbound now now2 a st = Some (eo, st')"
  defines "rec \<equiv> halfRecord ''outbound'' (hfTaintSource a) now a"
    and "out' \<equiv> AList.update (hfFlowID a) (halfRecord ''outbound'' (hfTaintSource a) now a) (stOutbound st)"
  obtains "16 \<le> length (hfFlowID a)" "eo = None" "st' = st\<lparr>stOutbound := out'\<rparr>"
      "\<forall>i. map_of (stInbound st) (hfFlowID a) = Some i \<longrightarrow> stWindow st < timeDelta now (crTimestamp i)"
  | i e where "16 \<le> length (hfFlowID a)" "eo = Some e" "map_of (stInbound st) (hfFlowID a) = Some i"
      "timeDelta now (crTimestamp i) \<le> stWindow st" "createEdge now2 rec i (st\<lparr>stOutbound := out'\<rparr>) = (e, st')"
  using assms
  by (auto simp: RecordOutbound_def Let_def not_less not_le split: if_splits option.splits prod.splits)

lemma RecordInbound_cases:
  assumes "RecordInbound now now2 a st = Some (eo, st')"
  defines "rec \<equiv> halfRecord ''inbound'' [] now a"
    and "in' \<equiv> AList.update (hfFlowID a) (halfRecord ''inbound'' [] now a) (stInbound st)"
  obtains "16 \<le> length (hfFlowID a)" "eo = None" "st' = st\<lparr>stInbound := in'\<rparr>"
      "\<forall>b. map_of (stOutbound st) (hfFlowID a) = Some b \<longrightarrow> stWindow st < timeDelta now (crTimestamp b)"
  | b e where "16 \<le> length (hfFlowID a)" "eo = Some e" "map_of (stOutbound st) (hfFlowID a) = Some b"
      "timeDelta now (crTimestamp b) \<le> stWindow st" "createEdge now2 b rec (st\<lparr>stInbound := in'\<rparr>) = (e, st')"
  using assms
  by (auto simp: RecordInbound_def Let_def not_less not_le split: if_splits option.splits prod.splits)

lemma stitchStep_record:
  "stitchStep (SOut now now2 now3 a) cs = Some cs' \<Longrightarrow>
     \<exists>eo st'. RecordOutbound now now2 a (csTable cs) = Some (eo, st') \<and> csTable cs' = st'
       \<and> csPropagator cs' = (case eo of None \<Rightarrow> csPropagator cs | Some e \<Rightarrow> PropagateViaStitch now3 e (csPropagator cs))"
  "stitchStep (SIn now now2 now3 a) cs = Some cs' \<Longrightarrow>
     \<exists>eo st'. RecordInbound now now2 a (csTable cs) = Some (eo, st') \<and> csTable cs' = st'
       \<and> csPropagator cs' = (case eo of None \<Rightarrow> csPropagator cs | Some e \<Rightarrow> PropagateViaStitch now3 e (csPropagator cs))"
  by (auto simp: IngestOutbound_def IngestInbound_def afterRecord_def Let_def split: option.splits prod.splits)

lemma map_of_filter_value:
  "distinct (map fst m) \<Longrightarrow> map_of (filter (\<lambda>(k, r). P r) m) k = (case map_of m k of Some r \<Rightarrow> if P r then Some r else None | None \<Rightarrow> None)"
proof (induction m)
  case (Cons a m)
  have "map_of (filter (\<lambda>(k, r). P r) m) k = None" if "k \<notin> fst ` set m" for k
    using that by (auto simp: map_of_eq_None_iff)
  with Cons show ?case by (cases a) (auto split: option.splits)
qed simp

lemma inFrom_taint:
  assumes "inFrom H f r" "taintedHalf H f"
  shows "inFrom H f (r\<lparr>crTainted := True\<rparr>)"
proof -
  obtain t t2 t3 a where a: "SIn t t2 t3 a \<in> H" "hfFlowID a = f" "16 \<le> length f"
    "r = halfRecord ''inbound'' [] t a \<or> r = (halfRecord ''inbound'' [] t a)\<lparr>crTainted := True\<rparr>"
    using assms(1) by (auto simp: inFrom_def)
  then have "r\<lparr>crTainted := True\<rparr> = (halfRecord ''inbound'' [] t a)\<lparr>crTainted := True\<rparr>" by auto
  with a assms(2) show ?thesis unfolding inFrom_def by blast
qed

lemma inFrom_flow: "inFrom H f r \<Longrightarrow> ffFlowID (crFingerprint r) = f"
  by (auto simp: inFrom_def)

lemma edge_from_pair:
  assumes "SOut t t2 t3 x \<in> H" "hfFlowID x = f" "inFrom H f i" "b = halfRecord ''outbound'' (hfTaintSource x) t x"
    and "timeDelta t (crTimestamp i) \<le> w \<or> timeDelta (crTimestamp i) t \<le> w" "createEdge now2 b i st = (e, st')"
  shows "edgeFrom H w e"
proof -
  obtain u u2 u3 y where y: "SIn u u2 u3 y \<in> H" "hfFlowID y = f"
    "i = halfRecord ''inbound'' [] u y \<or> taintedHalf H f \<and> i = (halfRecord ''inbound'' [] u y)\<lparr>crTainted := True\<rparr>"
    using assms(3) by (auto simp: inFrom_def)
  have i: "crAgentID i = hfAgentID y" "crPID i = hfPID y" "crComm i = hfComm y" "crTimestamp i = u"
    "crTainted i \<longrightarrow> hfTainted y \<or> taintedHalf H f" "hfTainted y \<longrightarrow> crTainted i"
    using y(3) by auto
  note c = createEdge_table [OF assms(6)]
  have "joins e x y"
    using c i assms(2,4) y(2) by (auto simp: joins_def)
  moreover have "seTainted e \<longrightarrow> taintedHalf H (seFlowID e)"
    using c(5,12) i(5) assms(1,2,4) y(1,2) by (auto simp: taintedHalf_def)
  ultimately show ?thesis
    using assms(1,5) y(1) i(4) unfolding edgeFrom_def by blast
qed

lemma SOut_inv:
  assumes "stitch_inv H cs" "stitchStep (SOut now now2 now3 a) cs = Some cs'"
  shows "stitch_inv (insert (SOut now now2 now3 a) H) cs'"
proof -
  let ?H = "insert (SOut now now2 now3 a) H" let ?rec = "halfRecord ''outbound'' (hfTaintSource a) now a"
  let ?out = "AList.update (hfFlowID a) ?rec (stOutbound (csTable cs))"
  obtain eo st' where r: "RecordOutbound now now2 a (csTable cs) = Some (eo, st')" "csTable cs' = st'"
    using stitchStep_record(1) [OF assms(2)] by blast
  have d: "distinct (map fst ?out)" "distinct (map fst (stInbound (csTable cs)))" "stWindow (csTable cs) = 30 * second"
    "\<And>f r. map_of (stInbound (csTable cs)) f = Some r \<Longrightarrow> inFrom ?H f r"
    "\<And>e. e \<in> set (stEdges (csTable cs)) \<Longrightarrow> edgeFrom ?H (30 * second) e"
    using assms(1) from_mono by (auto simp: stitch_inv_def Let_def intro: distinct_mput)
  have o: "outFrom ?H f r" if "map_of ?out f = Some r" "16 \<le> length (hfFlowID a)" for f r
  proof (cases "f = hfFlowID a")
    case True
    with that show ?thesis by (auto simp: outFrom_def)
  next
    case False
    then have "map_of (stOutbound (csTable cs)) f = Some r" using that(1) by simp
    with assms(1) show ?thesis by (auto simp: stitch_inv_def Let_def intro: from_mono)
  qed
  show ?thesis
  proof (cases rule: RecordOutbound_cases [OF r(1)])
    case 1
    then show ?thesis
      using r(2) d o by (simp add: stitch_inv_def Let_def)
  next
    case (2 i e)
    have i: "inFrom ?H (hfFlowID a) i" using d(4) 2(3) by blast
    note c = createEdge_table [OF 2(5)]
    have "edgeFrom ?H (30 * second) e"
      by (rule edge_from_pair [OF _ refl i refl _ 2(5)]) (use 2(4) d(3) in auto)
    moreover have "inFrom ?H f r" if "map_of (stInbound st') f = Some r" for f r
    proof (cases "crTainted ?rec \<and> f = hfFlowID a")
      case True
      then have "r = i\<lparr>crTainted := True\<rparr>" "taintedHalf ?H f"
        using that c(4) inFrom_flow [OF i] by (auto simp: taintedHalf_def)
      with inFrom_taint i True show ?thesis by blast
    next
      case False
      with that c(4) inFrom_flow [OF i] d(4) show ?thesis by (auto split: if_splits)
    qed
    ultimately show ?thesis
      using r(2) d c(1-4) o 2(1) by (auto simp: stitch_inv_def Let_def intro: distinct_mput)
  qed
qed

lemma SIn_inv:
  assumes "stitch_inv H cs" "stitchStep (SIn now now2 now3 a) cs = Some cs'"
  shows "stitch_inv (insert (SIn now now2 now3 a) H) cs'"
proof -
  let ?H = "insert (SIn now now2 now3 a) H" let ?rec = "halfRecord ''inbound'' [] now a"
  let ?in = "AList.update (hfFlowID a) ?rec (stInbound (csTable cs))"
  obtain eo st' where r: "RecordInbound now now2 a (csTable cs) = Some (eo, st')" "csTable cs' = st'"
    using stitchStep_record(2) [OF assms(2)] by blast
  have d: "distinct (map fst ?in)" "distinct (map fst (stOutbound (csTable cs)))" "stWindow (csTable cs) = 30 * second"
    "distinct (map fst (stInbound (csTable cs)))"
    "\<And>f r. map_of (stOutbound (csTable cs)) f = Some r \<Longrightarrow> outFrom ?H f r"
    "\<And>e. e \<in> set (stEdges (csTable cs)) \<Longrightarrow> edgeFrom ?H (30 * second) e"
    using assms(1) from_mono by (auto simp: stitch_inv_def Let_def intro: distinct_mput)
  have self: "inFrom ?H (hfFlowID a) ?rec" if "16 \<le> length (hfFlowID a)"
    using that by (auto simp: inFrom_def)
  have i: "inFrom ?H f r" if "map_of ?in f = Some r" "16 \<le> length (hfFlowID a)" for f r
  proof (cases "f = hfFlowID a")
    case True
    with that self show ?thesis by simp
  next
    case False
    then have "map_of (stInbound (csTable cs)) f = Some r" using that(1) by simp
    with assms(1) show ?thesis by (auto simp: stitch_inv_def Let_def intro: from_mono)
  qed
  show ?thesis
  proof (cases rule: RecordInbound_cases [OF r(1)])
    case 1
    then show ?thesis
      using r(2) d i by (simp add: stitch_inv_def Let_def)
  next
    case (2 b e)
    obtain t t2 t3 x where b: "SOut t t2 t3 x \<in> ?H" "hfFlowID x = hfFlowID a" "b = halfRecord ''outbound'' (hfTaintSource x) t x"
      using d(5) [OF 2(3)] by (auto simp: outFrom_def)
    note c = createEdge_table [OF 2(5)]
    have "edgeFrom ?H (30 * second) e"
      by (rule edge_from_pair [OF b(1,2) self [OF 2(1)] b(3) _ 2(5)]) (use 2(4) d(3) b(3) in auto)
    moreover have "inFrom ?H f r" if f: "map_of (stInbound st') f = Some r" for f r
    proof (cases "crTainted b \<and> f = hfFlowID a")
      case True
      then have "r = ?rec\<lparr>crTainted := True\<rparr>" "taintedHalf ?H f"
        using f c(4) b by (auto simp: taintedHalf_def)
      with True inFrom_taint self [OF 2(1)] show ?thesis by blast
    next
      case False
      then have "map_of ?in f = Some r" using f c(4) by (auto split: if_splits)
      with i 2(1) show ?thesis by blast
    qed
    ultimately show ?thesis
      using r(2) d c(1-4) 2(1) by (auto simp: stitch_inv_def Let_def intro: distinct_mput)
  qed
qed

lemma stitchStep_inv:
  assumes "stitch_inv H cs" "stitchStep p cs = Some cs'"
  shows "stitch_inv (insert p H) cs'"
proof (cases p)
  case (SOut now now2 now3 a)
  with assms SOut_inv show ?thesis by blast
next
  case (SIn now now2 now3 a)
  with assms SIn_inv show ?thesis by blast
next
  case (SMark now agent pid comm source)
  with assms show ?thesis by (auto simp: stitch_inv_def csMarkTainted_def Let_def intro: from_mono)
next
  case (SClean now)
  have "distinct (map fst (filter P m))" if "distinct (map fst m)" for P :: "'x \<times> 'y \<Rightarrow> bool" and m
    using that by (induction m) auto
  with assms SClean show ?thesis
    by (auto simp: stitch_inv_def CleanOld_def Let_def map_of_filter_value intro: from_mono split: option.splits if_splits)
qed

lemma runOps_stitch_inv:
  "stitch_inv H cs \<Longrightarrow> runOps stitchStep ops cs = Some cs' \<Longrightarrow> stitch_inv (H \<union> set ops) cs'"
proof (induction ops arbitrary: H cs)
  case (Cons p ops)
  then obtain cs1 where "stitchStep p cs = Some cs1" "runOps stitchStep ops cs1 = Some cs'"
    by (auto split: option.splits)
  with Cons.IH [OF stitchStep_inv [OF Cons.prems(1)]] show ?case by simp
qed simp

lemma NewCentralServer_inv: "stitch_inv {} (NewCentralServer now)"
  by (simp add: stitch_inv_def NewCentralServer_def NewStitchTable_def)

section \<open>Matching halves are joined\<close>

fun outOf :: "string \<Rightarrow> stitch_op \<Rightarrow> bool" where
  "outOf f (SOut _ _ _ a) = (hfFlowID a = f)"
| "outOf f _ = False"

fun inOf :: "string \<Rightarrow> stitch_op \<Rightarrow> bool" where
  "inOf f (SIn _ _ _ a) = (hfFlowID a = f)"
| "inOf f _ = False"

lemma RecordOutbound_out:
  "RecordOutbound now now2 a st = Some (eo, st') \<Longrightarrow>
     stOutbound st' = AList.update (hfFlowID a) (halfRecord ''outbound'' (hfTaintSource a) now a) (stOutbound st)"
  by (erule RecordOutbound_cases) (auto dest: createEdge_table(1))

lemma RecordInbound_out: "RecordInbound now now2 a st = Some (eo, st') \<Longrightarrow> stOutbound st' = stOutbound st"
  by (erule RecordInbound_cases) (auto dest: createEdge_table(1))

definition sameHalf :: "conn_record \<Rightarrow> conn_record \<Rightarrow> bool" where
  "sameHalf r r' = (crAgentID r' = crAgentID r \<and> crPID r' = crPID r \<and> crComm r' = crComm r \<and> crTimestamp r' = crTimestamp r
     \<and> (crTainted r \<longrightarrow> crTainted r'))"

lemma RecordInbound_in:
  assumes "RecordInbound now now2 a st = Some (eo, st')"
  shows "\<exists>i. map_of (stInbound st') (hfFlowID a) = Some i \<and> sameHalf (halfRecord ''inbound'' [] now a) i"
  using assms
proof (cases rule: RecordInbound_cases)
  case (2 b e)
  then show ?thesis using createEdge_table(4) [OF 2(5)] by (auto simp: sameHalf_def)
qed (simp add: sameHalf_def)

lemma outKept:
  assumes "stitch_inv H cs" "stitchStep p cs = Some cs'" "map_of (stOutbound (csTable cs)) f = Some r" "\<not> outOf f p"
    and "stitchTime p - 30 * second \<le> crTimestamp r"
  shows "map_of (stOutbound (csTable cs')) f = Some r"
proof (cases p)
  case (SOut now now2 now3 a)
  with assms(2-4) show ?thesis by (auto simp del: stitchStep.simps dest!: stitchStep_record(1) RecordOutbound_out)
next
  case (SIn now now2 now3 a)
  with assms(2,3) show ?thesis by (auto simp del: stitchStep.simps dest!: stitchStep_record(2) RecordInbound_out)
next
  case (SMark now agent pid comm source)
  with assms(2,3) show ?thesis by (auto simp: csMarkTainted_def)
next
  case (SClean now)
  with assms show ?thesis by (auto simp: CleanOld_def Let_def stitch_inv_def map_of_filter_value)
qed

lemma sameHalf_refl [simp]: "sameHalf r r"
  by (simp add: sameHalf_def)

lemma sameHalf_trans: "sameHalf r s \<Longrightarrow> sameHalf s t \<Longrightarrow> sameHalf r t"
  by (simp add: sameHalf_def)

lemma inKept:
  assumes "stitch_inv H cs" "stitchStep p cs = Some cs'" "map_of (stInbound (csTable cs)) f = Some r" "\<not> inOf f p"
    and "stitchTime p - 30 * second \<le> crTimestamp r"
  shows "\<exists>r'. map_of (stInbound (csTable cs')) f = Some r' \<and> sameHalf r r'"
proof (cases p)
  case (SOut now now2 now3 a)
  then obtain eo st' where r: "RecordOutbound now now2 a (csTable cs) = Some (eo, st')" "csTable cs' = st'"
    using stitchStep_record(1) assms(2) by blast
  show ?thesis
  proof (cases rule: RecordOutbound_cases [OF r(1)])
    case (2 i e)
    have "inFrom H (hfFlowID a) i" using assms(1) 2(3) by (simp add: stitch_inv_def Let_def)
    then have fl: "ffFlowID (crFingerprint i) = hfFlowID a" by (rule inFrom_flow)
    have "sameHalf i (i\<lparr>crTainted := True\<rparr>)" by (simp add: sameHalf_def)
    with createEdge_table(4) [OF 2(5)] r(2) assms(3) 2(3) fl show ?thesis by (cases "f = hfFlowID a") auto
  qed (use r assms(3) in simp)
next
  case (SIn now now2 now3 a)
  then obtain eo st' where r: "RecordInbound now now2 a (csTable cs) = Some (eo, st')" "csTable cs' = st'"
    using stitchStep_record(2) assms(2) by blast
  have ne: "f \<noteq> hfFlowID a" using assms(4) SIn by auto
  show ?thesis
  proof (cases rule: RecordInbound_cases [OF r(1)])
    case (2 b e)
    with createEdge_table(4) [OF 2(5)] r(2) assms(3) ne show ?thesis by auto
  qed (use r assms(3) ne in simp)
next
  case (SMark now agent pid comm source)
  with assms(2,3) show ?thesis by (auto simp: csMarkTainted_def)
next
  case (SClean now)
  with assms show ?thesis by (auto simp: CleanOld_def Let_def stitch_inv_def map_of_filter_value)
qed

lemma run_outKept:
  assumes "stitch_inv H cs" "runOps stitchStep ops cs = Some cs'" "map_of (stOutbound (csTable cs)) f = Some r"
    and "\<forall>p \<in> set ops. \<not> outOf f p \<and> stitchTime p - 30 * second \<le> crTimestamp r"
  shows "map_of (stOutbound (csTable cs')) f = Some r"
  using assms
proof (induction ops arbitrary: H cs)
  case (Cons p ops)
  then obtain cs1 where s: "stitchStep p cs = Some cs1" "runOps stitchStep ops cs1 = Some cs'" by (auto split: option.splits)
  have "map_of (stOutbound (csTable cs1)) f = Some r" using outKept [OF Cons.prems(1) s(1) Cons.prems(3)] Cons.prems(4) by simp
  from Cons.IH [OF stitchStep_inv [OF Cons.prems(1) s(1)] s(2) this] Cons.prems(4) show ?case by simp
qed simp

lemma run_inKept:
  assumes "stitch_inv H cs" "runOps stitchStep ops cs = Some cs'" "map_of (stInbound (csTable cs)) f = Some r"
    and "\<forall>p \<in> set ops. \<not> inOf f p \<and> stitchTime p - 30 * second \<le> crTimestamp r"
  shows "\<exists>r'. map_of (stInbound (csTable cs')) f = Some r' \<and> sameHalf r r'"
  using assms
proof (induction ops arbitrary: H cs r)
  case (Cons p ops)
  then obtain cs1 where s: "stitchStep p cs = Some cs1" "runOps stitchStep ops cs1 = Some cs'" by (auto split: option.splits)
  obtain r1 where r1: "map_of (stInbound (csTable cs1)) f = Some r1" "sameHalf r r1"
    using inKept [OF Cons.prems(1) s(1) Cons.prems(3)] Cons.prems(4) by auto
  from Cons.IH [OF stitchStep_inv [OF Cons.prems(1) s(1)] s(2) r1(1)] Cons.prems(4) r1(2) obtain r' where
    "map_of (stInbound (csTable cs')) f = Some r'" "sameHalf r1 r'" by (auto simp: sameHalf_def)
  with r1(2) sameHalf_trans show ?case by blast
qed simp

lemma stitchIsTainted_info: "stitchIsTainted ag pid tp \<longleftrightarrow> (\<exists>i. GetTaintInfo ag pid tp = Some i \<and> tiTainted i)"
  by (auto simp: stitchIsTainted_def GetTaintInfo_def split: option.splits)

lemma GetTaintInfo_put: "GetTaintInfo ag pid (putTaint ag' pid' info tp) = (if ag = ag' \<and> pid = pid' then Some info else GetTaintInfo ag pid tp)"
  by (auto simp: GetTaintInfo_def putTaint_def map_of_malter map_of_mensure Let_def split: option.splits)

lemma GetTaintInfo_count [simp]: "GetTaintInfo ag pid (tp\<lparr>tpPropagated := n\<rparr>) = GetTaintInfo ag pid tp"
  by (simp add: GetTaintInfo_def)

lemma Propagate_tainted:
  "stitchIsTainted ag pid tp \<Longrightarrow> stitchIsTainted ag pid (PropagateViaStitch now e tp)"
  "seTainted e \<Longrightarrow> stitchIsTainted (seTargetAgent e) (seTargetPID e) (PropagateViaStitch now e tp)"
  by (auto simp: stitchIsTainted_info PropagateViaStitch_def GetTaintInfo_put Let_def)

lemma MarkTainted_tainted: "stitchIsTainted ag pid tp \<Longrightarrow> stitchIsTainted ag pid (MarkTainted now ag' pid' c s tp)"
  by (auto simp: stitchIsTainted_info MarkTainted_def GetTaintInfo_put)

text \<open>Edges and taints only accumulate.\<close>

lemma stitchStep_grows:
  assumes "stitchStep p cs = Some cs'"
  shows "set (stEdges (csTable cs)) \<subseteq> set (stEdges (csTable cs'))"
    and "stitchIsTainted ag pid (csPropagator cs) \<Longrightarrow> stitchIsTainted ag pid (csPropagator cs')"
proof -
  have "set (stEdges (csTable cs)) \<subseteq> set (stEdges (csTable cs')) \<and>
    (stitchIsTainted ag pid (csPropagator cs) \<longrightarrow> stitchIsTainted ag pid (csPropagator cs'))"
  proof (cases p)
    case (SOut now now2 now3 a)
    then obtain eo st' where r: "RecordOutbound now now2 a (csTable cs) = Some (eo, st')" "csTable cs' = st'"
      "csPropagator cs' = (case eo of None \<Rightarrow> csPropagator cs | Some e \<Rightarrow> PropagateViaStitch now3 e (csPropagator cs))"
      using stitchStep_record(1) assms by blast
    from r(1) have "set (stEdges (csTable cs)) \<subseteq> set (stEdges st')"
      by (cases rule: RecordOutbound_cases) (auto dest: createEdge_table(3))
    with r Propagate_tainted(1) show ?thesis by (auto split: option.splits)
  next
    case (SIn now now2 now3 a)
    then obtain eo st' where r: "RecordInbound now now2 a (csTable cs) = Some (eo, st')" "csTable cs' = st'"
      "csPropagator cs' = (case eo of None \<Rightarrow> csPropagator cs | Some e \<Rightarrow> PropagateViaStitch now3 e (csPropagator cs))"
      using stitchStep_record(2) assms by blast
    from r(1) have "set (stEdges (csTable cs)) \<subseteq> set (stEdges st')"
      by (cases rule: RecordInbound_cases) (auto dest: createEdge_table(3))
    with r Propagate_tainted(1) show ?thesis by (auto split: option.splits)
  qed (use assms MarkTainted_tainted in \<open>auto simp: csMarkTainted_def CleanOld_def Let_def\<close>)
  then show "set (stEdges (csTable cs)) \<subseteq> set (stEdges (csTable cs'))"
    "stitchIsTainted ag pid (csPropagator cs) \<Longrightarrow> stitchIsTainted ag pid (csPropagator cs')" by auto
qed

lemma run_grows:
  assumes "runOps stitchStep ops cs = Some cs'"
  shows "set (stEdges (csTable cs)) \<subseteq> set (stEdges (csTable cs'))"
    and "stitchIsTainted ag pid (csPropagator cs) \<Longrightarrow> stitchIsTainted ag pid (csPropagator cs')"
proof -
  have "set (stEdges (csTable cs)) \<subseteq> set (stEdges (csTable cs')) \<and>
    (stitchIsTainted ag pid (csPropagator cs) \<longrightarrow> stitchIsTainted ag pid (csPropagator cs'))"
    using assms
  proof (induction ops arbitrary: cs)
    case (Cons p ops)
    then obtain cs1 where "stitchStep p cs = Some cs1" "runOps stitchStep ops cs1 = Some cs'" by (auto split: option.splits)
    with Cons.IH stitchStep_grows show ?case by blast
  qed simp
  then show "set (stEdges (csTable cs)) \<subseteq> set (stEdges (csTable cs'))"
    "stitchIsTainted ag pid (csPropagator cs) \<Longrightarrow> stitchIsTainted ag pid (csPropagator cs')" by auto
qed

lemma timeDelta_near:
  assumes "\<bar>t - u\<bar> \<le> 30 * second"
  shows "timeDelta t u \<le> 30 * second"
proof -
  have "timeSub t u = t - u" using assms by (auto simp: timeSub_def)
  moreover have "wrap64 (u - t) = u - t" by (rule wrap64_id) (use assms in auto)
  ultimately show ?thesis using assms by (auto simp: timeDelta_def Let_def)
qed

lemma join_on_inbound:
  assumes "stitch_inv H cs" "stitchStep (SIn u u2 u3 y) cs = Some cs'" "map_of (stOutbound (csTable cs)) (hfFlowID y) = Some b"
    and "b = halfRecord ''outbound'' (hfTaintSource x) t x" "hfFlowID x = hfFlowID y" "\<bar>u - t\<bar> \<le> 30 * second"
  shows "\<exists>e \<in> set (stEdges (csTable cs')). joins e x y \<and> (seTainted e \<longrightarrow> stitchIsTainted (hfAgentID y) (hfPID y) (csPropagator cs'))"
proof -
  obtain eo st' where r: "RecordInbound u u2 y (csTable cs) = Some (eo, st')" "csTable cs' = st'"
    "csPropagator cs' = (case eo of None \<Rightarrow> csPropagator cs | Some e \<Rightarrow> PropagateViaStitch u3 e (csPropagator cs))"
    using stitchStep_record(2) [OF assms(2)] by blast
  have near: "timeDelta u (crTimestamp b) \<le> stWindow (csTable cs)"
    using timeDelta_near assms(1,4,6) by (simp add: stitch_inv_def Let_def)
  show ?thesis
  proof (cases rule: RecordInbound_cases [OF r(1)])
    case (2 b' e)
    then have "b' = b" using assms(3) by simp
    note c = createEdge_table [OF 2(5)]
    have "joins e x y" using c assms(4,5) \<open>b' = b\<close> by (auto simp: joins_def)
    moreover have "seTainted e \<longrightarrow> stitchIsTainted (hfAgentID y) (hfPID y) (csPropagator cs')"
      using Propagate_tainted(2) [of e u3 "csPropagator cs"] r(3) 2(2) c(9,10) by simp
    ultimately show ?thesis using c(3) r(2) by auto
  qed (use near assms(3) in auto)
qed

lemma join_on_outbound:
  assumes "stitch_inv H cs" "stitchStep (SOut t t2 t3 x) cs = Some cs'" "map_of (stInbound (csTable cs)) (hfFlowID x) = Some i"
    and "sameHalf (halfRecord ''inbound'' [] u y) i" "hfFlowID x = hfFlowID y" "\<bar>u - t\<bar> \<le> 30 * second"
  shows "\<exists>e \<in> set (stEdges (csTable cs')). joins e x y \<and> (seTainted e \<longrightarrow> stitchIsTainted (hfAgentID y) (hfPID y) (csPropagator cs'))"
proof -
  obtain eo st' where r: "RecordOutbound t t2 x (csTable cs) = Some (eo, st')" "csTable cs' = st'"
    "csPropagator cs' = (case eo of None \<Rightarrow> csPropagator cs | Some e \<Rightarrow> PropagateViaStitch t3 e (csPropagator cs))"
    using stitchStep_record(1) [OF assms(2)] by blast
  have near: "timeDelta t (crTimestamp i) \<le> stWindow (csTable cs)"
    using timeDelta_near [of t u] assms(1,4,6) by (simp add: stitch_inv_def Let_def sameHalf_def abs_minus_commute)
  show ?thesis
  proof (cases rule: RecordOutbound_cases [OF r(1)])
    case (2 i' e)
    then have "i' = i" using assms(3) by simp
    note c = createEdge_table [OF 2(5)]
    have "joins e x y" using c assms(4,5) \<open>i' = i\<close> by (auto simp: joins_def sameHalf_def)
    moreover have "seTainted e \<longrightarrow> stitchIsTainted (hfAgentID y) (hfPID y) (csPropagator cs')"
      using Propagate_tainted(2) [of e t3 "csPropagator cs"] r(3) 2(2) c(9,10) assms(4) \<open>i' = i\<close> by (simp add: sameHalf_def)
    ultimately show ?thesis using c(3) r(2) by auto
  qed (use near assms(3) in auto)
qed

lemma run_split:
  assumes "runOps step (xs @ p # ys @ q # zs) s = Some s'"
  obtains s1 s2 s3 s4 where "runOps step xs s = Some s1" "step p s1 = Some s2" "runOps step ys s2 = Some s3"
    "step q s3 = Some s4" "runOps step zs s4 = Some s'"
  using assms by (auto simp: runOps_append split: option.splits)

lemma out_then_in:
  assumes "runOps stitchStep (xs @ SOut t t2 t3 x # ys @ SIn u u2 u3 y # zs) (NewCentralServer t0) = Some cs"
    and "hfFlowID x = hfFlowID y" "\<bar>u - t\<bar> \<le> 30 * second"
    and "\<forall>p \<in> set ys. \<not> outOf (hfFlowID x) p \<and> stitchTime p \<le> u"
  shows "\<exists>e \<in> set (stEdges (csTable cs)). joins e x y \<and> (seTainted e \<longrightarrow> stitchIsTainted (hfAgentID y) (hfPID y) (csPropagator cs))"
proof -
  let ?b = "halfRecord ''outbound'' (hfTaintSource x) t x"
  obtain s1 s2 s3 s4 where s: "runOps stitchStep xs (NewCentralServer t0) = Some s1" "stitchStep (SOut t t2 t3 x) s1 = Some s2"
    "runOps stitchStep ys s2 = Some s3" "stitchStep (SIn u u2 u3 y) s3 = Some s4" "runOps stitchStep zs s4 = Some cs"
    using run_split [OF assms(1)] .
  have i2: "stitch_inv (insert (SOut t t2 t3 x) (set xs)) s2"
    using stitchStep_inv [OF runOps_stitch_inv [OF NewCentralServer_inv s(1)] s(2)] by simp
  have "map_of (stOutbound (csTable s2)) (hfFlowID x) = Some ?b"
    using stitchStep_record(1) [OF s(2)] RecordOutbound_out by fastforce
  then have "map_of (stOutbound (csTable s3)) (hfFlowID x) = Some ?b"
    by (rule run_outKept [OF i2 s(3)]) (use assms(3,4) in auto)
  from join_on_inbound [OF runOps_stitch_inv [OF i2 s(3)] s(4) _ refl assms(2,3)] this assms(2)
  obtain e where "e \<in> set (stEdges (csTable s4))" "joins e x y" "seTainted e \<longrightarrow> stitchIsTainted (hfAgentID y) (hfPID y) (csPropagator s4)"
    by auto
  with run_grows [OF s(5)] show ?thesis by blast
qed

lemma in_then_out:
  assumes "runOps stitchStep (xs @ SIn u u2 u3 y # ys @ SOut t t2 t3 x # zs) (NewCentralServer t0) = Some cs"
    and "hfFlowID x = hfFlowID y" "\<bar>u - t\<bar> \<le> 30 * second"
    and "\<forall>p \<in> set ys. \<not> inOf (hfFlowID x) p \<and> stitchTime p \<le> t"
  shows "\<exists>e \<in> set (stEdges (csTable cs)). joins e x y \<and> (seTainted e \<longrightarrow> stitchIsTainted (hfAgentID y) (hfPID y) (csPropagator cs))"
proof -
  let ?i = "halfRecord ''inbound'' [] u y"
  obtain s1 s2 s3 s4 where s: "runOps stitchStep xs (NewCentralServer t0) = Some s1" "stitchStep (SIn u u2 u3 y) s1 = Some s2"
    "runOps stitchStep ys s2 = Some s3" "stitchStep (SOut t t2 t3 x) s3 = Some s4" "runOps stitchStep zs s4 = Some cs"
    using run_split [OF assms(1)] .
  have i2: "stitch_inv (insert (SIn u u2 u3 y) (set xs)) s2"
    using stitchStep_inv [OF runOps_stitch_inv [OF NewCentralServer_inv s(1)] s(2)] by simp
  obtain i where i: "map_of (stInbound (csTable s2)) (hfFlowID x) = Some i" "sameHalf ?i i"
    using stitchStep_record(2) [OF s(2)] RecordInbound_in assms(2) by metis
  obtain i' where i': "map_of (stInbound (csTable s3)) (hfFlowID x) = Some i'" "sameHalf ?i i'"
    using run_inKept [OF i2 s(3) i(1)] assms(3,4) i(2) sameHalf_trans by (force simp: sameHalf_def)
  from join_on_outbound [OF runOps_stitch_inv [OF i2 s(3)] s(4) i' assms(2,3)]
  obtain e where "e \<in> set (stEdges (csTable s4))" "joins e x y" "seTainted e \<longrightarrow> stitchIsTainted (hfAgentID y) (hfPID y) (csPropagator s4)"
    by auto
  with run_grows [OF s(5)] show ?thesis by blast
qed

text \<open>
  C21. The edges of the central server are the flows seen from both ends: after any sequence of reports, marks and
  clean-ups without a panic, every edge joins an outbound and an inbound half of one flow that were reported within the window
  of 30 seconds, and is tainted only if a half of that flow was reported tainted. Conversely, under a clock that does not
  run backwards, two halves within the window are joined, whichever arrives first, unless the earlier one is
  reported again in between: clean-ups do not get in the way. The edge carries the processes of both ends and is a
  lateral movement exactly if the outbound half was tainted, and if it is tainted, the receiving process counts as tainted
  from then on.
\<close>

theorem stitched_flows:
  assumes "runOps stitchStep ops (NewCentralServer t0) = Some cs"
  shows "(\<forall>e \<in> set (stEdges (csTable cs)). \<exists>t t2 t3 x u u2 u3 y.
        SOut t t2 t3 x \<in> set ops \<and> SIn u u2 u3 y \<in> set ops \<and> joins e x y
        \<and> (timeDelta t u \<le> 30 * second \<or> timeDelta u t \<le> 30 * second) \<and> (seTainted e \<longrightarrow> taintedHalf (set ops) (seFlowID e)))
    \<and> (\<forall>xs ys zs t t2 t3 x u u2 u3 y. sorted (map stitchTime ops) \<and> hfFlowID x = hfFlowID y \<and> \<bar>u - t\<bar> \<le> 30 * second
        \<and> (ops = xs @ SOut t t2 t3 x # ys @ SIn u u2 u3 y # zs \<and> (\<forall>p \<in> set ys. \<not> outOf (hfFlowID x) p)
           \<or> ops = xs @ SIn u u2 u3 y # ys @ SOut t t2 t3 x # zs \<and> (\<forall>p \<in> set ys. \<not> inOf (hfFlowID x) p))
        \<longrightarrow> (\<exists>e \<in> set (stEdges (csTable cs)). joins e x y
              \<and> (seTainted e \<longrightarrow> stitchIsTainted (hfAgentID y) (hfPID y) (csPropagator cs))))"
proof (intro conjI allI impI)
  have "stitch_inv ({} \<union> set ops) cs" by (rule runOps_stitch_inv [OF NewCentralServer_inv assms])
  then show "\<forall>e \<in> set (stEdges (csTable cs)). \<exists>t t2 t3 x u u2 u3 y.
        SOut t t2 t3 x \<in> set ops \<and> SIn u u2 u3 y \<in> set ops \<and> joins e x y
        \<and> (timeDelta t u \<le> 30 * second \<or> timeDelta u t \<le> 30 * second) \<and> (seTainted e \<longrightarrow> taintedHalf (set ops) (seFlowID e))"
    unfolding stitch_inv_def Let_def edgeFrom_def by simp
next
  fix xs ys zs t t2 t3 x u u2 u3 y
  assume h: "sorted (map stitchTime ops) \<and> hfFlowID x = hfFlowID y \<and> \<bar>u - t\<bar> \<le> 30 * second
        \<and> (ops = xs @ SOut t t2 t3 x # ys @ SIn u u2 u3 y # zs \<and> (\<forall>p \<in> set ys. \<not> outOf (hfFlowID x) p)
           \<or> ops = xs @ SIn u u2 u3 y # ys @ SOut t t2 t3 x # zs \<and> (\<forall>p \<in> set ys. \<not> inOf (hfFlowID x) p))"
  then consider "ops = xs @ SOut t t2 t3 x # ys @ SIn u u2 u3 y # zs" "\<forall>p \<in> set ys. \<not> outOf (hfFlowID x) p"
    | "ops = xs @ SIn u u2 u3 y # ys @ SOut t t2 t3 x # zs" "\<forall>p \<in> set ys. \<not> inOf (hfFlowID x) p" by blast
  then show "\<exists>e \<in> set (stEdges (csTable cs)). joins e x y
      \<and> (seTainted e \<longrightarrow> stitchIsTainted (hfAgentID y) (hfPID y) (csPropagator cs))"
  proof cases
    case 1
    then have "\<forall>p \<in> set ys. stitchTime p \<le> u" using h by (auto simp: sorted_append)
    with 1 h out_then_in [of xs t t2 t3 x ys u u2 u3 y zs t0 cs] assms show ?thesis by auto
  next
    case 2
    then have "\<forall>p \<in> set ys. stitchTime p \<le> t" using h by (auto simp: sorted_append)
    with 2 h in_then_out [of xs u u2 u3 y ys t t2 t3 x zs t0 cs] assms show ?thesis by auto
  qed
qed

definition sampleHalf :: "string \<Rightarrow> string \<Rightarrow> u32 \<Rightarrow> bool \<Rightarrow> half_flow" where
  "sampleHalf f agent pid taint = \<lparr>hfFlowID = f, hfAgentID = agent, hfPID = pid, hfComm = ''sh'', hfSrcIP = [], hfDstIP = [],
     hfSrcPort = 0, hfDstPort = 0, hfTainted = taint, hfTaintSource = []\<rparr>"

abbreviation sampleFlow :: string where "sampleFlow \<equiv> ''0123456789abcdef''"

theorem stitched_flows_witness:
  "\<exists>ops cs e. runOps stitchStep ops (NewCentralServer 0) = Some cs \<and> e \<in> set (stEdges (csTable cs))
     \<and> joins e (sampleHalf sampleFlow ''h1'' 7 True) (sampleHalf sampleFlow ''h2'' 9 False)
     \<and> seRelation e = ''lateral_move'' \<and> stitchIsTainted ''h2'' 9 (csPropagator cs)"
proof -
  let ?x = "sampleHalf sampleFlow ''h1'' 7 True" and ?y = "sampleHalf sampleFlow ''h2'' 9 False"
  let ?ops = "[] @ SIn 5 5 5 ?y # [SClean 6] @ SOut 7 7 7 ?x # []"
  have "\<exists>cs. runOps stitchStep ?ops (NewCentralServer 0) = Some cs"
    by (auto simp: sampleHalf_def NewCentralServer_def NewStitchTable_def IngestInbound_def IngestOutbound_def RecordInbound_def
        RecordOutbound_def halfRecord_def CleanOld_def timeDelta_def timeSub_def createEdge_def afterRecord_def Let_def)
  then obtain cs where r: "runOps stitchStep ?ops (NewCentralServer 0) = Some cs" by blast
  have h: "sorted (map stitchTime ?ops) \<and> hfFlowID ?x = hfFlowID ?y \<and> \<bar>5 - 7\<bar> \<le> 30 * second
      \<and> (\<forall>p \<in> set [SClean 6]. \<not> inOf (hfFlowID ?x) p)"
    by (simp add: sampleHalf_def)
  obtain e where e: "e \<in> set (stEdges (csTable cs))" "joins e ?x ?y"
    "seTainted e \<longrightarrow> stitchIsTainted (hfAgentID ?y) (hfPID ?y) (csPropagator cs)"
    using stitched_flows [OF r, THEN conjunct2, rule_format, of ?x ?y 5 7 "[]" 7 7 "[SClean 6]" 5 5 "[]"] h by blast
  then have "seRelation e = ''lateral_move''" "seTainted e" by (auto simp: joins_def sampleHalf_def)
  moreover have "hfAgentID ?y = ''h2''" "hfPID ?y = 9" by (simp_all add: sampleHalf_def)
  ultimately show ?thesis using e r by metis
qed

text \<open>A flow identifier shorter than the 16 bytes of the log line panics.\<close>

lemma short_flow_panics: "length (hfFlowID a) < 16 \<Longrightarrow> stitchStep (SOut now now2 now3 a) cs = None"
  by (simp add: IngestOutbound_def RecordOutbound_def Let_def)

text \<open>
  Taint stops after one host: the receiving process counts as tainted, but a flow it opens next is untainted unless
  its own agent says otherwise, since the server does not consult what it has propagated.
\<close>

lemma second_hop_not_tainted:
  assumes "stitch_inv H cs" "stitchStep (SOut t t2 t3 x) cs = Some cs'" "\<not> hfTainted x" "\<not> taintedHalf (insert (SOut t t2 t3 x) H) (hfFlowID x)"
    and "e \<in> set (stEdges (csTable cs'))" "seFlowID e = hfFlowID x"
  shows "\<not> seTainted e \<and> seRelation e = ''remote_call''"
proof -
  have "edgeFrom (insert (SOut t t2 t3 x) H) (30 * second) e"
    using stitchStep_inv [OF assms(1,2)] assms(5) by (simp add: stitch_inv_def Let_def)
  with assms(4,6) show ?thesis
    by (auto simp: edgeFrom_def joins_def taintedHalf_def)
qed

end
