(* ===== verification/Adaptive.thy ===== *)
theory Adaptive
  imports Interfaces Complex_Main "HOL-Library.Multiset"
begin

text \<open>
  The adaptive collection engine (\<^verbatim>\<open>internal/policy/adaptive/levels.go\<close>, \<^verbatim>\<open>controller.go\<close>): monitoring levels per
  process, raised by alerts and lowered by a timer, and mirrored into a kernel map that enforces them. The map is
  \<^const>\<open>None\<close> where the controller has none; a flag of each operation says that the kernel call fails, which the code only
  logs. An operation reads the clock once. Scores are real numbers; log lines and the ticker are left out.
\<close>

section \<open>Levels\<close>

abbreviation (input) LevelDefault :: int where "LevelDefault \<equiv> 1"
abbreviation (input) LevelSuspicious :: int where "LevelSuspicious \<equiv> 2"
abbreviation (input) LevelInvestigating :: int where "LevelInvestigating \<equiv> 3"

definition monLevelString :: "int \<Rightarrow> string" where
  "monLevelString l =
     (if l = LevelDefault then ''DEFAULT'' else if l = LevelSuspicious then ''SUSPICIOUS''
      else if l = LevelInvestigating then ''INVESTIGATING'' else ''LEVEL_'' @ showInt l)"

definition Capabilities :: "int \<Rightarrow> string list" where
  "Capabilities l =
     (if l = LevelDefault then [''exec'', ''fork'', ''connect'']
      else if l = LevelSuspicious then [''exec'', ''fork'', ''connect'', ''file_detail'', ''socket_flow'', ''env_capture'']
      else if l = LevelInvestigating then [''exec'', ''fork'', ''connect'', ''file_detail'', ''socket_flow'', ''env_capture'',
        ''syscall_trace'', ''memory_trace'', ''memory_dump'']
      else [])"

definition AlertThreshold :: "int \<Rightarrow> real" where
  "AlertThreshold l =
     (if l = LevelDefault then 0 else if l = LevelSuspicious then 5
      else if l = LevelInvestigating then 20 else 999)"

definition DowngradeAfter :: "int \<Rightarrow> int" where
  "DowngradeAfter l = (if l = LevelSuspicious then 600 else if l = LevelInvestigating then 300 else 0)"

section \<open>Controller\<close>

record proc_state =
  prPID :: int
  prLevel :: int
  prUpgradedAt :: time
  prLastAlertAt :: time
  prAlertCount :: int
  prDowngradeAt :: time

record adaptive_stats =
  asTotalUpgrades :: int
  asTotalDowngrades :: int
  asActiveHigh :: nat
  asActiveMedium :: nat

record adaptive_controller =
  adBpfMap :: "(u32 \<times> u32) list option"
  adProcs :: "(int \<times> proc_state) list"
  adDowngradeAfter :: duration
  adUpgradeCooldown :: duration
  adStats :: adaptive_stats

definition NewAdaptive :: "(u32 \<times> u32) list option \<Rightarrow> adaptive_controller" where
  "NewAdaptive bpfMap = \<lparr>adBpfMap = bpfMap, adProcs = [], adDowngradeAfter = 0, adUpgradeCooldown = 30 * second,
     adStats = \<lparr>asTotalUpgrades = 0, asTotalDowngrades = 0, asActiveHigh = 0, asActiveMedium = 0\<rparr>\<rparr>"

definition bpfPut :: "bool \<Rightarrow> int \<Rightarrow> int \<Rightarrow> (u32 \<times> u32) list option \<Rightarrow> (u32 \<times> u32) list option" where
  "bpfPut fails pid level m =
     (if fails then m else map_option (AList.update (word_of_int pid) (word_of_int level)) m)"

definition bpfDelete :: "bool \<Rightarrow> int \<Rightarrow> (u32 \<times> u32) list option \<Rightarrow> (u32 \<times> u32) list option" where
  "bpfDelete fails pid m = (if fails then m else map_option (AList.delete (word_of_int pid)) m)"

definition newProc :: "int \<Rightarrow> proc_state" where
  "newProc pid = \<lparr>prPID = pid, prLevel = LevelDefault, prUpgradedAt = zeroTime, prLastAlertAt = zeroTime,
     prAlertCount = 0, prDowngradeAt = zeroTime\<rparr>"

text \<open>The callers of \<^verbatim>\<open>getOrCreate\<close> hold a pointer into the map; here they put the changed state back.\<close>

definition getOrCreate :: "int \<Rightarrow> (int \<times> proc_state) list \<Rightarrow> proc_state" where
  "getOrCreate pid procs = (case map_of procs pid of Some ps \<Rightarrow> ps | None \<Rightarrow> newProc pid)"

definition refreshStats :: "adaptive_controller \<Rightarrow> adaptive_controller" where
  "refreshStats ac = ac\<lparr>adStats := (adStats ac)
     \<lparr>asActiveHigh := length (filter (\<lambda>p. prLevel (snd p) = LevelInvestigating) (adProcs ac)),
      asActiveMedium := length (filter (\<lambda>p. prLevel (snd p) = LevelSuspicious) (adProcs ac))\<rparr>\<rparr>"

definition GetLevel :: "int \<Rightarrow> adaptive_controller \<Rightarrow> int" where
  "GetLevel pid ac = (case map_of (adProcs ac) pid of Some ps \<Rightarrow> prLevel ps | None \<Rightarrow> LevelDefault)"

definition Upgrade :: "bool \<Rightarrow> time \<Rightarrow> int \<Rightarrow> adaptive_controller \<Rightarrow> int \<times> adaptive_controller" where
  "Upgrade fails now pid ac =
     (let ps = getOrCreate pid (adProcs ac);
          oldLevel = prLevel ps;
          ps = ps\<lparr>prAlertCount := prAlertCount ps + 1\<rparr>;
          ps = (if prAlertCount ps \<ge> 3 then ps\<lparr>prLevel := LevelInvestigating\<rparr>
                else if prAlertCount ps \<ge> 1 then ps\<lparr>prLevel := LevelSuspicious\<rparr> else ps)
      in if prLevel ps \<le> oldLevel \<and> timeSub now (prUpgradedAt ps) < adUpgradeCooldown ac \<and> oldLevel > LevelDefault
         then (oldLevel, ac\<lparr>adProcs := AList.update pid ps (adProcs ac)\<rparr>)
         else let ps = ps\<lparr>prUpgradedAt := now, prLastAlertAt := now\<rparr>;
                  downgradeSec = DowngradeAfter (prLevel ps);
                  ps = (if downgradeSec > 0 then ps\<lparr>prDowngradeAt := now + downgradeSec * second\<rparr> else ps);
                  ac = ac\<lparr>adProcs := AList.update pid ps (adProcs ac),
                          adBpfMap := bpfPut fails pid (prLevel ps) (adBpfMap ac),
                          adStats := (adStats ac)\<lparr>asTotalUpgrades := asTotalUpgrades (adStats ac) + 1\<rparr>\<rparr>
              in (prLevel ps, refreshStats ac))"

definition lowerProc :: "proc_state \<Rightarrow> proc_state" where
  "lowerProc ps = ps\<lparr>prLevel := LevelDefault, prDowngradeAt := zeroTime\<rparr>"

definition Downgrade :: "bool \<Rightarrow> int \<Rightarrow> adaptive_controller \<Rightarrow> int \<times> adaptive_controller" where
  "Downgrade fails pid ac = (case map_of (adProcs ac) pid of
      None \<Rightarrow> (LevelDefault, ac)
    | Some ps \<Rightarrow> (LevelDefault, refreshStats (ac\<lparr>adProcs := AList.update pid (lowerProc ps) (adProcs ac),
        adBpfMap := bpfDelete fails pid (adBpfMap ac),
        adStats := (adStats ac)\<lparr>asTotalDowngrades := asTotalDowngrades (adStats ac) + 1\<rparr>\<rparr>)))"

text \<open>The test of one process in a tick, and the loop over the processes; \<open>fails\<close> lists the processes whose delete fails.\<close>

definition overdue :: "duration \<Rightarrow> time \<Rightarrow> proc_state \<Rightarrow> bool" where
  "overdue after now ps =
     (let downgradeTime = (if after > 0 \<and> prUpgradedAt ps \<noteq> zeroTime then prUpgradedAt ps + after else prDowngradeAt ps)
      in \<not> prLevel ps \<le> LevelDefault \<and> downgradeTime \<noteq> zeroTime \<and> now > downgradeTime)"

fun tickLoop :: "int set \<Rightarrow> time \<Rightarrow> (int \<times> proc_state) list \<Rightarrow> nat \<Rightarrow> adaptive_controller \<Rightarrow> nat \<times> adaptive_controller" where
  "tickLoop fails now [] n ac = (n, ac)"
| "tickLoop fails now ((pid, ps) # rest) n ac =
     (if overdue (adDowngradeAfter ac) now ps
      then tickLoop fails now rest (n + 1)
        (ac\<lparr>adProcs := AList.update pid (lowerProc ps) (adProcs ac),
            adBpfMap := bpfDelete (pid \<in> fails) pid (adBpfMap ac),
            adStats := (adStats ac)\<lparr>asTotalDowngrades := asTotalDowngrades (adStats ac) + 1\<rparr>\<rparr>)
      else tickLoop fails now rest n ac)"

definition adaptiveTick :: "int set \<Rightarrow> time \<Rightarrow> adaptive_controller \<Rightarrow> nat \<times> adaptive_controller" where
  "adaptiveTick fails now ac = (let (n, ac) = tickLoop fails now (adProcs ac) 0 ac in (n, refreshStats ac))"

definition OnAlert :: "bool \<Rightarrow> time \<Rightarrow> int \<Rightarrow> real \<Rightarrow> adaptive_controller \<Rightarrow> int \<times> adaptive_controller" where
  "OnAlert fails now pid score ac =
     (if score < AlertThreshold LevelSuspicious then (GetLevel pid ac, ac)
      else if score \<ge> AlertThreshold LevelInvestigating then
        (let ps = getOrCreate pid (adProcs ac);
             ps = ps\<lparr>prLevel := LevelInvestigating, prAlertCount := prAlertCount ps + 1, prLastAlertAt := now\<rparr>;
             downgradeSec = DowngradeAfter (prLevel ps);
             ps = (if downgradeSec > 0 then ps\<lparr>prDowngradeAt := now + downgradeSec * second\<rparr>
                   else ps\<lparr>prDowngradeAt := now + 5 * minute\<rparr>)
         in (LevelInvestigating, ac\<lparr>adProcs := AList.update pid ps (adProcs ac),
               adBpfMap := bpfPut fails pid LevelInvestigating (adBpfMap ac)\<rparr>))
      else Upgrade fails now pid ac)"

record adaptive_report =
  arActiveHigh :: nat
  arActiveMedium :: nat
  arTotalUpgrades :: int
  arTotalDowngrades :: int
  arTrackedPids :: nat

definition AdaptiveStats :: "adaptive_controller \<Rightarrow> adaptive_report" where
  "AdaptiveStats ac = \<lparr>arActiveHigh = asActiveHigh (adStats ac), arActiveMedium = asActiveMedium (adStats ac),
     arTotalUpgrades = asTotalUpgrades (adStats ac), arTotalDowngrades = asTotalDowngrades (adStats ac),
     arTrackedPids = length (adProcs ac)\<rparr>"

text \<open>The order of equal levels is not fixed by the sort: \<open>ActiveProcesses now ac out\<close> says that \<open>out\<close> is a possible result.\<close>

definition ActiveProcesses :: "time \<Rightarrow> adaptive_controller \<Rightarrow> (int \<times> int \<times> duration) list \<Rightarrow> bool" where
  "ActiveProcesses now ac out \<longleftrightarrow>
     mset out = mset (map (\<lambda>(pid, ps). (pid, prLevel ps, timeSub now (prUpgradedAt ps)))
       (filter (\<lambda>(pid, ps). prLevel ps > LevelDefault) (adProcs ac)))
     \<and> sorted (rev (map (fst \<circ> snd) out))"

definition LevelFor :: "int \<Rightarrow> int \<Rightarrow> string" where
  "LevelFor old new = (if old = new then monLevelString new
     else monLevelString old @ [CHR 0xE2, CHR 0x86, CHR 0x92] @ monLevelString new)"

section \<open>The controller as a system\<close>

datatype adaptive_op =
    AdAlert time int real
  | AdUpgrade time int
  | AdDowngrade int
  | AdTick time

definition adStep :: "adaptive_op \<Rightarrow> adaptive_controller \<Rightarrow> adaptive_controller" where
  "adStep op ac = (case op of
      AdAlert now pid score \<Rightarrow> snd (OnAlert False now pid score ac)
    | AdUpgrade now pid \<Rightarrow> snd (Upgrade False now pid ac)
    | AdDowngrade pid \<Rightarrow> snd (Downgrade False pid ac)
    | AdTick now \<Rightarrow> snd (adaptiveTick {} now ac))"

text \<open>What callers owe: process identifiers of 32 bits and a clock after the epoch.\<close>

definition adOk :: "adaptive_op \<Rightarrow> adaptive_controller \<Rightarrow> bool" where
  "adOk op ac = (case op of
      AdAlert now pid score \<Rightarrow> 0 \<le> now \<and> 0 \<le> pid \<and> pid < 2 ^ 32
    | AdUpgrade now pid \<Rightarrow> 0 \<le> now \<and> 0 \<le> pid \<and> pid < 2 ^ 32
    | AdDowngrade pid \<Rightarrow> True
    | AdTick now \<Rightarrow> 0 \<le> now)"

definition enforced :: "adaptive_controller \<Rightarrow> int \<Rightarrow> u32 option" where
  "enforced ac pid = (case adBpfMap ac of None \<Rightarrow> None | Some m \<Rightarrow> map_of m (word_of_int pid))"

definition proc_ok :: "proc_state \<Rightarrow> bool" where
  "proc_ok ps \<longleftrightarrow> prLevel ps \<in> {1, 2, 3} \<and> 0 \<le> prAlertCount ps
     \<and> (prAlertCount ps = 0 \<longrightarrow> prUpgradedAt ps = zeroTime \<and> prLevel ps = 1)
     \<and> (prLevel ps = 3 \<and> prAlertCount ps \<le> 1 \<longrightarrow> prUpgradedAt ps = zeroTime)
     \<and> (prLevel ps > 1 \<longrightarrow> 0 \<le> prLastAlertAt ps
          \<and> prDowngradeAt ps = prLastAlertAt ps + DowngradeAfter (prLevel ps) * second)"

definition ad_inv :: "adaptive_controller \<Rightarrow> bool" where
  "ad_inv ac \<longleftrightarrow> adDowngradeAfter ac = 0 \<and> adUpgradeCooldown ac = 30 * second \<and> distinct (map fst (adProcs ac))
     \<and> (\<forall>pid ps. map_of (adProcs ac) pid = Some ps \<longrightarrow> proc_ok ps \<and> 0 \<le> pid \<and> pid < 2 ^ 32)
     \<and> (\<exists>m. adBpfMap ac = Some m \<and> (\<forall>pid. 0 \<le> pid \<and> pid < 2 ^ 32 \<longrightarrow>
          map_of m (word_of_int pid) = (if GetLevel pid ac > 1 then Some (word_of_int (GetLevel pid ac)) else None)))"

section \<open>One process changes\<close>

lemma pid_inj:
  assumes "0 \<le> a" "a < 2 ^ 32" "0 \<le> b" "b < 2 ^ 32"
  shows "(word_of_int a :: u32) = word_of_int b \<longleftrightarrow> a = b"
  using assms by (auto simp: word_of_int_eq_iff take_bit_int_eq_self)

lemma GetLevel_update [simp]:
  "GetLevel x (ac\<lparr>adProcs := AList.update pid ps (adProcs ac)\<rparr>) = (if x = pid then prLevel ps else GetLevel x ac)"
  "GetLevel x (ac\<lparr>adProcs := AList.update pid ps (adProcs ac), adBpfMap := m\<rparr>) = (if x = pid then prLevel ps else GetLevel x ac)"
  "GetLevel x (ac\<lparr>adStats := st\<rparr>) = GetLevel x ac"
  by (simp_all add: GetLevel_def)

lemma ad_inv_stats [simp]: "ad_inv (ac\<lparr>adStats := st\<rparr>) = ad_inv ac" "ad_inv (refreshStats ac) = ad_inv ac"
  by (simp_all add: ad_inv_def refreshStats_def)

definition setProc :: "int \<Rightarrow> proc_state \<Rightarrow> adaptive_controller \<Rightarrow> adaptive_controller" where
  "setProc pid ps ac = ac\<lparr>adProcs := AList.update pid ps (adProcs ac),
     adBpfMap := (if prLevel ps > 1 then bpfPut False pid (prLevel ps) (adBpfMap ac) else bpfDelete False pid (adBpfMap ac))\<rparr>"

lemma ad_inv_setProc:
  assumes inv: "ad_inv ac" and pid: "0 \<le> pid" "pid < 2 ^ 32" and ps: "proc_ok ps"
  shows "ad_inv (setProc pid ps ac)"
proof -
  obtain m where m: "adBpfMap ac = Some m" "\<And>x. 0 \<le> x \<Longrightarrow> x < 2 ^ 32 \<Longrightarrow>
      map_of m (word_of_int x) = (if GetLevel x ac > 1 then Some (word_of_int (GetLevel x ac)) else None)"
    using inv by (auto simp: ad_inv_def)
  define m' where "m' = (if prLevel ps > 1 then AList.update (word_of_int pid) (word_of_int (prLevel ps)) m
      else AList.delete (word_of_int pid) m)"
  have lv: "GetLevel x (setProc pid ps ac) = (if x = pid then prLevel ps else GetLevel x ac)" for x
    by (simp add: setProc_def)
  have "adBpfMap (setProc pid ps ac) = Some m'" by (simp add: setProc_def bpfPut_def bpfDelete_def m(1) m'_def)
  moreover have "map_of m' (word_of_int x) = (if GetLevel x (setProc pid ps ac) > 1
      then Some (word_of_int (GetLevel x (setProc pid ps ac))) else None)" if "0 \<le> x" "x < 2 ^ 32" for x
    using that pid pid_inj [OF that pid] m(2) [OF that] unfolding lv by (simp add: m'_def)
  moreover have "adDowngradeAfter (setProc pid ps ac) = 0" "adUpgradeCooldown (setProc pid ps ac) = 30 * second"
    "distinct (map fst (adProcs (setProc pid ps ac)))"
    using inv by (auto simp: ad_inv_def setProc_def distinct_mput)
  moreover have "proc_ok qs \<and> 0 \<le> q \<and> q < 2 ^ 32" if "map_of (adProcs (setProc pid ps ac)) q = Some qs" for q qs
    using inv that ps pid by (auto simp: ad_inv_def setProc_def split: if_splits)
  ultimately show ?thesis unfolding ad_inv_def by blast
qed

lemma ad_inv_sameLevel:
  assumes inv: "ad_inv ac" and pid: "0 \<le> pid" "pid < 2 ^ 32" and ps: "proc_ok ps" "prLevel ps = GetLevel pid ac"
  shows "ad_inv (ac\<lparr>adProcs := AList.update pid ps (adProcs ac)\<rparr>)"
  using assms unfolding ad_inv_def by (auto simp: distinct_mput)

lemma getOrCreate_ok: "ad_inv ac \<Longrightarrow> proc_ok (getOrCreate pid (adProcs ac)) \<and> prLevel (getOrCreate pid (adProcs ac)) = GetLevel pid ac"
  by (auto simp: ad_inv_def getOrCreate_def GetLevel_def newProc_def proc_ok_def split: option.splits)

lemma zero_elapsed: "0 \<le> now \<Longrightarrow> \<not> timeSub now zeroTime < 30 * second"
  by (simp add: timeSub_def zeroTime_def)

section \<open>Operations\<close>

lemma ad_inv_Upgrade:
  assumes inv: "ad_inv ac" and now: "0 \<le> now" and pid: "0 \<le> pid" "pid < 2 ^ 32"
  shows "ad_inv (snd (Upgrade False now pid ac))"
proof -
  define ps where "ps = getOrCreate pid (adProcs ac)"
  define lvl where "lvl = (if prAlertCount ps + 1 \<ge> 3 then LevelInvestigating else LevelSuspicious)"
  define ps1 where "ps1 = ps\<lparr>prAlertCount := prAlertCount ps + 1, prLevel := lvl\<rparr>"
  define ps2 where "ps2 = ps1\<lparr>prUpgradedAt := now, prLastAlertAt := now, prDowngradeAt := now + DowngradeAfter lvl * second\<rparr>"
  have ok: "proc_ok ps" and lv: "prLevel ps = GetLevel pid ac" using getOrCreate_ok [OF inv] by (auto simp: ps_def)
  have cd: "adUpgradeCooldown ac = 30 * second" using inv by (simp add: ad_inv_def)
  let ?early = "lvl \<le> prLevel ps \<and> timeSub now (prUpgradedAt ps) < 30 * second \<and> prLevel ps > 1"
  have up: "snd (Upgrade False now pid ac) =
      (if ?early then ac\<lparr>adProcs := AList.update pid ps1 (adProcs ac)\<rparr>
       else refreshStats ((setProc pid ps2 ac)\<lparr>adStats := (adStats ac)\<lparr>asTotalUpgrades := asTotalUpgrades (adStats ac) + 1\<rparr>\<rparr>))"
    using ok by (auto simp: Upgrade_def Let_def cd setProc_def ps2_def ps1_def lvl_def ps_def [symmetric] DowngradeAfter_def proc_ok_def)
  show ?thesis
  proof (cases ?early)
    case True
    have "lvl = prLevel ps"
      using True ok zero_elapsed [OF now] by (auto simp: lvl_def proc_ok_def)
    then show ?thesis using True up ad_inv_sameLevel [OF inv pid, of ps1] ok lv
      by (auto simp: ps1_def proc_ok_def)
  next
    case False
    have "proc_ok ps2"
      using ok now by (auto simp: ps2_def ps1_def lvl_def proc_ok_def DowngradeAfter_def)
    then show ?thesis using ad_inv_setProc [OF inv pid] unfolding up if_not_P [OF False] by simp
  qed
qed

lemma ad_inv_OnAlert:
  assumes inv: "ad_inv ac" and now: "0 \<le> now" and pid: "0 \<le> pid" "pid < 2 ^ 32"
  shows "ad_inv (snd (OnAlert False now pid score ac))"
proof -
  define ps where "ps = getOrCreate pid (adProcs ac)"
  define ps1 where "ps1 = ps\<lparr>prLevel := LevelInvestigating, prAlertCount := prAlertCount ps + 1, prLastAlertAt := now,
    prDowngradeAt := now + 300 * second\<rparr>"
  have fast: "snd (OnAlert False now pid score ac) = setProc pid ps1 ac" if "20 \<le> score"
    using that by (simp add: OnAlert_def AlertThreshold_def DowngradeAfter_def Let_def setProc_def ps1_def ps_def)
  have "proc_ok ps1"
    using getOrCreate_ok [OF inv, of pid] now by (auto simp: ps1_def ps_def proc_ok_def DowngradeAfter_def)
  then have "ad_inv (setProc pid ps1 ac)" by (rule ad_inv_setProc [OF inv pid])
  then show ?thesis
    using fast ad_inv_Upgrade [OF inv now pid] inv by (cases "20 \<le> score") (auto simp: OnAlert_def AlertThreshold_def)
qed

lemma lowered_setProc:
  "ac\<lparr>adProcs := AList.update pid (lowerProc ps) (adProcs ac), adBpfMap := bpfDelete False pid (adBpfMap ac), adStats := st\<rparr>
   = (setProc pid (lowerProc ps) ac)\<lparr>adStats := st\<rparr>"
  by (simp add: setProc_def lowerProc_def)

lemma lowerProc_ok: "proc_ok ps \<Longrightarrow> proc_ok (lowerProc ps)"
  by (auto simp: proc_ok_def lowerProc_def)

lemma ad_inv_lower:
  "ad_inv ac \<Longrightarrow> map_of (adProcs ac) pid = Some ps \<Longrightarrow> ad_inv (setProc pid (lowerProc ps) ac)"
  by (rule ad_inv_setProc) (auto simp: ad_inv_def lowerProc_ok)

lemma ad_inv_Downgrade: "ad_inv ac \<Longrightarrow> ad_inv (snd (Downgrade False pid ac))"
  by (auto simp: Downgrade_def lowered_setProc ad_inv_lower split: option.splits)

text \<open>A tick visits each process once and lowers exactly those that are overdue.\<close>

definition tickProc :: "time \<Rightarrow> proc_state \<Rightarrow> proc_state" where
  "tickProc now ps = (if overdue 0 now ps then lowerProc ps else ps)"

lemma tickLoop_spec:
  assumes "ad_inv ac" "distinct (map fst rest)" "\<And>q ps. (q, ps) \<in> set rest \<Longrightarrow> map_of (adProcs ac) q = Some ps"
    "tickLoop {} now rest n ac = (n', ac')"
  shows "ad_inv ac' \<and> n' = n + length (filter (\<lambda>p. overdue 0 now (snd p)) rest)
     \<and> map_of (adProcs ac') q = (if q \<in> fst ` set rest then map_option (tickProc now) (map_of (adProcs ac) q)
                                 else map_of (adProcs ac) q)"
  using assms
proof (induction rest arbitrary: n ac)
  case (Cons p rest)
  obtain x ps where p: "p = (x, ps)" by (cases p)
  have da: "adDowngradeAfter ac = 0" using Cons.prems(1) by (simp add: ad_inv_def)
  have x: "map_of (adProcs ac) x = Some ps" "x \<notin> fst ` set rest" using Cons.prems(2,3) p by auto
  show ?case
  proof (cases "overdue 0 now ps")
    case True
    define ac1 where "ac1 = (setProc x (lowerProc ps) ac)\<lparr>adStats := (adStats ac)\<lparr>asTotalDowngrades := asTotalDowngrades (adStats ac) + 1\<rparr>\<rparr>"
    have lookup: "map_of (adProcs ac1) q = (if q = x then Some (lowerProc ps) else map_of (adProcs ac) q)" for q
      by (simp add: ac1_def setProc_def)
    have cur: "map_of (adProcs ac1) q = Some qs" if "(q, qs) \<in> set rest" for q qs
      using that x(2) Cons.prems(3) [of q qs] lookup by force
    have "tickLoop {} now rest (n + 1) ac1 = (n', ac')"
      using Cons.prems(4) True da by (simp add: p lowered_setProc ac1_def)
    moreover have "ad_inv ac1" using ad_inv_lower [OF Cons.prems(1) x(1)] by (simp add: ac1_def)
    ultimately have "ad_inv ac' \<and> n' = n + 1 + length (filter (\<lambda>p. overdue 0 now (snd p)) rest)
        \<and> map_of (adProcs ac') q = (if q \<in> fst ` set rest then map_option (tickProc now) (map_of (adProcs ac1) q)
                                    else map_of (adProcs ac1) q)"
      using Cons.IH [OF _ _ cur, of "n + 1"] Cons.prems(2) p by auto
    then show ?thesis using True x unfolding lookup by (auto simp: p tickProc_def)
  next
    case False
    then have "tickLoop {} now rest n ac = (n', ac')" using Cons.prems(4) da by (simp add: p)
    moreover have "map_of (adProcs ac) q = Some qs" if "(q, qs) \<in> set rest" for q qs
      using that Cons.prems(3) by (simp add: p)
    ultimately have "ad_inv ac' \<and> n' = n + length (filter (\<lambda>p. overdue 0 now (snd p)) rest)
        \<and> map_of (adProcs ac') q = (if q \<in> fst ` set rest then map_option (tickProc now) (map_of (adProcs ac) q)
                                    else map_of (adProcs ac) q)"
      using Cons.IH [OF Cons.prems(1)] Cons.prems(2) p by auto
    then show ?thesis using False x by (auto simp: p tickProc_def)
  qed
qed simp

lemma adaptiveTick_spec:
  assumes inv: "ad_inv ac"
  shows "ad_inv (snd (adaptiveTick {} now ac))"
    "fst (adaptiveTick {} now ac) = length (filter (\<lambda>p. overdue 0 now (snd p)) (adProcs ac))"
    "map_of (adProcs (snd (adaptiveTick {} now ac))) q = map_option (tickProc now) (map_of (adProcs ac) q)"
proof -
  obtain n' ac' where loop: "tickLoop {} now (adProcs ac) 0 ac = (n', ac')" by fastforce
  have d: "distinct (map fst (adProcs ac))" using inv by (simp add: ad_inv_def)
  note spec = tickLoop_spec [OF inv d map_of_is_SomeI [OF d] loop]
  have tick: "adaptiveTick {} now ac = (n', refreshStats ac')" by (simp add: adaptiveTick_def loop)
  show "ad_inv (snd (adaptiveTick {} now ac))"
    "fst (adaptiveTick {} now ac) = length (filter (\<lambda>p. overdue 0 now (snd p)) (adProcs ac))"
    using spec by (auto simp: tick)
  show "map_of (adProcs (snd (adaptiveTick {} now ac))) q = map_option (tickProc now) (map_of (adProcs ac) q)"
    using spec [of q] by (cases "map_of (adProcs ac) q") (force simp: tick refreshStats_def dest: map_of_SomeD)+
qed

interpretation adsys: client_protocol adOk adStep ad_inv
  by unfold_locales (auto simp: adOk_def adStep_def ad_inv_OnAlert ad_inv_Upgrade ad_inv_Downgrade adaptiveTick_spec
      split: adaptive_op.splits)

lemma ad_inv_New: "ad_inv (NewAdaptive (Some []))"
  by (simp add: ad_inv_def NewAdaptive_def GetLevel_def)

lemma GetLevel_tick:
  assumes inv: "ad_inv ac"
  shows "GetLevel pid (snd (adaptiveTick {} now ac)) =
    (case map_of (adProcs ac) pid of None \<Rightarrow> 1
     | Some ps \<Rightarrow> if now > prLastAlertAt ps + DowngradeAfter (prLevel ps) * second then 1 else prLevel ps)"
proof (cases "map_of (adProcs ac) pid")
  case (Some ps)
  then have "proc_ok ps" using inv by (simp add: ad_inv_def)
  then have "overdue 0 now ps \<longleftrightarrow> prLevel ps > 1 \<and> now > prLastAlertAt ps + DowngradeAfter (prLevel ps) * second"
    by (auto simp: overdue_def proc_ok_def zeroTime_def DowngradeAfter_def)
  moreover have "prLevel ps \<in> {1, 2, 3}" using \<open>proc_ok ps\<close> by (simp add: proc_ok_def)
  ultimately show ?thesis using Some by (auto simp: GetLevel_def adaptiveTick_spec [OF inv] tickProc_def lowerProc_def)
qed (simp add: GetLevel_def adaptiveTick_spec [OF inv])

section \<open>Properties\<close>



text \<open>
  Three behaviours the comments do not announce. An alert can lower a level: after one alert with a high score the
  process is investigated, and the next alert with a lower score makes it only suspicious. Alerts within the cooldown
  do not extend the deadline. A process that was lowered keeps its alert count, so that a single alert can raise it to
  the highest level again.
\<close>

lemma alert_lowers_level:
  assumes "5 \<le> score" "score < 20" "0 \<le> t" "t \<le> now"
  shows "fst (OnAlert f now pid score (snd (OnAlert f t pid 25 (NewAdaptive m)))) = LevelSuspicious"
  using assms zero_elapsed [of now]
  by (simp add: OnAlert_def AlertThreshold_def NewAdaptive_def getOrCreate_def newProc_def DowngradeAfter_def
      Upgrade_def Let_def)

lemma cooldown_keeps_deadline:
  assumes inv: "ad_inv ac" and ps: "map_of (adProcs ac) pid = Some ps" "prLevel ps = 3" "prAlertCount ps \<ge> 2"
    and now: "timeSub now (prUpgradedAt ps) < 30 * second" and score: "5 \<le> score" "score < 20"
  shows "map_of (adProcs (snd (OnAlert f now pid score ac))) pid = Some (ps\<lparr>prAlertCount := prAlertCount ps + 1\<rparr>)"
  using assms by (simp add: OnAlert_def AlertThreshold_def Upgrade_def getOrCreate_def Let_def ad_inv_def)

lemma lowered_process_reraised:
  assumes ps: "map_of (adProcs ac) pid = Some ps" "prAlertCount ps \<ge> 2" and score: "5 \<le> score"
  shows "fst (OnAlert f now pid score (snd (Downgrade g pid ac))) = LevelInvestigating"
  using assms by (auto simp: Downgrade_def OnAlert_def AlertThreshold_def Upgrade_def getOrCreate_def Let_def
      refreshStats_def lowerProc_def)

text \<open>The gauges of the report are exact after an upgrade, and stale after an alert with a high score.\<close>

lemma length_update_eq: "length (AList.update k v al) = (if k \<in> fst ` set al then length al else Suc (length al))"
  by (induction al) auto

lemma fast_upgrade_stale_stats:
  "20 \<le> score \<Longrightarrow> AdaptiveStats (snd (OnAlert f now pid score ac)) =
     (AdaptiveStats ac)\<lparr>arTrackedPids := length (AList.update pid (getOrCreate pid (adProcs ac)) (adProcs ac))\<rparr>"
  by (simp add: OnAlert_def AlertThreshold_def Let_def AdaptiveStats_def length_update_eq)

end
