(* ===== verification/EventFilter.thy ===== *)
theory EventFilter
  imports Events GoPath Sha256 "HOL-Library.Multiset"
begin

text \<open>
  The filter of benign behaviour (\<^verbatim>\<open>internal/engine/filter/baseline.go\<close>, \<^verbatim>\<open>repute.go\<close>, \<^verbatim>\<open>engine.go\<close>): a baseline of hashes
  learned during training, reputation scores of programs and paths, and the decision how an event is handled. The store
  is an association list, \<^const>\<open>None\<close> where the filter has none; the coding of the baseline as JSON is an argument, and so is
  the list of the keys whose write fails, which the code only logs. A nil map is \<^const>\<open>None\<close>: writing to it panics.
\<close>

section \<open>Baseline\<close>

definition Hash :: "event \<Rightarrow> string" where
  "Hash evt =
     (let op' = eventTypeString (evType evt);
          comm = trimSpace (evComm evt);
          path = trimSpace (evPathname evt);
          data = comm @ ''|'' @ op' @ ''|'' @ path
      in take 16 (hexEncode (sha256 (bytesOf data))))"

type_synonym kvstore = "(string \<times> string) list option"

record baseline =
  blPersist :: kvstore
  blKnown :: "(string \<times> int) list option"
  blTraining :: bool
  blStartedAt :: time
  blEndsAt :: time

definition baselineStoreKey :: string where
  "baselineStoreKey = ''filter:baseline''"

type_synonym decoder = "string \<Rightarrow> unit + (string \<times> int) list option"

definition loadBaseline :: "decoder \<Rightarrow> baseline \<Rightarrow> baseline" where
  "loadBaseline unmarshal b = (case blPersist b of
      None \<Rightarrow> b
    | Some store \<Rightarrow> (case map_of store baselineStoreKey of
          None \<Rightarrow> b
        | Some data \<Rightarrow> (case unmarshal data of Inl err \<Rightarrow> b | Inr loaded \<Rightarrow> b\<lparr>blKnown := loaded\<rparr>)))"

definition NewBaseline :: "decoder \<Rightarrow> kvstore \<Rightarrow> baseline" where
  "NewBaseline unmarshal store = loadBaseline unmarshal
     \<lparr>blPersist = store, blKnown = Some [], blTraining = False, blStartedAt = zeroTime, blEndsAt = zeroTime\<rparr>"

definition StartTraining :: "time \<Rightarrow> baseline \<Rightarrow> baseline" where
  "StartTraining now b = b\<lparr>blTraining := True, blStartedAt := now, blEndsAt := now + 24 * 60 * minute\<rparr>"

definition saveBaseline :: "((string \<times> int) list option \<Rightarrow> string) \<Rightarrow> bool \<Rightarrow> baseline \<Rightarrow> baseline" where
  "saveBaseline marshal fails b = (case blPersist b of
      None \<Rightarrow> b
    | Some store \<Rightarrow> if fails then b
        else b\<lparr>blPersist := Some (AList.update baselineStoreKey (marshal (blKnown b)) store)\<rparr>)"

definition StopTraining :: "((string \<times> int) list option \<Rightarrow> string) \<Rightarrow> bool \<Rightarrow> baseline \<Rightarrow> baseline" where
  "StopTraining marshal fails b = saveBaseline marshal fails (b\<lparr>blTraining := False\<rparr>)"

definition IsTraining :: "time \<Rightarrow> baseline \<Rightarrow> bool" where
  "IsTraining now b = (blTraining b \<and> now < blEndsAt b)"

definition TrainingRemaining :: "time \<Rightarrow> baseline \<Rightarrow> duration" where
  "TrainingRemaining now b =
     (if \<not> blTraining b then 0 else let r = timeSub (blEndsAt b) now in if r < 0 then 0 else r)"

definition Record :: "string \<Rightarrow> baseline \<Rightarrow> baseline option" where
  "Record hash b = (case blKnown b of
      None \<Rightarrow> None
    | Some known \<Rightarrow> Some (b\<lparr>blKnown := Some (AList.update hash (mget0 0 known hash + 1) known)\<rparr>))"

definition IsKnown :: "string \<Rightarrow> baseline \<Rightarrow> bool" where
  "IsKnown hash b = (case blKnown b of None \<Rightarrow> False | Some known \<Rightarrow> map_of known hash \<noteq> None)"

section \<open>Reputation\<close>

record rep_rule =
  rrPattern :: string
  rrField :: string
  rrScore :: int
  rrPriority :: int

definition rule :: "string \<Rightarrow> string \<Rightarrow> int \<Rightarrow> int \<Rightarrow> rep_rule" where
  "rule p f s q = \<lparr>rrPattern = p, rrField = f, rrScore = s, rrPriority = q\<rparr>"

definition defaultRules :: "rep_rule list" where
  "defaultRules = [
     rule ''*'' ''comm'' 50 0,
     rule ''systemd*'' ''comm'' 95 10,
     rule ''kernel*'' ''comm'' 95 10,
     rule ''sshd'' ''comm'' 70 10,
     rule ''sshd'' ''comm'' 70 10,
     rule ''sshd'' ''comm'' 70 10,
     rule ''systemd*'' ''path'' 95 10,
     rule ''/usr/bin/*'' ''path'' 85 5,
     rule ''/bin/*'' ''path'' 85 5,
     rule ''/usr/sbin/*'' ''path'' 85 5,
     rule ''/sbin/*'' ''path'' 85 5,
     rule ''/usr/lib/*'' ''path'' 80 5,
     rule ''/var/log/*'' ''path'' 60 3,
     rule ''/etc/*'' ''path'' 50 3,
     rule ''/home/*'' ''path'' 40 2,
     rule ''/var/www/*'' ''path'' 30 2,
     rule ''/tmp/*'' ''path'' 5 10,
     rule ''/dev/shm/*'' ''path'' 5 10,
     rule ''/var/tmp/*'' ''path'' 5 10,
     rule ''/proc/*'' ''path'' 10 5,
     rule ''nc'' ''comm'' 10 10,
     rule ''ncat'' ''comm'' 10 10,
     rule ''tftp'' ''comm'' 10 10,
     rule ''curl'' ''comm'' 30 5,
     rule ''wget'' ''comm'' 30 5,
     rule ''python*'' ''comm'' 30 5,
     rule ''bash'' ''comm'' 40 5]"

text \<open>
  \<^verbatim>\<open>sort.Slice\<close> is not stable: the result is any permutation with falling priorities. \<open>byPriority rules out\<close> says that
  \<open>out\<close> is one.
\<close>

definition byPriority :: "rep_rule list \<Rightarrow> rep_rule list \<Rightarrow> bool" where
  "byPriority rules out \<longleftrightarrow> mset out = mset rules \<and> sorted (rev (map rrPriority out))"

definition NewReputation :: "rep_rule list \<Rightarrow> bool" where
  "NewReputation rules = byPriority defaultRules rules"

definition pathMatches :: "string \<Rightarrow> string \<Rightarrow> bool" where
  "pathMatches pattern path =
     (if pathMatch pattern path = Inr True then True
      else if hasSuffix pattern ''/*'' then hasPrefix path (trimSuffix pattern ''*'')
      else False)"

fun ScoreComm :: "rep_rule list \<Rightarrow> string \<Rightarrow> int" where
  "ScoreComm [] comm = 50"
| "ScoreComm (r # rules) comm =
     (if rrField r \<noteq> ''comm'' then ScoreComm rules comm
      else if pathMatch (rrPattern r) comm = Inr True then rrScore r else ScoreComm rules comm)"

fun ScorePath :: "rep_rule list \<Rightarrow> string \<Rightarrow> int" where
  "ScorePath [] path = 50"
| "ScorePath (r # rules) path =
     (if rrField r \<noteq> ''path'' then ScorePath rules path
      else if pathMatches (rrPattern r) path then rrScore r else ScorePath rules path)"

definition Classify :: "int \<Rightarrow> string" where
  "Classify score =
     (if score \<ge> 80 then ''trusted'' else if score \<ge> 50 then ''normal'' else if score \<ge> 20 then ''suspicious'' else ''untrusted'')"

definition AddRule :: "string \<Rightarrow> string \<Rightarrow> int \<Rightarrow> int \<Rightarrow> rep_rule list \<Rightarrow> rep_rule list \<Rightarrow> bool" where
  "AddRule pattern field score priority rules rules' =
     byPriority (rules @ [rule pattern field score priority]) rules'"

definition ShouldAggressivelyMerge :: "int \<Rightarrow> bool" where
  "ShouldAggressivelyMerge score = (score \<ge> 80)"

definition IsUntrusted :: "int \<Rightarrow> bool" where
  "IsUntrusted score = (score < 20)"

section \<open>Engine\<close>

datatype decision = DecisionProcess | DecisionLowLevel | DecisionDrop

fun decisionString :: "decision \<Rightarrow> string" where
  "decisionString DecisionProcess = ''PROCESS''"
| "decisionString DecisionLowLevel = ''LOW_LEVEL''"
| "decisionString DecisionDrop = ''DROP''"

record filter_engine =
  feBaseline :: baseline
  feRepute :: "rep_rule list"
  feCounters :: "(string \<times> int) list"
  feTotalEvents :: int
  feLowLevelEvents :: int
  feDroppedEvents :: int
  feFilteredBytes :: int

definition NewFilterEngine :: "baseline \<Rightarrow> rep_rule list \<Rightarrow> filter_engine" where
  "NewFilterEngine baseline repute = \<lparr>feBaseline = baseline, feRepute = repute, feCounters = [], feTotalEvents = 0,
     feLowLevelEvents = 0, feDroppedEvents = 0, feFilteredBytes = 0\<rparr>"

definition filterSensitivePaths :: "string list" where
  "filterSensitivePaths = [''/etc/shadow'', ''/etc/passwd'', ''/etc/sudoers'', ''/etc/ssh/'', ''/root/'', ''/.ssh/'',
     ''/var/log/auth.log'']"

definition filterSensitivePath :: "string \<Rightarrow> bool" where
  "filterSensitivePath path = list_ex (\<lambda>p. length path \<ge> length p \<and> take (length p) path = p) filterSensitivePaths"

definition filterSensitive :: "event \<Rightarrow> bool" where
  "filterSensitive evt =
     (if evFlags evt AND EventFlagExecSetuid \<noteq> 0 then True
      else if evType evt = EventNetConnect \<or> evType evt = EventNetAccept then True
      else filterSensitivePath (evPathname evt) \<and> evFFlags evt \<noteq> 0)"

text \<open>Go's division by two truncates towards zero.\<close>

definition half :: "int \<Rightarrow> int" where
  "half n = (if n < 0 then - (- n div 2) else n div 2)"

definition combinedScore :: "rep_rule list \<Rightarrow> event \<Rightarrow> int" where
  "combinedScore rules evt = half (ScoreComm rules (evComm evt) + ScorePath rules (evPathname evt))"

definition Decide :: "time \<Rightarrow> event \<Rightarrow> filter_engine \<Rightarrow> (decision \<times> filter_engine) option" where
  "Decide now evt e =
     (let e = e\<lparr>feTotalEvents := feTotalEvents e + 1\<rparr>
      in if IsTraining now (feBaseline e) then
           (case Record (Hash evt) (feBaseline e) of
              None \<Rightarrow> None
            | Some b \<Rightarrow> Some (DecisionProcess, e\<lparr>feBaseline := b\<rparr>))
         else if filterSensitive evt then Some (DecisionProcess, e)
         else let hash = Hash evt in
           if \<not> IsKnown hash (feBaseline e) then Some (DecisionProcess, e)
           else if ShouldAggressivelyMerge (combinedScore (feRepute e) evt) then
             Some (DecisionLowLevel, e\<lparr>feCounters := AList.update hash (mget0 0 (feCounters e) hash + 1) (feCounters e),
               feLowLevelEvents := feLowLevelEvents e + 1, feFilteredBytes := feFilteredBytes e + 332\<rparr>)
           else Some (DecisionLowLevel, e\<lparr>feLowLevelEvents := feLowLevelEvents e + 1\<rparr>))"

definition LowLevelCounts :: "filter_engine \<Rightarrow> (string \<times> int) list" where
  "LowLevelCounts e = feCounters e"

definition ResetCounters :: "filter_engine \<Rightarrow> filter_engine" where
  "ResetCounters e = e\<lparr>feCounters := []\<rparr>"

definition summaryText :: "string \<Rightarrow> int \<Rightarrow> string" where
  "summaryText hash n = ''{\"hash\":\"'' @ hash @ ''\",\"count\":'' @ showInt n @ ''}''"

fun writeSummaries :: "string set \<Rightarrow> (string \<times> int) list \<Rightarrow> kvstore \<Rightarrow> kvstore" where
  "writeSummaries fails [] store = store"
| "writeSummaries fails ((hash, n) # counts) store =
     (let key = ''filter:lowlevel:'' @ hash
      in writeSummaries fails counts
        (case store of None \<Rightarrow> None
         | Some st \<Rightarrow> if key \<in> fails then Some st else Some (AList.update key (summaryText hash n) st)))"

definition FlushSummary :: "string set \<Rightarrow> kvstore \<Rightarrow> filter_engine \<Rightarrow> kvstore \<times> filter_engine" where
  "FlushSummary fails store e =
     (let counts = LowLevelCounts e
      in if counts = [] then (store, e) else (writeSummaries fails counts store, ResetCounters e))"

section \<open>The engine as a system\<close>

datatype filter_op =
    FDecide time event
  | FStart time
  | FStop bool
  | FFlush

definition filterStep :: "((string \<times> int) list option \<Rightarrow> string) \<Rightarrow> filter_op \<Rightarrow> filter_engine \<Rightarrow> filter_engine option" where
  "filterStep marshal op e = (case op of
      FDecide now evt \<Rightarrow> map_option snd (Decide now evt e)
    | FStart now \<Rightarrow> Some (e\<lparr>feBaseline := StartTraining now (feBaseline e)\<rparr>)
    | FStop fails \<Rightarrow> Some (e\<lparr>feBaseline := StopTraining marshal fails (feBaseline e)\<rparr>)
    | FFlush \<Rightarrow> Some (snd (FlushSummary {} (blPersist (feBaseline e)) e)))"

text \<open>What a history of operations says: the end of the training in force, and the hashes of the events seen in training.\<close>

fun trainEnd :: "time option \<Rightarrow> filter_op list \<Rightarrow> time option" where
  "trainEnd cur [] = cur"
| "trainEnd cur (FStart now # ops) = trainEnd (Some (now + 24 * 60 * minute)) ops"
| "trainEnd cur (FStop fails # ops) = trainEnd None ops"
| "trainEnd cur (FDecide now evt # ops) = trainEnd cur ops"
| "trainEnd cur (FFlush # ops) = trainEnd cur ops"

definition inTraining :: "time option \<Rightarrow> time \<Rightarrow> bool" where
  "inTraining cur now = (case cur of None \<Rightarrow> False | Some t \<Rightarrow> now < t)"

fun learned :: "time option \<Rightarrow> filter_op list \<Rightarrow> string set" where
  "learned cur [] = {}"
| "learned cur (op # ops) = (case op of FDecide now evt \<Rightarrow> if inTraining cur now then {Hash evt} else {} | _ \<Rightarrow> {})
     \<union> learned (trainEnd cur [op]) ops"

definition filter_inv :: "filter_engine \<Rightarrow> bool" where
  "filter_inv e \<longleftrightarrow> blKnown (feBaseline e) \<noteq> None \<and> feDroppedEvents e = 0
     \<and> distinct (map fst (feCounters e))
     \<and> (\<forall>h n. map_of (feCounters e) h = Some n \<longrightarrow> 0 < n \<and> IsKnown h (feBaseline e))
     \<and> 0 \<le> feLowLevelEvents e \<and> feLowLevelEvents e \<le> feTotalEvents e"

section \<open>Scores do not depend on the order of equal priorities\<close>

definition directoryScore :: "string \<Rightarrow> int" where
  "directoryScore path =
     (if hasPrefix path ''systemd'' \<and> CHR ''/'' \<notin> set path then 95
      else if list_ex (hasPrefix path) [''/tmp/'', ''/dev/shm/'', ''/var/tmp/''] then 5
      else if list_ex (hasPrefix path) [''/usr/bin/'', ''/bin/'', ''/usr/sbin/'', ''/sbin/''] then 85
      else if hasPrefix path ''/usr/lib/'' then 80
      else if hasPrefix path ''/proc/'' then 10
      else if hasPrefix path ''/var/log/'' then 60
      else if hasPrefix path ''/home/'' then 40
      else if hasPrefix path ''/var/www/'' then 30
      else 50)"

definition programScore :: "string \<Rightarrow> int" where
  "programScore comm =
     (if CHR ''/'' \<in> set comm then 50
      else if hasPrefix comm ''systemd'' \<or> hasPrefix comm ''kernel'' then 95
      else if comm = ''sshd'' then 70
      else if comm \<in> {''nc'', ''ncat'', ''tftp''} then 10
      else if comm \<in> {''curl'', ''wget''} \<or> hasPrefix comm ''python'' then 30
      else if comm = ''bash'' then 40
      else 50)"

lemma pathMatch_star:
  assumes "plain p"
  shows "pathMatch (p @ ''*'') s = Inr True \<longleftrightarrow> hasPrefix s p \<and> CHR ''/'' \<notin> set (drop (length p) s)"
proof (cases "p = []")
  case True
  then show ?thesis by (subst pathMatch.simps) (simp add: scanChunk_def hasPrefix_def)
next
  case False
  then have "scanChunk (p @ ''*'') = (False, p, ''*'')"
    using dropWhile_plain [of p "''*''"] scanTo_plain(1) [of p "[]"] assms by (simp add: scanChunk_def)
  moreover have "checkRest ''*'' = Inr False"
    by (simp add: checkRest.simps scanChunk_def matchChunk_def)
  moreover have "pathMatch ''*'' t = Inr (CHR ''/'' \<notin> set t)" for t
    by (subst pathMatch.simps) (simp add: scanChunk_def)
  ultimately show ?thesis using False assms
    by (subst pathMatch.simps) (auto simp: matchChunk_plain)
qed

lemma pathMatches_dir:
  assumes "plain p" "hasSuffix p ''/''" shows "pathMatches (p @ ''*'') path \<longleftrightarrow> hasPrefix path p"
proof -
  have "hasSuffix (p @ ''*'') ''/*''" using assms(2) by (auto simp: hasSuffix_iff)
  moreover have "trimSuffix (p @ ''*'') ''*'' = p" by (simp add: trimSuffix_def hasSuffix_iff)
  ultimately show ?thesis using pathMatch_star [OF assms(1)] by (auto simp: pathMatches_def)
qed

text \<open>The first match in a list with falling priorities has the highest priority of all matches.\<close>

definition topMatch :: "(rep_rule \<Rightarrow> bool) \<Rightarrow> rep_rule list \<Rightarrow> rep_rule option \<Rightarrow> bool" where
  "topMatch P rules m = (case m of None \<Rightarrow> \<forall>r \<in> set rules. \<not> P r
     | Some r \<Rightarrow> r \<in> set rules \<and> P r \<and> (\<forall>r' \<in> set rules. P r' \<longrightarrow> rrPriority r' \<le> rrPriority r))"

lemma find_topMatch: "sorted (rev (map rrPriority rules)) \<Longrightarrow> topMatch P rules (find P rules)"
  by (induction rules) (auto simp: topMatch_def sorted_append split: option.splits)

lemma ScorePath_find:
  "ScorePath rules path = (case find (\<lambda>r. rrField r = ''path'' \<and> pathMatches (rrPattern r) path) rules of
      None \<Rightarrow> 50 | Some r \<Rightarrow> rrScore r)"
  by (induction rules) auto

lemma ScoreComm_find:
  "ScoreComm rules comm = (case find (\<lambda>r. rrField r = ''comm'' \<and> pathMatch (rrPattern r) comm = Inr True) rules of
      None \<Rightarrow> 50 | Some r \<Rightarrow> rrScore r)"
  by (induction rules) auto

lemma byPriority_topMatch: "byPriority rs rules \<Longrightarrow> topMatch P rs (find P rules)"
  using find_topMatch [of rules P] by (auto simp: byPriority_def topMatch_def dest: mset_eq_setD split: option.splits)

lemma rep_field [simp]:
  "rrField (rule p f s q) = f" "rrScore (rule p f s q) = s" "rrPriority (rule p f s q) = q" "rrPattern (rule p f s q) = p"
  by (simp_all add: rule_def)

lemma dir_patterns:
  "pathMatches ''/usr/bin/*'' path = hasPrefix path ''/usr/bin/''"
  "pathMatches ''/bin/*'' path = hasPrefix path ''/bin/''"
  "pathMatches ''/usr/sbin/*'' path = hasPrefix path ''/usr/sbin/''"
  "pathMatches ''/sbin/*'' path = hasPrefix path ''/sbin/''"
  "pathMatches ''/usr/lib/*'' path = hasPrefix path ''/usr/lib/''"
  "pathMatches ''/var/log/*'' path = hasPrefix path ''/var/log/''"
  "pathMatches ''/etc/*'' path = hasPrefix path ''/etc/''"
  "pathMatches ''/home/*'' path = hasPrefix path ''/home/''"
  "pathMatches ''/var/www/*'' path = hasPrefix path ''/var/www/''"
  "pathMatches ''/tmp/*'' path = hasPrefix path ''/tmp/''"
  "pathMatches ''/dev/shm/*'' path = hasPrefix path ''/dev/shm/''"
  "pathMatches ''/var/tmp/*'' path = hasPrefix path ''/var/tmp/''"
  "pathMatches ''/proc/*'' path = hasPrefix path ''/proc/''"
  using pathMatches_dir [of "''/usr/bin/''"] pathMatches_dir [of "''/bin/''"] pathMatches_dir [of "''/usr/sbin/''"]
    pathMatches_dir [of "''/sbin/''"] pathMatches_dir [of "''/usr/lib/''"] pathMatches_dir [of "''/var/log/''"]
    pathMatches_dir [of "''/etc/''"] pathMatches_dir [of "''/home/''"] pathMatches_dir [of "''/var/www/''"]
    pathMatches_dir [of "''/tmp/''"] pathMatches_dir [of "''/dev/shm/''"] pathMatches_dir [of "''/var/tmp/''"]
    pathMatches_dir [of "''/proc/''"]
  by (simp_all add: hasSuffix_def)

lemma star_noslash:
  assumes "plain p" "CHR ''/'' \<notin> set p"
  shows "pathMatch (p @ ''*'') s = Inr True \<longleftrightarrow> hasPrefix s p \<and> CHR ''/'' \<notin> set s"
proof (cases "hasPrefix s p")
  case True
  then obtain r where "s = p @ r" by (auto simp: hasPrefix_iff)
  then show ?thesis using assms by (simp add: pathMatch_star)
qed (simp add: pathMatch_star [OF assms(1)])

lemma star_patterns:
  "pathMatch ''systemd*'' s = Inr True \<longleftrightarrow> hasPrefix s ''systemd'' \<and> CHR ''/'' \<notin> set s"
  "pathMatch ''kernel*'' s = Inr True \<longleftrightarrow> hasPrefix s ''kernel'' \<and> CHR ''/'' \<notin> set s"
  "pathMatch ''python*'' s = Inr True \<longleftrightarrow> hasPrefix s ''python'' \<and> CHR ''/'' \<notin> set s"
  "pathMatch ''*'' s = Inr True \<longleftrightarrow> CHR ''/'' \<notin> set s"
  "pathMatches ''systemd*'' s \<longleftrightarrow> hasPrefix s ''systemd'' \<and> CHR ''/'' \<notin> set s"
  using star_noslash [of "''systemd''" s] star_noslash [of "''kernel''" s] star_noslash [of "''python''" s]
    star_noslash [of "[]" s]
  by (simp_all add: hasSuffix_def pathMatches_def hasPrefix_def)

lemma default_path_match:
  assumes "r \<in> set defaultRules" "rrField r = ''path''" "pathMatches (rrPattern r) path"
  shows "directoryScore path = rrScore r"
  using assms unfolding defaultRules_def
  by (simp only: set_simps insert_iff empty_iff) (elim disjE; clarsimp simp: dir_patterns star_patterns directoryScore_def hasPrefix_iff)

lemma default_path_none:
  assumes "\<forall>r \<in> set defaultRules. \<not> (rrField r = ''path'' \<and> pathMatches (rrPattern r) path)"
  shows "directoryScore path = 50"
  using assms by (simp add: defaultRules_def dir_patterns star_patterns directoryScore_def)

text \<open>Of the rules for programs only the star overlaps others, and it has the lowest priority.\<close>

lemma default_comm_match:
  assumes "r \<in> set defaultRules" "rrField r = ''comm''" "pathMatch (rrPattern r) comm = Inr True" "rrPriority r \<noteq> 0"
  shows "programScore comm = rrScore r"
  using assms unfolding defaultRules_def
  by (simp only: set_simps insert_iff empty_iff)
    (elim disjE; clarsimp simp: star_patterns pathMatch_plain programScore_def hasPrefix_iff)

lemma default_comm_none:
  assumes "\<forall>r \<in> set defaultRules. rrField r = ''comm'' \<and> pathMatch (rrPattern r) comm = Inr True \<longrightarrow> rrPriority r = 0"
  shows "programScore comm = 50"
  using assms by (auto simp: defaultRules_def star_patterns pathMatch_plain programScore_def)

lemma default_priority_zero: "r \<in> set defaultRules \<Longrightarrow> rrPriority r = 0 \<Longrightarrow> rrScore r = 50 \<and> rrField r = ''comm''"
  by (auto simp: defaultRules_def)

lemma default_priority_nonneg: "r \<in> set defaultRules \<Longrightarrow> 0 \<le> rrPriority r"
  by (auto simp: defaultRules_def)

lemma default_scores:
  assumes "NewReputation rules"
  shows "ScorePath rules path = directoryScore path" "ScoreComm rules comm = programScore comm"
proof -
  let ?P = "\<lambda>r. rrField r = ''path'' \<and> pathMatches (rrPattern r) path"
  let ?C = "\<lambda>r. rrField r = ''comm'' \<and> pathMatch (rrPattern r) comm = Inr True"
  note top = byPriority_topMatch [OF assms [unfolded NewReputation_def]]
  show "ScorePath rules path = directoryScore path"
    using top [of ?P] default_path_match default_path_none
    by (cases "find ?P rules") (auto simp: ScorePath_find topMatch_def)
  show "ScoreComm rules comm = programScore comm"
  proof (cases "find ?C rules")
    case None
    then have "\<forall>r \<in> set defaultRules. \<not> ?C r" using top [of ?C] by (simp add: topMatch_def)
    then have "programScore comm = 50" by (intro default_comm_none) blast
    then show ?thesis by (simp only: ScoreComm_find None option.case)
  next
    case (Some r)
    then have r: "r \<in> set defaultRules" "?C r" "\<And>r'. r' \<in> set defaultRules \<Longrightarrow> ?C r' \<Longrightarrow> rrPriority r' \<le> rrPriority r"
      using top [of ?C] by (auto simp: topMatch_def)
    have "programScore comm = rrScore r"
    proof (cases "rrPriority r = 0")
      case True
      then have "programScore comm = 50"
        using r(3) default_priority_nonneg by (intro default_comm_none) (metis order_antisym)
      then show ?thesis using default_priority_zero [OF r(1) True] by simp
    next
      case False
      then show ?thesis using r(1,2) default_comm_match by blast
    qed
    then show ?thesis by (simp only: ScoreComm_find Some option.case)
  qed
qed

section \<open>Runs\<close>

definition knownSet :: "filter_engine \<Rightarrow> string set" where
  "knownSet e = {h. IsKnown h (feBaseline e)}"

definition trainingOf :: "filter_engine \<Rightarrow> time option" where
  "trainingOf e = (if blTraining (feBaseline e) then Some (blEndsAt (feBaseline e)) else None)"

lemma IsTraining_iff: "IsTraining now (feBaseline e) \<longleftrightarrow> inTraining (trainingOf e) now"
  by (simp add: IsTraining_def inTraining_def trainingOf_def)

lemma Record_spec:
  assumes "blKnown b \<noteq> None"
  obtains b' where "Record h b = Some b'" "blKnown b' \<noteq> None" "{x. IsKnown x b'} = insert h {x. IsKnown x b}"
    "blTraining b' = blTraining b" "blEndsAt b' = blEndsAt b" "blPersist b' = blPersist b"
proof -
  from assms obtain k where k: "blKnown b = Some k" by blast
  define b' where "b' = b\<lparr>blKnown := Some (AList.update h (mget0 0 k h + 1) k)\<rparr>"
  have "Record h b = Some b'" by (simp add: Record_def k b'_def)
  moreover have "{x. IsKnown x b'} = insert h {x. IsKnown x b}" by (auto simp: IsKnown_def b'_def k)
  ultimately show ?thesis by (intro that [of b']) (simp_all add: b'_def)
qed

lemma saved_baseline [simp]:
  "blKnown (StopTraining mar f b) = blKnown b" "blTraining (StopTraining mar f b) = False"
  by (auto simp: StopTraining_def saveBaseline_def split: option.splits)

lemma filterStep_spec:
  assumes "blKnown (feBaseline e) \<noteq> None"
  shows "\<exists>e'. filterStep mar op e = Some e' \<and> blKnown (feBaseline e') \<noteq> None
     \<and> knownSet e' = knownSet e \<union> learned (trainingOf e) [op] \<and> trainingOf e' = trainEnd (trainingOf e) [op]
     \<and> feRepute e' = feRepute e"
proof (cases op)
  case (FDecide now evt)
  obtain b where b: "Record (Hash evt) (feBaseline e) = Some b" "blKnown b \<noteq> None"
      "{x. IsKnown x b} = insert (Hash evt) {x. IsKnown x (feBaseline e)}"
      "blTraining b = blTraining (feBaseline e)" "blEndsAt b = blEndsAt (feBaseline e)"
    using assms by (rule Record_spec)
  show ?thesis
  proof (cases "IsTraining now (feBaseline e)")
    case True
    then show ?thesis using b FDecide IsTraining_iff [of now e]
      by (simp add: filterStep_def Decide_def knownSet_def) (simp add: trainingOf_def)
  next
    case False
    then show ?thesis using assms FDecide IsTraining_iff [of now e]
      by (auto simp: filterStep_def Decide_def Let_def knownSet_def trainingOf_def)
  qed
qed (use assms in \<open>auto simp: filterStep_def FlushSummary_def ResetCounters_def Let_def knownSet_def trainingOf_def
    IsKnown_def StartTraining_def split: option.splits\<close>)

lemma run_history:
  assumes "blKnown (feBaseline e) \<noteq> None"
  shows "\<exists>e'. runOps (filterStep mar) ops e = Some e' \<and> blKnown (feBaseline e') \<noteq> None
     \<and> knownSet e' = knownSet e \<union> learned (trainingOf e) ops \<and> trainingOf e' = trainEnd (trainingOf e) ops
     \<and> feRepute e' = feRepute e"
  using assms
proof (induction ops arbitrary: e)
  case (Cons op ops)
  from filterStep_spec [OF Cons.prems, of mar op] obtain e1 where e1: "filterStep mar op e = Some e1"
    "blKnown (feBaseline e1) \<noteq> None" "knownSet e1 = knownSet e \<union> learned (trainingOf e) [op]"
    "trainingOf e1 = trainEnd (trainingOf e) [op]" "feRepute e1 = feRepute e" by blast
  have "trainEnd (trainEnd (trainingOf e) [op]) ops = trainEnd (trainingOf e) (op # ops)" by (cases op) simp_all
  with Cons.IH [OF e1(2)] e1 show ?case by (auto simp: Un_assoc)
qed simp

text \<open>The bookkeeping: counters of low-level events are positive, of known hashes, and never exceed the events.\<close>

lemma Decide_inv:
  assumes inv: "filter_inv e" and d: "Decide now evt e = Some (d, e')"
  shows "filter_inv e'"
proof (cases "IsTraining now (feBaseline e)")
  case True
  have "blKnown (feBaseline e) \<noteq> None" using inv by (simp add: filter_inv_def)
  then obtain k where k: "blKnown (feBaseline e) = Some k" by blast
  then have "e' = e\<lparr>feTotalEvents := feTotalEvents e + 1,
      feBaseline := (feBaseline e)\<lparr>blKnown := Some (AList.update (Hash evt) (mget0 0 k (Hash evt) + 1) k)\<rparr>\<rparr>"
    using d True by (simp add: Decide_def Record_def)
  then show ?thesis using inv k by (auto simp: filter_inv_def IsKnown_def)
next
  case False
  have pos: "0 < mget0 0 (feCounters e) h + 1" for h
    using inv by (auto simp: filter_inv_def mget0_def split: option.splits) (meson less_imp_le)
  show ?thesis using d False inv pos
    by (auto simp: Decide_def Let_def filter_inv_def distinct_mput split: if_splits option.splits)
qed

lemma filterStep_inv: "filter_inv e \<Longrightarrow> filterStep mar op e = Some e' \<Longrightarrow> filter_inv e'"
proof (cases op)
  case (FDecide now evt)
  assume "filter_inv e" "filterStep mar op e = Some e'"
  then show ?thesis using FDecide Decide_inv by (auto simp: filterStep_def)
qed (auto simp: filterStep_def filter_inv_def StartTraining_def FlushSummary_def ResetCounters_def Let_def IsKnown_def
    split: if_splits)

interpretation filtersys: total_system "filterStep mar" filter_inv for mar
proof unfold_locales
  show "filter_inv e'" if "filter_inv e" "filterStep mar op e = Some e'" for e op e'
    using that by (rule filterStep_inv)
  show "filterStep mar op e \<noteq> None" if "filter_inv e" for op e
    using filterStep_spec [of e mar op] that by (auto simp: filter_inv_def)
qed

lemma filter_inv_New: "blKnown b \<noteq> None \<Longrightarrow> filter_inv (NewFilterEngine b rules)"
  by (auto simp: filter_inv_def NewFilterEngine_def)

section \<open>Properties\<close>


definition benignRead :: event where
  "benignRead = zeroEvent\<lparr>evType := EventFileOpen, evComm := ''sh'', evPathname := ''/tmp/a''\<rparr>"


text \<open>
  What the comments promise and the code does not do. A learned event below a directory for temporary files, whose score
  is the lowest there is, is suppressed like any other, and leaves no trace in the counters that are flushed.
\<close>

lemma untrusted_suppressed_without_trace:
  assumes "NewReputation (feRepute e)" "\<not> IsTraining now (feBaseline e)" "\<not> filterSensitive evt" "IsKnown (Hash evt) (feBaseline e)"
    and "hasPrefix (evPathname evt) ''/tmp/''"
  shows "IsUntrusted (ScorePath (feRepute e) (evPathname evt))
     \<and> Decide now evt e = Some (DecisionLowLevel, e\<lparr>feTotalEvents := feTotalEvents e + 1, feLowLevelEvents := feLowLevelEvents e + 1\<rparr>)"
proof -
  obtain r where p: "evPathname evt = ''/tmp/'' @ r" using assms(5) by (auto simp: hasPrefix_iff)
  have dir: "directoryScore (evPathname evt) = 5" by (simp add: p directoryScore_def hasPrefix_def)
  have "10 \<le> programScore (evComm evt)" "programScore (evComm evt) \<le> 95" by (simp_all add: programScore_def)
  then have "half (programScore (evComm evt) + 5) < 80" by (simp add: half_def)
  then show ?thesis using assms dir default_scores [OF assms(1)]
    by (simp add: Decide_def Let_def combinedScore_def ShouldAggressivelyMerge_def IsUntrusted_def)
qed

text \<open>A second flush overwrites the summary of the first: the store keeps the count of the last period only.\<close>

lemma update_twice: "AList.update k v (AList.update k w al) = AList.update k v al"
  by (induction al) auto

lemma flush_overwrites:
  "writeSummaries {} [(h, n)] (writeSummaries {} [(h, n')] (Some st)) = writeSummaries {} [(h, n)] (Some st)"
  by (simp add: update_twice)

text \<open>A stored baseline of \<^verbatim>\<open>null\<close> decodes without an error to a nil map, and the first event in training panics.\<close>

lemma null_baseline_panics:
  assumes "map_of st baselineStoreKey = Some data" "unmarshal data = Inr None" "now < t + 24 * 60 * minute"
  shows "Decide now evt (NewFilterEngine (StartTraining t (NewBaseline unmarshal (Some st))) rules) = None"
  using assms by (simp add: Decide_def NewFilterEngine_def StartTraining_def NewBaseline_def loadBaseline_def IsTraining_def
      Record_def)

end
