(* ===== verification/EventFold.thy ===== *)
theory EventFold
  imports Interfaces Complex_Main
begin

text \<open>
  Folding of events (\<^verbatim>\<open>internal/engine/fold/ioagg.go\<close>, \<^verbatim>\<open>dedup.go\<close>, \<^verbatim>\<open>throttle.go\<close>): reads and writes are counted per
  descriptor and emitted as summaries, repeated system calls with the same result are suppressed, and the length of the
  aggregation window follows the load. Counters keep their 64 bits; a duration in a summary is kept as a number where the
  code prints it. Percentages are real numbers. An operation reads the clock once.
\<close>

section \<open>Aggregation of reads and writes\<close>

record agg_key =
  akPID :: u32
  akFD :: u32
  akOpType :: u32

definition aggKeyString :: "agg_key \<Rightarrow> string" where
  "aggKeyString k = (if akOpType k = 1 then ''W'' else ''R'') @ '':'' @ showU (akPID k) @ '':'' @ showInt (sint (akFD k))"

record agg_value =
  avCount :: u64
  avTotalBytes :: u64
  avFirstSeen :: time
  avLastSeen :: time

record aggregate_event =
  aePID :: u32
  aeComm :: string
  aeFD :: u32
  aeOpType :: u32
  aeCount :: u64
  aeTotalBytes :: u64
  aeDuration :: duration

record io_aggregator =
  iaAgg :: "(agg_key \<times> agg_value) list"
  iaFlushInt :: duration
  iaBatchSize :: u64
  iaLastFlush :: time
  iaFlushed :: "aggregate_event list"
  iaTotalFolded :: u64
  iaTotalEvents :: u64

definition NewIOAggregator :: "time \<Rightarrow> io_aggregator" where
  "NewIOAggregator now = \<lparr>iaAgg = [], iaFlushInt = second, iaBatchSize = 100, iaLastFlush = now, iaFlushed = [],
     iaTotalFolded = 0, iaTotalEvents = 0\<rparr>"

definition RecordIO :: "time \<Rightarrow> u32 \<Rightarrow> string \<Rightarrow> u32 \<Rightarrow> u32 \<Rightarrow> u64 \<Rightarrow> io_aggregator \<Rightarrow> io_aggregator" where
  "RecordIO now pid comm fd opType bytes ia =
     (let key = \<lparr>akPID = pid, akFD = fd, akOpType = opType\<rparr>;
          val = (case map_of (iaAgg ia) key of
              Some v \<Rightarrow> v\<lparr>avCount := avCount v + 1, avTotalBytes := avTotalBytes v + bytes, avLastSeen := now\<rparr>
            | None \<Rightarrow> \<lparr>avCount = 1, avTotalBytes = bytes, avFirstSeen = now, avLastSeen = now\<rparr>)
      in ia\<lparr>iaAgg := AList.update key val (iaAgg ia), iaTotalEvents := iaTotalEvents ia + 1\<rparr>)"

definition aggregateEvent :: "agg_key \<Rightarrow> string \<Rightarrow> agg_value \<Rightarrow> aggregate_event" where
  "aggregateEvent key comm v = \<lparr>aePID = akPID key, aeComm = comm, aeFD = akFD key, aeOpType = akOpType key,
     aeCount = avCount v, aeTotalBytes = avTotalBytes v, aeDuration = timeSub (avLastSeen v) (avFirstSeen v)\<rparr>"

definition emitEntry :: "agg_key \<Rightarrow> string \<Rightarrow> agg_value \<Rightarrow> io_aggregator \<Rightarrow> io_aggregator" where
  "emitEntry key comm v ia = ia\<lparr>iaFlushed := iaFlushed ia @ [aggregateEvent key comm v],
     iaTotalFolded := iaTotalFolded ia + avCount v, iaAgg := AList.delete key (iaAgg ia)\<rparr>"

definition flushKey :: "agg_key \<Rightarrow> io_aggregator \<Rightarrow> io_aggregator" where
  "flushKey key ia = (case map_of (iaAgg ia) key of None \<Rightarrow> ia | Some v \<Rightarrow> emitEntry key [] v ia)"

definition closeKeys :: "u32 \<Rightarrow> u32 \<Rightarrow> io_aggregator \<Rightarrow> agg_key list" where
  "closeKeys pid fd ia = filter (\<lambda>key. akPID key = pid \<and> akFD key = fd) (map fst (iaAgg ia))"

definition OnClose :: "u32 \<Rightarrow> u32 \<Rightarrow> io_aggregator \<Rightarrow> io_aggregator" where
  "OnClose pid fd ia = fold flushKey (closeKeys pid fd ia) ia"

definition shouldFlush :: "duration \<Rightarrow> io_aggregator \<Rightarrow> agg_value \<Rightarrow> bool" where
  "shouldFlush elapsed ia v = (avCount v \<ge> iaBatchSize ia \<or> (elapsed \<ge> iaFlushInt ia \<and> avCount v > 0))"

fun tickEntries :: "duration \<Rightarrow> (u32 \<times> string) list \<Rightarrow> (agg_key \<times> agg_value) list \<Rightarrow> nat \<Rightarrow> io_aggregator \<Rightarrow> nat \<times> io_aggregator" where
  "tickEntries elapsed commMap [] n ia = (n, ia)"
| "tickEntries elapsed commMap ((key, v) # rest) n ia =
     (if shouldFlush elapsed ia v
      then tickEntries elapsed commMap rest (n + 1) (emitEntry key (mget0 [] commMap (akPID key)) v ia)
      else tickEntries elapsed commMap rest n ia)"

definition ioTick :: "time \<Rightarrow> (u32 \<times> string) list \<Rightarrow> io_aggregator \<Rightarrow> nat \<times> io_aggregator" where
  "ioTick now commMap ia =
     (let elapsed = timeSub now (iaLastFlush ia);
          (n, ia) = tickEntries elapsed commMap (iaAgg ia) 0 ia
      in (n, ia\<lparr>iaLastFlush := now\<rparr>))"

definition SetFlushInterval :: "duration \<Rightarrow> io_aggregator \<Rightarrow> io_aggregator" where
  "SetFlushInterval d ia = ia\<lparr>iaFlushInt := d\<rparr>"

section \<open>Suppression of repeated results\<close>

record cache_entry =
  ceResult :: int
  ceCachedAt :: time
  ceCount :: int

record redundancy_filter =
  rfCache :: "(string \<times> cache_entry) list"
  rfTtl :: duration
  rfSuppr :: int
  rfPassed :: int

definition NewRedundancyFilter :: "duration \<Rightarrow> redundancy_filter" where
  "NewRedundancyFilter window =
     \<lparr>rfCache = [], rfTtl = (if window \<le> 0 then 100 * 1000000 else window), rfSuppr = 0, rfPassed = 0\<rparr>"

definition cacheKey :: "u32 \<Rightarrow> u32 \<Rightarrow> string \<Rightarrow> string" where
  "cacheKey pid syscallID path = showU pid @ '':'' @ showInt (sint syscallID) @ '':'' @ path"

definition Check :: "time \<Rightarrow> u32 \<Rightarrow> u32 \<Rightarrow> string \<Rightarrow> int \<Rightarrow> redundancy_filter \<Rightarrow> bool \<times> redundancy_filter" where
  "Check now pid syscallID path result rf =
     (let key = cacheKey pid syscallID path;
          fresh = \<lparr>ceResult = result, ceCachedAt = now, ceCount = 1\<rparr>
      in case map_of (rfCache rf) key of
          None \<Rightarrow> (True, rf\<lparr>rfCache := AList.update key fresh (rfCache rf), rfPassed := rfPassed rf + 1\<rparr>)
        | Some entry \<Rightarrow>
            if timeSub now (ceCachedAt entry) > rfTtl rf then
              (True, rf\<lparr>rfCache := AList.update key fresh (rfCache rf), rfPassed := rfPassed rf + 1\<rparr>)
            else if ceResult entry = result then
              (False, rf\<lparr>rfCache := AList.update key (entry\<lparr>ceCount := ceCount entry + 1, ceCachedAt := now\<rparr>) (rfCache rf),
                        rfSuppr := rfSuppr rf + 1\<rparr>)
            else
              (True, rf\<lparr>rfCache := AList.update key (entry\<lparr>ceResult := result, ceCachedAt := now, ceCount := 1\<rparr>) (rfCache rf),
                       rfPassed := rfPassed rf + 1\<rparr>))"

section \<open>The window follows the load\<close>

record throttle_config =
  thCPULow :: real
  thCPUHigh :: real
  thMinWindow :: duration
  thMaxWindow :: duration
  thDefaultWindow :: duration
  thCheckInterval :: duration

definition DefaultThrottleConfig :: throttle_config where
  "DefaultThrottleConfig = \<lparr>thCPULow = 20, thCPUHigh = 80, thMinWindow = 100 * 1000000, thMaxWindow = 5 * second,
     thDefaultWindow = second, thCheckInterval = 5 * second\<rparr>"

record throttle_controller =
  tcCfg :: throttle_config
  tcAgg :: "io_aggregator option"
  tcCurrentWindow :: duration

definition NewThrottleController :: "throttle_config option \<Rightarrow> io_aggregator option \<Rightarrow> throttle_controller" where
  "NewThrottleController cfg agg =
     (let cfg = (case cfg of None \<Rightarrow> DefaultThrottleConfig | Some c \<Rightarrow> c)
      in \<lparr>tcCfg = cfg, tcAgg = agg, tcCurrentWindow = thDefaultWindow cfg\<rparr>)"

text \<open>Conversion of a float to an integer truncates towards zero.\<close>

definition truncReal :: "real \<Rightarrow> int" where
  "truncReal x = (if x < 0 then \<lceil>x\<rceil> else \<lfloor>x\<rfloor>)"

definition windowFor :: "throttle_config \<Rightarrow> real \<Rightarrow> duration" where
  "windowFor cfg cpu =
     (if cpu \<le> thCPULow cfg then thMinWindow cfg
      else if cpu \<ge> thCPUHigh cfg then thMaxWindow cfg
      else let fraction = (cpu - thCPULow cfg) / (thCPUHigh cfg - thCPULow cfg);
               windowRange = thMaxWindow cfg - thMinWindow cfg
           in thMinWindow cfg + truncReal (real_of_int windowRange * fraction))"

definition adjust :: "real \<Rightarrow> throttle_controller \<Rightarrow> throttle_controller" where
  "adjust cpu tc =
     (if cpu < 0 then tc
      else let newWindow = windowFor (tcCfg tc) cpu
           in if newWindow \<noteq> tcCurrentWindow tc
              then tc\<lparr>tcCurrentWindow := newWindow, tcAgg := map_option (SetFlushInterval newWindow) (tcAgg tc)\<rparr>
              else tc)"

text \<open>
  The load from the fields of \<^verbatim>\<open>/proc/self/stat\<close>, \<^const>\<open>None\<close> when the file cannot be read; the parser of floating-point
  numbers is an argument that gives 0 on an error.
\<close>

definition readCPUUsage :: "(string \<Rightarrow> real) \<Rightarrow> string list option \<Rightarrow> real" where
  "readCPUUsage parseFloat stat = (case stat of
      None \<Rightarrow> -1
    | Some flds \<Rightarrow> if length flds < 15 then -1
        else let utime = parseFloat (flds ! 13); stime = parseFloat (flds ! 14)
             in min ((utime + stime) * (1 / 10)) 100)"

section \<open>The aggregator as a system\<close>

text \<open>
  \<^verbatim>\<open>OnClose\<close> holds the lock for each key it flushes, not in between: a run has its flushes as steps of their own, so that
  other operations may come between them.
\<close>

datatype io_op =
    IoRecord time u32 string u32 u32 u64
  | IoFlush agg_key
  | IoTick time "(u32 \<times> string) list"
  | IoInterval duration

definition ioStep :: "io_op \<Rightarrow> io_aggregator \<Rightarrow> io_aggregator" where
  "ioStep op ia = (case op of
      IoRecord now pid comm fd opType bytes \<Rightarrow> RecordIO now pid comm fd opType bytes ia
    | IoFlush key \<Rightarrow> flushKey key ia
    | IoTick now commMap \<Rightarrow> snd (ioTick now commMap ia)
    | IoInterval d \<Rightarrow> SetFlushInterval d ia)"

definition keyOf :: "aggregate_event \<Rightarrow> agg_key" where
  "keyOf ae = \<lparr>akPID = aePID ae, akFD = aeFD ae, akOpType = aeOpType ae\<rparr>"

text \<open>Operations and bytes on the books for a key: those in its summaries and those pending.\<close>

definition ioCount :: "agg_key \<Rightarrow> io_aggregator \<Rightarrow> u64" where
  "ioCount key ia = sum_list (map aeCount (filter (\<lambda>ae. keyOf ae = key) (iaFlushed ia)))
     + (case map_of (iaAgg ia) key of None \<Rightarrow> 0 | Some v \<Rightarrow> avCount v)"

definition ioBytes :: "agg_key \<Rightarrow> io_aggregator \<Rightarrow> u64" where
  "ioBytes key ia = sum_list (map aeTotalBytes (filter (\<lambda>ae. keyOf ae = key) (iaFlushed ia)))
     + (case map_of (iaAgg ia) key of None \<Rightarrow> 0 | Some v \<Rightarrow> avTotalBytes v)"

fun countCredit :: "agg_key \<Rightarrow> io_op \<Rightarrow> u64" where
  "countCredit key (IoRecord now pid comm fd opType bytes) =
     (if key = \<lparr>akPID = pid, akFD = fd, akOpType = opType\<rparr> then 1 else 0)"
| "countCredit key op = 0"

fun bytesCredit :: "agg_key \<Rightarrow> io_op \<Rightarrow> u64" where
  "bytesCredit key (IoRecord now pid comm fd opType bytes) =
     (if key = \<lparr>akPID = pid, akFD = fd, akOpType = opType\<rparr> then bytes else 0)"
| "bytesCredit key op = 0"

definition pendingTotal :: "io_aggregator \<Rightarrow> u64" where
  "pendingTotal ia = sum_list (map (avCount \<circ> snd) (iaAgg ia))"

fun eventCredit :: "io_op \<Rightarrow> u64" where
  "eventCredit (IoRecord now pid comm fd opType bytes) = 1"
| "eventCredit op = 0"

text \<open>Distinct keys, and the two totals differ by what is pending.\<close>

definition io_inv :: "io_aggregator \<Rightarrow> bool" where
  "io_inv ia \<longleftrightarrow> distinct (map fst (iaAgg ia)) \<and> iaTotalEvents ia = iaTotalFolded ia + pendingTotal ia"

section \<open>Books\<close>

lemma keyOf_aggregateEvent [simp]: "keyOf (aggregateEvent key comm v) = key"
  by (simp add: keyOf_def aggregateEvent_def)

lemma aggregateEvent_sel [simp]:
  "aeCount (aggregateEvent key comm v) = avCount v" "aeTotalBytes (aggregateEvent key comm v) = avTotalBytes v"
  by (simp_all add: aggregateEvent_def)

lemma emitEntry_books:
  assumes "map_of (iaAgg ia) key = Some v" and inv: "io_inv ia"
  shows "ioCount k (emitEntry key comm v ia) = ioCount k ia" "ioBytes k (emitEntry key comm v ia) = ioBytes k ia"
    "io_inv (emitEntry key comm v ia)" "iaTotalEvents (emitEntry key comm v ia) = iaTotalEvents ia"
proof -
  have "pendingTotal ia = avCount v + pendingTotal (emitEntry key comm v ia)"
    using assoc_sum_delete [of "iaAgg ia" key v avCount] assms by (simp add: pendingTotal_def io_inv_def emitEntry_def)
  then show "io_inv (emitEntry key comm v ia)" using inv
    by (simp add: io_inv_def emitEntry_def distinct_mdel pendingTotal_def)
qed (use assms in \<open>simp_all add: ioCount_def ioBytes_def emitEntry_def\<close>)

lemma RecordIO_books:
  assumes inv: "io_inv ia"
  shows "ioCount k (RecordIO now pid comm fd opType bytes ia) =
       ioCount k ia + countCredit k (IoRecord now pid comm fd opType bytes)"
    "ioBytes k (RecordIO now pid comm fd opType bytes ia) =
       ioBytes k ia + bytesCredit k (IoRecord now pid comm fd opType bytes)"
    "io_inv (RecordIO now pid comm fd opType bytes ia)"
    "iaTotalEvents (RecordIO now pid comm fd opType bytes ia) = iaTotalEvents ia + 1"
proof -
  define key where "key = \<lparr>akPID = pid, akFD = fd, akOpType = opType\<rparr>"
  have d: "distinct (map fst (iaAgg ia))" using inv by (simp add: io_inv_def)
  have "pendingTotal (RecordIO now pid comm fd opType bytes ia) = pendingTotal ia + 1"
  proof (cases "map_of (iaAgg ia) key")
    case None
    then have "AList.delete key (iaAgg ia) = iaAgg ia" by (simp add: map_of_eq_None_iff)
    then show ?thesis using None assoc_sum_update [OF d, of avCount key]
      by (simp add: RecordIO_def pendingTotal_def key_def [symmetric])
  next
    case (Some v)
    then show ?thesis using assoc_sum_update [OF d, of avCount key] assoc_sum_delete [OF d Some, of avCount]
      by (simp add: RecordIO_def pendingTotal_def key_def [symmetric])
  qed
  then show "io_inv (RecordIO now pid comm fd opType bytes ia)" using inv
    by (simp add: io_inv_def RecordIO_def distinct_mput Let_def)
qed (auto simp: ioCount_def ioBytes_def RecordIO_def Let_def split: option.splits)

lemma flushKey_books:
  assumes inv: "io_inv ia"
  shows "ioCount k (flushKey key ia) = ioCount k ia" "ioBytes k (flushKey key ia) = ioBytes k ia" "io_inv (flushKey key ia)"
    "iaTotalEvents (flushKey key ia) = iaTotalEvents ia"
  using emitEntry_books [OF _ inv] inv by (auto simp: flushKey_def split: option.splits)

text \<open>A tick visits each entry once; what it does not flush stays.\<close>

lemma tickEntries_books:
  assumes "io_inv ia" "distinct (map fst rest)" "\<And>q v. (q, v) \<in> set rest \<Longrightarrow> map_of (iaAgg ia) q = Some v"
    "tickEntries elapsed commMap rest n ia = (n', ia')"
  shows "io_inv ia' \<and> ioCount k ia' = ioCount k ia \<and> ioBytes k ia' = ioBytes k ia \<and> iaTotalEvents ia' = iaTotalEvents ia
     \<and> iaFlushInt ia' = iaFlushInt ia \<and> iaBatchSize ia' = iaBatchSize ia
     \<and> map_of (iaAgg ia') q = (case map_of (iaAgg ia) q of None \<Rightarrow> None
          | Some v \<Rightarrow> if q \<in> fst ` set rest \<and> shouldFlush elapsed ia v then None else Some v)"
  using assms
proof (induction rest arbitrary: n ia)
  case Nil
  then show ?case by (auto split: option.splits)
next
  case (Cons p rest)
  obtain x w where p: "p = (x, w)" by (cases p)
  have x: "map_of (iaAgg ia) x = Some w" "x \<notin> fst ` set rest" using Cons.prems(2,3) p by auto
  have cur: "map_of (iaAgg ia) q = Some v" if "(q, v) \<in> set rest" for q v using that Cons.prems(3) by (simp add: p)
  show ?case
  proof (cases "shouldFlush elapsed ia w")
    case True
    define ia1 where "ia1 = emitEntry x (mget0 [] commMap (akPID x)) w ia"
    note books = emitEntry_books [OF x(1) Cons.prems(1), where comm = "mget0 [] commMap (akPID x)", folded ia1_def]
    have lookup: "map_of (iaAgg ia1) q = (if q = x then None else map_of (iaAgg ia) q)" for q
      by (simp add: ia1_def emitEntry_def)
    have cur1: "map_of (iaAgg ia1) q = Some v" if "(q, v) \<in> set rest" for q v
      using cur [OF that] that x(2) lookup by force
    have sf: "shouldFlush elapsed ia1 = shouldFlush elapsed ia" by (simp add: fun_eq_iff shouldFlush_def ia1_def emitEntry_def)
    have "tickEntries elapsed commMap rest (n + 1) ia1 = (n', ia')" using Cons.prems(4) True by (simp add: p ia1_def)
    moreover have "distinct (map fst rest)" using Cons.prems(2) p by simp
    ultimately have "io_inv ia' \<and> ioCount k ia' = ioCount k ia \<and> ioBytes k ia' = ioBytes k ia \<and> iaTotalEvents ia' = iaTotalEvents ia
        \<and> iaFlushInt ia' = iaFlushInt ia1 \<and> iaBatchSize ia' = iaBatchSize ia1
        \<and> map_of (iaAgg ia') q = (case map_of (iaAgg ia1) q of None \<Rightarrow> None
          | Some v \<Rightarrow> if q \<in> fst ` set rest \<and> shouldFlush elapsed ia v then None else Some v)"
      using Cons.IH [OF books(3) _ cur1, of "n + 1"] books unfolding sf by metis
    moreover have "iaFlushInt ia1 = iaFlushInt ia" "iaBatchSize ia1 = iaBatchSize ia" by (simp_all add: ia1_def emitEntry_def)
    ultimately show ?thesis using True x(1) unfolding lookup by (auto simp: p split: option.splits)
  next
    case False
    then have "tickEntries elapsed commMap rest n ia = (n', ia')" using Cons.prems(4) by (simp add: p)
    moreover have "distinct (map fst rest)" using Cons.prems(2) p by simp
    ultimately have "io_inv ia' \<and> ioCount k ia' = ioCount k ia \<and> ioBytes k ia' = ioBytes k ia \<and> iaTotalEvents ia' = iaTotalEvents ia
        \<and> iaFlushInt ia' = iaFlushInt ia \<and> iaBatchSize ia' = iaBatchSize ia
        \<and> map_of (iaAgg ia') q = (case map_of (iaAgg ia) q of None \<Rightarrow> None
          | Some v \<Rightarrow> if q \<in> fst ` set rest \<and> shouldFlush elapsed ia v then None else Some v)"
      using Cons.IH [OF Cons.prems(1) _ cur, of n] by metis
    then show ?thesis using False x(1) by (auto simp: p split: option.splits)
  qed
qed

lemma ioTick_books:
  assumes inv: "io_inv ia"
  shows "io_inv (snd (ioTick now commMap ia))" "ioCount k (snd (ioTick now commMap ia)) = ioCount k ia"
    "ioBytes k (snd (ioTick now commMap ia)) = ioBytes k ia" "iaTotalEvents (snd (ioTick now commMap ia)) = iaTotalEvents ia"
    "map_of (iaAgg (snd (ioTick now commMap ia))) q = (case map_of (iaAgg ia) q of None \<Rightarrow> None
       | Some v \<Rightarrow> if shouldFlush (timeSub now (iaLastFlush ia)) ia v then None else Some v)"
proof -
  obtain n ia1 where t: "tickEntries (timeSub now (iaLastFlush ia)) commMap (iaAgg ia) 0 ia = (n, ia1)" by fastforce
  have d: "distinct (map fst (iaAgg ia))" using inv by (simp add: io_inv_def)
  note books = tickEntries_books [OF inv d map_of_is_SomeI [OF d] t]
  have tick: "snd (ioTick now commMap ia) = ia1\<lparr>iaLastFlush := now\<rparr>" by (simp add: ioTick_def t)
  have same: "ioCount k (ia1\<lparr>iaLastFlush := now\<rparr>) = ioCount k ia1" "ioBytes k (ia1\<lparr>iaLastFlush := now\<rparr>) = ioBytes k ia1"
    "io_inv (ia1\<lparr>iaLastFlush := now\<rparr>) = io_inv ia1"
    by (simp_all add: ioCount_def ioBytes_def io_inv_def pendingTotal_def)
  show "io_inv (snd (ioTick now commMap ia))" "ioCount k (snd (ioTick now commMap ia)) = ioCount k ia"
    "ioBytes k (snd (ioTick now commMap ia)) = ioBytes k ia" "iaTotalEvents (snd (ioTick now commMap ia)) = iaTotalEvents ia"
    using books [of k] unfolding tick same by simp_all
  show "map_of (iaAgg (snd (ioTick now commMap ia))) q = (case map_of (iaAgg ia) q of None \<Rightarrow> None
       | Some v \<Rightarrow> if shouldFlush (timeSub now (iaLastFlush ia)) ia v then None else Some v)"
    using books [of k q] unfolding tick by (force split: option.splits dest: map_of_SomeD)
qed

lemma SetFlushInterval_books [simp]:
  "ioCount k (SetFlushInterval d ia) = ioCount k ia" "ioBytes k (SetFlushInterval d ia) = ioBytes k ia"
  "io_inv (SetFlushInterval d ia) = io_inv ia" "iaTotalEvents (SetFlushInterval d ia) = iaTotalEvents ia"
  by (simp_all add: SetFlushInterval_def ioCount_def ioBytes_def io_inv_def pendingTotal_def)

lemmas io_books = RecordIO_books flushKey_books ioTick_books(1-4)

interpretation iocount: ledger "\<lambda>_ _. True" ioStep io_inv "ioCount key" "countCredit key" for key
  by unfold_locales (auto simp: ioStep_def io_books simp del: countCredit.simps(1) split: io_op.splits)

interpretation iobytes: ledger "\<lambda>_ _. True" ioStep io_inv "ioBytes key" "bytesCredit key" for key
  by unfold_locales (auto simp: ioStep_def io_books simp del: bytesCredit.simps(1) split: io_op.splits)

interpretation ioevents: ledger "\<lambda>_ _. True" ioStep io_inv iaTotalEvents eventCredit
  by unfold_locales (auto simp: ioStep_def io_books split: io_op.splits)

lemma okRun_True [simp]: "okRun (\<lambda>_ _. True) step ops s"
  by (induction ops arbitrary: s) auto

lemma io_inv_New: "io_inv (NewIOAggregator t)"
  by (simp add: io_inv_def NewIOAggregator_def pendingTotal_def)

lemma OnClose_steps: "OnClose pid fd ia = runAll ioStep (map IoFlush (closeKeys pid fd ia)) ia"
proof -
  have "fold flushKey ks ia = runAll ioStep (map IoFlush ks) ia" for ks
    by (induction ks arbitrary: ia) (simp_all add: ioStep_def)
  then show ?thesis by (simp add: OnClose_def)
qed

lemma flushKeys_lookup:
  "map_of (iaAgg (fold flushKey ks ia)) q = (if q \<in> set ks then None else map_of (iaAgg ia) q)"
  by (induction ks arbitrary: ia) (auto simp: flushKey_def emitEntry_def split: option.splits)

lemma OnClose_lookup:
  "map_of (iaAgg (OnClose pid fd ia)) q = (if akPID q = pid \<and> akFD q = fd then None else map_of (iaAgg ia) q)"
proof (cases "q \<in> fst ` set (iaAgg ia)")
  case True
  then show ?thesis by (auto simp: OnClose_def flushKeys_lookup closeKeys_def)
next
  case False
  then have "map_of (iaAgg ia) q = None" by (simp add: map_of_eq_None_iff)
  then show ?thesis by (simp add: OnClose_def flushKeys_lookup)
qed

section \<open>Properties\<close>

text \<open>
  C16. Folding loses nothing. In every run of reads and writes, flushes of single keys, ticks and changes of the window, and
  so for every way in which the flushes of a close are interleaved with other operations, (1) the operations and the bytes
  in the summaries of a descriptor and in its pending entry add up to what was recorded for it, and the total of
  recorded operations is that of the flushed and the pending ones, all in arithmetic of 64 bits; (2) closing a
  descriptor leaves none of its entries pending and does not touch the books of any key; (3) a tick after the flush
  interval leaves nothing pending but an entry whose counter has wrapped to zero.
\<close>

theorem io_folding_conserves:
  assumes ia: "ia = runAll ioStep ops (NewIOAggregator t)"
  shows "ioCount key ia = sum_list (map (countCredit key) ops) \<and> ioBytes key ia = sum_list (map (bytesCredit key) ops)
     \<and> iaTotalEvents ia = sum_list (map eventCredit ops) \<and> iaTotalEvents ia = iaTotalFolded ia + pendingTotal ia
     \<and> map_of (iaAgg (OnClose pid fd ia)) key = (if akPID key = pid \<and> akFD key = fd then None else map_of (iaAgg ia) key)
     \<and> ioCount key (OnClose pid fd ia) = ioCount key ia \<and> ioBytes key (OnClose pid fd ia) = ioBytes key ia
     \<and> (timeSub now (iaLastFlush ia) \<ge> iaFlushInt ia \<and> map_of (iaAgg (snd (ioTick now commMap ia))) key = Some v \<longrightarrow> avCount v = 0)"
proof -
  have inv: "io_inv ia" unfolding ia by (rule iocount.runAll_inv) (simp_all add: io_inv_New)
  have zero: "ioCount key (NewIOAggregator t) = 0" "ioBytes key (NewIOAggregator t) = 0" "iaTotalEvents (NewIOAggregator t) = 0"
    by (simp_all add: ioCount_def ioBytes_def NewIOAggregator_def)
  have "avCount v = 0" if "timeSub now (iaLastFlush ia) \<ge> iaFlushInt ia"
      "map_of (iaAgg (snd (ioTick now commMap ia))) key = Some v"
    using that ioTick_books(5) [OF inv, of now commMap key]
    by (auto simp: shouldFlush_def word_gt_0 split: option.splits if_splits)
  moreover have "ioCount key (OnClose pid fd ia) = ioCount key ia" "ioBytes key (OnClose pid fd ia) = ioBytes key ia"
    unfolding OnClose_steps
    using iocount.runAll_balance [OF inv, of "map IoFlush (closeKeys pid fd ia)" key]
      iobytes.runAll_balance [OF inv, of "map IoFlush (closeKeys pid fd ia)" key] by (simp_all add: o_def)
  ultimately show ?thesis
    using inv iocount.runAll_balance [OF io_inv_New, of ops t key] iobytes.runAll_balance [OF io_inv_New, of ops t key]
      ioevents.runAll_balance [OF io_inv_New, of ops t] zero OnClose_lookup
    by (simp add: ia [symmetric] io_inv_def)
qed

theorem io_folding_conserves_witness:
  "let ia = runAll ioStep [IoRecord 0 7 ''cp'' 3 1 100, IoRecord 1 7 ''cp'' 3 1 50, IoTick (2 * second) [], IoRecord 9 7 ''cp'' 3 1 8]
       (NewIOAggregator 0); key = \<lparr>akPID = 7, akFD = 3, akOpType = 1\<rparr>
   in ioCount key ia = 3 \<and> ioBytes key ia = 158 \<and> map_of (iaAgg (OnClose 7 3 ia)) key = None
      \<and> ioBytes key (OnClose 7 3 ia) = 158"
  using io_folding_conserves [OF refl, where ops = "[IoRecord 0 7 ''cp'' 3 1 100, IoRecord 1 7 ''cp'' 3 1 50, IoTick (2 * second) [],
      IoRecord 9 7 ''cp'' 3 1 8]" and t = 0 and key = "\<lparr>akPID = 7, akFD = 3, akOpType = 1\<rparr>" and pid = 7 and fd = 3]
  by (simp add: Let_def del: runAll.simps)

text \<open>Keys of the cache are one to one, so an event is compared only with events of the same process, call and path.\<close>

lemma cacheKey_inj: "cacheKey pid sc path = cacheKey pid' sc' path' \<longleftrightarrow> pid = pid' \<and> sc = sc' \<and> path = path'"
proof
  assume eq: "cacheKey pid sc path = cacheKey pid' sc' path'"
  have nat: "CHR '':'' \<notin> set (showU w)" for w :: u32 using showNat_digits [of "unat w"] by (force simp: isDigit_def)
  from eq have "showU pid = showU pid' \<and> showInt (sint sc) @ '':'' @ path = showInt (sint sc') @ '':'' @ path'"
    using split_first [OF _ nat nat] by (simp add: cacheKey_def)
  then show "pid = pid' \<and> sc = sc' \<and> path = path'"
    using split_first [OF _ showInt_no_colon showInt_no_colon, of "sint sc" path "sint sc'" path']
    by (auto simp: showInt_inj intro: signed_word_eqI)
qed simp

text \<open>
  The filter as a function of the history of checks: an event passes exactly if it is the first of its kind, if the one
  before is older than the time to live, or if its result differs. Every check renews the entry, so a call that is
  repeated fast enough is reported once and then never again.
\<close>

type_synonym check = "time \<times> u32 \<times> u32 \<times> string \<times> int"

fun checkAll :: "check list \<Rightarrow> redundancy_filter \<Rightarrow> redundancy_filter" where
  "checkAll [] rf = rf"
| "checkAll ((now, pid, sc, path, result) # cs) rf = checkAll cs (snd (Check now pid sc path result rf))"

fun lastCheck :: "u32 \<Rightarrow> u32 \<Rightarrow> string \<Rightarrow> check list \<Rightarrow> (time \<times> int) option" where
  "lastCheck pid sc path [] = None"
| "lastCheck pid sc path ((now, pid', sc', path', result) # cs) =
     (case lastCheck pid sc path cs of Some r \<Rightarrow> Some r
      | None \<Rightarrow> if (pid', sc', path') = (pid, sc, path) then Some (now, result) else None)"

lemma Check_entry:
  "map_option (\<lambda>e. (ceCachedAt e, ceResult e)) (map_of (rfCache (snd (Check now pid sc path result rf))) (cacheKey pid' sc' path'))
   = (if (pid', sc', path') = (pid, sc, path) then Some (now, result)
      else map_option (\<lambda>e. (ceCachedAt e, ceResult e)) (map_of (rfCache rf) (cacheKey pid' sc' path')))"
  by (auto simp: Check_def Let_def cacheKey_inj split: option.splits)

lemma Check_counts [simp]:
  "rfTtl (snd (Check now pid sc path result rf)) = rfTtl rf"
  "rfPassed (snd (Check now pid sc path result rf)) + rfSuppr (snd (Check now pid sc path result rf)) = rfPassed rf + rfSuppr rf + 1"
  by (auto simp: Check_def Let_def split: option.splits)

lemma checkAll_entry:
  "map_option (\<lambda>e. (ceCachedAt e, ceResult e)) (map_of (rfCache (checkAll cs rf)) (cacheKey pid sc path)) =
     (case lastCheck pid sc path cs of Some r \<Rightarrow> Some r
      | None \<Rightarrow> map_option (\<lambda>e. (ceCachedAt e, ceResult e)) (map_of (rfCache rf) (cacheKey pid sc path)))
   \<and> rfTtl (checkAll cs rf) = rfTtl rf
   \<and> rfPassed (checkAll cs rf) + rfSuppr (checkAll cs rf) = rfPassed rf + rfSuppr rf + int (length cs)"
proof (induction cs arbitrary: rf)
  case (Cons c cs)
  obtain now p' s' t' r' where c: "c = (now, p', s', t', r')" by (cases c)
  show ?case using Cons.IH [of "snd (Check now p' s' t' r' rf)"]
    by (auto simp: c Check_entry split: option.splits)
qed simp

lemma Check_suppresses_repeats:
  assumes "rf = checkAll cs (NewRedundancyFilter window)"
  shows "fst (Check now pid sc path result rf) \<longleftrightarrow> (case lastCheck pid sc path cs of None \<Rightarrow> True
     | Some (t, r) \<Rightarrow> timeSub now t > rfTtl (NewRedundancyFilter window) \<or> r \<noteq> result)"
    and "rfPassed rf + rfSuppr rf = int (length cs)"
proof -
  have 0: "map_of (rfCache (NewRedundancyFilter window)) k = None" "rfPassed (NewRedundancyFilter window) = 0"
    "rfSuppr (NewRedundancyFilter window) = 0" for k by (simp_all add: NewRedundancyFilter_def)
  note all = checkAll_entry [of cs "NewRedundancyFilter window" pid sc path, folded assms, unfolded 0]
  show "fst (Check now pid sc path result rf) \<longleftrightarrow> (case lastCheck pid sc path cs of None \<Rightarrow> True
     | Some (t, r) \<Rightarrow> timeSub now t > rfTtl (NewRedundancyFilter window) \<or> r \<noteq> result)"
  proof (cases "map_of (rfCache rf) (cacheKey pid sc path)")
    case None
    then have "lastCheck pid sc path cs = None" using all by (auto split: option.splits)
    then show ?thesis using None by (simp add: Check_def)
  next
    case (Some e)
    then have "lastCheck pid sc path cs = Some (ceCachedAt e, ceResult e)" "rfTtl rf = rfTtl (NewRedundancyFilter window)"
      using all by (auto split: option.splits)
    then show ?thesis using Some by (simp add: Check_def Let_def)
  qed
  show "rfPassed rf + rfSuppr rf = int (length cs)" using all by simp
qed

text \<open>The window stays between its bounds and grows with the load.\<close>

lemma truncReal_mono: "x \<le> y \<Longrightarrow> truncReal x \<le> truncReal y"
proof -
  have "\<lceil>x\<rceil> \<le> \<lfloor>y\<rfloor>" if "x < 0" "0 \<le> y"
    using that by (meson ceiling_le_zero less_imp_le order_trans zero_le_floor)
  then show "truncReal x \<le> truncReal y" if "x \<le> y" using that by (auto simp: truncReal_def intro: ceiling_mono floor_mono)
qed

lemma windowFor_bounds:
  assumes "thCPULow cfg < thCPUHigh cfg" "thMinWindow cfg \<le> thMaxWindow cfg"
  shows "thMinWindow cfg \<le> windowFor cfg cpu" "windowFor cfg cpu \<le> thMaxWindow cfg"
    "cpu \<le> cpu' \<Longrightarrow> windowFor cfg cpu \<le> windowFor cfg cpu'"
proof -
  define frac where "frac c = (c - thCPULow cfg) / (thCPUHigh cfg - thCPULow cfg)" for c
  define w where "w c = truncReal (real_of_int (thMaxWindow cfg - thMinWindow cfg) * frac c)" for c
  have "truncReal (real_of_int i) = i" for i by (simp add: truncReal_def)
  have mono: "w c \<le> w c'" if "c \<le> c'" for c c'
    unfolding w_def frac_def using that assms
    by (intro truncReal_mono mult_left_mono divide_right_mono) simp_all
  have lo: "w (thCPULow cfg) = 0" by (simp add: w_def frac_def truncReal_def)
  have hi: "w (thCPUHigh cfg) = thMaxWindow cfg - thMinWindow cfg"
    using assms(1) \<open>\<And>i. truncReal (real_of_int i) = i\<close> [of "thMaxWindow cfg - thMinWindow cfg"] by (simp add: w_def frac_def)
  have win: "windowFor cfg c = thMinWindow cfg + w (max (thCPULow cfg) (min (thCPUHigh cfg) c))" for c
    using assms(1) lo hi by (auto simp: windowFor_def w_def frac_def Let_def max_def min_def)
  have "w (thCPULow cfg) \<le> w (max (thCPULow cfg) (min (thCPUHigh cfg) c))"
       "w (max (thCPULow cfg) (min (thCPUHigh cfg) c)) \<le> w (thCPUHigh cfg)" for c
    using assms(1) by (auto intro!: mono)
  from this [of cpu] show "thMinWindow cfg \<le> windowFor cfg cpu" "windowFor cfg cpu \<le> thMaxWindow cfg"
    using lo hi win [of cpu] by linarith+
  show "windowFor cfg cpu \<le> windowFor cfg cpu'" if "cpu \<le> cpu'"
    unfolding win using that by (intro add_left_mono mono max.mono min.mono) simp_all
qed

text \<open>
  The load is computed from the processor time the agent has used since its start, not from a rate: once that is a
  thousand clock ticks, the load reads 100 per cent for ever and the window stays at its maximum.
\<close>

lemma busy_time_saturates:
  assumes "15 \<le> length flds" "parseFloat (flds ! 13) + parseFloat (flds ! 14) \<ge> 1000"
  shows "tcCurrentWindow (adjust (readCPUUsage parseFloat (Some flds)) (NewThrottleController None agg)) = 5 * second"
proof -
  have "readCPUUsage parseFloat (Some flds) = 100" using assms by (simp add: readCPUUsage_def Let_def min_def)
  then show ?thesis
    by (simp add: adjust_def windowFor_def NewThrottleController_def DefaultThrottleConfig_def Let_def)
qed

text \<open>
  Every tick moves the time of the last flush, also one that flushes nothing. Ticks that come more often than the flush
  interval, such as one a second under a window of five seconds, therefore never flush an entry below the batch size.
\<close>

fun frequent :: "duration \<Rightarrow> time \<Rightarrow> time list \<Rightarrow> bool" where
  "frequent d t0 [] = True"
| "frequent d t0 (t # ts) = (timeSub t t0 < d \<and> frequent d t ts)"

lemma early_tick:
  assumes "timeSub t (iaLastFlush ia) < iaFlushInt ia" "\<forall>p \<in> set (iaAgg ia). avCount (snd p) < iaBatchSize ia"
  shows "snd (ioTick t cm ia) = ia\<lparr>iaLastFlush := t\<rparr>"
proof -
  have "tickEntries (timeSub t (iaLastFlush ia)) cm rest n ia = (n, ia)" if "set rest \<subseteq> set (iaAgg ia)" for rest n
    using that assms by (induction rest) (auto simp: shouldFlush_def not_le [symmetric])
  then show ?thesis by (simp add: ioTick_def)
qed

lemma frequent_ticks_never_flush:
  assumes "frequent (iaFlushInt ia) (iaLastFlush ia) ts" "\<forall>p \<in> set (iaAgg ia). avCount (snd p) < iaBatchSize ia"
  shows "iaAgg (runAll ioStep (map (\<lambda>t. IoTick t cm) ts) ia) = iaAgg ia"
  using assms
proof (induction ts arbitrary: ia)
  case (Cons t ts)
  then have "ioStep (IoTick t cm) ia = ia\<lparr>iaLastFlush := t\<rparr>" by (simp add: ioStep_def early_tick)
  then show ?case using Cons.IH [of "ia\<lparr>iaLastFlush := t\<rparr>"] Cons.prems by simp
qed simp

end
