(* ===== verification/SelfHeal.thy ===== *)
theory SelfHeal
  imports ProvIds
begin

text \<open>
  The self-healing monitor (\<^verbatim>\<open>internal/policy/selfheal/selfheal.go\<close>, \<^verbatim>\<open>circuitbreaker.go\<close>, \<^verbatim>\<open>bpf_types.go\<close>): checks that the
  expected eBPF programs are loaded, reloads them, and stops reloading after repeated failures. What the operations see
  of the system is an argument: the results of loading objects through the eBPF library, of running commands, and of
  reading directories. Loaded programs and maps are their names. An operation reads the clock once. The two lists of audit
  events, in memory and in the store, are kept; the store's own errors are only logged.
\<close>

section \<open>State\<close>

record heal_config =
  hcCheckInterval :: duration
  hcMapCleanupInterval :: duration
  hcEnableAutoReload :: bool
  hcReloadCmd :: string
  hcBpfObjectPath :: string
  hcExpectedProgs :: "string list"

definition DefaultHealConfig :: heal_config where
  "DefaultHealConfig = \<lparr>hcCheckInterval = 30 * second, hcMapCleanupInterval = 5 * minute, hcEnableAutoReload = True,
     hcReloadCmd = [], hcBpfObjectPath = [],
     hcExpectedProgs = [''probe_file_open'', ''probe_bprm_check'', ''probe_task_alloc'', ''probe_socket_connect'',
       ''probe_net_connect'']\<rparr>"

record audit_event =
  auTimestamp :: time
  auType :: string
  auSeverity :: string
  auMessage :: string

text \<open>The names of the programs and maps a specification declares, and the pointers of the loaded objects that are not nil.\<close>

record bpf_spec =
  bsPrograms :: "string list"
  bsMaps :: "string list"

record bpf_lsm_hooks =
  lhProbeFileOpen :: bool
  lhProbeBprmCheck :: bool
  lhProbeTaskAlloc :: bool
  lhProbeSocketConnect :: bool
  lhRb :: bool
  lhProcMap :: bool
  lhPidWhitelist :: bool
  lhTaintMap :: bool

record bpf_objects =
  boLsmHooks :: "bpf_lsm_hooks option"
  boNetConnect :: "bool option"

record healer =
  hlCfg :: heal_config
  hlAuditLog :: "audit_event list"
  hlAuditStore :: "(string \<times> string) list option"
  hlHealthy :: bool
  hlCheckCnt :: int
  hlFailCnt :: int
  hlReloadCnt :: int
  hlCbFailures :: int
  hlCbTrippedAt :: time
  hlCbFirstFailAt :: time
  hlBpfSpec :: "bpf_spec option"
  hlBpfProgs :: "string list option"
  hlBpfMaps :: "(string \<times> bool) list option"

text \<open>What the system answers: reading and loading of object files, commands (their output and error), the entries of the
  BPF file system when it can be listed, and the result of asking a loaded map for its description.\<close>

datatype map_info = InfoError string | InfoNil | InfoOk

record heal_env =
  heReadSpec :: "string \<Rightarrow> string + bpf_spec"
  heLoad :: "bpf_spec \<Rightarrow> bpf_objects option"
  heRun :: "string list \<Rightarrow> string \<times> string option"
  heBpffs :: "string list option"
  heMapInfo :: "string \<Rightarrow> map_info"

definition NewHealer :: "heal_config option \<Rightarrow> healer" where
  "NewHealer cfg = \<lparr>hlCfg = (case cfg of None \<Rightarrow> DefaultHealConfig | Some c \<Rightarrow> c), hlAuditLog = [], hlAuditStore = None,
     hlHealthy = True, hlCheckCnt = 0, hlFailCnt = 0, hlReloadCnt = 0, hlCbFailures = 0, hlCbTrippedAt = zeroTime,
     hlCbFirstFailAt = zeroTime, hlBpfSpec = None, hlBpfProgs = None, hlBpfMaps = None\<rparr>"

definition SetAuditStore :: "(string \<times> string) list option \<Rightarrow> healer \<Rightarrow> healer" where
  "SetAuditStore as h = h\<lparr>hlAuditStore := as\<rparr>"

definition SetEBPFPrograms :: "string list option \<Rightarrow> healer \<Rightarrow> healer" where
  "SetEBPFPrograms progs h = h\<lparr>hlBpfProgs := progs\<rparr>"

definition SetEBPFMaps :: "(string \<times> bool) list option \<Rightarrow> healer \<Rightarrow> healer" where
  "SetEBPFMaps maps h = h\<lparr>hlBpfMaps := maps\<rparr>"

definition LoadBpfObject :: "heal_env \<Rightarrow> string \<Rightarrow> healer \<Rightarrow> string option \<times> healer" where
  "LoadBpfObject env path h = (case heReadSpec env path of
      Inl err \<Rightarrow> (Some err, h)
    | Inr spec \<Rightarrow> (None, h\<lparr>hlBpfSpec := Some spec\<rparr>))"

definition bpfObjectPaths :: "healer \<Rightarrow> string list" where
  "bpfObjectPaths h = (if hcBpfObjectPath (hlCfg h) \<noteq> [] then [hcBpfObjectPath (hlCfg h)]
     else [''build/ebpf/combined.bpf.o'', ''build/ebpf/lsm_hooks.bpf.o'',
       ''/usr/local/lib/providapt/ebpf/combined.bpf.o'', ''/usr/local/lib/providapt/ebpf/lsm_hooks.bpf.o''])"

section \<open>Audit\<close>

definition audit :: "time \<Rightarrow> string \<Rightarrow> string \<Rightarrow> string \<Rightarrow> healer \<Rightarrow> healer" where
  "audit now ty sev msg h = h\<lparr>hlAuditLog := hlAuditLog h @
     [\<lparr>auTimestamp = now, auType = ty, auSeverity = sev, auMessage = msg\<rparr>]\<rparr>"

definition logAudit :: "string \<Rightarrow> string \<Rightarrow> healer \<Rightarrow> healer" where
  "logAudit sev msg h = h\<lparr>hlAuditStore := map_option (\<lambda>es. es @ [(sev, msg)]) (hlAuditStore h)\<rparr>"

section \<open>Circuit breaker\<close>

definition recordReloadFailure :: "time \<Rightarrow> string \<Rightarrow> healer \<Rightarrow> healer" where
  "recordReloadFailure now msg h =
     (let windowStart = now - 10 * minute;
          h = (if hlCbFirstFailAt h < windowStart then h\<lparr>hlCbFailures := 0\<rparr> else h);
          h = (if hlCbFirstFailAt h = zeroTime then h\<lparr>hlCbFirstFailAt := now\<rparr> else h);
          h = h\<lparr>hlCbFailures := hlCbFailures h + 1, hlFailCnt := hlFailCnt h + 1, hlHealthy := False\<rparr>;
          h = audit now ''reload'' ''CRITICAL'' msg h;
          h = (if hlCbFailures h \<ge> 3
               then audit now ''reload'' ''CRITICAL''
                 (''Circuit breaker tripped '' @ [CHR 0xE2, CHR 0x80, CHR 0x94] @ '' suppressing reloads for 10 minutes'')
                 (h\<lparr>hlCbTrippedAt := now\<rparr>)
               else h)
      in logAudit ''CRITICAL'' msg h)"

definition resetCircuitBreaker :: "healer \<Rightarrow> healer" where
  "resetCircuitBreaker h = h\<lparr>hlCbFailures := 0, hlCbTrippedAt := zeroTime, hlCbFirstFailAt := zeroTime, hlHealthy := True\<rparr>"

section \<open>Loading\<close>

definition insertNew :: "'a \<Rightarrow> 'a list \<Rightarrow> 'a list" where
  "insertNew x xs = (if x \<in> set xs then xs else xs @ [x])"

definition registerLoadedObjects :: "bpf_objects \<Rightarrow> healer \<Rightarrow> healer" where
  "registerLoadedObjects objs h =
     (let progs = (case hlBpfProgs h of None \<Rightarrow> [] | Some ps \<Rightarrow> ps);
          maps = (case hlBpfMaps h of None \<Rightarrow> [] | Some ms \<Rightarrow> ms);
          progs = (case boLsmHooks objs of None \<Rightarrow> progs | Some l \<Rightarrow>
            fold insertNew ((if lhProbeFileOpen l then [''probe_file_open''] else [])
              @ (if lhProbeBprmCheck l then [''probe_bprm_check''] else [])
              @ (if lhProbeTaskAlloc l then [''probe_task_alloc''] else [])
              @ (if lhProbeSocketConnect l then [''probe_socket_connect''] else [])) progs);
          progs = (if boNetConnect objs = Some True then insertNew ''probe_net_connect'' progs else progs);
          maps = (case boLsmHooks objs of None \<Rightarrow> maps | Some l \<Rightarrow>
            fold (\<lambda>k. AList.update k True) ((if lhRb l then [''rb''] else []) @ (if lhProcMap l then [''proc_map''] else [])
              @ (if lhPidWhitelist l then [''pid_whitelist''] else []) @ (if lhTaintMap l then [''taint_map''] else [])) maps)
      in h\<lparr>hlBpfProgs := Some progs, hlBpfMaps := Some maps\<rparr>)"

fun loadPaths :: "heal_env \<Rightarrow> string list \<Rightarrow> healer \<Rightarrow> bool \<times> healer" where
  "loadPaths env [] h = (False, h)"
| "loadPaths env (path # paths) h = (case heReadSpec env path of
      Inl err \<Rightarrow> loadPaths env paths h
    | Inr spec \<Rightarrow> (case heLoad env spec of
          None \<Rightarrow> loadPaths env paths h
        | Some objs \<Rightarrow> (True, registerLoadedObjects objs (h\<lparr>hlBpfSpec := Some spec\<rparr>))))"

definition loadAndAttachEBPF :: "heal_env \<Rightarrow> healer \<Rightarrow> bool \<times> healer" where
  "loadAndAttachEBPF env h = (case hlBpfSpec h of
      Some spec \<Rightarrow> (case heLoad env spec of
          None \<Rightarrow> (False, h)
        | Some objs \<Rightarrow> (True, registerLoadedObjects objs h))
    | None \<Rightarrow> loadPaths env (bpfObjectPaths h) h)"

fun attachAll :: "heal_env \<Rightarrow> string list \<Rightarrow> (string \<times> string \<times> string) option" where
  "attachAll env [] = None"
| "attachAll env (p # ps) = (case heRun env [''bpftool'', ''prog'', ''attach'', ''name'', p, ''lsm'', p] of
      (out, Some err) \<Rightarrow> Some (p, err, out)
    | (out, None) \<Rightarrow> attachAll env ps)"

definition reloadBPFTool :: "heal_env \<Rightarrow> time \<Rightarrow> healer \<Rightarrow> healer" where
  "reloadBPFTool env now h = (case attachAll env (hcExpectedProgs (hlCfg h)) of
      Some (p, err, out) \<Rightarrow>
        recordReloadFailure now (''bpftool re-attach '' @ p @ '' failed: '' @ err @ [CHR 0x0A] @ out) h
    | None \<Rightarrow> logAudit ''INFO'' ''eBPF programs reloaded via bpftool''
        (audit now ''reload'' ''INFO'' ''eBPF programs reloaded via bpftool'' (resetCircuitBreaker h)))"

text \<open>\<^const>\<open>None\<close> is the panic of \<^verbatim>\<open>parts[0]\<close> on a command of blanks.\<close>

definition attemptReload :: "heal_env \<Rightarrow> time \<Rightarrow> healer \<Rightarrow> healer option" where
  "attemptReload env now h =
     (let h = logAudit ''WARNING'' ''Initiating eBPF program reload''
            (audit now ''reload'' ''WARNING'' ''Initiating eBPF program reload'' (h\<lparr>hlReloadCnt := hlReloadCnt h + 1\<rparr>));
          (loaded, h) = loadAndAttachEBPF env h
      in if loaded then
           Some (logAudit ''INFO'' ''eBPF programs reloaded successfully''
             (audit now ''reload'' ''INFO'' ''eBPF programs reloaded via cilium/ebpf'' (resetCircuitBreaker h)))
         else if hcReloadCmd (hlCfg h) \<noteq> [] then
           (case stringFields (hcReloadCmd (hlCfg h)) of
              [] \<Rightarrow> None
            | parts \<Rightarrow> (case heRun env parts of
                  (output, None) \<Rightarrow> Some (resetCircuitBreaker h)
                | (output, Some err) \<Rightarrow>
                    Some (recordReloadFailure now (''Reload cmd failed: '' @ err @ [CHR 0x0A] @ output) h)))
         else Some (reloadBPFTool env now h))"

definition reloadPrograms :: "heal_env \<Rightarrow> time \<Rightarrow> healer \<Rightarrow> healer option" where
  "reloadPrograms env now h =
     (if hlCbTrippedAt h \<noteq> zeroTime \<and> now < hlCbTrippedAt h + 10 * minute then Some h
      else attemptReload env now
        (if hlCbTrippedAt h \<noteq> zeroTime
         then h\<lparr>hlCbFailures := 0, hlCbTrippedAt := zeroTime, hlCbFirstFailAt := zeroTime\<rparr> else h))"

section \<open>Checks and clean-up\<close>

definition checkProgramBPFTool :: "heal_env \<Rightarrow> string \<Rightarrow> bool" where
  "checkProgramBPFTool env name =
     (if (case heBpffs env of None \<Rightarrow> False | Some entries \<Rightarrow> list_ex (\<lambda>e. containsStr e name) entries) then True
      else case heRun env [''bpftool'', ''prog'', ''show'', ''name'', name] of
          (output, Some err) \<Rightarrow> False
        | (output, None) \<Rightarrow> containsStr output name)"

definition checkProgram :: "heal_env \<Rightarrow> string \<Rightarrow> healer \<Rightarrow> bool" where
  "checkProgram env name h = (case hlBpfProgs h of
      Some progs \<Rightarrow> name \<in> set progs
    | None \<Rightarrow> (case hlBpfSpec h of
          Some spec \<Rightarrow> name \<in> set (bsPrograms spec)
        | None \<Rightarrow> checkProgramBPFTool env name))"

definition missingProgs :: "heal_env \<Rightarrow> healer \<Rightarrow> string list" where
  "missingProgs env h = filter (\<lambda>p. \<not> checkProgram env p h) (hcExpectedProgs (hlCfg h))"

definition runCheck :: "heal_env \<Rightarrow> time \<Rightarrow> healer \<Rightarrow> healer option" where
  "runCheck env now h =
     (let h = h\<lparr>hlCheckCnt := hlCheckCnt h + 1\<rparr>;
          missing = missingProgs env h;
          allFound = (missing = []);
          msg = ''eBPF programs missing: '' @ joinWith '', '' missing;
          h = h\<lparr>hlHealthy := allFound\<rparr>;
          h = (if allFound then h
               else logAudit ''CRITICAL'' msg (audit now ''fail'' ''CRITICAL'' msg (h\<lparr>hlFailCnt := hlFailCnt h + 1\<rparr>)))
      in if \<not> allFound \<and> hcEnableAutoReload (hlCfg h) then reloadPrograms env now h else Some h)"

definition logMapFail :: "time \<Rightarrow> string \<Rightarrow> string \<Rightarrow> healer \<Rightarrow> healer" where
  "logMapFail now name msg h =
     logAudit ''WARNING'' (''Cannot verify map '' @ name @ '': '' @ msg)
       (audit now ''fail'' ''WARNING'' (''Map '' @ name @ '': '' @ msg) h)"

definition verifyMapBPFTool :: "heal_env \<Rightarrow> time \<Rightarrow> string \<Rightarrow> healer \<Rightarrow> healer" where
  "verifyMapBPFTool env now name h = (case heRun env [''bpftool'', ''map'', ''dump'', ''name'', name] of
      (output, Some err) \<Rightarrow> logMapFail now name (''bpftool dump failed: '' @ err) h
    | (output, None) \<Rightarrow> h)"

definition verifyMap :: "heal_env \<Rightarrow> time \<Rightarrow> string \<Rightarrow> healer \<Rightarrow> healer" where
  "verifyMap env now name h =
     (if (case hlBpfMaps h of None \<Rightarrow> False | Some maps \<Rightarrow> map_of maps name = Some True) then
        (case heMapInfo env name of InfoError err \<Rightarrow> logMapFail now name (''info failed: '' @ err) h | _ \<Rightarrow> h)
      else if (case hlBpfSpec h of None \<Rightarrow> False | Some spec \<Rightarrow> name \<in> set (bsMaps spec)) then h
      else verifyMapBPFTool env now name h)"

definition runCleanup :: "heal_env \<Rightarrow> time \<Rightarrow> healer \<Rightarrow> healer" where
  "runCleanup env now h =
     verifyMap env now ''hot_paths'' (verifyMap env now ''pid_whitelist'' (verifyMap env now ''agent_pids''
       (logAudit ''INFO'' ''BPF map cleanup started'' (audit now ''cleanup'' ''INFO'' ''Running BPF map cleanup'' h))))"

definition AuditSummary :: "healer \<Rightarrow> string" where
  "AuditSummary h =
     (let nl = [CHR 0x0A]; status = (if hlHealthy h then ''HEALTHY'' else ''DEGRADED'');
          recent = drop (length (hlAuditLog h) - 5) (hlAuditLog h)
      in ''Self-Heal Status: '' @ status @ nl
         @ ''  Checks:     '' @ showInt (hlCheckCnt h) @ nl
         @ ''  Failures:   '' @ showInt (hlFailCnt h) @ nl
         @ ''  Reloads:    '' @ showInt (hlReloadCnt h) @ nl
         @ ''  Audit log:  '' @ showNat (length (hlAuditLog h)) @ '' events'' @ nl
         @ (if hlAuditLog h = [] then [] else ''  Recent events:'' @ nl
            @ concat (map (\<lambda>e. ''    ['' @ auSeverity e @ ''] '' @ auType e @ '': '' @ auMessage e @ nl) recent)))"

section \<open>The monitor as a system\<close>

datatype heal_op =
    HCheck heal_env time
  | HCleanup heal_env time
  | HLoad heal_env string

definition healStep :: "heal_op \<Rightarrow> healer \<Rightarrow> healer option" where
  "healStep op h = (case op of
      HCheck env now \<Rightarrow> runCheck env now h
    | HCleanup env now \<Rightarrow> Some (runCleanup env now h)
    | HLoad env path \<Rightarrow> Some (snd (LoadBpfObject env path h)))"

fun opTime :: "heal_op \<Rightarrow> time option" where
  "opTime (HCheck env now) = Some now"
| "opTime (HCleanup env now) = Some now"
| "opTime (HLoad env path) = None"

text \<open>Three failures trip the breaker, and nothing but a failure does.\<close>

definition heal_inv :: "healer \<Rightarrow> bool" where
  "heal_inv h \<longleftrightarrow> 0 \<le> hlCbFailures h \<and> hlCbFailures h \<le> 3 \<and> (hlCbTrippedAt h \<noteq> zeroTime \<longleftrightarrow> hlCbFailures h = 3)
     \<and> (0 < hlCbFailures h \<longrightarrow> hlCbFirstFailAt h \<noteq> zeroTime)"

section \<open>What the operations leave alone\<close>

lemma audit_frame [simp]:
  "hlCbFailures (audit now ty sev msg h) = hlCbFailures h" "hlCbTrippedAt (audit now ty sev msg h) = hlCbTrippedAt h"
  "hlCbFirstFailAt (audit now ty sev msg h) = hlCbFirstFailAt h" "hlReloadCnt (audit now ty sev msg h) = hlReloadCnt h"
  "hlHealthy (audit now ty sev msg h) = hlHealthy h" "hlCfg (audit now ty sev msg h) = hlCfg h"
  "hlBpfProgs (audit now ty sev msg h) = hlBpfProgs h" "hlBpfSpec (audit now ty sev msg h) = hlBpfSpec h"
  "hlBpfMaps (audit now ty sev msg h) = hlBpfMaps h"
  by (simp_all add: audit_def)

lemma logAudit_frame [simp]:
  "hlCbFailures (logAudit sev msg h) = hlCbFailures h" "hlCbTrippedAt (logAudit sev msg h) = hlCbTrippedAt h"
  "hlCbFirstFailAt (logAudit sev msg h) = hlCbFirstFailAt h" "hlReloadCnt (logAudit sev msg h) = hlReloadCnt h"
  "hlHealthy (logAudit sev msg h) = hlHealthy h" "hlCfg (logAudit sev msg h) = hlCfg h"
  "hlBpfProgs (logAudit sev msg h) = hlBpfProgs h" "hlBpfSpec (logAudit sev msg h) = hlBpfSpec h"
  "hlBpfMaps (logAudit sev msg h) = hlBpfMaps h"
  by (simp_all add: logAudit_def)

lemma registerLoadedObjects_frame [simp]:
  "hlCbFailures (registerLoadedObjects objs h) = hlCbFailures h"
  "hlCbTrippedAt (registerLoadedObjects objs h) = hlCbTrippedAt h"
  "hlCbFirstFailAt (registerLoadedObjects objs h) = hlCbFirstFailAt h"
  "hlReloadCnt (registerLoadedObjects objs h) = hlReloadCnt h" "hlCfg (registerLoadedObjects objs h) = hlCfg h"
  "hlHealthy (registerLoadedObjects objs h) = hlHealthy h"
  by (simp_all add: registerLoadedObjects_def Let_def)

text \<open>The part of the state the breaker works on.\<close>

definition sameBreaker :: "healer \<Rightarrow> healer \<Rightarrow> bool" where
  "sameBreaker h h' \<longleftrightarrow> hlCbFailures h' = hlCbFailures h \<and> hlCbTrippedAt h' = hlCbTrippedAt h
     \<and> hlCbFirstFailAt h' = hlCbFirstFailAt h \<and> hlReloadCnt h' = hlReloadCnt h \<and> hlCfg h' = hlCfg h \<and> hlHealthy h' = hlHealthy h"

lemma sameBreaker_refl [simp]: "sameBreaker h h"
  by (simp add: sameBreaker_def)

lemma loadPaths_frame: "sameBreaker h (snd (loadPaths env paths h))"
  by (induction env paths h rule: loadPaths.induct) (auto simp: sameBreaker_def split: sum.splits option.splits)

lemma loadAndAttachEBPF_frame: "sameBreaker h (snd (loadAndAttachEBPF env h))"
proof (cases "hlBpfSpec h")
  case None
  then show ?thesis using loadPaths_frame by (simp add: loadAndAttachEBPF_def)
next
  case (Some spec)
  then show ?thesis by (auto simp: loadAndAttachEBPF_def sameBreaker_def split: option.splits)
qed

lemma verifyMap_frame: "sameBreaker h (verifyMap env now name h) \<and> hlBpfProgs (verifyMap env now name h) = hlBpfProgs h
    \<and> hlBpfSpec (verifyMap env now name h) = hlBpfSpec h"
  by (simp add: verifyMap_def verifyMapBPFTool_def logMapFail_def sameBreaker_def split: map_info.split prod.split option.split)

lemma runCleanup_frame: "sameBreaker h (runCleanup env now h) \<and> hlBpfProgs (runCleanup env now h) = hlBpfProgs h
    \<and> hlBpfSpec (runCleanup env now h) = hlBpfSpec h"
  using verifyMap_frame by (simp add: runCleanup_def sameBreaker_def)

section \<open>The breaker\<close>

definition tripped :: "healer \<Rightarrow> bool" where
  "tripped h \<longleftrightarrow> hlCbTrippedAt h \<noteq> zeroTime"

definition rearmed :: "healer \<Rightarrow> healer" where
  "rearmed h = (if tripped h then h\<lparr>hlCbFailures := 0, hlCbTrippedAt := zeroTime, hlCbFirstFailAt := zeroTime\<rparr> else h)"

lemma recordReloadFailure_spec:
  assumes "heal_inv h" "\<not> tripped h" "0 \<le> now"
  shows "heal_inv (recordReloadFailure now msg h)"
    "hlCbFailures (recordReloadFailure now msg h) = (if hlCbFirstFailAt h < now - 10 * minute then 1 else hlCbFailures h + 1)"
    "hlReloadCnt (recordReloadFailure now msg h) = hlReloadCnt h"
    "hlCfg (recordReloadFailure now msg h) = hlCfg h"
    "hlBpfProgs (recordReloadFailure now msg h) = hlBpfProgs h" "hlBpfSpec (recordReloadFailure now msg h) = hlBpfSpec h"
    "hlCbFirstFailAt (recordReloadFailure now msg h) = (if hlCbFirstFailAt h = zeroTime then now else hlCbFirstFailAt h)"
    "hlCbTrippedAt (recordReloadFailure now msg h) =
       (if hlCbFailures (recordReloadFailure now msg h) = 3 then now else zeroTime)"
  using assms by (auto simp: recordReloadFailure_def Let_def heal_inv_def tripped_def zeroTime_def)

lemma resetCircuitBreaker_frame [simp]:
  "hlCbFailures (resetCircuitBreaker h) = 0" "hlCbTrippedAt (resetCircuitBreaker h) = zeroTime"
  "hlCbFirstFailAt (resetCircuitBreaker h) = zeroTime" "hlReloadCnt (resetCircuitBreaker h) = hlReloadCnt h"
  "hlHealthy (resetCircuitBreaker h) = True" "hlCfg (resetCircuitBreaker h) = hlCfg h"
  "hlBpfProgs (resetCircuitBreaker h) = hlBpfProgs h" "hlBpfSpec (resetCircuitBreaker h) = hlBpfSpec h"
  by (simp_all add: resetCircuitBreaker_def)

lemma heal_inv_cong:
  "hlCbFailures h' = hlCbFailures h \<Longrightarrow> hlCbTrippedAt h' = hlCbTrippedAt h \<Longrightarrow> hlCbFirstFailAt h' = hlCbFirstFailAt h
     \<Longrightarrow> heal_inv h' = heal_inv h"
  by (simp add: heal_inv_def)

lemma heal_inv_logged [simp]:
  "heal_inv (audit now ty sev msg h) = heal_inv h" "heal_inv (logAudit sev msg h) = heal_inv h"
  "heal_inv (resetCircuitBreaker h)" "tripped (audit now ty sev msg h) = tripped h" "tripped (logAudit sev msg h) = tripped h"
  by (simp_all add: heal_inv_def tripped_def)

lemma heal_inv_same: "sameBreaker h h' \<Longrightarrow> heal_inv h' = heal_inv h \<and> tripped h' = tripped h"
  by (simp add: sameBreaker_def heal_inv_def tripped_def)

lemma reloadBPFTool_spec:
  assumes "heal_inv h" "\<not> tripped h" "0 \<le> now"
  shows "heal_inv (reloadBPFTool env now h) \<and> hlReloadCnt (reloadBPFTool env now h) = hlReloadCnt h
     \<and> hlCfg (reloadBPFTool env now h) = hlCfg h"
  using recordReloadFailure_spec [OF assms] by (auto simp: reloadBPFTool_def split: option.splits)

lemma attemptReload_spec:
  assumes inv: "heal_inv h" "\<not> tripped h" and now: "0 \<le> now" and r: "attemptReload env now h = Some h'"
  shows "heal_inv h'" "hlReloadCnt h' = hlReloadCnt h + 1" "hlCfg h' = hlCfg h"
proof -
  define h1 where "h1 = logAudit ''WARNING'' ''Initiating eBPF program reload''
    (audit now ''reload'' ''WARNING'' ''Initiating eBPF program reload'' (h\<lparr>hlReloadCnt := hlReloadCnt h + 1\<rparr>))"
  obtain ok h2 where l: "loadAndAttachEBPF env h1 = (ok, h2)" by fastforce
  have h1: "heal_inv h1" "\<not> tripped h1" "hlReloadCnt h1 = hlReloadCnt h + 1" "hlCfg h1 = hlCfg h"
    using inv by (simp_all add: h1_def heal_inv_def tripped_def)
  have same: "sameBreaker h1 h2" using loadAndAttachEBPF_frame [of h1 env] l by simp
  with h1 have h2: "heal_inv h2" "\<not> tripped h2" "hlReloadCnt h2 = hlReloadCnt h + 1" "hlCfg h2 = hlCfg h"
    using heal_inv_same [OF same] by (auto simp: sameBreaker_def)
  note rec = recordReloadFailure_spec [OF h2(1,2) now] and tool = reloadBPFTool_spec [OF h2(1,2) now, of env]
  have r': "(if ok then Some (logAudit ''INFO'' ''eBPF programs reloaded successfully''
             (audit now ''reload'' ''INFO'' ''eBPF programs reloaded via cilium/ebpf'' (resetCircuitBreaker h2)))
         else if hcReloadCmd (hlCfg h2) \<noteq> [] then
           (case stringFields (hcReloadCmd (hlCfg h2)) of
              [] \<Rightarrow> None
            | parts \<Rightarrow> (case heRun env parts of
                  (output, None) \<Rightarrow> Some (resetCircuitBreaker h2)
                | (output, Some err) \<Rightarrow>
                    Some (recordReloadFailure now (''Reload cmd failed: '' @ err @ [CHR 0x0A] @ output) h2)))
         else Some (reloadBPFTool env now h2)) = Some h'"
    using r by (simp add: attemptReload_def h1_def [symmetric] l Let_def)
  show "heal_inv h'" "hlReloadCnt h' = hlReloadCnt h + 1" "hlCfg h' = hlCfg h"
    using r' rec tool h2(3,4) by (auto split: if_splits list.splits prod.splits option.splits)
qed

lemma rearmed_spec: "heal_inv h \<Longrightarrow> heal_inv (rearmed h) \<and> \<not> tripped (rearmed h) \<and> hlReloadCnt (rearmed h) = hlReloadCnt h
    \<and> hlCfg (rearmed h) = hlCfg h"
  by (auto simp: heal_inv_def rearmed_def tripped_def)

lemma reloadPrograms_alt:
  "reloadPrograms env now h =
     (if tripped h \<and> now < hlCbTrippedAt h + 10 * minute then Some h else attemptReload env now (rearmed h))"
  by (simp add: reloadPrograms_def rearmed_def tripped_def)

text \<open>The state after the checks themselves, before a reload.\<close>

definition checked :: "heal_env \<Rightarrow> time \<Rightarrow> healer \<Rightarrow> healer" where
  "checked env now h =
     (let missing = missingProgs env h; msg = ''eBPF programs missing: '' @ joinWith '', '' missing;
          h = h\<lparr>hlCheckCnt := hlCheckCnt h + 1, hlHealthy := (missing = [])\<rparr>
      in if missing = [] then h
         else logAudit ''CRITICAL'' msg (audit now ''fail'' ''CRITICAL'' msg (h\<lparr>hlFailCnt := hlFailCnt h + 1\<rparr>)))"

lemma missingProgs_count [simp]: "missingProgs env (h\<lparr>hlCheckCnt := n\<rparr>) = missingProgs env h"
  by (simp add: missingProgs_def checkProgram_def split: option.split)

lemma checked_frame [simp]:
  "hlCbFailures (checked env now h) = hlCbFailures h" "hlCbTrippedAt (checked env now h) = hlCbTrippedAt h"
  "hlCbFirstFailAt (checked env now h) = hlCbFirstFailAt h" "hlReloadCnt (checked env now h) = hlReloadCnt h"
  "hlCfg (checked env now h) = hlCfg h" "hlBpfProgs (checked env now h) = hlBpfProgs h"
  "hlBpfSpec (checked env now h) = hlBpfSpec h" "hlHealthy (checked env now h) = (missingProgs env h = [])"
  "tripped (checked env now h) = tripped h"
  by (simp_all add: checked_def Let_def tripped_def)

lemma runCheck_alt:
  "runCheck env now h = (if missingProgs env h \<noteq> [] \<and> hcEnableAutoReload (hlCfg h)
     then reloadPrograms env now (checked env now h) else Some (checked env now h))"
  by (simp add: runCheck_def checked_def Let_def)

lemma heal_inv_checked [simp]: "heal_inv (checked env now h) = heal_inv h"
  by (rule heal_inv_cong) simp_all

text \<open>One check: reloads are attempted exactly when a program is missing and the breaker is not open.\<close>

lemma runCheck_spec:
  assumes inv: "heal_inv h" and now: "0 \<le> now" and r: "runCheck env now h = Some h'"
  shows "heal_inv h'" "hlCfg h' = hlCfg h"
    "hlReloadCnt h' = hlReloadCnt h + (if missingProgs env h \<noteq> [] \<and> hcEnableAutoReload (hlCfg h)
       \<and> \<not> (tripped h \<and> now < hlCbTrippedAt h + 10 * minute) then 1 else 0)"
proof -
  let ?h = "rearmed (checked env now h)"
  have re: "heal_inv ?h" "\<not> tripped ?h" "hlReloadCnt ?h = hlReloadCnt h" "hlCfg ?h = hlCfg h"
    using rearmed_spec [of "checked env now h"] inv by auto
  note att = attemptReload_spec [OF re(1,2) now, of env h']
  show "heal_inv h'" "hlCfg h' = hlCfg h"
    "hlReloadCnt h' = hlReloadCnt h + (if missingProgs env h \<noteq> [] \<and> hcEnableAutoReload (hlCfg h)
       \<and> \<not> (tripped h \<and> now < hlCbTrippedAt h + 10 * minute) then 1 else 0)"
    using r inv att re(3,4) by (auto simp: runCheck_alt reloadPrograms_alt split: if_splits)
qed

lemma healStep_inv:
  assumes "heal_inv h" "healStep op h = Some h'" "\<And>t. opTime op = Some t \<Longrightarrow> 0 \<le> t"
  shows "heal_inv h'"
proof (cases op)
  case (HCheck env now)
  then show ?thesis using assms runCheck_spec(1) by (auto simp: healStep_def)
next
  case (HCleanup env now)
  then show ?thesis using assms heal_inv_same [OF runCleanup_frame [THEN conjunct1]] by (auto simp: healStep_def)
next
  case (HLoad env path)
  then show ?thesis using assms by (auto simp: healStep_def LoadBpfObject_def heal_inv_def split: sum.splits)
qed

text \<open>While the breaker is open no operation panics, attempts a reload or closes it.\<close>

lemma open_step:
  assumes "tripped h" "\<And>t. opTime op = Some t \<Longrightarrow> t < hlCbTrippedAt h + 10 * minute"
  shows "\<exists>h'. healStep op h = Some h' \<and> hlReloadCnt h' = hlReloadCnt h \<and> hlCbTrippedAt h' = hlCbTrippedAt h"
proof (cases op)
  case (HCheck env now)
  then show ?thesis using assms by (auto simp: healStep_def runCheck_alt reloadPrograms_alt)
next
  case (HCleanup env now)
  then show ?thesis using runCleanup_frame [of h env now] by (simp add: healStep_def sameBreaker_def)
next
  case (HLoad env path)
  then show ?thesis by (auto simp: healStep_def LoadBpfObject_def split: sum.splits)
qed

lemma open_run:
  assumes "tripped h" "\<And>op t. op \<in> set ops \<Longrightarrow> opTime op = Some t \<Longrightarrow> t < hlCbTrippedAt h + 10 * minute"
  shows "\<exists>h'. runOps healStep ops h = Some h' \<and> hlReloadCnt h' = hlReloadCnt h \<and> hlCbTrippedAt h' = hlCbTrippedAt h"
  using assms
proof (induction ops arbitrary: h)
  case (Cons op ops)
  then obtain h1 where h1: "healStep op h = Some h1" "hlReloadCnt h1 = hlReloadCnt h" "hlCbTrippedAt h1 = hlCbTrippedAt h"
    using open_step [of h op] by auto
  then show ?case using Cons.IH [of h1] Cons.prems by (auto simp: tripped_def)
qed simp

section \<open>Failing reloads\<close>

text \<open>A system in which no object can be loaded and every command fails.\<close>

definition hopeless :: "heal_env \<Rightarrow> bool" where
  "hopeless env \<longleftrightarrow> heLoad env = (\<lambda>s. None) \<and> (\<forall>argv. snd (heRun env argv) \<noteq> None)"

definition usableConfig :: "heal_config \<Rightarrow> bool" where
  "usableConfig c \<longleftrightarrow> hcEnableAutoReload c \<and> (hcReloadCmd c = [] \<or> stringFields (hcReloadCmd c) \<noteq> [])"

lemma hopeless_load: "hopeless env \<Longrightarrow> loadAndAttachEBPF env h = (False, h)"
proof -
  assume a: "hopeless env"
  have "loadPaths env paths h = (False, h)" for paths
    using a by (induction paths) (auto simp: hopeless_def split: sum.splits)
  then show ?thesis using a by (auto simp: loadAndAttachEBPF_def hopeless_def split: option.splits)
qed

lemma failing_reload:
  assumes inv: "heal_inv h" "\<not> tripped h" and now: "0 \<le> now" and env: "hopeless env"
    and cfg: "usableConfig (hlCfg h)" "hcExpectedProgs (hlCfg h) \<noteq> []"
  shows "\<exists>h'. attemptReload env now h = Some h' \<and> heal_inv h' \<and> hlReloadCnt h' = hlReloadCnt h + 1 \<and> hlCfg h' = hlCfg h
     \<and> hlCbFailures h' = (if hlCbFirstFailAt h < now - 10 * minute then 1 else hlCbFailures h + 1)
     \<and> hlCbFirstFailAt h' = (if hlCbFirstFailAt h = zeroTime then now else hlCbFirstFailAt h)
     \<and> hlCbTrippedAt h' = (if hlCbFailures h' = 3 then now else zeroTime)
     \<and> hlBpfProgs h' = hlBpfProgs h \<and> hlBpfSpec h' = hlBpfSpec h"
proof -
  define h1 where "h1 = logAudit ''WARNING'' ''Initiating eBPF program reload''
    (audit now ''reload'' ''WARNING'' ''Initiating eBPF program reload'' (h\<lparr>hlReloadCnt := hlReloadCnt h + 1\<rparr>))"
  have h1: "heal_inv h1" "\<not> tripped h1" using inv by (simp_all add: h1_def heal_inv_def tripped_def)
  obtain p ps where ps: "hcExpectedProgs (hlCfg h) = p # ps" using cfg(2) by (cases "hcExpectedProgs (hlCfg h)") auto
  have fails: "\<exists>out err. heRun env argv = (out, Some err)" for argv
    using env by (cases "heRun env argv") (auto simp: hopeless_def dest: spec [of _ argv])
  have cfg1: "hlCfg h1 = hlCfg h" by (simp add: h1_def)
  have load: "loadAndAttachEBPF env h1 = (False, h1)" by (rule hopeless_load [OF env])
  obtain out err where run: "heRun env [''bpftool'', ''prog'', ''attach'', ''name'', p, ''lsm'', p] = (out, Some err)"
    using fails by blast
  have "attachAll env (hcExpectedProgs (hlCfg h1)) = Some (p, err, out)" unfolding cfg1 ps attachAll.simps run by simp
  then have "\<exists>msg. reloadBPFTool env now h1 = recordReloadFailure now msg h1" unfolding reloadBPFTool_def by auto
  moreover have "\<exists>msg. attemptReload env now h = Some (recordReloadFailure now msg h1)" if "hcReloadCmd (hlCfg h) \<noteq> []"
  proof -
    have "stringFields (hcReloadCmd (hlCfg h)) \<noteq> []" using that cfg(1) by (simp add: usableConfig_def)
    then obtain c cs where c: "stringFields (hcReloadCmd (hlCfg h)) = c # cs" unfolding neq_Nil_conv by blast
    obtain out' err' where run': "heRun env (c # cs) = (out', Some err')" using fails by blast
    show ?thesis unfolding attemptReload_def Let_def h1_def [symmetric] load prod.case cfg1 c list.case run' option.case
      using that by auto
  qed
  moreover have "attemptReload env now h = Some (reloadBPFTool env now h1)" if "hcReloadCmd (hlCfg h) = []"
    unfolding attemptReload_def Let_def h1_def [symmetric] load prod.case cfg1 using that by simp
  ultimately obtain msg where "attemptReload env now h = Some (recordReloadFailure now msg h1)" by metis
  then show ?thesis using recordReloadFailure_spec [OF h1 now, of msg] by (simp add: h1_def)
qed

lemma failing_check:
  assumes inv: "heal_inv h" and ok: "\<not> tripped h \<or> hlCbTrippedAt h + 10 * minute \<le> now" and now: "0 \<le> now"
    and env: "hopeless env" and cfg: "usableConfig (hlCfg h)" and missing: "missingProgs env h \<noteq> []"
  shows "\<exists>h'. runCheck env now h = Some h' \<and> heal_inv h' \<and> hlReloadCnt h' = hlReloadCnt h + 1 \<and> hlCfg h' = hlCfg h
     \<and> hlCbFailures h' = (if tripped h \<or> hlCbFirstFailAt h < now - 10 * minute then 1 else hlCbFailures h + 1)
     \<and> hlCbFirstFailAt h' = (if tripped h \<or> hlCbFirstFailAt h = zeroTime then now else hlCbFirstFailAt h)
     \<and> hlCbTrippedAt h' = (if hlCbFailures h' = 3 then now else zeroTime)
     \<and> hlBpfProgs h' = hlBpfProgs h \<and> hlBpfSpec h' = hlBpfSpec h"
proof -
  let ?h = "rearmed (checked env now h)"
  have re: "heal_inv ?h" "\<not> tripped ?h" using rearmed_spec [of "checked env now h"] inv by auto
  have same: "hlCfg ?h = hlCfg h" "hlReloadCnt ?h = hlReloadCnt h" "hlBpfProgs ?h = hlBpfProgs h" "hlBpfSpec ?h = hlBpfSpec h"
    "hlCbFailures ?h = (if tripped h then 0 else hlCbFailures h)"
    "hlCbFirstFailAt ?h = (if tripped h then zeroTime else hlCbFirstFailAt h)"
    by (simp_all add: rearmed_def)
  have exp: "hcExpectedProgs (hlCfg ?h) \<noteq> []" using missing by (auto simp: missingProgs_def same)
  have z: "zeroTime < now - 10 * minute" using now by (simp add: zeroTime_def)
  have "runCheck env now h = attemptReload env now ?h"
    using ok missing cfg by (auto simp: runCheck_alt reloadPrograms_alt usableConfig_def)
  moreover obtain h' where h': "attemptReload env now ?h = Some h'" "heal_inv h'" "hlReloadCnt h' = hlReloadCnt h + 1"
      "hlCfg h' = hlCfg h" "hlCbTrippedAt h' = (if hlCbFailures h' = 3 then now else zeroTime)"
      "hlCbFailures h' = (if hlCbFirstFailAt ?h < now - 10 * minute then 1 else hlCbFailures ?h + 1)"
      "hlCbFirstFailAt h' = (if hlCbFirstFailAt ?h = zeroTime then now else hlCbFirstFailAt ?h)"
      "hlBpfProgs h' = hlBpfProgs h" "hlBpfSpec h' = hlBpfSpec h"
    using failing_reload [OF re now env _ exp] cfg unfolding same(1-4) by blast
  ultimately show ?thesis using z unfolding same(5,6) by (intro exI [of _ h']) (auto split: if_splits)
qed

lemma heal_inv_New: "heal_inv (NewHealer cfg)" "\<not> tripped (NewHealer cfg)"
  by (simp_all add: heal_inv_def NewHealer_def tripped_def)

lemma run_heal_inv:
  assumes "heal_inv h" "runOps healStep ops h = Some h'" "\<And>op t. op \<in> set ops \<Longrightarrow> opTime op = Some t \<Longrightarrow> 0 \<le> t"
  shows "heal_inv h'"
  using assms
proof (induction ops arbitrary: h)
  case (Cons op ops)
  then obtain h1 where "healStep op h = Some h1" "runOps healStep ops h1 = Some h'" by (auto split: option.splits)
  moreover have "heal_inv h1" using healStep_inv [of h op h1] calculation Cons.prems by auto
  ultimately show ?case using Cons by auto
qed simp

section \<open>Properties\<close>


definition brokenEnv :: heal_env where
  "brokenEnv = \<lparr>heReadSpec = (\<lambda>_. Inl ''no such file''), heLoad = (\<lambda>_. None), heRun = (\<lambda>_. ([], Some ''exit status 1'')),
     heBpffs = None, heMapInfo = (\<lambda>_. InfoNil)\<rparr>"


text \<open>
  The window of the breaker is anchored at the first failure and never moved: once that failure is more than ten minutes
  old, every further failure resets the count to one, and the breaker does not open however often reloads fail.
\<close>

lemma stale_window_never_trips:
  assumes "heal_inv h" "\<not> tripped h" "hlCbFirstFailAt h \<noteq> zeroTime" "usableConfig (hlCfg h)" "hopeless env" "missingProgs env h \<noteq> []"
    and "\<forall>t \<in> set ts. 0 \<le> t \<and> hlCbFirstFailAt h + 10 * minute < t"
  shows "\<exists>h'. runOps healStep (map (HCheck env) ts) h = Some h' \<and> \<not> tripped h' \<and> hlReloadCnt h' = hlReloadCnt h + int (length ts)"
  using assms
proof (induction ts arbitrary: h)
  case (Cons t ts)
  then obtain h1 where h1: "runCheck env t h = Some h1" "heal_inv h1" "hlReloadCnt h1 = hlReloadCnt h + 1" "hlCfg h1 = hlCfg h"
      "hlCbFailures h1 = 1" "hlCbFirstFailAt h1 = hlCbFirstFailAt h" "hlCbTrippedAt h1 = zeroTime"
      "hlBpfProgs h1 = hlBpfProgs h" "hlBpfSpec h1 = hlBpfSpec h"
    using failing_check [of h t env] by auto
  have "missingProgs env h1 \<noteq> []" using Cons.prems(6) unfolding missingProgs_def checkProgram_def h1(4,8,9) by blast
  then show ?case using Cons.IH [of h1] Cons.prems h1 by (auto simp: healStep_def tripped_def)
qed simp

text \<open>
  Once the names of loaded programs are registered, the check only looks them up there, and nothing removes them: a
  program that is unloaded from the kernel afterwards is found present by every later check.
\<close>

lemma registered_grow:
  "hlBpfProgs h = Some ps \<Longrightarrow> p \<in> set ps \<Longrightarrow> \<exists>qs. hlBpfProgs (registerLoadedObjects objs h) = Some qs \<and> p \<in> set qs"
proof -
  have "set (fold insertNew xs ys) = set xs \<union> set ys" for xs ys :: "string list"
    by (induction xs arbitrary: ys) (auto simp: insertNew_def)
  then show "hlBpfProgs h = Some ps \<Longrightarrow> p \<in> set ps \<Longrightarrow> \<exists>qs. hlBpfProgs (registerLoadedObjects objs h) = Some qs \<and> p \<in> set qs"
    by (auto simp: registerLoadedObjects_def Let_def insertNew_def simp del: fold_simps split: option.splits)
qed

definition registered :: "string \<Rightarrow> healer \<Rightarrow> bool" where
  "registered p h \<longleftrightarrow> (\<exists>ps. hlBpfProgs h = Some ps \<and> p \<in> set ps)"

lemma registered_simps [simp]:
  "registered p (audit now ty sev msg h) = registered p h" "registered p (logAudit sev msg h) = registered p h"
  "registered p (recordReloadFailure now msg h) = registered p h" "registered p (resetCircuitBreaker h) = registered p h"
  "registered p (checked env now h) = registered p h" "registered p (rearmed h) = registered p h"
  "registered p (h\<lparr>hlReloadCnt := n\<rparr>) = registered p h" "registered p (h\<lparr>hlBpfSpec := s\<rparr>) = registered p h"
  by (simp_all add: registered_def recordReloadFailure_def Let_def rearmed_def)

lemma registered_load: "registered p h \<Longrightarrow> registered p (snd (loadAndAttachEBPF env h))"
proof -
  assume r: "registered p h"
  have reg: "registered p (registerLoadedObjects objs h)" if "registered p h" for objs h
    using that registered_grow by (auto simp: registered_def)
  have "registered p (snd (loadPaths env paths h))" for paths
    using r by (induction env paths h rule: loadPaths.induct) (auto simp: reg split: sum.splits option.splits)
  then show ?thesis using r by (auto simp: loadAndAttachEBPF_def reg split: option.splits)
qed

lemma registered_reload: "registered p h \<Longrightarrow> attemptReload env now h = Some h' \<Longrightarrow> registered p h'"
proof -
  assume r: "registered p h" and a: "attemptReload env now h = Some h'"
  define h1 where "h1 = logAudit ''WARNING'' ''Initiating eBPF program reload''
    (audit now ''reload'' ''WARNING'' ''Initiating eBPF program reload'' (h\<lparr>hlReloadCnt := hlReloadCnt h + 1\<rparr>))"
  obtain ok h2 where l: "loadAndAttachEBPF env h1 = (ok, h2)" by fastforce
  have h2: "registered p h2" using registered_load [of p h1 env] r l by (simp add: h1_def)
  then have "registered p (reloadBPFTool env now h2)" by (simp add: reloadBPFTool_def split: option.split)
  then show ?thesis using a h2
    by (auto simp: attemptReload_def h1_def [symmetric] l Let_def split: if_splits list.splits prod.splits option.splits)
qed

lemma unloaded_program_unnoticed:
  assumes "registered p h" "runOps healStep ops h = Some h'"
  shows "checkProgram env p h'"
proof -
  have "registered p h1" if "registered p h0" "healStep op h0 = Some h1" for op h0 h1
  proof (cases op)
    case (HCheck env now)
    then show ?thesis using that registered_reload [of p "rearmed (checked env now h0)" env now h1]
      by (auto simp: healStep_def runCheck_alt reloadPrograms_alt split: if_splits)
  next
    case (HCleanup env now)
    then show ?thesis using that runCleanup_frame [of h0 env now] by (auto simp: healStep_def registered_def)
  next
    case (HLoad env path)
    then show ?thesis using that by (auto simp: healStep_def LoadBpfObject_def split: sum.splits)
  qed
  then have "registered p h'" using assms by (induction ops arbitrary: h) (auto split: option.splits)
  then show ?thesis by (auto simp: registered_def checkProgram_def)
qed

end
