(* ===== verification/TlsFingerprint.thy ===== *)
theory TlsFingerprint
  imports Events Sha256
begin

text \<open>
  Fingerprints of TLS clients (\<^verbatim>\<open>internal/engine/ja3/ja3.go\<close>, \<^verbatim>\<open>correlate.go\<close>): the parser of a Client Hello message, the store
  of an agent, and the correlation across hosts. The parser reads bytes from the network: every access is checked, and
  reading past the end is the panic \<^const>\<open>None\<close>. MD5 is written out. Scores are integers, as all their summands are. An
  operation reads the clock once.
\<close>

section \<open>MD5\<close>

definition md5K :: "u32 list" where
  "md5K = [
     0xd76aa478, 0xe8c7b756, 0x242070db, 0xc1bdceee, 0xf57c0faf, 0x4787c62a, 0xa8304613, 0xfd469501,
     0x698098d8, 0x8b44f7af, 0xffff5bb1, 0x895cd7be, 0x6b901122, 0xfd987193, 0xa679438e, 0x49b40821,
     0xf61e2562, 0xc040b340, 0x265e5a51, 0xe9b6c7aa, 0xd62f105d, 0x02441453, 0xd8a1e681, 0xe7d3fbc8,
     0x21e1cde6, 0xc33707d6, 0xf4d50d87, 0x455a14ed, 0xa9e3e905, 0xfcefa3f8, 0x676f02d9, 0x8d2a4c8a,
     0xfffa3942, 0x8771f681, 0x6d9d6122, 0xfde5380c, 0xa4beea44, 0x4bdecfa9, 0xf6bb4b60, 0xbebfbc70,
     0x289b7ec6, 0xeaa127fa, 0xd4ef3085, 0x04881d05, 0xd9d4d039, 0xe6db99e5, 0x1fa27cf8, 0xc4ac5665,
     0xf4292244, 0x432aff97, 0xab9423a7, 0xfc93a039, 0x655b59c3, 0x8f0ccc92, 0xffeff47d, 0x85845dd1,
     0x6fa87e4f, 0xfe2ce6e0, 0xa3014314, 0x4e0811a1, 0xf7537e82, 0xbd3af235, 0x2ad7d2bb, 0xeb86d391]"

definition md5S :: "nat \<Rightarrow> nat" where
  "md5S i = [[7, 12, 17, 22], [5, 9, 14, 20], [4, 11, 16, 23], [6, 10, 15, 21]] ! (i div 16) ! (i mod 4)"

definition md5Round :: "u32 list \<Rightarrow> u32 \<times> u32 \<times> u32 \<times> u32 \<Rightarrow> nat \<Rightarrow> u32 \<times> u32 \<times> u32 \<times> u32" where
  "md5Round ws = (\<lambda>(a, b, c, d) i.
     let (f, g) = (if i < 16 then ((b AND c) OR (NOT b AND d), i)
                   else if i < 32 then ((d AND b) OR (NOT d AND c), (5 * i + 1) mod 16)
                   else if i < 48 then (b XOR c XOR d, (3 * i + 5) mod 16)
                   else (c XOR (b OR NOT d), (7 * i) mod 16))
     in (d, b + rotr (32 - md5S i) (f + a + md5K ! i + ws ! g), b, c))"

definition md5Block :: "u32 \<times> u32 \<times> u32 \<times> u32 \<Rightarrow> bytes \<Rightarrow> u32 \<times> u32 \<times> u32 \<times> u32" where
  "md5Block = (\<lambda>(a, b, c, d) block.
     case foldl (md5Round (map leWord (chunks 16 4 block))) (a, b, c, d) [0..<64] of
       (a', b', c', d') \<Rightarrow> (a + a', b + b', c + c', d + d'))"

definition md5Pad :: "bytes \<Rightarrow> bytes" where
  "md5Pad msg = msg @ [0x80] @ replicate ((119 - length msg mod 64) mod 64) 0 @ leBytes 8 (8 * length msg)"

definition md5 :: "bytes \<Rightarrow> bytes" where
  "md5 msg = (let p = md5Pad msg in
     case foldl md5Block (0x67452301, 0xefcdab89, 0x98badcfe, 0x10325476) (chunks (length p div 64) 64 p) of
       (a, b, c, d) \<Rightarrow> concat (map (\<lambda>w. leBytes 4 (unat w)) [a, b, c, d]))"

section \<open>Client Hello\<close>

record ja3_record =
  jaJA3 :: string
  jaJA3Text :: string
  jaCipherSuites :: string
  jaExtensions :: string
  jaEllipticCurves :: string
  jaECFormats :: string
  jaSourceHost :: string
  jaPID :: u32
  jaComm :: string
  jaDestIP :: string
  jaDestPort :: u32
  jaTimestamp :: time
  jaIsAtypical :: bool

text \<open>\<^verbatim>\<open>binary.BigEndian.Uint16(data[i:])\<close>.\<close>

definition beU16 :: "bytes \<Rightarrow> nat \<Rightarrow> nat option" where
  "beU16 data i = (if i + 1 < length data then Some (256 * unat (data ! i) + unat (data ! (i + 1))) else None)"

fun cipherIDs :: "bytes \<Rightarrow> string list" where
  "cipherIDs (a # b # rest) = showNat (256 * unat a + unat b) # cipherIDs rest"
| "cipherIDs rest = []"

function curvesLoop :: "bytes \<Rightarrow> nat \<Rightarrow> nat \<Rightarrow> string list option" where
  "curvesLoop data numCurves i =
     (if i + 1 < numCurves + 2 \<and> i < length data then
        (case beU16 data i of
           None \<Rightarrow> None
         | Some n \<Rightarrow> map_option (\<lambda>rest. showNat n # rest) (curvesLoop data numCurves (i + 2)))
      else Some [])"
  by pat_completeness auto
termination
  by (relation "measure (\<lambda>(data, n, i). length data - i)") auto

declare curvesLoop.simps [simp del]

definition parseEllipticCurves :: "bytes \<Rightarrow> string list option" where
  "parseEllipticCurves data =
     (if length data < 2 then Some []
      else case beU16 data 0 of None \<Rightarrow> None | Some numCurves \<Rightarrow> curvesLoop data numCurves 2)"

definition parseECFormats :: "bytes \<Rightarrow> string list" where
  "parseECFormats data = (case data of [] \<Rightarrow> [] | n # rest \<Rightarrow> map showU (take (unat n) rest))"

type_synonym ext_acc = "string list \<times> string list \<times> string list"

text \<open>The loop over the extensions; the accumulator holds their types, the curves and the formats.\<close>

function extLoop :: "bytes \<Rightarrow> nat \<Rightarrow> nat \<Rightarrow> ext_acc \<Rightarrow> ext_acc option" where
  "extLoop data extEnd pos acc =
     (if pos + 4 \<le> extEnd \<and> pos + 4 \<le> length data then
        (case (acc, beU16 data pos, beU16 data (pos + 2)) of
           ((extIDs, curves, formats), Some extType, Some extDataLen) \<Rightarrow>
             (let fits = (pos + 4 + extDataLen \<le> length data);
                  extData = slice (pos + 4) (pos + 4 + extDataLen) data
              in case (if extType = 10 \<and> fits then parseEllipticCurves extData else Some curves) of
                   None \<Rightarrow> None
                 | Some curves \<Rightarrow> extLoop data extEnd (pos + 4 + extDataLen)
                     (extIDs @ [showNat extType], curves,
                      if extType = 11 \<and> fits then parseECFormats extData else formats))
         | _ \<Rightarrow> None)
      else Some acc)"
  by pat_completeness auto
termination
  by (relation "measure (\<lambda>(data, e, pos, acc). length data - pos)") auto

declare extLoop.simps [simp del]

text \<open>The offsets of the variable part: \<^const>\<open>None\<close> where the parser gives up.\<close>

definition helloOffsets :: "bytes \<Rightarrow> (bytes \<times> nat \<times> nat) option" where
  "helloOffsets data =
     (if length data < 5 then None
      else if data ! 0 \<noteq> 0x16 then None
      else if length data < 6 \<or> data ! 5 \<noteq> 0x01 then None
      else if 43 \<ge> length data then None
      else let pos = 43 + 1 + unat (data ! 43) in
        if pos + 2 > length data then None
        else let cipherLen = 256 * unat (data ! pos) + unat (data ! (pos + 1)); pos = pos + 2 in
          if pos + cipherLen > length data then None
          else let cipherSuites = slice pos (pos + cipherLen) data; pos = pos + cipherLen in
            if pos + 1 > length data then None
            else let pos = pos + 1 + unat (data ! pos) in
              if pos + 2 > length data then None
              else Some (cipherSuites, 256 * unat (data ! pos) + unat (data ! (pos + 1)), pos + 2))"

text \<open>The outer \<^const>\<open>None\<close> is a panic, the inner one the nil result.\<close>

definition ParseClientHello ::
  "time \<Rightarrow> bytes \<Rightarrow> string \<Rightarrow> u32 \<Rightarrow> string \<Rightarrow> string \<Rightarrow> u32 \<Rightarrow> ja3_record option option" where
  "ParseClientHello now data srcHost pid comm destIP destPort =
     (case helloOffsets data of
        None \<Rightarrow> Some None
      | Some (cipherSuites, extLen, pos) \<Rightarrow>
          (case extLoop data (pos + extLen) pos ([], [], []) of
             None \<Rightarrow> None
           | Some (extIDs, curves, formats) \<Rightarrow>
               (let ciphers = joinWith ''-'' (cipherIDs cipherSuites);
                    exts = joinWith ''-'' extIDs; crvs = joinWith ''-'' curves; fmts = joinWith ''-'' formats;
                    ja3Text = ciphers @ '','' @ exts @ '','' @ crvs @ '','' @ fmts
                in Some (Some \<lparr>jaJA3 = hexEncode (md5 (bytesOf ja3Text)), jaJA3Text = ja3Text, jaCipherSuites = ciphers,
                     jaExtensions = exts, jaEllipticCurves = crvs, jaECFormats = fmts, jaSourceHost = srcHost,
                     jaPID = pid, jaComm = comm, jaDestIP = destIP, jaDestPort = destPort, jaTimestamp = now,
                     jaIsAtypical = False\<rparr>))))"

definition ja3String :: "ja3_record \<Rightarrow> string" where
  "ja3String j = ''JA3='' @ (if length (jaJA3 j) > 16 then take 16 (jaJA3 j) else jaJA3 j) @ '' '' @ jaSourceHost j @ '' -> ''
     @ jaDestIP j @ '':'' @ showU (jaDestPort j) @ '' ('' @ jaComm j @ '' PID '' @ showU (jaPID j) @ '')''"

section \<open>Store of an agent\<close>

definition CommonJA3 :: "(string \<times> string) list" where
  "CommonJA3 = [
     (''6734f37431670b3ab4292b8f60f29984'', ''curl/7.x''),
     (''abe648b74bbcd48ed8d2533f19758122'', ''python-requests/2.x''),
     (''f1a21e2b14e7a65a1a5e26af3e57c7c2'', ''chrome/120''),
     (''79d8e14b5b7b7a8f7e2c87f2e4c6a3b0'', ''firefox/120''),
     (''b8b0f0d1e7c6a3b2f5e4d7c8a9b0c1d2'', ''edge/120''),
     (''c9d8e7f6a5b4c3d2e1f0a9b8c7d6e5f4'', ''safari/17'')]"

definition IsAtypicalJA3 :: "string \<Rightarrow> bool" where
  "IsAtypicalJA3 ja3 = (map_of CommonJA3 ja3 = None)"

definition storeRecord :: "ja3_record option \<Rightarrow> ja3_record list \<Rightarrow> ja3_record list" where
  "storeRecord j records = (case j of
      None \<Rightarrow> records
    | Some r \<Rightarrow> records @ [r\<lparr>jaIsAtypical := IsAtypicalJA3 (jaJA3 r)\<rparr>])"

definition ja3Stats :: "ja3_record list \<Rightarrow> nat \<times> nat" where
  "ja3Stats records = (length records, length (filter jaIsAtypical records))"

section \<open>Correlation\<close>

record ja3_cluster =
  jcJA3 :: string
  jcCount :: int
  jcHosts :: "string list"
  jcProcesses :: "string list"
  jcFirstSeen :: time
  jcLastSeen :: time
  jcIsC2 :: bool
  jcRiskScore :: int

record c2_alert =
  c2ID :: string
  c2JA3 :: string
  c2Hosts :: "string list"
  c2Processes :: "string list"
  c2ClusterSize :: int
  c2RiskScore :: int
  c2Timestamp :: time

record central_correlator =
  ccByJA3 :: "(string \<times> ja3_cluster) list"
  ccAlerts :: "c2_alert list"

definition NewCentralCorrelator :: central_correlator where
  "NewCentralCorrelator = \<lparr>ccByJA3 = [], ccAlerts = []\<rparr>"

definition addUnique :: "string list \<Rightarrow> string \<Rightarrow> string list" where
  "addUnique xs item = (if item \<in> set xs then xs else xs @ [item])"

definition prefixOf :: "string \<Rightarrow> nat \<Rightarrow> string" where
  "prefixOf value limit = (if length value \<le> limit then value else take limit value)"

definition calcRisk :: "ja3_cluster \<Rightarrow> ja3_record \<Rightarrow> int" where
  "calcRisk c r =
     (let score = (if jaIsAtypical r then 30 else 0) + int (length (jcHosts c)) * 15 + int (length (jcProcesses c)) * 10
            + (if jaDestPort r = 443 \<or> jaDestPort r = 8443 then 5 else 0)
      in if score > 100 then 100 else score)"

definition newCluster :: "ja3_record \<Rightarrow> ja3_cluster" where
  "newCluster r = \<lparr>jcJA3 = jaJA3 r, jcCount = 0, jcHosts = [], jcProcesses = [], jcFirstSeen = jaTimestamp r,
     jcLastSeen = zeroTime, jcIsC2 = False, jcRiskScore = 0\<rparr>"

definition processOf :: "ja3_record \<Rightarrow> string" where
  "processOf r = jaSourceHost r @ '':'' @ showU (jaPID r) @ '':'' @ jaComm r"

definition joinCluster :: "ja3_record \<Rightarrow> ja3_cluster \<Rightarrow> ja3_cluster" where
  "joinCluster r c =
     (let c = c\<lparr>jcCount := jcCount c + 1, jcLastSeen := jaTimestamp r, jcHosts := addUnique (jcHosts c) (jaSourceHost r),
                jcProcesses := addUnique (jcProcesses c) (processOf r)\<rparr>;
          risk = calcRisk c r
      in c\<lparr>jcRiskScore := risk, jcIsC2 := risk > 50\<rparr>)"

definition ja3Ingest :: "time \<Rightarrow> ja3_record \<Rightarrow> central_correlator \<Rightarrow> c2_alert option \<times> central_correlator" where
  "ja3Ingest now r cc =
     (let c = joinCluster r (case map_of (ccByJA3 cc) (jaJA3 r) of Some c \<Rightarrow> c | None \<Rightarrow> newCluster r);
          cc = cc\<lparr>ccByJA3 := AList.update (jaJA3 r) c (ccByJA3 cc)\<rparr>
      in if jcIsC2 c \<and> jcCount c \<ge> 2 then
           (let alert = \<lparr>c2ID = ''C2-'' @ prefixOf (jaJA3 r) 8 @ ''-'' @ showInt (now div second), c2JA3 = jaJA3 r,
                  c2Hosts = jcHosts c, c2Processes = jcProcesses c, c2ClusterSize = jcCount c,
                  c2RiskScore = jcRiskScore c, c2Timestamp = now\<rparr>
            in (Some alert, cc\<lparr>ccAlerts := ccAlerts cc @ [alert]\<rparr>))
         else (None, cc))"

section \<open>The wire format\<close>

text \<open>A Client Hello as RFC 8446 lays it out: the specification the parser is checked against.\<close>

datatype hello_ext = Groups "nat list" | PointFormats bytes | OtherExt nat bytes

record client_hello =
  chRandom :: bytes
  chSessionID :: bytes
  chCiphers :: "nat list"
  chCompression :: bytes
  chExtensions :: "hello_ext list"

definition be16 :: "nat \<Rightarrow> bytes" where
  "be16 n = [word_of_nat (n div 256), word_of_nat (n mod 256)]"

fun extType :: "hello_ext \<Rightarrow> nat" where
  "extType (Groups cs) = 10"
| "extType (PointFormats fs) = 11"
| "extType (OtherExt t d) = t"

fun extBody :: "hello_ext \<Rightarrow> bytes" where
  "extBody (Groups cs) = be16 (2 * length cs) @ concat (map be16 cs)"
| "extBody (PointFormats fs) = word_of_nat (length fs) # fs"
| "extBody (OtherExt t d) = d"

definition wireExt :: "hello_ext \<Rightarrow> bytes" where
  "wireExt e = be16 (extType e) @ be16 (length (extBody e)) @ extBody e"

definition wireHello :: "client_hello \<Rightarrow> bytes" where
  "wireHello h =
     (let exts = concat (map wireExt (chExtensions h));
          body = [3, 3] @ chRandom h @ word_of_nat (length (chSessionID h)) # chSessionID h
            @ be16 (2 * length (chCiphers h)) @ concat (map be16 (chCiphers h))
            @ word_of_nat (length (chCompression h)) # chCompression h @ be16 (length exts) @ exts
      in [0x16, 3, 1] @ be16 (length body + 4) @ [1, 0] @ be16 (length body) @ body)"

fun extOk :: "hello_ext \<Rightarrow> bool" where
  "extOk (Groups cs) = (list_all (\<lambda>c. c < 65536) cs \<and> length cs < 32767)"
| "extOk (PointFormats fs) = (length fs < 256)"
| "extOk (OtherExt t d) = (t < 65536 \<and> t \<noteq> 10 \<and> t \<noteq> 11 \<and> length d < 65536)"

definition helloOk :: "client_hello \<Rightarrow> bool" where
  "helloOk h \<longleftrightarrow> length (chRandom h) = 32 \<and> length (chSessionID h) < 256 \<and> length (chCompression h) < 256
     \<and> list_all (\<lambda>c. c < 65536) (chCiphers h) \<and> length (chCiphers h) < 32768
     \<and> list_all extOk (chExtensions h) \<and> length (concat (map wireExt (chExtensions h))) < 65536"

text \<open>The last list of curves and the last list of formats count.\<close>

definition curvesOf :: "hello_ext list \<Rightarrow> string list \<Rightarrow> string list" where
  "curvesOf exts cs0 = fold (\<lambda>e cur. case e of Groups cs \<Rightarrow> map showNat cs | _ \<Rightarrow> cur) exts cs0"

definition formatsOf :: "hello_ext list \<Rightarrow> string list \<Rightarrow> string list" where
  "formatsOf exts fs0 = fold (\<lambda>e cur. case e of PointFormats fs \<Rightarrow> map showU fs | _ \<Rightarrow> cur) exts fs0"

section \<open>Parsing what was laid out\<close>

lemma length_be16 [simp]: "length (be16 n) = 2"
  by (simp add: be16_def)

lemma unat_byte: "n < 256 \<Longrightarrow> unat (word_of_nat n :: u8) = n"
  by (simp add: unsigned_of_nat take_bit_nat_eq_self)

lemma be16_value: "n < 65536 \<Longrightarrow> 256 * unat (be16 n ! 0) + unat (be16 n ! 1) = n"
  by (simp add: be16_def unat_byte)

lemma beU16_at: "n < 65536 \<Longrightarrow> length pre = i \<Longrightarrow> beU16 (pre @ be16 n @ post) i = Some n"
  using be16_value [of n] by (auto simp: beU16_def be16_def nth_append)

lemma length_ids [simp]: "length (concat (map be16 cs)) = 2 * length cs"
  by (induction cs) auto

lemma cipherIDs_wire: "list_all (\<lambda>c. c < 65536) cs \<Longrightarrow> cipherIDs (concat (map be16 cs)) = map showNat cs"
proof (induction cs)
  case (Cons c cs)
  then show ?case using be16_value [of c] by (simp add: be16_def)
qed simp

lemma curvesLoop_wire:
  assumes "list_all (\<lambda>c. c < 65536) cs" "length pre = i" "n + 2 = i + 2 * length cs"
  shows "curvesLoop (pre @ concat (map be16 cs)) n i = Some (map showNat cs)"
  using assms
proof (induction cs arbitrary: pre i)
  case Nil
  then show ?case by (simp add: curvesLoop.simps)
next
  case (Cons c cs)
  have "beU16 (pre @ be16 c @ concat (map be16 cs)) i = Some c" using Cons.prems by (intro beU16_at) auto
  moreover have "curvesLoop ((pre @ be16 c) @ concat (map be16 cs)) n (i + 2) = Some (map showNat cs)"
    using Cons.prems by (intro Cons.IH) auto
  ultimately show ?case using Cons.prems by (subst curvesLoop.simps) simp
qed

lemma parseEllipticCurves_wire:
  "extOk (Groups cs) \<Longrightarrow> parseEllipticCurves (extBody (Groups cs)) = Some (map showNat cs)"
  using beU16_at [of "2 * length cs" "[]" 0 "concat (map be16 cs)"] curvesLoop_wire [of cs "be16 (2 * length cs)" 2 "2 * length cs"]
  by (simp add: parseEllipticCurves_def)

lemma parseECFormats_wire: "extOk (PointFormats fs) \<Longrightarrow> parseECFormats (extBody (PointFormats fs)) = map showU fs"
  by (simp add: parseECFormats_def unat_byte)

lemma ext_sizes: "extOk e \<Longrightarrow> extType e < 65536 \<and> length (extBody e) < 65536"
  by (cases e) auto

lemma slice_middle: "length pre = a \<Longrightarrow> length mid = n \<Longrightarrow> slice a (a + n) (pre @ mid @ post) = mid"
  by (auto simp: slice_def)

lemma extLoop_wire:
  assumes "list_all extOk exts" "length pre = pos"
  shows "extLoop (pre @ concat (map wireExt exts) @ post) (pos + length (concat (map wireExt exts))) pos (ids, cs, fs) =
    Some (ids @ map (\<lambda>e. showNat (extType e)) exts, curvesOf exts cs, formatsOf exts fs)"
  using assms
proof (induction exts arbitrary: pre pos ids cs fs)
  case Nil
  then show ?case by (simp add: extLoop.simps curvesOf_def formatsOf_def)
next
  case (Cons e exts)
  let ?rest = "concat (map wireExt exts)" and ?n = "length (extBody e)"
  let ?data = "pre @ wireExt e @ ?rest @ post"
  have sz: "extType e < 65536" "?n < 65536" using Cons.prems ext_sizes by auto
  have len: "length (wireExt e) = 4 + ?n" by (simp add: wireExt_def)
  have t: "beU16 ?data pos = Some (extType e)"
    using beU16_at [OF sz(1) Cons.prems(2)] by (simp add: wireExt_def)
  have l: "beU16 ?data (pos + 2) = Some ?n"
    using beU16_at [OF sz(2), of "pre @ be16 (extType e)" "pos + 2" "extBody e @ ?rest @ post"] Cons.prems(2) by (simp add: wireExt_def)
  have b: "slice (pos + 4) (pos + 4 + ?n) ?data = extBody e"
    using slice_middle [of "pre @ be16 (extType e) @ be16 ?n" "pos + 4" "extBody e" ?n "?rest @ post"] Cons.prems(2)
    by (simp add: wireExt_def)
  have IH: "extLoop ?data (pos + 4 + ?n + length ?rest) (pos + 4 + ?n) (ids', cs', fs') =
      Some (ids' @ map (\<lambda>e. showNat (extType e)) exts, curvesOf exts cs', formatsOf exts fs')" for ids' cs' fs'
    using Cons.IH [of "pre @ wireExt e" "pos + 4 + ?n" ids' cs' fs'] Cons.prems len by simp
  have c: "parseEllipticCurves (extBody e) = Some (curvesOf [e] cs)" if "extType e = 10"
    using that Cons.prems(1) parseEllipticCurves_wire by (cases e) (auto simp: curvesOf_def simp del: extBody.simps)
  have f: "parseECFormats (extBody e) = formatsOf [e] fs" if "extType e = 11"
    using that Cons.prems(1) parseECFormats_wire by (cases e) (auto simp: formatsOf_def simp del: extBody.simps)
  have skip: "extType e \<noteq> 10 \<Longrightarrow> curvesOf [e] cs = cs" "extType e \<noteq> 11 \<Longrightarrow> formatsOf [e] fs = fs"
    by (cases e; simp add: curvesOf_def formatsOf_def)+
  have step: "curvesOf (e # exts) cs = curvesOf exts (curvesOf [e] cs)" "formatsOf (e # exts) fs = formatsOf exts (formatsOf [e] fs)"
    by (simp_all add: curvesOf_def formatsOf_def)
  have data: "pre @ concat (map wireExt (e # exts)) @ post = ?data"
    and fin: "pos + length (concat (map wireExt (e # exts))) = pos + 4 + ?n + length ?rest" using len by simp_all
  have fits: "pos + 4 \<le> pos + 4 + ?n + length ?rest" "pos + 4 \<le> length ?data" "pos + 4 + ?n \<le> length ?data"
    using Cons.prems(2) len by auto
  have cur: "(if extType e = 10 \<and> pos + 4 + ?n \<le> length ?data then parseEllipticCurves (extBody e) else Some cs) = Some (curvesOf [e] cs)"
    and fmt: "(if extType e = 11 \<and> pos + 4 + ?n \<le> length ?data then parseECFormats (extBody e) else fs) = formatsOf [e] fs"
    using c f skip fits(3) by auto
  have "extLoop ?data (pos + 4 + ?n + length ?rest) pos (ids, cs, fs) =
      extLoop ?data (pos + 4 + ?n + length ?rest) (pos + 4 + ?n) (ids @ [showNat (extType e)], curvesOf [e] cs, formatsOf [e] fs)"
    unfolding extLoop.simps [of ?data _ pos] t l Let_def prod.case option.case b cur fmt using fits(1,2) by (simp only: if_True simp_thms)
  then show ?case unfolding step data fin IH by simp
qed

lemma be16_at:
  "n < 65536 \<Longrightarrow> length pre = i \<Longrightarrow> 256 * unat ((pre @ be16 n @ post) ! i) + unat ((pre @ be16 n @ post) ! (i + 1)) = n"
  using beU16_at [of n pre i post] by (auto simp: beU16_def split: if_splits)

lemma byte_at: "n < 256 \<Longrightarrow> length pre = i \<Longrightarrow> unat ((pre @ (word_of_nat n :: u8) # post) ! i) = n"
  by (auto simp: unat_byte)

text \<open>The offsets, for any message with the right first bytes: a head of 43 bytes and four parts that carry their lengths.\<close>

lemma helloOffsets_parts:
  assumes head: "length hd43 = 43" "hd43 ! 0 = 0x16" "hd43 ! 5 = 1"
    and parts: "length sid < 256" "length cs < 65536" "length cmp < 256" "extLen < 65536"
    and data: "data = hd43 @ word_of_nat (length sid) # sid @ be16 (length cs) @ cs @ word_of_nat (length cmp) # cmp @ be16 extLen @ rest"
  shows "helloOffsets data = Some (cs, extLen, 49 + length sid + length cs + length cmp)"
proof -
  let ?p1 = "hd43 @ word_of_nat (length sid) # sid"
  let ?p2 = "?p1 @ be16 (length cs)"
  let ?p3 = "?p2 @ cs"
  let ?p4 = "?p3 @ word_of_nat (length cmp) # cmp"
  have d1: "data = ?p1 @ be16 (length cs) @ cs @ word_of_nat (length cmp) # cmp @ be16 extLen @ rest"
    and d2: "data = ?p2 @ cs @ word_of_nat (length cmp) # cmp @ be16 extLen @ rest"
    and d3: "data = ?p3 @ word_of_nat (length cmp) # cmp @ be16 extLen @ rest"
    and d4: "data = ?p4 @ be16 extLen @ rest" by (simp_all add: data)
  have first: "data ! 0 = 0x16" "data ! 5 = 1" using head by (simp_all add: data nth_append)
  have sidlen: "unat (data ! 43) = length sid" unfolding data by (rule byte_at) (use head parts in auto)
  have clen: "256 * unat (data ! (44 + length sid)) + unat (data ! (44 + length sid + 1)) = length cs"
    unfolding d1 by (rule be16_at) (use head parts in auto)
  have comlen: "unat (data ! (46 + length sid + length cs)) = length cmp"
    unfolding d3 by (rule byte_at) (use head parts in auto)
  have elen: "256 * unat (data ! (47 + length sid + length cs + length cmp)) + unat (data ! (47 + length sid + length cs + length cmp + 1)) = extLen"
    unfolding d4 by (rule be16_at) (use head parts in auto)
  have sl: "slice (46 + length sid) (46 + length sid + length cs) data = cs"
    unfolding d2 by (rule slice_middle) (use head in auto)
  have len: "length data = 49 + length sid + length cs + length cmp + length rest" using head by (simp add: data)
  show ?thesis
    unfolding helloOffsets_def Let_def sidlen
    using first len clen comlen elen sl by (simp add: add.assoc)
qed

lemma helloOffsets_wire:
  assumes "helloOk h"
  shows "\<exists>pre. wireHello h @ rest = pre @ concat (map wireExt (chExtensions h)) @ rest
     \<and> helloOffsets (wireHello h @ rest) =
         Some (concat (map be16 (chCiphers h)), length (concat (map wireExt (chExtensions h))), length pre)"
proof -
  let ?exts = "concat (map wireExt (chExtensions h))" and ?cs = "concat (map be16 (chCiphers h))"
  define body where "body = [3, 3] @ chRandom h @ word_of_nat (length (chSessionID h)) # chSessionID h
    @ be16 (2 * length (chCiphers h)) @ ?cs @ word_of_nat (length (chCompression h)) # chCompression h @ be16 (length ?exts) @ ?exts"
  define hd43 :: bytes where "hd43 = [0x16, 3, 1] @ be16 (length body + 4) @ [1, 0] @ be16 (length body) @ [3, 3] @ chRandom h"
  have wire: "wireHello h = [0x16, 3, 1] @ be16 (length body + 4) @ [1, 0] @ be16 (length body) @ body"
    by (simp add: wireHello_def body_def Let_def)
  have data: "wireHello h @ rest = hd43 @ word_of_nat (length (chSessionID h)) # chSessionID h @ be16 (length ?cs) @ ?cs
      @ word_of_nat (length (chCompression h)) # chCompression h @ be16 (length ?exts) @ ?exts @ rest"
    unfolding wire by (simp add: hd43_def body_def)
  have head: "length hd43 = 43" "hd43 ! 0 = 0x16" "hd43 ! 5 = 1"
    using assms by (simp_all add: hd43_def helloOk_def be16_def)
  let ?pre = "hd43 @ word_of_nat (length (chSessionID h)) # chSessionID h @ be16 (length ?cs) @ ?cs
      @ word_of_nat (length (chCompression h)) # chCompression h @ be16 (length ?exts)"
  have "helloOffsets (wireHello h @ rest) = Some (?cs, length ?exts, 49 + length (chSessionID h) + length ?cs + length (chCompression h))"
    by (rule helloOffsets_parts [OF head _ _ _ _ data]) (use assms in \<open>auto simp: helloOk_def\<close>)
  moreover have "length ?pre = 49 + length (chSessionID h) + length ?cs + length (chCompression h)" using head(1) by simp
  moreover have "wireHello h @ rest = ?pre @ ?exts @ rest" unfolding data by simp
  ultimately show ?thesis by metis
qed

section \<open>Properties\<close>

definition helloText :: "client_hello \<Rightarrow> string" where
  "helloText h = joinWith ''-'' (map showNat (chCiphers h)) @ '','' @ joinWith ''-'' (map (\<lambda>e. showNat (extType e)) (chExtensions h))
     @ '','' @ joinWith ''-'' (curvesOf (chExtensions h) []) @ '','' @ joinWith ''-'' (formatsOf (chExtensions h) [])"

text \<open>
  C25. Parsing a well-formed Client Hello gives back what it says: for every message laid out on the wire, whatever follows
  it in the buffer, the parser returns a record, without a panic, whose text lists the cipher suites, the types of the
  extensions in order, and the curves and point formats announced last, and whose fingerprint is the MD5 of this text.
\<close>

theorem ParseClientHello_wire:
  assumes "helloOk h"
  shows "\<exists>r. ParseClientHello now (wireHello h @ rest) srcHost pid comm destIP destPort = Some (Some r)
     \<and> jaJA3Text r = helloText h \<and> jaJA3 r = hexEncode (md5 (bytesOf (helloText h)))
     \<and> jaCipherSuites r = joinWith ''-'' (map showNat (chCiphers h))
     \<and> jaSourceHost r = srcHost \<and> jaPID r = pid \<and> jaComm r = comm \<and> jaDestIP r = destIP \<and> jaDestPort r = destPort"
proof -
  obtain pre where pre: "wireHello h @ rest = pre @ concat (map wireExt (chExtensions h)) @ rest"
    "helloOffsets (wireHello h @ rest) =
       Some (concat (map be16 (chCiphers h)), length (concat (map wireExt (chExtensions h))), length pre)"
    using helloOffsets_wire [OF assms] by blast
  have exts: "list_all extOk (chExtensions h)" "list_all (\<lambda>c. c < 65536) (chCiphers h)" using assms by (simp_all add: helloOk_def)
  have loop: "extLoop (wireHello h @ rest) (length pre + length (concat (map wireExt (chExtensions h)))) (length pre) ([], [], []) =
      Some (map (\<lambda>e. showNat (extType e)) (chExtensions h), curvesOf (chExtensions h) [], formatsOf (chExtensions h) [])"
    using extLoop_wire [OF exts(1) refl, of pre rest "[]" "[]" "[]"] unfolding pre(1) by simp
  show ?thesis
    unfolding ParseClientHello_def pre(2) option.case prod.case loop Let_def cipherIDs_wire [OF exts(2)] helloText_def
    by (intro exI conjI, rule refl) (simp_all only: ja3_record.select_convs)
qed

definition sampleHello :: client_hello where
  "sampleHello = \<lparr>chRandom = replicate 32 7, chSessionID = [], chCiphers = [4865, 49195], chCompression = [0],
     chExtensions = [OtherExt 0 [1, 2], Groups [29, 23], PointFormats [0]]\<rparr>"

theorem ParseClientHello_wire_witness:
  "\<exists>r. ParseClientHello 0 (wireHello sampleHello @ []) ''h'' 1 ''curl'' ''10.0.0.1'' 443 = Some (Some r)
     \<and> jaJA3Text r = ''4865-49195,0-10-11,29-23,0''"
proof -
  have "helloOk sampleHello" by (simp add: helloOk_def sampleHello_def wireExt_def)
  moreover have "helloText sampleHello = ''4865-49195,0-10-11,29-23,0''"
    by (simp add: helloText_def sampleHello_def curvesOf_def formatsOf_def showBase.simps digitChar_def char_of_def bit_0)
  ultimately show ?thesis using ParseClientHello_wire [of sampleHello 0 "[]" "''h''" 1 "''curl''" "''10.0.0.1''" 443] by metis
qed

text \<open>
  The bytes of an extension are not trusted, but the loop over the curves checks for one byte where it reads two: the parser
  panics exactly when the list of curves has an odd length and announces more than it holds.
\<close>

lemma curvesLoop_None:
  "curvesLoop data n i = None \<longleftrightarrow> i < length data \<and> odd (length data - i) \<and> length data < n + 2"
proof (induction data n i rule: curvesLoop.induct)
  case (1 data n i)
  have step: "curvesLoop data n i = None \<longleftrightarrow> i + 1 < n + 2 \<and> i < length data \<and> (length data = i + 1 \<or> curvesLoop data n (i + 2) = None)"
    by (subst curvesLoop.simps) (auto simp: beU16_def)
  show ?case
  proof (cases "i + 1 < n + 2 \<and> i < length data \<and> i + 1 < length data")
    case True
    then have "curvesLoop data n (i + 2) = None \<longleftrightarrow> i + 2 < length data \<and> odd (length data - (i + 2)) \<and> length data < n + 2"
      using 1 by (auto simp: beU16_def)
    moreover obtain k where "length data = i + 2 + k" using True by (metis add_Suc_right le_Suc_ex less_eq_Suc_le one_add_one plus_1_eq_Suc)
    ultimately show ?thesis using True unfolding step by (auto simp: odd_pos)
  next
    case False
    then consider "length data \<le> i" | "length data = i + 1" | "n + 2 \<le> i + 1" "i + 1 < length data" by linarith
    then show ?thesis unfolding step by cases auto
  qed
qed

lemma curves_panic_iff:
  "parseEllipticCurves data = None \<longleftrightarrow> 3 \<le> length data \<and> odd (length data) \<and> length data < the (beU16 data 0) + 2"
  by (auto simp: parseEllipticCurves_def curvesLoop_None beU16_def)

lemma crafted_hello_panics:
  assumes head: "length hd43 = 43" "hd43 ! 0 = 0x16" "hd43 ! 5 = 1"
    and parts: "length sid < 256" "length cs < 65536" "length cmp < 256" "length body < 65532"
    and bad: "3 \<le> length body" "odd (length body)" "length body < the (beU16 body 0) + 2"
    and data: "data = hd43 @ word_of_nat (length sid) # sid @ be16 (length cs) @ cs @ word_of_nat (length cmp) # cmp
        @ be16 (length body + 4) @ be16 10 @ be16 (length body) @ body"
  shows "ParseClientHello now data srcHost pid comm destIP destPort = None"
proof -
  let ?pre = "hd43 @ word_of_nat (length sid) # sid @ be16 (length cs) @ cs @ word_of_nat (length cmp) # cmp @ be16 (length body + 4)"
  let ?pos = "49 + length sid + length cs + length cmp"
  have pos: "length ?pre = ?pos" using head(1) by simp
  have off: "helloOffsets data = Some (cs, length body + 4, ?pos)"
    by (rule helloOffsets_parts [OF head parts(1-3) _ data]) (use parts in auto)
  have d: "data = ?pre @ be16 10 @ be16 (length body) @ body" by (simp add: data)
  have t: "beU16 data ?pos = Some 10" unfolding d by (rule beU16_at) (use pos in auto)
  have "data = (?pre @ be16 10) @ be16 (length body) @ body" by (simp add: data)
  then have l: "beU16 data (?pos + 2) = Some (length body)"
    using beU16_at [of "length body" "?pre @ be16 10" "?pos + 2" body] pos parts by simp
  have "data = (?pre @ be16 10 @ be16 (length body)) @ body @ []" by (simp add: data)
  then have b: "slice (?pos + 4) (?pos + 4 + length body) data = body"
    using slice_middle [of "?pre @ be16 10 @ be16 (length body)" "?pos + 4" body "length body" "[]"] pos by simp
  have fits: "?pos + 4 \<le> ?pos + (length body + 4)" "?pos + 4 \<le> length data" "?pos + 4 + length body \<le> length data"
    using pos by (simp_all add: data)
  have "parseEllipticCurves body = None" using bad curves_panic_iff by blast
  then have "extLoop data (?pos + (length body + 4)) ?pos ([], [], []) = None"
    unfolding extLoop.simps [of data _ ?pos] t l Let_def prod.case option.case b using fits by simp
  then show ?thesis unfolding ParseClientHello_def off option.case prod.case by simp
qed

section \<open>Clusters\<close>

text \<open>A cluster is a summary of the records of its fingerprint: their number, hosts and processes, the first and the last time.\<close>

definition summarises :: "ja3_record list \<Rightarrow> ja3_cluster \<Rightarrow> bool" where
  "summarises rs c \<longleftrightarrow> rs \<noteq> [] \<and> jcCount c = int (length rs) \<and> set (jcHosts c) = jaSourceHost ` set rs \<and> distinct (jcHosts c)
     \<and> set (jcProcesses c) = processOf ` set rs \<and> distinct (jcProcesses c)
     \<and> jcFirstSeen c = jaTimestamp (hd rs) \<and> jcLastSeen c = jaTimestamp (last rs) \<and> jcIsC2 c = (jcRiskScore c > 50) \<and> jcRiskScore c \<le> 100"

lemma addUnique_props [simp]: "set (addUnique xs x) = insert x (set xs)" "distinct (addUnique xs x) = distinct xs"
  by (auto simp: addUnique_def)

lemma joinCluster_summarises:
  "summarises rs c \<Longrightarrow> summarises (rs @ [r]) (joinCluster r c)" "summarises [r] (joinCluster r (newCluster r))"
  by (auto simp: summarises_def joinCluster_def newCluster_def Let_def calcRisk_def)

fun ingestRecords :: "(time \<times> ja3_record) list \<Rightarrow> central_correlator \<Rightarrow> central_correlator" where
  "ingestRecords [] cc = cc"
| "ingestRecords ((now, r) # rs) cc = ingestRecords rs (snd (ja3Ingest now r cc))"

lemma ja3Ingest_clusters:
  "map_of (ccByJA3 (snd (ja3Ingest now r cc))) j =
     (if j = jaJA3 r then Some (joinCluster r (case map_of (ccByJA3 cc) j of Some c \<Rightarrow> c | None \<Rightarrow> newCluster r))
      else map_of (ccByJA3 cc) j)"
  by (simp add: ja3Ingest_def Let_def)

lemma clusters_summarise:
  "case map_of (ccByJA3 (ingestRecords rs NewCentralCorrelator)) j of
     None \<Rightarrow> filter (\<lambda>r. jaJA3 r = j) (map snd rs) = []
   | Some c \<Rightarrow> summarises (filter (\<lambda>r. jaJA3 r = j) (map snd rs)) c"
proof -
  define ok where "ok rs cc \<longleftrightarrow> (case map_of (ccByJA3 cc) j of None \<Rightarrow> filter (\<lambda>r. jaJA3 r = j) (map snd rs) = []
      | Some c \<Rightarrow> summarises (filter (\<lambda>r. jaJA3 r = j) (map snd rs)) c)" for rs :: "(time \<times> ja3_record) list" and cc :: central_correlator
  have step: "ok (done @ [(now, r)]) (snd (ja3Ingest now r cc))" if "ok done cc" for "done" now r cc
    using that joinCluster_summarises by (auto simp: ok_def ja3Ingest_clusters split: option.splits)
  have "ok (done @ rs) (ingestRecords rs cc)" if "ok done cc" for "done" cc
    using that
  proof (induction rs arbitrary: "done" cc)
    case (Cons p rs)
    obtain now r where p: "p = (now, r)" by (cases p)
    show ?case using Cons.IH [OF step [OF Cons.prems, of now r]] by (simp add: p)
  qed simp
  from this [of "[]" NewCentralCorrelator] show ?thesis by (simp add: ok_def NewCentralCorrelator_def)
qed

end
