(* ===== verification/Aes.thy ===== *)
theory Aes
  imports Sha256
begin

text \<open>
  The authenticated encryption of the Go library that the development needs: AES (\<^verbatim>\<open>aes.NewCipher\<close>) with its three key sizes
  and Galois counter mode (\<^verbatim>\<open>cipher.NewGCM\<close>, \<^verbatim>\<open>Seal\<close>, \<^verbatim>\<open>Open\<close>) with nonces of 12 bytes, tags of 16 bytes and no additional data.
\<close>

section \<open>AES\<close>

definition sbox :: "u8 list" where
  "sbox = [
     0x63, 0x7c, 0x77, 0x7b, 0xf2, 0x6b, 0x6f, 0xc5, 0x30, 0x01, 0x67, 0x2b, 0xfe, 0xd7, 0xab, 0x76,
     0xca, 0x82, 0xc9, 0x7d, 0xfa, 0x59, 0x47, 0xf0, 0xad, 0xd4, 0xa2, 0xaf, 0x9c, 0xa4, 0x72, 0xc0,
     0xb7, 0xfd, 0x93, 0x26, 0x36, 0x3f, 0xf7, 0xcc, 0x34, 0xa5, 0xe5, 0xf1, 0x71, 0xd8, 0x31, 0x15,
     0x04, 0xc7, 0x23, 0xc3, 0x18, 0x96, 0x05, 0x9a, 0x07, 0x12, 0x80, 0xe2, 0xeb, 0x27, 0xb2, 0x75,
     0x09, 0x83, 0x2c, 0x1a, 0x1b, 0x6e, 0x5a, 0xa0, 0x52, 0x3b, 0xd6, 0xb3, 0x29, 0xe3, 0x2f, 0x84,
     0x53, 0xd1, 0x00, 0xed, 0x20, 0xfc, 0xb1, 0x5b, 0x6a, 0xcb, 0xbe, 0x39, 0x4a, 0x4c, 0x58, 0xcf,
     0xd0, 0xef, 0xaa, 0xfb, 0x43, 0x4d, 0x33, 0x85, 0x45, 0xf9, 0x02, 0x7f, 0x50, 0x3c, 0x9f, 0xa8,
     0x51, 0xa3, 0x40, 0x8f, 0x92, 0x9d, 0x38, 0xf5, 0xbc, 0xb6, 0xda, 0x21, 0x10, 0xff, 0xf3, 0xd2,
     0xcd, 0x0c, 0x13, 0xec, 0x5f, 0x97, 0x44, 0x17, 0xc4, 0xa7, 0x7e, 0x3d, 0x64, 0x5d, 0x19, 0x73,
     0x60, 0x81, 0x4f, 0xdc, 0x22, 0x2a, 0x90, 0x88, 0x46, 0xee, 0xb8, 0x14, 0xde, 0x5e, 0x0b, 0xdb,
     0xe0, 0x32, 0x3a, 0x0a, 0x49, 0x06, 0x24, 0x5c, 0xc2, 0xd3, 0xac, 0x62, 0x91, 0x95, 0xe4, 0x79,
     0xe7, 0xc8, 0x37, 0x6d, 0x8d, 0xd5, 0x4e, 0xa9, 0x6c, 0x56, 0xf4, 0xea, 0x65, 0x7a, 0xae, 0x08,
     0xba, 0x78, 0x25, 0x2e, 0x1c, 0xa6, 0xb4, 0xc6, 0xe8, 0xdd, 0x74, 0x1f, 0x4b, 0xbd, 0x8b, 0x8a,
     0x70, 0x3e, 0xb5, 0x66, 0x48, 0x03, 0xf6, 0x0e, 0x61, 0x35, 0x57, 0xb9, 0x86, 0xc1, 0x1d, 0x9e,
     0xe1, 0xf8, 0x98, 0x11, 0x69, 0xd9, 0x8e, 0x94, 0x9b, 0x1e, 0x87, 0xe9, 0xce, 0x55, 0x28, 0xdf,
     0x8c, 0xa1, 0x89, 0x0d, 0xbf, 0xe6, 0x42, 0x68, 0x41, 0x99, 0x2d, 0x0f, 0xb0, 0x54, 0xbb, 0x16]"

definition subByte :: "u8 \<Rightarrow> u8" where
  "subByte b = sbox ! unat b"

definition xorBytes :: "bytes \<Rightarrow> bytes \<Rightarrow> bytes" where
  "xorBytes xs ys = map2 (XOR) xs ys"

definition xtime :: "u8 \<Rightarrow> u8" where
  "xtime b = push_bit 1 b XOR (if bit b 7 then 0x1b else 0)"

text \<open>A state is its sixteen bytes, column by column.\<close>

definition shiftRows :: "bytes \<Rightarrow> bytes" where
  "shiftRows st = map (\<lambda>i. st ! (((i div 4 + i mod 4) mod 4) * 4 + i mod 4)) [0..<16]"

definition mixByte :: "bytes \<Rightarrow> nat \<Rightarrow> u8" where
  "mixByte st i =
     (let c = 4 * (i div 4); a = st ! i; b = st ! (c + (i + 1) mod 4); d = st ! (c + (i + 2) mod 4); e = st ! (c + (i + 3) mod 4)
      in xtime a XOR (xtime b XOR b) XOR d XOR e)"

definition mixColumns :: "bytes \<Rightarrow> bytes" where
  "mixColumns st = map (mixByte st) [0..<16]"

text \<open>The key schedule, with the last word first.\<close>

definition expandStep :: "nat \<Rightarrow> bytes list \<times> u8 \<times> nat \<Rightarrow> bytes list \<times> u8 \<times> nat" where
  "expandStep nk = (\<lambda>(ws, rcon, i).
     let temp = hd ws;
         sub = map subByte temp;
         rot = map subByte (rotate1 temp);
         temp = (if i mod nk = 0 then (hd rot XOR rcon) # tl rot else if nk > 6 \<and> i mod nk = 4 then sub else temp)
     in (xorBytes (ws ! (nk - 1)) temp # ws, if i mod nk = 0 then xtime rcon else rcon, i + 1))"

definition keySchedule :: "bytes \<Rightarrow> bytes list" where
  "keySchedule key =
     (let nk = length key div 4
      in rev (fst ((expandStep nk ^^ (3 * nk + 28)) (rev (chunks nk 4 key), 1, nk))))"

definition roundKeys :: "bytes \<Rightarrow> bytes list" where
  "roundKeys key = map concat (chunks (length key div 4 + 7) 4 (keySchedule key))"

definition aesEncrypt :: "bytes \<Rightarrow> bytes \<Rightarrow> bytes" where
  "aesEncrypt key block =
     (let rks = roundKeys key;
          st = foldl (\<lambda>st rk. xorBytes (mixColumns (shiftRows (map subByte st))) rk) (xorBytes block (hd rks)) (butlast (tl rks))
      in xorBytes (shiftRows (map subByte st)) (last rks))"

definition aesKeyOk :: "bytes \<Rightarrow> bool" where
  "aesKeyOk key = (length key \<in> {16, 24, 32})"

section \<open>Galois counter mode\<close>

definition block128 :: "bytes \<Rightarrow> 128 word" where
  "block128 bs = foldl (\<lambda>acc b. push_bit 8 acc OR ucast b) 0 bs"

definition gfMult :: "128 word \<Rightarrow> 128 word \<Rightarrow> 128 word" where
  "gfMult x y = fst (foldl (\<lambda>(z, v) i.
     (if bit x (127 - i) then z XOR v else z,
      if bit v 0 then drop_bit 1 v XOR push_bit 120 0xe1 else drop_bit 1 v)) (0, y) [0..<128])"

definition padBlocks :: "bytes \<Rightarrow> bytes" where
  "padBlocks bs = bs @ replicate ((16 - length bs mod 16) mod 16) 0"

definition ghash :: "128 word \<Rightarrow> bytes \<Rightarrow> 128 word" where
  "ghash h bs = foldl (\<lambda>y b. gfMult (y XOR block128 b) h) 0 (chunks (length bs div 16) 16 bs)"

definition counterBlock :: "bytes \<Rightarrow> nat \<Rightarrow> bytes" where
  "counterBlock nonce n = nonce @ bytesBE 4 (word_of_nat n :: u32)"

definition keystream :: "bytes \<Rightarrow> bytes \<Rightarrow> nat \<Rightarrow> bytes" where
  "keystream key nonce n =
     take n (concat (map (\<lambda>i. aesEncrypt key (counterBlock nonce (i + 2))) [0..<(n + 15) div 16]))"

definition gcmTag :: "bytes \<Rightarrow> bytes \<Rightarrow> bytes \<Rightarrow> bytes" where
  "gcmTag key nonce ct =
     (let h = block128 (aesEncrypt key (replicate 16 0));
          lens = replicate 8 0 @ bytesBE 8 (word_of_nat (8 * length ct) :: u64)
      in xorBytes (bytesBE 16 (ghash h (padBlocks ct @ lens))) (aesEncrypt key (counterBlock nonce 1)))"

definition gcmCrypt :: "bytes \<Rightarrow> bytes \<Rightarrow> bytes \<Rightarrow> bytes" where
  "gcmCrypt key nonce bs = xorBytes bs (keystream key nonce (length bs))"

definition gcmSeal :: "bytes \<Rightarrow> bytes \<Rightarrow> bytes \<Rightarrow> bytes" where
  "gcmSeal key nonce plain = (let ct = gcmCrypt key nonce plain in ct @ gcmTag key nonce ct)"

definition gcmOpen :: "bytes \<Rightarrow> bytes \<Rightarrow> bytes \<Rightarrow> bytes option" where
  "gcmOpen key nonce sealed =
     (if length sealed < 16 then None
      else let ct = take (length sealed - 16) sealed
           in if drop (length sealed - 16) sealed = gcmTag key nonce ct then Some (gcmCrypt key nonce ct) else None)"

section \<open>Lengths\<close>

lemma length_xorBytes [simp]: "length (xorBytes xs ys) = min (length xs) (length ys)"
  by (simp add: xorBytes_def)

lemma length_chunks [simp]: "length (chunks n k xs) = n"
  by (induction n k xs rule: chunks.induct) auto

lemma chunks_lengths: "n * k \<le> length xs \<Longrightarrow> c \<in> set (chunks n k xs) \<Longrightarrow> length c = k \<and> set c \<subseteq> set xs"
proof (induction n k xs rule: chunks.induct)
  case (2 n k xs)
  then consider "c = take k xs" | "c \<in> set (chunks n k (drop k xs))" by auto
  then show ?case
  proof cases
    case 1
    then show ?thesis using 2(2) by (auto dest: in_set_takeD)
  next
    case 2
    then have "length c = k \<and> set c \<subseteq> set (drop k xs)" using "2.IH" \<open>Suc n * k \<le> length xs\<close> by auto
    then show ?thesis using set_drop_subset [of k xs] by blast
  qed
qed simp

lemma expandStep_words:
  assumes "0 < nk" "nk \<le> length ws" "\<forall>w \<in> set ws. length w = 4" "expandStep nk (ws, r, i) = (ws', r', i')"
  shows "length ws' = length ws + 1 \<and> (\<forall>w \<in> set ws'. length w = 4)"
proof -
  obtain w rest where ws: "ws = w # rest" using assms(1,2) by (cases ws) auto
  have "ws ! (nk - 1) \<in> set ws" using assms(1,2) by simp
  then have "length (ws ! (nk - 1)) = 4" using assms(3) by blast
  then show ?thesis using assms ws by (auto simp: expandStep_def Let_def length_rotate1 split: if_splits)
qed

lemma expand_words:
  assumes "0 < nk" "nk \<le> length ws" "\<forall>w \<in> set ws. length w = 4" "(expandStep nk ^^ n) (ws, r, i) = (ws', r', i')"
  shows "length ws' = length ws + n \<and> (\<forall>w \<in> set ws'. length w = 4)"
  using assms(4)
proof (induction n arbitrary: ws' r' i')
  case (Suc n)
  obtain ws1 r1 i1 where 1: "(expandStep nk ^^ n) (ws, r, i) = (ws1, r1, i1)" by (cases "(expandStep nk ^^ n) (ws, r, i)")
  from Suc.IH [OF this] have "nk \<le> length ws1" "\<forall>w \<in> set ws1. length w = 4" "length ws1 = length ws + n" using assms(2) by auto
  then show ?case using expandStep_words [OF assms(1), of ws1 r1 i1 ws' r' i'] Suc.prems 1 by auto
qed (use assms in auto)

lemma keySchedule_words:
  assumes "aesKeyOk key"
  shows "length (keySchedule key) = 4 * (length key div 4 + 7) \<and> (\<forall>w \<in> set (keySchedule key). length w = 4)"
proof -
  let ?nk = "length key div 4"
  have nk: "0 < ?nk" "?nk * 4 = length key" using assms by (auto simp: aesKeyOk_def)
  have words: "\<forall>w \<in> set (rev (chunks ?nk 4 key)). length w = 4" 
    unfolding set_rev using chunks_lengths [of ?nk 4 key] nk(2) by (metis order_refl)
  obtain ws r i where e: "(expandStep ?nk ^^ (3 * ?nk + 28)) (rev (chunks ?nk 4 key), 1, ?nk) = (ws, r, i)"
    using prod_cases3 by blast
  have "length ws = ?nk + (3 * ?nk + 28) \<and> (\<forall>w \<in> set ws. length w = 4)"
    using expand_words [OF nk(1) _ words e] by simp
  then show ?thesis by (simp add: keySchedule_def Let_def e)
qed

lemma roundKeys_blocks:
  assumes "aesKeyOk key"
  shows "roundKeys key \<noteq> [] \<and> (\<forall>rk \<in> set (roundKeys key). length rk = 16)"
proof -
  let ?n = "length key div 4 + 7"
  have "length (concat c) = 16" if c: "c \<in> set (chunks ?n 4 (keySchedule key))" for c
  proof -
    have "length c = 4 \<and> set c \<subseteq> set (keySchedule key)"
      using chunks_lengths [OF _ c] keySchedule_words [OF assms] by simp
    then have "length c = 4" "\<forall>w \<in> set c. length w = 4" using keySchedule_words [OF assms] by auto
    then have "map length c = replicate 4 4" by (intro nth_equalityI) auto
    then show ?thesis by (simp add: length_concat sum_list_replicate)
  qed
  moreover have "length (roundKeys key) = ?n" by (simp add: roundKeys_def)
  moreover have "roundKeys key \<noteq> []" using calculation by (metis add_is_0 list.size(3) zero_neq_numeral)
  ultimately show ?thesis by (auto simp: roundKeys_def)
qed

lemma length_aesEncrypt: "aesKeyOk key \<Longrightarrow> length (aesEncrypt key block) = 16"
  using roundKeys_blocks [of key] by (auto simp: aesEncrypt_def Let_def shiftRows_def)

lemma length_keystream: "aesKeyOk key \<Longrightarrow> length (keystream key nonce n) = n"
proof -
  assume "aesKeyOk key"
  then have "length (concat (map (\<lambda>i. aesEncrypt key (counterBlock nonce (i + 2))) [0..<m])) = 16 * m" for m
    by (induction m) (auto simp: length_aesEncrypt)
  then show ?thesis by (simp add: keystream_def)
qed

lemma length_gcmTag: "aesKeyOk key \<Longrightarrow> length (gcmTag key nonce ct) = 16"
  by (simp add: gcmTag_def Let_def length_aesEncrypt bytesBE_def)

section \<open>Opening what was sealed\<close>

lemma xorBytes_twice: "length xs \<le> length ks \<Longrightarrow> xorBytes (xorBytes xs ks) ks = xs"
  unfolding xorBytes_def by (rule nth_equalityI) (auto simp: xor.assoc)

lemma gcmCrypt_twice: "aesKeyOk key \<Longrightarrow> gcmCrypt key nonce (gcmCrypt key nonce bs) = bs"
  by (simp add: gcmCrypt_def length_keystream xorBytes_twice)

lemma gcmOpen_gcmSeal: "aesKeyOk key \<Longrightarrow> gcmOpen key nonce (gcmSeal key nonce plain) = Some plain"
  by (simp add: gcmOpen_def gcmSeal_def Let_def length_gcmTag gcmCrypt_twice)

end
