(* ===== verification/Anonymize.thy ===== *)
theory Anonymize
  imports Aes HashChain Events
begin

text \<open>
  Pseudonyms for event fields (\<^verbatim>\<open>pkg/anonymize/anonymize.go\<close>): paths and names are replaced by truncated HMACs, and the
  originals are kept, encrypted, for authorised recovery. Random bytes, the entries read from the store's file and whether a
  write of this file fails are arguments; the file is the list of the entries last written. Reading and writing key files is
  left out.
\<close>

section \<open>Hexadecimal text\<close>

text \<open>\<^verbatim>\<open>hex.DecodeString\<close>, and \<^verbatim>\<open>string\<close> of a byte slice.\<close>

fun hexDecodeString :: "string \<Rightarrow> bytes option" where
  "hexDecodeString [] = Some []"
| "hexDecodeString [c] = None"
| "hexDecodeString (a # b # s) = (case (hexVal a, hexVal b) of
      (Some x, Some y) \<Rightarrow> map_option (Cons (word_of_nat (16 * x + y))) (hexDecodeString s)
    | _ \<Rightarrow> None)"

definition stringOf :: "bytes \<Rightarrow> string" where
  "stringOf bs = map (\<lambda>b. char_of (unat b)) bs"

section \<open>Store of the originals\<close>

record deanon_store =
  dsPath :: string
  dsKey :: bytes
  dsEntries :: "(string \<times> string) list"
  dsFile :: "(string \<times> string) list option"

datatype deanon_error = KeySizeError | SaveError | NotFound | BadHex | TooShort | DecryptFailed

definition NewDeAnonStore :: "string \<Rightarrow> bytes \<Rightarrow> (string \<times> string) list option \<Rightarrow> deanon_store" where
  "NewDeAnonStore path key file = \<lparr>dsPath = path, dsKey = key,
     dsEntries = (case file of None \<Rightarrow> [] | Some es \<Rightarrow> fold (\<lambda>(h, c). AList.update h c) es []), dsFile = file\<rparr>"

definition saveStore :: "bool \<Rightarrow> deanon_store \<Rightarrow> deanon_error option \<times> deanon_store" where
  "saveStore fails ds = (if fails then (Some SaveError, ds) else (None, ds\<lparr>dsFile := Some (dsEntries ds)\<rparr>))"

definition storeOriginal :: "bytes \<Rightarrow> bool \<Rightarrow> string \<Rightarrow> string \<Rightarrow> deanon_store \<Rightarrow> deanon_error option \<times> deanon_store" where
  "storeOriginal nonce fails hash original ds =
     (if map_of (dsEntries ds) hash \<noteq> None then (None, ds)
      else if \<not> aesKeyOk (dsKey ds) then (Some KeySizeError, ds)
      else let ciphertext = nonce @ gcmSeal (dsKey ds) nonce (bytesOf original)
           in saveStore fails (ds\<lparr>dsEntries := AList.update hash (hexEncode ciphertext) (dsEntries ds)\<rparr>))"

definition lookupOriginal :: "string \<Rightarrow> deanon_store \<Rightarrow> deanon_error + string" where
  "lookupOriginal hash ds = (case map_of (dsEntries ds) hash of
      None \<Rightarrow> Inl NotFound
    | Some cipherHex \<Rightarrow> (case hexDecodeString cipherHex of
          None \<Rightarrow> Inl BadHex
        | Some ciphertext \<Rightarrow>
            if \<not> aesKeyOk (dsKey ds) then Inl KeySizeError
            else if length ciphertext < 12 then Inl TooShort
            else (case gcmOpen (dsKey ds) (take 12 ciphertext) (drop 12 ciphertext) of
                None \<Rightarrow> Inl DecryptFailed
              | Some plaintext \<Rightarrow> Inr (stringOf plaintext))))"

definition EntryCount :: "deanon_store \<Rightarrow> nat" where
  "EntryCount ds = length (dsEntries ds)"

section \<open>Anonymizer\<close>

record anon_config =
  acHMACKeyHex :: string
  acEncKeyHex :: string
  acDeAnonPath :: string

record anonymizer =
  anHmacKey :: bytes
  anEncKey :: bytes
  anDeanon :: "deanon_store option"

datatype anon_error = DecodeHmacKey | DecodeEncKey

definition NewAnonymizer ::
  "bytes \<Rightarrow> bytes \<Rightarrow> (string \<times> string) list option \<Rightarrow> anon_config option \<Rightarrow> anon_error + anonymizer" where
  "NewAnonymizer rand1 rand2 file cfg =
     (let cfg = (case cfg of None \<Rightarrow> \<lparr>acHMACKeyHex = [], acEncKeyHex = [], acDeAnonPath = []\<rparr> | Some c \<Rightarrow> c)
      in case (if acHMACKeyHex cfg \<noteq> [] then hexDecodeString (acHMACKeyHex cfg) else Some rand1) of
           None \<Rightarrow> Inl DecodeHmacKey
         | Some hmacKey \<Rightarrow>
             (case (if acEncKeyHex cfg \<noteq> [] then hexDecodeString (acEncKeyHex cfg) else Some rand2) of
                None \<Rightarrow> Inl DecodeEncKey
              | Some encKey \<Rightarrow> Inr \<lparr>anHmacKey = hmacKey, anEncKey = encKey,
                  anDeanon = (if acDeAnonPath cfg \<noteq> [] then Some (NewDeAnonStore (acDeAnonPath cfg) encKey file) else None)\<rparr>))"

definition HashString :: "string \<Rightarrow> int \<Rightarrow> anonymizer \<Rightarrow> string" where
  "HashString s prefixLen a =
     (let hash = hexEncode (hmacSha256 (anHmacKey a) (bytesOf s))
      in if prefixLen > 0 \<and> prefixLen < int (length hash) then take (nat prefixLen) hash else hash)"

definition HashPath :: "string \<Rightarrow> anonymizer \<Rightarrow> string" where
  "HashPath path a = HashString path 16 a"

definition HashIP :: "string \<Rightarrow> anonymizer \<Rightarrow> string" where
  "HashIP ip a = ''ip_'' @ HashString ip 12 a"

definition HashComm :: "string \<Rightarrow> anonymizer \<Rightarrow> string" where
  "HashComm comm a = HashString comm 8 a"

record anonymized_event =
  axTimestampNS :: u64
  axPID :: u32
  axPPID :: u32
  axUID :: u32
  axComm :: string
  axPathname :: string
  axType :: u32
  axFlags :: u32
  axInode :: u64
  axDevMajor :: u32
  axDevMinor :: u32
  axMode :: u32
  axFFlags :: u32
  axChildPID :: u32

text \<open>The arguments of \<^verbatim>\<open>AnonymizeEvent\<close> are the fields of the raw event.\<close>

definition AnonymizeEvent :: "bytes \<Rightarrow> bool \<Rightarrow> event \<Rightarrow> anonymizer \<Rightarrow> anonymized_event \<times> anonymizer" where
  "AnonymizeEvent nonce fails e a =
     (let anon = \<lparr>axTimestampNS = evTimestampNS e, axPID = evPID e, axPPID = evPPID e, axUID = evUID e,
            axComm = HashComm (evComm e) a, axPathname = [], axType = evType e, axFlags = 0, axInode = evInode e,
            axDevMajor = evDevMajor e, axDevMinor = evDevMinor e, axMode = evMode e, axFFlags = evFFlags e,
            axChildPID = evChildPID e\<rparr>;
          path = evPathname e
      in if path \<noteq> [] \<and> path \<noteq> ''?'' then
           (let anon = anon\<lparr>axPathname := HashPath path a\<rparr>
            in (anon, case anDeanon a of
                  None \<Rightarrow> a
                | Some ds \<Rightarrow> if path \<noteq> axPathname anon
                    then a\<lparr>anDeanon := Some (snd (storeOriginal nonce fails (axPathname anon) path ds))\<rparr> else a))
         else (anon\<lparr>axPathname := path\<rparr>, a))"

definition HMACKeyHex :: "anonymizer \<Rightarrow> string" where
  "HMACKeyHex a = hexEncode (anHmacKey a)"

definition isHexStr :: "string \<Rightarrow> bool" where
  "isHexStr s = (list_all (\<lambda>c. \<not> ((of_char c < (48::nat) \<or> of_char c > (57::nat)) \<and> (of_char c < (97::nat) \<or> of_char c > (102::nat))
     \<and> (of_char c < (65::nat) \<or> of_char c > (70::nat)))) s \<and> length s > 0)"

definition IsAnonymizedPath :: "string \<Rightarrow> bool" where
  "IsAnonymizedPath s = (length s = 16 \<and> isHexStr s)"

section \<open>Text round trips\<close>

lemma hexVal_digitChar [simp]: "d < 16 \<Longrightarrow> hexVal (digitChar d) = Some d"
  by (simp add: hexVal_def Let_def of_digitChar)

lemma hexDecodeString_hexEncode [simp]: "hexDecodeString (hexEncode bs) = Some bs"
proof (induction bs)
  case (Cons b bs)
  have "unat b div 16 < 16" using unsigned_less [where 'a = nat, of b] by simp
  then show ?case using Cons by (simp add: hexEncode_def hexByte_def div_mult_mod_eq mult.commute [of 16])
qed (simp add: hexEncode_def)

lemma stringOf_bytesOf [simp]: "stringOf (bytesOf s) = s"
proof -
  have "(of_char c :: nat) < 256" for c
    using range_nat_of_char by (metis atLeastLessThan_iff rangeI)
  then show ?thesis by (simp add: stringOf_def bytesOf_def comp_def unat_of_nat)
qed

lemma isHexStr_iff: "isHexStr s \<longleftrightarrow> s \<noteq> [] \<and> (\<forall>c \<in> set s. hexVal c \<noteq> None)"
proof -
  have "(\<not> ((of_char c < (48::nat) \<or> of_char c > (57::nat)) \<and> (of_char c < (97::nat) \<or> of_char c > (102::nat))
     \<and> (of_char c < (65::nat) \<or> of_char c > (70::nat)))) = (hexVal c \<noteq> None)" for c
    by (auto simp: hexVal_def Let_def)
  then show ?thesis by (auto simp: isHexStr_def list_all_iff)
qed

lemma hexEncode_digits: "\<forall>c \<in> set (hexEncode bs). hexVal c \<noteq> None"
proof (induction bs)
  case (Cons b bs)
  have "unat b div 16 < 16" using unsigned_less [where 'a = nat, of b] by simp
  then show ?case using Cons by (simp add: hexEncode_def hexByte_def)
qed (simp add: hexEncode_def)

lemma HashPath_pseudonym: "IsAnonymizedPath (HashPath p a)"
proof -
  have length_hmac: "length (hmacSha256 k m) = 32" for k m by (simp add: hmacSha256_def)
  then have "hexEncode (hmacSha256 k m) \<noteq> []" for k m by (metis length_hexEncode list.size(3) mult_eq_0_iff zero_neq_numeral)
  moreover have "\<forall>c \<in> set (take 16 (hexEncode (hmacSha256 (anHmacKey a) (bytesOf p)))). hexVal c \<noteq> None"
    using hexEncode_digits in_set_takeD by metis
  ultimately show ?thesis
    by (simp add: IsAnonymizedPath_def HashPath_def HashString_def Let_def isHexStr_iff length_hmac)
qed

section \<open>What the store recovers\<close>

text \<open>The entry of a path opens to this path, whatever the nonce.\<close>

definition sealedPath :: "bytes \<Rightarrow> bytes \<Rightarrow> string \<Rightarrow> string" where
  "sealedPath key nonce p = hexEncode (nonce @ gcmSeal key nonce (bytesOf p))"

lemma lookupOriginal_sealed:
  assumes "aesKeyOk (dsKey ds)" "length nonce = 12" "map_of (dsEntries ds) h = Some (sealedPath (dsKey ds) nonce p)"
  shows "lookupOriginal h ds = Inr p"
  using assms by (simp add: lookupOriginal_def sealedPath_def gcmOpen_gcmSeal)

text \<open>A run of the anonymizer over events, each with the nonce drawn and whether the write of the file fails.\<close>

fun anonRun :: "(bytes \<times> bool \<times> event) list \<Rightarrow> anonymizer \<Rightarrow> anonymized_event list \<times> anonymizer" where
  "anonRun [] a = ([], a)"
| "anonRun ((nonce, fails, e) # rest) a =
     (let (x, a1) = AnonymizeEvent nonce fails e a; (xs, a2) = anonRun rest a1 in (x # xs, a2))"

text \<open>The paths whose originals have to be kept, and the original behind a pseudonym: the first such path.\<close>

definition keptPath :: "anonymizer \<Rightarrow> string \<Rightarrow> bool" where
  "keptPath a p = (p \<noteq> [] \<and> p \<noteq> ''?'' \<and> p \<noteq> HashPath p a)"

definition originalOf :: "anonymizer \<Rightarrow> string list \<Rightarrow> string \<Rightarrow> string option" where
  "originalOf a ps h = find (\<lambda>p. keptPath a p \<and> HashPath p a = h) ps"

definition recovers :: "anonymizer \<Rightarrow> string list \<Rightarrow> deanon_store \<Rightarrow> bool" where
  "recovers a ps ds = (distinct (map fst (dsEntries ds)) \<and>
     (\<forall>h. rel_option (\<lambda>p c. \<exists>nonce. length nonce = 12 \<and> c = sealedPath (dsKey ds) nonce p)
            (originalOf a ps h) (map_of (dsEntries ds) h)))"

lemma HashPath_deanon [simp]: "HashPath p (a\<lparr>anDeanon := d\<rparr>) = HashPath p a"
  by (simp add: HashPath_def HashString_def)

lemma keptPath_deanon [simp]: "keptPath (a\<lparr>anDeanon := d\<rparr>) = keptPath a"
  by (simp add: fun_eq_iff keptPath_def)

lemma originalOf_deanon [simp]: "originalOf (a\<lparr>anDeanon := d\<rparr>) = originalOf a"
  by (simp add: fun_eq_iff originalOf_def)

lemma recovers_deanon [simp]: "recovers (a\<lparr>anDeanon := d\<rparr>) = recovers a"
  by (simp add: fun_eq_iff recovers_def)

lemma originalOf_snoc:
  "originalOf a (ps @ [p]) h =
     (case originalOf a ps h of Some q \<Rightarrow> Some q | None \<Rightarrow> if keptPath a p \<and> HashPath p a = h then Some p else None)"
  by (induction ps) (auto simp: originalOf_def)

lemma recovers_entry:
  assumes "recovers a ps ds"
  shows "rel_option (\<lambda>p c. \<exists>nonce. length nonce = 12 \<and> c = sealedPath (dsKey ds) nonce p)
    (originalOf a ps h) (map_of (dsEntries ds) h)"
  using assms by (simp add: recovers_def)

lemma recovers_lookup:
  assumes "aesKeyOk (dsKey ds)" "recovers a ps ds"
  shows "lookupOriginal h ds = (case originalOf a ps h of None \<Rightarrow> Inl NotFound | Some p \<Rightarrow> Inr p)"
  using recovers_entry [OF assms(2), of h] assms(1)
  by (cases rule: option.rel_cases) (auto simp: lookupOriginal_sealed, simp add: lookupOriginal_def)

text \<open>A path added to the run: stored when it is the first with its pseudonym.\<close>

lemma recovers_skip:
  assumes "recovers a ps ds" "\<not> keptPath a p" shows "recovers a (ps @ [p]) ds"
proof -
  have "originalOf a (ps @ [p]) = originalOf a ps"
    using assms(2) by (simp add: fun_eq_iff originalOf_snoc split: option.splits)
  then show ?thesis using assms(1) by (simp add: recovers_def)
qed

lemma recovers_known:
  assumes "recovers a ps ds" "map_of (dsEntries ds) (HashPath p a) \<noteq> None" shows "recovers a (ps @ [p]) ds"
proof -
  have "originalOf a ps (HashPath p a) \<noteq> None"
    using recovers_entry [OF assms(1), of "HashPath p a"] assms(2)
    by (auto simp: option_rel_Some2)
  then have "originalOf a (ps @ [p]) h = originalOf a ps h" for h
    by (auto simp: originalOf_snoc split: option.splits)
  then have "originalOf a (ps @ [p]) = originalOf a ps" by (rule ext)
  then show ?thesis using assms(1) by (simp add: recovers_def)
qed

lemma recovers_new:
  assumes "recovers a ps ds" "map_of (dsEntries ds) (HashPath p a) = None" "keptPath a p" "length nonce = 12"
  shows "recovers a (ps @ [p])
    (ds\<lparr>dsEntries := AList.update (HashPath p a) (sealedPath (dsKey ds) nonce p) (dsEntries ds)\<rparr>)"
proof -
  have "originalOf a ps (HashPath p a) = None"
    using recovers_entry [OF assms(1), of "HashPath p a"] assms(2) by auto
  then have "originalOf a (ps @ [p]) = (originalOf a ps)(HashPath p a \<mapsto> p)"
    using assms(3) by (auto simp: fun_eq_iff originalOf_snoc split: option.splits)
  then show ?thesis
    using assms(1,4) recovers_entry [OF assms(1)] by (auto simp: recovers_def update_conv' distinct_update)
qed

lemma recovers_file [simp]: "recovers a ps (ds\<lparr>dsFile := f\<rparr>) = recovers a ps ds"
  by (simp add: recovers_def)

lemma saveStore_keeps:
  "dsKey (snd (saveStore f ds)) = dsKey ds" "dsEntries (snd (saveStore f ds)) = dsEntries ds"
  "recovers a ps (snd (saveStore f ds)) = recovers a ps ds"
  by (simp_all add: saveStore_def)

lemma storeOriginal_recovers:
  assumes "recovers a ps ds" "aesKeyOk (dsKey ds)" "keptPath a p" "length nonce = 12"
  shows "recovers a (ps @ [p]) (snd (storeOriginal nonce f (HashPath p a) p ds))"
  using assms recovers_known recovers_new
  by (simp add: storeOriginal_def saveStore_keeps sealedPath_def [symmetric])

text \<open>The file after a run without failed writes: the entries, or nothing while there are none.\<close>

definition fileCurrent :: "deanon_store \<Rightarrow> bool" where
  "fileCurrent ds = (dsFile ds = Some (dsEntries ds) \<or> dsFile ds = None \<and> dsEntries ds = [])"

lemma storeOriginal_file: "fileCurrent ds \<Longrightarrow> fileCurrent (snd (storeOriginal nonce False h p ds))"
  by (simp add: storeOriginal_def saveStore_def fileCurrent_def Let_def)

lemma storeOriginal_key [simp]:
  "dsKey (snd (storeOriginal nonce f h p ds)) = dsKey ds" "dsPath (snd (storeOriginal nonce f h p ds)) = dsPath ds"
  by (simp_all add: storeOriginal_def saveStore_def Let_def)

lemma AnonymizeEvent_store:
  assumes "anDeanon a = Some ds" "AnonymizeEvent nonce f e a = (x, a')"
  shows "a' = a\<lparr>anDeanon := Some (if keptPath a (evPathname e)
            then snd (storeOriginal nonce f (HashPath (evPathname e) a) (evPathname e) ds) else ds)\<rparr>"
  using assms by (auto simp: AnonymizeEvent_def keptPath_def Let_def split: if_splits)

lemma anonRun_recovers:
  assumes "anonRun run a = (xs, a')" "anDeanon a = Some ds" "recovers a ps ds" "aesKeyOk (dsKey ds)"
    "\<forall>(nonce, f, e) \<in> set run. length nonce = 12"
  shows "\<exists>ds'. a' = a\<lparr>anDeanon := Some ds'\<rparr> \<and> dsKey ds' = dsKey ds \<and> dsPath ds' = dsPath ds
    \<and> recovers a (ps @ map (\<lambda>(n, f, e). evPathname e) run) ds'
    \<and> (fileCurrent ds \<and> (\<forall>(nonce, f, e) \<in> set run. \<not> f) \<longrightarrow> fileCurrent ds')"
  using assms
proof (induction run arbitrary: a ds ps xs)
  case Nil
  then show ?case by (auto intro!: exI [of _ ds])
next
  case (Cons r run)
  obtain nonce f e where r: "r = (nonce, f, e)" by (cases r)
  obtain x a1 where e1: "AnonymizeEvent nonce f e a = (x, a1)" by force
  obtain ys a2 where e2: "anonRun run a1 = (ys, a2)" by force
  define d where "d = (if keptPath a (evPathname e)
    then snd (storeOriginal nonce f (HashPath (evPathname e) a) (evPathname e) ds) else ds)"
  have a1: "a1 = a\<lparr>anDeanon := Some d\<rparr>" using AnonymizeEvent_store [OF Cons.prems(2) e1] by (simp add: d_def)
  have d: "dsKey d = dsKey ds" "dsPath d = dsPath ds" "recovers a (ps @ [evPathname e]) d"
    using Cons.prems storeOriginal_recovers [of a ps ds "evPathname e" nonce f] recovers_skip
    by (auto simp: d_def r)
  have fc: "fileCurrent ds \<and> \<not> f \<Longrightarrow> fileCurrent d" by (simp add: d_def storeOriginal_file)
  have "a' = a2" using Cons.prems(1) by (simp add: r e1 e2)
  then show ?case
    using Cons.IH [OF e2 [unfolded a1 \<open>a' = a2\<close> [symmetric]], of d "ps @ [evPathname e]"] Cons.prems d fc
    by (auto simp: r)
qed

lemma map_of_fold_update:
  "map_of (fold (\<lambda>(h, c). AList.update h c) es acc) = map_of acc ++ map_of (rev es)"
  by (induction es arbitrary: acc) (auto simp: update_conv' map_add_assoc [symmetric] fun_eq_iff map_add_def split: option.splits)

lemma fold_update_distinct:
  "distinct (map fst acc) \<Longrightarrow> distinct (map fst (fold (\<lambda>(h, c). AList.update h c) es acc))"
  by (induction es arbitrary: acc) (auto simp: distinct_update)

lemma map_of_rev_distinct:
  assumes "distinct (map fst es)" shows "map_of (rev es) = map_of es"
proof
  fix h show "map_of (rev es) h = map_of es h"
    using assms by (intro map_of_eqI [THEN fun_cong]) (auto simp: rev_map [symmetric])
qed

lemma NewDeAnonStore_current:
  assumes "fileCurrent ds" "recovers a ps ds"
  shows "recovers a ps (NewDeAnonStore (dsPath ds) (dsKey ds) (dsFile ds))"
  using assms fold_update_distinct [of "[]"]
  by (auto simp: NewDeAnonStore_def recovers_def fileCurrent_def map_of_fold_update map_of_rev_distinct)

text \<open>No clear path leaves the anonymizer, and every other field is as it was.\<close>

definition pseudonymous :: "anonymizer \<Rightarrow> event \<Rightarrow> anonymized_event \<Rightarrow> bool" where
  "pseudonymous a e x = (x = \<lparr>axTimestampNS = evTimestampNS e, axPID = evPID e, axPPID = evPPID e, axUID = evUID e,
     axComm = HashComm (evComm e) a, axPathname = (if evPathname e \<in> {[], ''?''} then evPathname e else HashPath (evPathname e) a),
     axType = evType e, axFlags = 0, axInode = evInode e, axDevMajor = evDevMajor e, axDevMinor = evDevMinor e,
     axMode = evMode e, axFFlags = evFFlags e, axChildPID = evChildPID e\<rparr>
     \<and> (axPathname x \<in> {[], ''?''} \<or> IsAnonymizedPath (axPathname x)))"

lemma AnonymizeEvent_pseudonymous: "pseudonymous a e (fst (AnonymizeEvent nonce f e a))"
  by (auto simp: pseudonymous_def AnonymizeEvent_def Let_def HashPath_pseudonym)

lemma AnonymizeEvent_keys: "\<exists>d. snd (AnonymizeEvent nonce f e a) = a\<lparr>anDeanon := d\<rparr>"
proof (cases "anDeanon a")
  case None
  then have "snd (AnonymizeEvent nonce f e a) = a\<lparr>anDeanon := None\<rparr>" by (simp add: AnonymizeEvent_def Let_def)
  then show ?thesis by blast
next
  case (Some ds)
  then show ?thesis using AnonymizeEvent_store [OF Some] by (metis prod.collapse)
qed

lemma pseudonymous_deanon [simp]: "pseudonymous (a\<lparr>anDeanon := d\<rparr>) = pseudonymous a"
  by (simp add: fun_eq_iff pseudonymous_def HashComm_def HashString_def)

lemma anonRun_pseudonymous: "list_all2 (\<lambda>(nonce, f, e). pseudonymous a e) run (fst (anonRun run a))"
proof (induction run arbitrary: a)
  case (Cons r run)
  obtain nonce f e where r: "r = (nonce, f, e)" by (cases r)
  obtain x a1 where e1: "AnonymizeEvent nonce f e a = (x, a1)" by force
  obtain d where "a1 = a\<lparr>anDeanon := d\<rparr>" using AnonymizeEvent_keys [of nonce f e a] e1 by auto
  then show ?case
    using Cons [of a1] AnonymizeEvent_pseudonymous [of a e nonce f] by (simp add: r e1 split_beta)
qed simp

section \<open>Recovery\<close>

lemma NewAnonymizer_store:
  assumes "NewAnonymizer r1 r2 file (Some cfg) = Inr a" "acDeAnonPath cfg \<noteq> []"
  shows "anDeanon a = Some (NewDeAnonStore (acDeAnonPath cfg) (anEncKey a) file)"
  using assms by (auto simp: NewAnonymizer_def Let_def split: option.splits if_splits)

lemma NewDeAnonStore_empty:
  "recovers a [] (NewDeAnonStore path key None)" "fileCurrent (NewDeAnonStore path key None)"
  "dsKey (NewDeAnonStore path key file) = key" "dsPath (NewDeAnonStore path key file) = path"
  by (simp_all add: NewDeAnonStore_def recovers_def originalOf_def fileCurrent_def)


definition exampleConfig :: anon_config where
  "exampleConfig = \<lparr>acHMACKeyHex = ''00ff'', acEncKeyHex = ''000102030405060708090a0b0c0d0e0f'', acDeAnonPath = ''/var/lib/deanon''\<rparr>"

definition exampleAnonymizer :: anonymizer where
  "exampleAnonymizer = \<lparr>anHmacKey = [0, 255], anEncKey = [0, 1, 2, 3, 4, 5, 6, 7, 8, 9, 10, 11, 12, 13, 14, 15],
     anDeanon = Some \<lparr>dsPath = ''/var/lib/deanon'', dsKey = [0, 1, 2, 3, 4, 5, 6, 7, 8, 9, 10, 11, 12, 13, 14, 15],
       dsEntries = [], dsFile = None\<rparr>\<rparr>"

lemma exampleAnonymizer_new: "NewAnonymizer [] [] None (Some exampleConfig) = Inr exampleAnonymizer"
  by code_simp

lemma keptPath_length: "length p \<noteq> 16 \<Longrightarrow> p \<noteq> [] \<Longrightarrow> p \<noteq> ''?'' \<Longrightarrow> keptPath a p"
  using HashPath_pseudonym [of p a] by (auto simp: keptPath_def IsAnonymizedPath_def)


text \<open>With an encryption key of another length, which \<^verbatim>\<open>New\<close> accepts, no original is ever kept, and no error is reported.\<close>

lemma bad_key_keeps_nothing:
  assumes "NewAnonymizer r1 r2 None (Some cfg) = Inr a" "acDeAnonPath cfg \<noteq> []" "\<not> aesKeyOk (anEncKey a)"
  shows "snd (anonRun run a) = a \<and> map_option (lookupOriginal h) (anDeanon a) = Some (Inl NotFound)"
proof -
  let ?d = "NewDeAnonStore (acDeAnonPath cfg) (anEncKey a) None"
  have d: "anDeanon a = Some ?d" using assms NewAnonymizer_store by blast
  have s: "snd (storeOriginal nonce f h p ?d) = ?d" for nonce f h p
    using assms(3) by (simp add: storeOriginal_def NewDeAnonStore_empty)
  have step: "snd (AnonymizeEvent nonce f e a) = a" for nonce f e
    using AnonymizeEvent_store [OF d prod.collapse [symmetric], of nonce f e] d s by (simp split: if_splits)
  have "snd (anonRun run a) = a"
    by (induction run) (auto simp: split_beta step)
  then show ?thesis by (simp add: d lookupOriginal_def NewDeAnonStore_def)
qed

end
