(* ===== verification/DiskStore.thy ===== *)
theory DiskStore
  imports Aes ProvIds GoTime "HOL-Library.Char_ord" "HOL-Library.List_Lexorder"
begin

text \<open>
  The store of nodes and edges (\<^verbatim>\<open>storage/store/store.go\<close>) and the encryption it uses (\<^verbatim>\<open>pkg/secure/crypto.go\<close>). The
  embedded database, a third-party package, and the JSON codec are arguments: a record of the calls the store makes, which
  may fail. Random bytes and file contents are arguments too.
\<close>

section \<open>Encryption\<close>

datatype crypto_error = AesKeySize | NonceRead | CipherShort | OpenFailed | KeyDir | KeyRandom | KeyWrite

definition Encrypt :: "bytes option \<Rightarrow> bytes \<Rightarrow> bytes \<Rightarrow> crypto_error + bytes" where
  "Encrypt rand key plaintext =
     (if \<not> aesKeyOk key then Inl AesKeySize
      else case rand of None \<Rightarrow> Inl NonceRead | Some nonce \<Rightarrow> Inr (nonce @ gcmSeal key nonce plaintext))"

definition Decrypt :: "bytes \<Rightarrow> bytes \<Rightarrow> crypto_error + bytes" where
  "Decrypt key ciphertext =
     (if \<not> aesKeyOk key then Inl AesKeySize
      else if length ciphertext < 12 then Inl CipherShort
      else case gcmOpen key (take 12 ciphertext) (drop 12 ciphertext) of None \<Rightarrow> Inl OpenFailed | Some p \<Rightarrow> Inr p)"

text \<open>The inner loop of \<^verbatim>\<open>pbkdf2HMACSHA256\<close> carries \<^verbatim>\<open>u\<close> and \<^verbatim>\<open>blockKey\<close>.\<close>

fun pbkdfLoop :: "bytes \<Rightarrow> nat \<Rightarrow> bytes \<Rightarrow> bytes \<Rightarrow> bytes" where
  "pbkdfLoop password 0 u blockKey = blockKey"
| "pbkdfLoop password (Suc n) u blockKey =
     (let u = hmacSha256 password u in pbkdfLoop password n u (xorBytes blockKey u))"

definition pbkdf2HMACSHA256 :: "bytes \<Rightarrow> bytes \<Rightarrow> nat \<Rightarrow> nat \<Rightarrow> bytes" where
  "pbkdf2HMACSHA256 password salt iter keyLen =
     take keyLen (concat (map (\<lambda>block.
       let u = hmacSha256 password (salt @ bytesBE 4 (word_of_nat block :: u32)) in pbkdfLoop password (iter - 1) u u)
       [1..<(keyLen + 31) div 32 + 1]))"

definition DeriveKey :: "string \<Rightarrow> bytes option \<Rightarrow> bytes" where
  "DeriveKey passphrase salt =
     pbkdf2HMACSHA256 (bytesOf passphrase)
       (case salt of None \<Rightarrow> take 16 (sha256 (bytesOf passphrase)) | Some s \<Rightarrow> s) 600000 32"

definition DeprecatedDeriveKey :: "string \<Rightarrow> bytes" where
  "DeprecatedDeriveKey passphrase = sha256 (bytesOf passphrase)"

text \<open>The result is the key and, when a new one is written, the new contents of the file.\<close>

definition LoadOrGenerateKey ::
  "bool \<Rightarrow> bytes option \<Rightarrow> bytes option \<Rightarrow> bool \<Rightarrow> crypto_error + bytes \<times> bytes option" where
  "LoadOrGenerateKey mkdirFails file rand writeFails =
     (if mkdirFails then Inl KeyDir
      else case file of
        Some data \<Rightarrow> if length data = 32 then Inr (data, file)
          else (case rand of None \<Rightarrow> Inl KeyRandom | Some key \<Rightarrow> if writeFails then Inl KeyWrite else Inr (key, Some key))
      | None \<Rightarrow> (case rand of None \<Rightarrow> Inl KeyRandom | Some key \<Rightarrow> if writeFails then Inl KeyWrite else Inr (key, Some key)))"

section \<open>Store\<close>

text \<open>
  The calls on the database: writes to the current indexed batch, reads through it, the commit that is followed by a new batch when it
  succeeds, the values of an iterator over the committed keys between two bounds, and closing. The last four fields encode and decode.
\<close>

record 'p pebble =
  pbSet :: "string \<Rightarrow> bytes \<Rightarrow> 'p \<Rightarrow> bool \<times> 'p"
  pbDelete :: "string \<Rightarrow> 'p \<Rightarrow> bool \<times> 'p"
  pbGet :: "string \<Rightarrow> 'p \<Rightarrow> unit + bytes option"
  pbCount :: "'p \<Rightarrow> nat"
  pbCommit :: "'p \<Rightarrow> bool \<times> 'p"
  pbScan :: "string \<Rightarrow> string \<Rightarrow> 'p \<Rightarrow> unit + bytes list"
  pbClose :: "'p \<Rightarrow> bool \<times> 'p"
  jMarshalNode :: "node \<Rightarrow> bytes option"
  jUnmarshalNode :: "bytes \<Rightarrow> node option"
  jMarshalEdge :: "edge \<Rightarrow> bytes option"
  jUnmarshalEdge :: "bytes \<Rightarrow> edge option"

datatype store_error = OpenFailedS | StoreClosed | MarshalFailed | CryptoFailed crypto_error | BatchFailed | CommitFailed | GetFailed
  | UnmarshalFailed | IterFailed | CloseFailed

record 'p disk_store =
  sdDb :: 'p
  sdWbCap :: nat
  sdClosed :: bool
  sdEncKey :: "bytes option"

definition OpenStore :: "'p option \<Rightarrow> bytes option \<Rightarrow> store_error + 'p disk_store" where
  "OpenStore opened encryptKey = (case opened of
      None \<Rightarrow> Inl OpenFailedS
    | Some db \<Rightarrow> Inr \<lparr>sdDb = db, sdWbCap = 200, sdClosed = False, sdEncKey = encryptKey\<rparr>)"

definition nodeKey :: "string \<Rightarrow> string" where
  "nodeKey i = ''n:'' @ i"

definition storeEdgeKey :: "u64 \<Rightarrow> string \<Rightarrow> string \<Rightarrow> string" where
  "storeEdgeKey ts source target = ''e:'' @ padded 20 (uint ts) @ '':'' @ source @ '':'' @ target"

definition reverseEdgeKey :: "u64 \<Rightarrow> string \<Rightarrow> string \<Rightarrow> string" where
  "reverseEdgeKey ts target source = ''r:'' @ target @ '':'' @ padded 20 (uint ts) @ '':'' @ source"

definition encryptData :: "bytes option \<Rightarrow> bytes \<Rightarrow> 'p disk_store \<Rightarrow> crypto_error + bytes" where
  "encryptData rand data s = (case sdEncKey s of None \<Rightarrow> Inr data | Some key \<Rightarrow> Encrypt rand key data)"

definition decryptData :: "bytes \<Rightarrow> 'p disk_store \<Rightarrow> crypto_error + bytes" where
  "decryptData data s = (case sdEncKey s of None \<Rightarrow> Inr data | Some key \<Rightarrow> Decrypt key data)"

definition storeFlushLocked :: "'p pebble \<Rightarrow> 'p disk_store \<Rightarrow> store_error option \<times> 'p disk_store" where
  "storeFlushLocked b s =
     (if pbCount b (sdDb s) = 0 then (None, s)
      else case pbCommit b (sdDb s) of (ok, db) \<Rightarrow> (if ok then None else Some CommitFailed, s\<lparr>sdDb := db\<rparr>))"

definition autoFlush :: "'p pebble \<Rightarrow> 'p disk_store \<Rightarrow> store_error option \<times> 'p disk_store" where
  "autoFlush b s = (if pbCount b (sdDb s) \<ge> sdWbCap s then storeFlushLocked b s else (None, s))"

definition PutNode :: "'p pebble \<Rightarrow> bytes option \<Rightarrow> node \<Rightarrow> 'p disk_store \<Rightarrow> store_error option \<times> 'p disk_store" where
  "PutNode b rand n s =
     (if sdClosed s then (Some StoreClosed, s)
      else case jMarshalNode b n of
        None \<Rightarrow> (Some MarshalFailed, s)
      | Some data \<Rightarrow> (case encryptData rand data s of
          Inl e \<Rightarrow> (Some (CryptoFailed e), s)
        | Inr enc \<Rightarrow> (case pbSet b (nodeKey (nID n)) enc (sdDb s) of (ok, db) \<Rightarrow>
            if \<not> ok then (Some BatchFailed, s\<lparr>sdDb := db\<rparr>) else autoFlush b (s\<lparr>sdDb := db\<rparr>))))"

definition GetNode :: "'p pebble \<Rightarrow> string \<Rightarrow> 'p disk_store \<Rightarrow> store_error + node option" where
  "GetNode b i s = (case pbGet b (nodeKey i) (sdDb s) of
      Inl _ \<Rightarrow> Inl GetFailed
    | Inr None \<Rightarrow> Inr None
    | Inr (Some v) \<Rightarrow> (case decryptData v s of
          Inl e \<Rightarrow> Inl (CryptoFailed e)
        | Inr dec \<Rightarrow> (case jUnmarshalNode b dec of None \<Rightarrow> Inl UnmarshalFailed | Some n \<Rightarrow> Inr (Some n))))"

definition DeleteNode :: "'p pebble \<Rightarrow> string \<Rightarrow> 'p disk_store \<Rightarrow> store_error option \<times> 'p disk_store" where
  "DeleteNode b i s = (case pbDelete b (nodeKey i) (sdDb s) of (ok, db) \<Rightarrow>
     if \<not> ok then (Some BatchFailed, s\<lparr>sdDb := db\<rparr>) else autoFlush b (s\<lparr>sdDb := db\<rparr>))"

text \<open>\<^verbatim>\<open>uint64(e.Timestamp.UnixNano())\<close>.\<close>

definition edgeTs :: "edge \<Rightarrow> u64" where
  "edgeTs e = word_of_int (eTimestamp e)"

definition PutEdge :: "'p pebble \<Rightarrow> bytes option \<Rightarrow> edge \<Rightarrow> 'p disk_store \<Rightarrow> store_error option \<times> 'p disk_store" where
  "PutEdge b rand e s =
     (if sdClosed s then (Some StoreClosed, s)
      else case jMarshalEdge b e of
        None \<Rightarrow> (Some MarshalFailed, s)
      | Some data \<Rightarrow> (case encryptData rand data s of
          Inl err \<Rightarrow> (Some (CryptoFailed err), s)
        | Inr enc \<Rightarrow> (case pbSet b (storeEdgeKey (edgeTs e) (eSource e) (eTarget e)) enc (sdDb s) of (ok, db) \<Rightarrow>
            if \<not> ok then (Some BatchFailed, s\<lparr>sdDb := db\<rparr>)
            else (case pbSet b (reverseEdgeKey (edgeTs e) (eTarget e) (eSource e)) enc db of (ok, db) \<Rightarrow>
              if \<not> ok then (Some BatchFailed, s\<lparr>sdDb := db\<rparr>) else autoFlush b (s\<lparr>sdDb := db\<rparr>)))))"

text \<open>The loop over the iterator stops at the first value that does not decode.\<close>

fun decodeEdges :: "'p pebble \<Rightarrow> 'p disk_store \<Rightarrow> bytes list \<Rightarrow> store_error + edge list" where
  "decodeEdges b s [] = Inr []"
| "decodeEdges b s (v # vs) = (case decryptData v s of
      Inl e \<Rightarrow> Inl (CryptoFailed e)
    | Inr dec \<Rightarrow> (case jUnmarshalEdge b dec of
          None \<Rightarrow> Inl UnmarshalFailed
        | Some e \<Rightarrow> map_sum id (Cons e) (decodeEdges b s vs)))"

definition scanEdges :: "'p pebble \<Rightarrow> string \<Rightarrow> string \<Rightarrow> 'p disk_store \<Rightarrow> (store_error + edge list) \<times> 'p disk_store" where
  "scanEdges b lo hi s = (case storeFlushLocked b s of
      (Some err, s) \<Rightarrow> (Inl err, s)
    | (None, s) \<Rightarrow> (case pbScan b lo hi (sdDb s) of Inl _ \<Rightarrow> (Inl IterFailed, s) | Inr vs \<Rightarrow> (decodeEdges b s vs, s)))"

definition GetEdgesByTimeRange :: "'p pebble \<Rightarrow> u64 \<Rightarrow> u64 \<Rightarrow> 'p disk_store \<Rightarrow> (store_error + edge list) \<times> 'p disk_store" where
  "GetEdgesByTimeRange b start end s = scanEdges b (storeEdgeKey start [] []) (storeEdgeKey end [] []) s"

definition GetEdgesByTarget :: "'p pebble \<Rightarrow> string \<Rightarrow> 'p disk_store \<Rightarrow> (store_error + edge list) \<times> 'p disk_store" where
  "GetEdgesByTarget b targetID s = scanEdges b (''r:'' @ targetID @ '':'') (''r:'' @ targetID @ [char_of (255 :: nat)]) s"

definition EdgeCount :: "'p pebble \<Rightarrow> 'p disk_store \<Rightarrow> (store_error + nat) \<times> 'p disk_store" where
  "EdgeCount b s = (case storeFlushLocked b s of
      (Some err, s) \<Rightarrow> (Inl err, s)
    | (None, s) \<Rightarrow> (case pbScan b ''e:'' (''e'' @ [char_of (255 :: nat)]) (sdDb s) of
          Inl _ \<Rightarrow> (Inl IterFailed, s) | Inr vs \<Rightarrow> (Inr (length vs), s)))"

definition FlushStore :: "'p pebble \<Rightarrow> 'p disk_store \<Rightarrow> store_error option \<times> 'p disk_store" where
  "FlushStore b s = storeFlushLocked b s"

definition CloseStore :: "'p pebble \<Rightarrow> 'p disk_store \<Rightarrow> store_error option \<times> 'p disk_store" where
  "CloseStore b s = (case storeFlushLocked b (s\<lparr>sdClosed := True\<rparr>) of
      (Some err, s) \<Rightarrow> (Some err, s)
    | (None, s) \<Rightarrow> (case pbClose b (sdDb s) of (ok, db) \<Rightarrow> (if ok then None else Some CloseFailed, s\<lparr>sdDb := db\<rparr>)))"

section \<open>Order of the keys\<close>

text \<open>Twenty digits hold every unsigned 64-bit number, so the order of the padded texts is that of the numbers.\<close>

fun decDigits :: "nat \<Rightarrow> nat \<Rightarrow> string" where
  "decDigits 0 n = []"
| "decDigits (Suc w) n = decDigits w (n div 10) @ [digitChar (n mod 10)]"

lemma decDigits_zero: "decDigits w 0 = replicate w CHR ''0''"
proof (induction w)
  case (Suc w)
  have "digitChar 0 = CHR ''0''" by code_simp
  with Suc show ?case by (simp add: replicate_append_same)
qed simp

lemma padded_decDigits:
  "0 < w \<Longrightarrow> n < 10 ^ w \<Longrightarrow> replicate (w - length (showNat n)) CHR ''0'' @ showNat n = decDigits w n"
proof (induction w arbitrary: n)
  case (Suc w)
  show ?case
  proof (cases "n < 10")
    case True
    then show ?thesis by (simp add: showBase.simps [of 10 n] decDigits_zero)
  next
    case False
    then have "0 < w" using Suc.prems by (cases w) auto
    with Suc.IH [of "n div 10"] Suc.prems False show ?thesis by (simp add: showBase.simps [of 10 n])
  qed
qed simp

lemma length_decDigits [simp]: "length (decDigits w n) = w"
  by (induction w arbitrary: n) auto

lemma append_less_iff:
  fixes xs :: "'a::linorder list"
  shows "length xs = length ys \<Longrightarrow> xs @ us < ys @ vs \<longleftrightarrow> xs < ys \<or> xs = ys \<and> us < vs"
  by (induction xs ys rule: list_induct2) auto

lemma digitChar_less: "c < 10 \<Longrightarrow> d < 10 \<Longrightarrow> digitChar c < digitChar d \<longleftrightarrow> c < d"
  by (simp add: less_char_def of_digitChar)

lemma less_div_mod: "(m::nat) < n \<longleftrightarrow> m div 10 < n div 10 \<or> m div 10 = n div 10 \<and> m mod 10 < n mod 10"
proof -
  have "10 * q + r < 10 * q' + r' \<longleftrightarrow> q < q' \<or> q = q' \<and> r < r'" if "r < 10" "r' < 10" for q q' r r' :: nat
    using that by auto
  from this [of "m mod 10" "n mod 10" "m div 10" "n div 10"] show ?thesis by simp
qed

lemma decDigits_less: "m < 10 ^ w \<Longrightarrow> n < 10 ^ w \<Longrightarrow> decDigits w m < decDigits w n \<longleftrightarrow> m < n"
proof (induction w arbitrary: m n)
  case (Suc w)
  have b: "m div 10 < 10 ^ w" "n div 10 < 10 ^ w" using Suc.prems by (simp_all add: less_mult_imp_div_less)
  then have eq: "decDigits w (m div 10) = decDigits w (n div 10) \<longleftrightarrow> m div 10 = n div 10"
    using Suc.IH [OF b] Suc.IH [OF b(2,1)] by (metis less_irrefl linorder_less_linear)
  show ?case using Suc.IH [OF b] eq less_div_mod [of m n] by (simp add: append_less_iff digitChar_less)
qed simp

lemma padded_u64: "padded 20 (uint (ts :: u64)) = decDigits 20 (unat ts)"
proof -
  have "unat ts < 2 ^ 64" using unsigned_less [where 'a = nat, of ts] by simp
  then have "unat ts < 10 ^ 20" by simp
  then show ?thesis using padded_decDigits [of 20 "unat ts"] by (simp add: padded_def Let_def)
qed

lemma padded_less: "padded 20 (uint (s :: u64)) @ us < padded 20 (uint (t :: u64)) @ vs \<longleftrightarrow> s < t \<or> s = t \<and> us < vs"
proof -
  have "unat x < 10 ^ 20" for x :: u64 using unsigned_less [where 'a = nat, of x] by simp
  then have l: "decDigits 20 (unat x) < decDigits 20 (unat y) \<longleftrightarrow> x < y" for x y :: u64
    using decDigits_less by (simp add: word_less_nat_alt)
  then have "decDigits 20 (unat x) = decDigits 20 (unat y) \<longleftrightarrow> x = y" for x y :: u64
    by (metis less_irrefl linorder_less_linear)
  with l show ?thesis by (simp add: padded_u64 append_less_iff)
qed

text \<open>Identifiers of nodes begin with a letter, so their edges lie between the bounds of a range exactly when their times do.\<close>

definition plainID :: "string \<Rightarrow> bool" where
  "plainID i = (i \<noteq> [] \<and> CHR '':'' < hd i)"

lemma storeEdgeKey_bound:
  "plainID source \<Longrightarrow> storeEdgeKey ts source target < storeEdgeKey bound [] [] \<longleftrightarrow> ts < bound"
  by (cases source) (auto simp: plainID_def storeEdgeKey_def padded_less)

lemma storeEdgeKey_range:
  assumes "plainID source"
  shows "storeEdgeKey start [] [] \<le> storeEdgeKey ts source target \<and> storeEdgeKey ts source target < storeEdgeKey stop [] []
    \<longleftrightarrow> start \<le> ts \<and> ts < stop"
  using storeEdgeKey_bound [OF assms] by (simp add: not_less [symmetric])

section \<open>What the store returns\<close>

text \<open>
  A database that works: \<^verbatim>\<open>view\<close> is what a read through the batch sees, \<^verbatim>\<open>base\<close> what has been committed and what iterators
  see, in the order of the keys.
\<close>

definition workingPebble :: "'p pebble \<Rightarrow> ('p \<Rightarrow> string \<Rightarrow> bytes option) \<Rightarrow> ('p \<Rightarrow> string \<Rightarrow> bytes option) \<Rightarrow> bool" where
  "workingPebble b view base \<longleftrightarrow>
     (\<forall>p k v. \<exists>p'. pbSet b k v p = (True, p') \<and> view p' = (view p)(k \<mapsto> v)) \<and>
     (\<forall>p k. \<exists>p'. pbDelete b k p = (True, p') \<and> view p' = (view p)(k := None)) \<and>
     (\<forall>p k. pbGet b k p = Inr (view p k)) \<and>
     (\<forall>p. pbCount b p = 0 \<longrightarrow> base p = view p) \<and>
     (\<forall>p. \<exists>p'. pbCommit b p = (True, p') \<and> view p' = view p \<and> base p' = view p) \<and>
     (\<forall>p lo hi. finite (dom (base p)) \<longrightarrow>
        pbScan b lo hi p = Inr (map (\<lambda>k. the (base p k)) (sorted_list_of_set {k \<in> dom (base p). lo \<le> k \<and> k < hi})))"

datatype store_op = SPutNode "bytes option" node | SDeleteNode string | SPutEdge "bytes option" edge | SFlush

fun storeStep :: "'p pebble \<Rightarrow> store_op \<Rightarrow> 'p disk_store \<Rightarrow> store_error option \<times> 'p disk_store" where
  "storeStep b (SPutNode rand n) s = PutNode b rand n s"
| "storeStep b (SDeleteNode i) s = DeleteNode b i s"
| "storeStep b (SPutEdge rand e) s = PutEdge b rand e s"
| "storeStep b SFlush s = FlushStore b s"

fun storeRun :: "'p pebble \<Rightarrow> store_op list \<Rightarrow> 'p disk_store \<Rightarrow> store_error option list \<times> 'p disk_store" where
  "storeRun b [] s = ([], s)"
| "storeRun b (op # ops) s = (case storeStep b op s of (r, s1) \<Rightarrow> case storeRun b ops s1 of (rs, s2) \<Rightarrow> (r # rs, s2))"

text \<open>What a run leaves: the last node put under an identifier and not deleted since, the last edge put under a key.\<close>

fun nodeAfter :: "store_op \<Rightarrow> (string \<Rightarrow> node option) \<Rightarrow> string \<Rightarrow> node option" where
  "nodeAfter (SPutNode rand n) m = m(nID n \<mapsto> n)"
| "nodeAfter (SDeleteNode i) m = m(i := None)"
| "nodeAfter _ m = m"

fun edgeAfter :: "(edge \<Rightarrow> string) \<Rightarrow> store_op \<Rightarrow> (string \<Rightarrow> edge option) \<Rightarrow> string \<Rightarrow> edge option" where
  "edgeAfter f (SPutEdge rand e) m = m(f e \<mapsto> e)"
| "edgeAfter f _ m = m"

definition keyOf :: "edge \<Rightarrow> string" where
  "keyOf e = storeEdgeKey (edgeTs e) (eSource e) (eTarget e)"

definition reverseOf :: "edge \<Rightarrow> string" where
  "reverseOf e = reverseEdgeKey (edgeTs e) (eTarget e) (eSource e)"

text \<open>Operations whose JSON decodes to what was encoded, with a nonce where one is needed.\<close>

definition randOk :: "bytes option \<Rightarrow> bytes option \<Rightarrow> bool" where
  "randOk key rand = (case key of None \<Rightarrow> True
     | Some k \<Rightarrow> aesKeyOk k \<and> (case rand of None \<Rightarrow> False | Some nonce \<Rightarrow> length nonce = 12))"

fun opOk :: "'p pebble \<Rightarrow> bytes option \<Rightarrow> store_op \<Rightarrow> bool" where
  "opOk b key (SPutNode rand n) =
     (randOk key rand \<and> (case jMarshalNode b n of None \<Rightarrow> False | Some d \<Rightarrow> jUnmarshalNode b d = Some n))"
| "opOk b key (SPutEdge rand e) =
     (randOk key rand \<and> (case jMarshalEdge b e of None \<Rightarrow> False | Some d \<Rightarrow> jUnmarshalEdge b d = Some e))"
| "opOk b key _ = True"

definition readsAs :: "(bytes \<Rightarrow> 'x option) \<Rightarrow> bytes option \<Rightarrow> 'x \<Rightarrow> bytes \<Rightarrow> bool" where
  "readsAs dec key x c \<longleftrightarrow>
     (\<exists>d. (case key of None \<Rightarrow> Inr c | Some k \<Rightarrow> Decrypt k c) = Inr d \<and> dec d = Some x)"

lemma readsAs_encrypt:
  assumes "randOk (sdEncKey s) rand" "dec d = Some x"
  shows "\<exists>c. encryptData rand d s = Inr c \<and> readsAs dec (sdEncKey s) x c"
proof (cases "sdEncKey s")
  case None
  then show ?thesis using assms by (simp add: encryptData_def readsAs_def)
next
  case (Some k)
  then obtain nonce where "rand = Some nonce" "length nonce = 12" "aesKeyOk k"
    using assms(1) by (auto simp: randOk_def split: option.splits)
  then show ?thesis using assms(2) Some by (simp add: encryptData_def readsAs_def Encrypt_def Decrypt_def gcmOpen_gcmSeal)
qed

definition storeHolds ::
  "'p pebble \<Rightarrow> (string \<Rightarrow> bytes option) \<Rightarrow> bytes option \<Rightarrow> (string \<Rightarrow> node option) \<Rightarrow> (string \<Rightarrow> edge option) \<Rightarrow> (string \<Rightarrow> edge option) \<Rightarrow> bool" where
  "storeHolds b v key ns es rs \<longleftrightarrow> finite (dom v)
     \<and> (\<forall>i. rel_option (readsAs (jUnmarshalNode b) key) (ns i) (v (nodeKey i)))
     \<and> (\<forall>k. rel_option (readsAs (jUnmarshalEdge b) key) (es (''e:'' @ k)) (v (''e:'' @ k)))
     \<and> (\<forall>k. rel_option (readsAs (jUnmarshalEdge b) key) (rs (''r:'' @ k)) (v (''r:'' @ k)))"

lemma key_shapes [simp]:
  "nodeKey i = nodeKey j \<longleftrightarrow> i = j" "nodeKey i \<noteq> keyOf e" "nodeKey i \<noteq> reverseOf e" "keyOf e \<noteq> reverseOf f"
  "CHR ''e'' # k \<noteq> nodeKey i" "CHR ''r'' # k \<noteq> nodeKey i" "CHR ''r'' # k \<noteq> keyOf e" "CHR ''e'' # k \<noteq> reverseOf e"
  by (auto simp: nodeKey_def keyOf_def storeEdgeKey_def reverseOf_def reverseEdgeKey_def)

lemma storeHolds_node:
  assumes "storeHolds b v key ns es rs" "readsAs (jUnmarshalNode b) key n c"
  shows "storeHolds b (v(nodeKey (nID n) \<mapsto> c)) key (ns(nID n \<mapsto> n)) es rs"
  using assms by (simp add: storeHolds_def)

lemma storeHolds_delete:
  assumes "storeHolds b v key ns es rs" shows "storeHolds b (v(nodeKey i := None)) key (ns(i := None)) es rs"
  using assms by (simp add: storeHolds_def)

lemma storeHolds_edge:
  assumes "storeHolds b v key ns es rs" "readsAs (jUnmarshalEdge b) key e c"
  shows "storeHolds b (v(keyOf e \<mapsto> c, reverseOf e \<mapsto> c)) key ns (es(keyOf e \<mapsto> e)) (rs(reverseOf e \<mapsto> e))"
  using assms by (simp add: storeHolds_def)

text \<open>Every operation returns without error and keeps the relation.\<close>

lemma autoFlush_working:
  assumes "workingPebble b view base"
  shows "\<exists>db. autoFlush b s = (None, s\<lparr>sdDb := db\<rparr>) \<and> view db = view (sdDb s)"
    "\<exists>db. storeFlushLocked b s = (None, s\<lparr>sdDb := db\<rparr>) \<and> view db = view (sdDb s) \<and> base db = view (sdDb s)"
proof -
  obtain p' where c: "pbCommit b (sdDb s) = (True, p')" "view p' = view (sdDb s)" "base p' = view (sdDb s)"
    using assms unfolding workingPebble_def by blast
  have z: "pbCount b (sdDb s) = 0 \<longrightarrow> base (sdDb s) = view (sdDb s)" using assms unfolding workingPebble_def by blast
  show f: "\<exists>db. storeFlushLocked b s = (None, s\<lparr>sdDb := db\<rparr>) \<and> view db = view (sdDb s) \<and> base db = view (sdDb s)"
    using c z by (cases "pbCount b (sdDb s) = 0") (auto simp: storeFlushLocked_def intro: exI [of _ "sdDb s"] exI [of _ p'])
  show "\<exists>db. autoFlush b s = (None, s\<lparr>sdDb := db\<rparr>) \<and> view db = view (sdDb s)"
    using f by (auto simp: autoFlush_def intro: exI [of _ "sdDb s"])
qed

lemma pebble_set: "workingPebble b view base \<Longrightarrow> \<exists>p'. pbSet b k v p = (True, p') \<and> view p' = (view p)(k \<mapsto> v)"
  unfolding workingPebble_def by blast

lemma pebble_delete: "workingPebble b view base \<Longrightarrow> \<exists>p'. pbDelete b k p = (True, p') \<and> view p' = (view p)(k := None)"
  unfolding workingPebble_def by blast

lemma pebble_scan:
  "workingPebble b view base \<Longrightarrow> finite (dom (base p)) \<Longrightarrow>
     pbScan b lo hi p = Inr (map (\<lambda>k. the (base p k)) (sorted_list_of_set {k \<in> dom (base p). lo \<le> k \<and> k < hi}))"
  unfolding workingPebble_def by blast

lemma storeStep_holds:
  assumes w: "workingPebble b view base" and h: "storeHolds b (view (sdDb s)) (sdEncKey s) ns es rs"
    and "opOk b (sdEncKey s) op" "\<not> sdClosed s"
  shows "\<exists>db. storeStep b op s = (None, s\<lparr>sdDb := db\<rparr>)
    \<and> storeHolds b (view db) (sdEncKey s) (nodeAfter op ns) (edgeAfter keyOf op es) (edgeAfter reverseOf op rs)"
proof (cases op)
  case (SPutNode rand n)
  then obtain d where d: "jMarshalNode b n = Some d" "jUnmarshalNode b d = Some n" "randOk (sdEncKey s) rand"
    using assms(3) by (auto split: option.splits)
  obtain c where c: "encryptData rand d s = Inr c" "readsAs (jUnmarshalNode b) (sdEncKey s) n c"
    using readsAs_encrypt [where dec = "jUnmarshalNode b", OF d(3,2)] by blast
  obtain p' where p': "pbSet b (nodeKey (nID n)) c (sdDb s) = (True, p')" "view p' = (view (sdDb s))(nodeKey (nID n) \<mapsto> c)"
    using pebble_set [OF w] by blast
  obtain db where "autoFlush b (s\<lparr>sdDb := p'\<rparr>) = (None, s\<lparr>sdDb := db\<rparr>)" "view db = view p'"
    using autoFlush_working(1) [OF w, of "s\<lparr>sdDb := p'\<rparr>"] by auto
  then show ?thesis
    using SPutNode d c p' assms(4) storeHolds_node [OF h c(2)] by (auto simp: PutNode_def)
next
  case (SDeleteNode i)
  obtain p' where p': "pbDelete b (nodeKey i) (sdDb s) = (True, p')" "view p' = (view (sdDb s))(nodeKey i := None)"
    using pebble_delete [OF w] by blast
  obtain db where "autoFlush b (s\<lparr>sdDb := p'\<rparr>) = (None, s\<lparr>sdDb := db\<rparr>)" "view db = view p'"
    using autoFlush_working(1) [OF w, of "s\<lparr>sdDb := p'\<rparr>"] by auto
  then show ?thesis using SDeleteNode p' storeHolds_delete [OF h, of i] by (auto simp: DeleteNode_def)
next
  case (SPutEdge rand e)
  then obtain d where d: "jMarshalEdge b e = Some d" "jUnmarshalEdge b d = Some e" "randOk (sdEncKey s) rand"
    using assms(3) by (auto split: option.splits)
  obtain c where c: "encryptData rand d s = Inr c" "readsAs (jUnmarshalEdge b) (sdEncKey s) e c"
    using readsAs_encrypt [where dec = "jUnmarshalEdge b", OF d(3,2)] by blast
  obtain p1 where p1: "pbSet b (keyOf e) c (sdDb s) = (True, p1)" "view p1 = (view (sdDb s))(keyOf e \<mapsto> c)"
    using pebble_set [OF w] by blast
  obtain p2 where p2: "pbSet b (reverseOf e) c p1 = (True, p2)" "view p2 = (view p1)(reverseOf e \<mapsto> c)"
    using pebble_set [OF w] by blast
  obtain db where "autoFlush b (s\<lparr>sdDb := p2\<rparr>) = (None, s\<lparr>sdDb := db\<rparr>)" "view db = view p2"
    using autoFlush_working(1) [OF w, of "s\<lparr>sdDb := p2\<rparr>"] by auto
  then show ?thesis
    using SPutEdge d c p1 p2 assms(4) storeHolds_edge [OF h c(2)]
    by (auto simp: PutEdge_def keyOf_def [symmetric] reverseOf_def [symmetric])
next
  case SFlush
  obtain db where "storeFlushLocked b s = (None, s\<lparr>sdDb := db\<rparr>)" "view db = view (sdDb s)"
    using autoFlush_working(2) [OF w, of s] by blast
  then show ?thesis using h SFlush by (auto simp: FlushStore_def)
qed

lemma storeRun_holds:
  assumes w: "workingPebble b view base" and "storeHolds b (view (sdDb s)) (sdEncKey s) ns es rs"
    and "\<forall>op \<in> set ops. opOk b (sdEncKey s) op" "\<not> sdClosed s"
  shows "\<exists>db. storeRun b ops s = (replicate (length ops) None, s\<lparr>sdDb := db\<rparr>)
    \<and> storeHolds b (view db) (sdEncKey s) (fold nodeAfter ops ns) (fold (edgeAfter keyOf) ops es) (fold (edgeAfter reverseOf) ops rs)"
  using assms(2-4)
proof (induction ops arbitrary: s ns es rs)
  case Nil
  then show ?case by (auto intro!: exI [of _ "sdDb s"])
next
  case (Cons op ops)
  obtain db where db: "storeStep b op s = (None, s\<lparr>sdDb := db\<rparr>)"
    "storeHolds b (view db) (sdEncKey s) (nodeAfter op ns) (edgeAfter keyOf op es) (edgeAfter reverseOf op rs)"
    using storeStep_holds [OF w Cons.prems(1), of op] Cons.prems by auto
  show ?case using Cons.IH [of "s\<lparr>sdDb := db\<rparr>", simplified, OF db(2)] Cons.prems db(1) by auto
qed

text \<open>Reading a node, and reading the edges between two keys.\<close>

lemma GetNode_holds:
  assumes "workingPebble b view base" "storeHolds b (view (sdDb s)) (sdEncKey s) ns es rs"
  shows "GetNode b i s = Inr (ns i)"
proof -
  have g: "pbGet b (nodeKey i) (sdDb s) = Inr (view (sdDb s) (nodeKey i))" using assms(1) unfolding workingPebble_def by blast
  have "rel_option (readsAs (jUnmarshalNode b) (sdEncKey s)) (ns i) (view (sdDb s) (nodeKey i))"
    using assms(2) by (simp add: storeHolds_def)
  then show ?thesis
    by (cases rule: option.rel_cases) (auto simp: GetNode_def g readsAs_def decryptData_def split: option.splits)
qed

lemma decodeEdges_holds:
  assumes "list_all2 (readsAs (jUnmarshalEdge b) (sdEncKey s)) es cs"
  shows "decodeEdges b s cs = Inr es"
  using assms
proof (induction es cs rule: list_all2_induct)
  case (Cons e es c cs)
  then show ?case by (auto simp: readsAs_def decryptData_def split: option.splits)
qed simp

lemma scanEdges_holds:
  assumes w: "workingPebble b view base" and f: "finite (dom (view (sdDb s)))"
    and r: "\<And>k. lo \<le> k \<Longrightarrow> k < hi \<Longrightarrow> rel_option (readsAs (jUnmarshalEdge b) (sdEncKey s)) (m k) (view (sdDb s) k)"
  shows "fst (scanEdges b lo hi s) = Inr (map (\<lambda>k. the (m k)) (sorted_list_of_set {k \<in> dom m. lo \<le> k \<and> k < hi}))
    \<and> finite {k \<in> dom m. lo \<le> k \<and> k < hi}"
proof -
  obtain db where db: "storeFlushLocked b s = (None, s\<lparr>sdDb := db\<rparr>)" "base db = view (sdDb s)"
    using autoFlush_working(2) [OF w, of s] by blast
  have d: "k \<in> dom m \<longleftrightarrow> k \<in> dom (view (sdDb s))" if "lo \<le> k" "k < hi" for k
    using r [OF that] by (cases rule: option.rel_cases) auto
  then have ks: "{k \<in> dom (view (sdDb s)). lo \<le> k \<and> k < hi} = {k \<in> dom m. lo \<le> k \<and> k < hi}" (is "_ = ?K") by auto
  have fin: "finite ?K" using f by (rule finite_subset [rotated]) (use ks in blast)
  have "readsAs (jUnmarshalEdge b) (sdEncKey s) (the (m k)) (the (view (sdDb s) k))" if "k \<in> ?K" for k
    using that r [of k] by (auto simp: option_rel_Some1)
  then have "list_all2 (readsAs (jUnmarshalEdge b) (sdEncKey s)) (map (\<lambda>k. the (m k)) (sorted_list_of_set ?K))
      (map (\<lambda>k. the (view (sdDb s) k)) (sorted_list_of_set ?K))"
    using fin by (simp add: list_all2_map1 list_all2_map2 list_all2_same)
  moreover have "pbScan b lo hi db = Inr (map (\<lambda>k. the (base db k)) (sorted_list_of_set {k \<in> dom (base db). lo \<le> k \<and> k < hi}))"
    using f db(2) by (intro pebble_scan [OF w]) simp
  ultimately show ?thesis
    using decodeEdges_holds [of b "s\<lparr>sdDb := db\<rparr>"] fin by (simp add: scanEdges_def db ks)
qed

lemma fold_edgeAfter:
  "fold (edgeAfter f) ops m k = Some e \<Longrightarrow> (\<exists>rand. SPutEdge rand e \<in> set ops) \<and> f e = k \<or> m k = Some e"
proof (induction ops arbitrary: m)
  case (Cons op ops)
  then show ?case by (cases op) (force split: if_splits)+
qed simp

lemma storeHolds_empty: "storeHolds b Map.empty key Map.empty Map.empty Map.empty"
  by (simp add: storeHolds_def)

lemma edges_between_keys:
  assumes "finite {k \<in> dom m. lo \<le> k \<and> k < hi}" (is "finite ?K") and "\<And>k e. m k = Some e \<Longrightarrow> keyOf e = k"
    and "\<And>e. e \<in> ran m \<Longrightarrow> lo \<le> keyOf e \<and> keyOf e < hi \<longleftrightarrow> P e"
  shows "set (map (\<lambda>k. the (m k)) (sorted_list_of_set ?K)) = {e \<in> ran m. P e}"
    "map keyOf (map (\<lambda>k. the (m k)) (sorted_list_of_set ?K)) = sorted_list_of_set ?K"
proof -
  have m: "k \<in> ?K \<Longrightarrow> \<exists>e. m k = Some e \<and> keyOf e = k" for k using assms(2) by fastforce
  show "map keyOf (map (\<lambda>k. the (m k)) (sorted_list_of_set ?K)) = sorted_list_of_set ?K"
    using m assms(1) by (intro trans [OF map_map] map_idI) fastforce
  show "set (map (\<lambda>k. the (m k)) (sorted_list_of_set ?K)) = {e \<in> ran m. P e}"
  proof (intro equalityI subsetI)
    fix e assume "e \<in> {e \<in> ran m. P e}"
    then obtain k where k: "m k = Some e" "P e" "e \<in> ran m" by (auto simp: ran_def)
    then have "keyOf e = k" using assms(2) by blast
    then have "k \<in> ?K" using k assms(3) [of e] by blast
    then show "e \<in> set (map (\<lambda>k. the (m k)) (sorted_list_of_set ?K))" using k assms(1) by force
  next
    fix e assume "e \<in> set (map (\<lambda>k. the (m k)) (sorted_list_of_set ?K))"
    then obtain k where "k \<in> ?K" "e = the (m k)" using assms(1) by auto
    then have "e \<in> ran m \<and> lo \<le> keyOf e \<and> keyOf e < hi" using assms(2) by (force simp: ran_def)
    then show "e \<in> {e \<in> ran m. P e}" using assms(3) by blast
  qed
qed

lemma sorted_keys_times: "sorted (map keyOf es) \<Longrightarrow> sorted (map edgeTs es)"
proof -
  have "edgeTs e < edgeTs d \<Longrightarrow> keyOf e < keyOf d" for d e by (simp add: keyOf_def storeEdgeKey_def padded_less)
  then have "keyOf d \<le> keyOf e \<Longrightarrow> edgeTs d \<le> edgeTs e" for d e by (meson not_le)
  then show "sorted (map keyOf es) \<Longrightarrow> sorted (map edgeTs es)" by (induction es) auto
qed

lemma between_keys: "a # b # x \<le> k \<Longrightarrow> k < a # b # y \<Longrightarrow> \<exists>k'. k = a # b # k'" for a b :: char
  by (cases k; cases "tl k") auto

lemma reverse_in_range:
  "eTarget e = t \<Longrightarrow> ''r:'' @ t @ '':'' \<le> reverseOf e \<and> reverseOf e < ''r:'' @ t @ [char_of (255 :: nat)]"
proof -
  have "t @ us < t @ vs \<longleftrightarrow> us < vs" for us vs using append_less_iff [of t t us vs] by simp
  moreover have "CHR '':'' < char_of (255 :: nat)" by (simp add: less_char_def)
  ultimately show "eTarget e = t \<Longrightarrow> ''r:'' @ t @ '':'' \<le> reverseOf e \<and> reverseOf e < ''r:'' @ t @ [char_of (255 :: nat)]"
    by (auto simp: reverseOf_def reverseEdgeKey_def not_less [symmetric])
qed

lemma TimeRange_holds:
  assumes w: "workingPebble b view base" and h: "storeHolds b (view (sdDb s)) (sdEncKey s) ns m r"
    and m: "\<And>k e. m k = Some e \<Longrightarrow> keyOf e = k \<and> plainID (eSource e)"
  shows "\<exists>es. fst (GetEdgesByTimeRange b start stop s) = Inr es \<and> sorted (map edgeTs es) \<and> distinct (map keyOf es)
    \<and> set es = {e \<in> ran m. start \<le> edgeTs e \<and> edgeTs e < stop}"
proof -
  have fin: "finite (dom (view (sdDb s)))" using h by (simp add: storeHolds_def)
  have rel: "rel_option (readsAs (jUnmarshalEdge b) (sdEncKey s)) (m k) (view (sdDb s) k)"
    if in_range: "storeEdgeKey start [] [] \<le> k" "k < storeEdgeKey stop [] []" for k
  proof -
    have "\<exists>k'. k = CHR ''e'' # CHR '':'' # k'" using in_range by (intro between_keys) (simp_all add: storeEdgeKey_def)
    then obtain k' where "k = ''e:'' @ k'" by auto
    then show ?thesis using h by (simp add: storeHolds_def)
  qed
  let ?K = "{k \<in> dom m. storeEdgeKey start [] [] \<le> k \<and> k < storeEdgeKey stop [] []}"
  let ?es = "map (\<lambda>k. the (m k)) (sorted_list_of_set ?K)"
  have es: "fst (GetEdgesByTimeRange b start stop s) = Inr ?es \<and> finite ?K"
    unfolding GetEdgesByTimeRange_def by (rule scanEdges_holds [OF w fin rel])
  then have fK: "finite ?K" by blast
  have k1: "m k = Some e \<Longrightarrow> keyOf e = k" for k e using m by blast
  have range: "storeEdgeKey start [] [] \<le> keyOf e \<and> keyOf e < storeEdgeKey stop [] [] \<longleftrightarrow> start \<le> edgeTs e \<and> edgeTs e < stop"
    if "e \<in> ran m" for e
  proof -
    have "plainID (eSource e)" using that m by (auto simp: ran_def)
    then show ?thesis unfolding keyOf_def by (rule storeEdgeKey_range)
  qed
  note sets = edges_between_keys [OF fK k1 range]
  have "sorted (map edgeTs ?es)" "distinct (map keyOf ?es)" using sorted_keys_times [of ?es] sets(2) by simp_all
  then show ?thesis using es sets(1) by blast
qed

lemma Target_holds:
  assumes w: "workingPebble b view base" and h: "storeHolds b (view (sdDb s)) (sdEncKey s) ns m r"
    and r: "\<And>k e. r k = Some e \<Longrightarrow> reverseOf e = k"
  shows "\<exists>es. fst (GetEdgesByTarget b t s) = Inr es \<and> {e \<in> ran r. eTarget e = t} \<subseteq> set es"
proof -
  have fin: "finite (dom (view (sdDb s)))" using h by (simp add: storeHolds_def)
  let ?lo = "''r:'' @ t @ '':''" and ?hi = "''r:'' @ t @ [char_of (255 :: nat)]"
  let ?R = "{k \<in> dom r. ?lo \<le> k \<and> k < ?hi}"
  have rel: "rel_option (readsAs (jUnmarshalEdge b) (sdEncKey s)) (r k) (view (sdDb s) k)" if in_range: "?lo \<le> k" "k < ?hi" for k
  proof -
    have "\<exists>k'. k = CHR ''r'' # CHR '':'' # k'" using in_range by (intro between_keys) simp_all
    then obtain k' where "k = ''r:'' @ k'" by auto
    then show ?thesis using h by (simp add: storeHolds_def)
  qed
  have rs: "fst (GetEdgesByTarget b t s) = Inr (map (\<lambda>k. the (r k)) (sorted_list_of_set ?R)) \<and> finite ?R"
    unfolding GetEdgesByTarget_def by (rule scanEdges_holds [OF w fin rel])
  have "e \<in> set (map (\<lambda>k. the (r k)) (sorted_list_of_set ?R))" if e: "e \<in> ran r" "eTarget e = t" for e
  proof -
    obtain k where "r k = Some e" using e(1) by (auto simp: ran_def)
    then have "k \<in> ?R" "e = the (r k)" using r reverse_in_range [OF e(2)] by auto
    then show ?thesis using rs by auto
  qed
  then show ?thesis using rs by blast
qed

lemma OpenStore_holds:
  assumes "workingPebble b view base" "view db = Map.empty" "\<forall>op \<in> set ops. opOk b key op"
    and "OpenStore (Some db) key = Inr s0" "storeRun b ops s0 = (rs, s)"
  shows "rs = replicate (length ops) None \<and> storeHolds b (view (sdDb s)) (sdEncKey s) (fold nodeAfter ops Map.empty)
    (fold (edgeAfter keyOf) ops Map.empty) (fold (edgeAfter reverseOf) ops Map.empty)"
proof -
  have s0: "sdDb s0 = db" "sdEncKey s0 = key" "\<not> sdClosed s0" using assms(4) by (auto simp: OpenStore_def)
  then have "storeHolds b (view (sdDb s0)) (sdEncKey s0) Map.empty Map.empty Map.empty"
    using assms(2) storeHolds_empty by metis
  from storeRun_holds [OF assms(1) this, of ops] show ?thesis using assms(3,5) s0 by auto
qed


text \<open>A database in memory, and a codec for edges that differ in their time: the hypotheses above can hold.\<close>

definition sampleEdge :: "int \<Rightarrow> edge" where
  "sampleEdge t = newEdge ''e1'' ''used'' ''p:7'' ''f:1:8:1'' t"

definition memPebble :: "((string \<times> bytes) list \<times> (string \<times> bytes) list) pebble" where
  "memPebble = \<lparr>pbSet = (\<lambda>k v (new, old). (True, AList.update k v new, old)),
     pbDelete = (\<lambda>k (new, old). (True, AList.delete k new, old)),
     pbGet = (\<lambda>k (new, old). Inr (map_of new k)),
     pbCount = (\<lambda>(new, old). if new = old then 0 else 1),
     pbCommit = (\<lambda>(new, old). (True, new, new)),
     pbScan = (\<lambda>lo hi (new, old). Inr (map (\<lambda>k. the (map_of old k)) (sort (remdups (filter (\<lambda>k. lo \<le> k \<and> k < hi) (map fst old)))))),
     pbClose = (\<lambda>p. (True, p)),
     jMarshalNode = (\<lambda>n. None), jUnmarshalNode = (\<lambda>d. None),
     jMarshalEdge = (\<lambda>e. Some [word_of_int (eTimestamp e)]),
     jUnmarshalEdge = (\<lambda>d. if d = [] then None else Some (sampleEdge (uint (hd d))))\<rparr>"

lemma memPebble_working: "workingPebble memPebble (\<lambda>p. map_of (fst p)) (\<lambda>p. map_of (snd p))"
proof -
  have "{k \<in> dom (map_of old). lo \<le> k \<and> k < hi} = set (filter (\<lambda>k. lo \<le> k \<and> k < hi) (map fst old))"
    for lo hi and old :: "(string \<times> bytes) list"
    by (auto simp: dom_map_of_conv_image_fst)
  then have "sort (remdups (filter (\<lambda>k. lo \<le> k \<and> k < hi) (map fst old))) = sorted_list_of_set {k \<in> dom (map_of old). lo \<le> k \<and> k < hi}"
    for lo hi and old :: "(string \<times> bytes) list"
    by (simp only: sorted_list_of_set_sort_remdups)
  then show ?thesis
    unfolding workingPebble_def by (simp add: memPebble_def update_conv' delete_conv' split_beta)
qed


section \<open>Keys\<close>

text \<open>A derived key is usable for AES.\<close>

lemma length_pbkdfLoop: "length blockKey = 32 \<Longrightarrow> length (pbkdfLoop password n u blockKey) = 32"
  by (induction n arbitrary: u blockKey) (auto simp: Let_def hmacSha256_def)

lemma length_pbkdf2: "length (pbkdf2HMACSHA256 password salt iter keyLen) = keyLen"
proof -
  have "length (pbkdfLoop password n (hmacSha256 password x) (hmacSha256 password x)) = 32" for n x
    by (rule length_pbkdfLoop) (simp add: hmacSha256_def)
  then have "length (concat (map (\<lambda>block. let u = hmacSha256 password (salt @ bytesBE 4 (word_of_nat block :: u32))
      in pbkdfLoop password (iter - 1) u u) xs)) = 32 * length xs" for xs
    by (induction xs) (auto simp: Let_def)
  moreover have "keyLen \<le> 32 * ((keyLen + 31) div 32)" by simp
  ultimately show ?thesis unfolding pbkdf2HMACSHA256_def by (simp only: length_take length_upt min_absorb2 diff_add_inverse2)
qed

lemma DeriveKey_usable: "aesKeyOk (DeriveKey passphrase salt)" "aesKeyOk (DeprecatedDeriveKey passphrase)"
  by (simp_all add: aesKeyOk_def DeriveKey_def DeprecatedDeriveKey_def length_pbkdf2)

text \<open>
  A key file that exists but does not hold 32 bytes is replaced by a new key. And the keys of an edge leave its
  relation out: of two edges with the same ends and time, the later replaces the earlier.
\<close>

lemma short_key_replaced:
  "length data \<noteq> 32 \<Longrightarrow> LoadOrGenerateKey False (Some data) (Some key) False = Inr (key, Some key)"
  by (simp add: LoadOrGenerateKey_def)

lemma relation_not_in_key:
  "ran (fold (edgeAfter keyOf) [SPutEdge r1 e, SPutEdge r2 (e\<lparr>eRelation := rel\<rparr>)] Map.empty) = {e\<lparr>eRelation := rel\<rparr>}"
  "ran (fold (edgeAfter reverseOf) [SPutEdge r1 e, SPutEdge r2 (e\<lparr>eRelation := rel\<rparr>)] Map.empty) = {e\<lparr>eRelation := rel\<rparr>}"
  by (auto simp: keyOf_def reverseOf_def edgeTs_def ran_def split: if_splits)

end
