(* ===== verification/Ingest.thy ===== *)
theory Ingest
  imports GraphTheorems LruCache DiskStore
begin

text \<open>
  The ingestion path (\<^verbatim>\<open>engine/pipeline/pipeline.go\<close>, \<^verbatim>\<open>merger.go\<close>, \<^verbatim>\<open>backpressure.go\<close>): every event goes to the graph, its nodes
  to the cache, its edges through a merge window to the store. The store is a record of the calls made on it, with a state of its own;
  \<open>diskOps\<close> is the store of \<open>DiskStore\<close>. Clock and memory readings are arguments. The two signalling channels hold
  at most one token; \<^const>\<open>None\<close> is an operation that blocks or panics.
\<close>

section \<open>Merge window\<close>

record merged_edge =
  meSource :: string
  meTarget :: string
  meRelation :: string
  meCount :: int
  meFirstSeen :: time
  meLastSeen :: time

definition toEdge :: "merged_edge \<Rightarrow> edge" where
  "toEdge m = \<lparr>eID = edgeID (meRelation m) (meSource m) (meTarget m), eSource = meSource m, eTarget = meTarget m,
     eRelation = meRelation m, eTimestamp = meLastSeen m, eCount = meCount m, eAttributes = []\<rparr>"

definition mergeKey :: "edge \<Rightarrow> string" where
  "mergeKey e = eSource e @ ''|'' @ eTarget e @ ''|'' @ eRelation e"

record merge_window =
  mwDur :: int
  mwEntries :: "(string \<times> merged_edge) list"
  mwTickCount :: nat

definition NewMergeWindow :: "int \<Rightarrow> merge_window" where
  "NewMergeWindow windowDur =
     \<lparr>mwDur = (if windowDur \<le> 0 then 5000000000 else windowDur), mwEntries = [], mwTickCount = 0\<rparr>"

definition TryMerge :: "edge \<Rightarrow> merge_window \<Rightarrow> bool \<times> merge_window" where
  "TryMerge e mw = (let key = mergeKey e in
     case map_of (mwEntries mw) key of
       None \<Rightarrow> (False, mw\<lparr>mwEntries := AList.update key \<lparr>meSource = eSource e, meTarget = eTarget e, meRelation = eRelation e,
                  meCount = 1, meFirstSeen = eTimestamp e, meLastSeen = eTimestamp e\<rparr> (mwEntries mw)\<rparr>)
     | Some existing \<Rightarrow>
         let existing = existing\<lparr>meCount := meCount existing + 1\<rparr>;
             existing = (if eTimestamp e > meLastSeen existing then existing\<lparr>meLastSeen := eTimestamp e\<rparr> else existing)
         in (True, mw\<lparr>mwEntries := AList.update key existing (mwEntries mw)\<rparr>))"

text \<open>The loop of \<^verbatim>\<open>Flush\<close> over the entries stops at the first error; the entries have been taken out before.\<close>

fun flushEntries :: "(edge \<Rightarrow> 'w \<Rightarrow> bool \<times> 'w) \<Rightarrow> merged_edge list \<Rightarrow> nat \<Rightarrow> 'w \<Rightarrow> (nat \<times> bool) \<times> 'w" where
  "flushEntries flushFn [] flushed w = ((flushed, True), w)"
| "flushEntries flushFn (m # ms) flushed w = (case flushFn (toEdge m) w of (ok, w) \<Rightarrow>
     if \<not> ok then ((flushed, False), w) else flushEntries flushFn ms (flushed + 1) w)"

definition mergeFlush ::
  "(edge \<Rightarrow> 'w \<Rightarrow> bool \<times> 'w) \<Rightarrow> merge_window \<Rightarrow> 'w \<Rightarrow> (nat \<times> bool) \<times> merge_window \<times> 'w" where
  "mergeFlush flushFn mw w =
     (let entries = mwEntries mw; mw = mw\<lparr>mwEntries := [], mwTickCount := mwTickCount mw + 1\<rparr>
      in if entries = [] then ((0, True), mw, w)
         else case flushEntries flushFn (map snd entries) 0 w of (r, w) \<Rightarrow> (r, mw, w))"

definition Pending :: "merge_window \<Rightarrow> nat" where
  "Pending mw = length (mwEntries mw)"

section \<open>Memory pressure\<close>

definition detectSystemMemory :: u64 where
  "detectSystemMemory = 8 * 1024 * 1024 * 1024"

definition NewPressureMonitor :: "u64 \<Rightarrow> u64" where
  "NewPressureMonitor maxMemMB =
     (if maxMemMB > 0 then maxMemMB * 1024 * 1024 else detectSystemMemory * 3 div 4)"

text \<open>
  Which callbacks a check runs. The fraction of memory in use is compared with a percentage as a rational number; with a
  limit of zero it is infinite.
\<close>

datatype pressure = Nominal | Logged | Mid | High

definition fractionAtLeast :: "nat \<Rightarrow> u64 \<Rightarrow> u64 \<Rightarrow> bool" where
  "fractionAtLeast pct alloc maxMem = (if maxMem = 0 then alloc > 0 else pct * unat maxMem \<le> 100 * unat alloc)"

definition checkPressure :: "u64 \<Rightarrow> u64 \<Rightarrow> pressure" where
  "checkPressure alloc maxMem =
     (if \<not> fractionAtLeast 50 alloc maxMem then Nominal
      else if fractionAtLeast 85 alloc maxMem then High
      else if fractionAtLeast 70 alloc maxMem then Mid else Logged)"

section \<open>Pipeline\<close>

record 'w store_ops =
  soPutNode :: "node \<Rightarrow> 'w \<Rightarrow> bool \<times> 'w"
  soPutEdge :: "edge \<Rightarrow> 'w \<Rightarrow> bool \<times> 'w"
  soFlush :: "'w \<Rightarrow> bool \<times> 'w"
  soClose :: "'w \<Rightarrow> bool \<times> 'w"

record pipe_config =
  pcMaxCacheSize :: int
  pcMergeWindow :: int
  pcMaxMemoryMB :: u64
  pcStorePath :: string
  pcFlushInterval :: int

definition DefaultPipeConfig :: pipe_config where
  "DefaultPipeConfig = \<lparr>pcMaxCacheSize = 4096, pcMergeWindow = 5000000000, pcMaxMemoryMB = 0,
     pcStorePath = ''/var/lib/providapt/store'', pcFlushInterval = 5000000000\<rparr>"

record 'w pipeline =
  plGraph :: graph
  plStore :: 'w
  plHotCache :: cache
  plMerger :: merge_window
  plMaxMem :: u64
  plPauseCh :: nat
  plResumeCh :: nat
  plPaused :: bool
  plStopped :: bool

definition evictNode :: "'w store_ops \<Rightarrow> graph \<Rightarrow> 'w evict_fn" where
  "evictNode ops g i w = (case LookupNode i g of None \<Rightarrow> (True, w) | Some n \<Rightarrow> soPutNode ops n w)"

definition NewPipeline :: "'w store_ops \<Rightarrow> graph \<Rightarrow> pipe_config option \<Rightarrow> 'w option \<Rightarrow> 'w pipeline option" where
  "NewPipeline ops g cfg opened =
     (let cfg = (case cfg of None \<Rightarrow> DefaultPipeConfig | Some c \<Rightarrow> c)
      in case opened of None \<Rightarrow> None
         | Some st \<Rightarrow> (case NewCache (pcMaxCacheSize cfg) (Some (evictNode ops g)) of
             Inl _ \<Rightarrow> None
           | Inr c \<Rightarrow> Some \<lparr>plGraph = g, plStore = st, plHotCache = c, plMerger = NewMergeWindow (pcMergeWindow cfg),
               plMaxMem = NewPressureMonitor (pcMaxMemoryMB cfg), plPauseCh = 0, plResumeCh = 0, plPaused = False, plStopped = False\<rparr>))"

definition cacheAdd :: "'w store_ops \<Rightarrow> time \<Rightarrow> string \<Rightarrow> 'w pipeline \<Rightarrow> 'w pipeline option" where
  "cacheAdd ops now i p = (case chAdd (evictNode ops (plGraph p)) now i (plHotCache p) (plStore p) of
     None \<Rightarrow> None | Some (err, c, w) \<Rightarrow> Some (p\<lparr>plHotCache := c, plStore := w\<rparr>))"

definition fileIDFromEvent :: "event \<Rightarrow> string" where
  "fileIDFromEvent evt =
     (if evInode evt > 0 then NodeIDFile (evInode evt) (evDevMajor evt) (evDevMinor evt) else NodeIDFilePath (evPathname evt))"

definition refreshCache :: "'w store_ops \<Rightarrow> time \<Rightarrow> event \<Rightarrow> 'w pipeline \<Rightarrow> 'w pipeline option" where
  "refreshCache ops now evt p = (case cacheAdd ops now (NodeIDProcess (evPID evt)) p of
      None \<Rightarrow> None
    | Some p \<Rightarrow> if evPathname evt \<noteq> [] \<and> evPathname evt \<noteq> ''?'' then cacheAdd ops now (fileIDFromEvent evt) p else Some p)"

definition plainEdge :: "string \<Rightarrow> string \<Rightarrow> string \<Rightarrow> time \<Rightarrow> edge" where
  "plainEdge source target relation ts = \<lparr>eID = [], eSource = source, eTarget = target, eRelation = relation,
     eTimestamp = ts, eCount = 1, eAttributes = []\<rparr>"

definition deriveEdges :: "time \<Rightarrow> event \<Rightarrow> edge list" where
  "deriveEdges ts evt =
     (let procID = NodeIDProcess (evPID evt); noPath = (evPathname evt = [] \<or> evPathname evt = ''?'')
      in if evType evt = EventProcessFork then
           [plainEdge (NodeIDProcess (evChildPID evt)) procID ProvWasInformedBy ts]
         else if evType evt = EventProcessExec then
           (if noPath then [] else [plainEdge procID (fileIDFromEvent evt) ProvUsed ts])
         else if evType evt = EventFileOpen then
           (if noPath then [] else [plainEdge procID (fileIDFromEvent evt) ProvUsed ts])
         else if evType evt = EventFileCreate \<or> evType evt = EventFileModify then
           (if noPath then [] else [plainEdge (fileIDFromEvent evt) procID ProvWasGeneratedBy ts])
         else [])"

fun mergeLoop :: "'w store_ops \<Rightarrow> edge list \<Rightarrow> merge_window \<Rightarrow> 'w \<Rightarrow> merge_window \<times> 'w" where
  "mergeLoop ops [] mw w = (mw, w)"
| "mergeLoop ops (e # es) mw w = (case TryMerge e mw of (merged, mw) \<Rightarrow>
     if merged then mergeLoop ops es mw w else mergeLoop ops es mw (snd (soPutEdge ops e w)))"

definition mergeEdges :: "'w store_ops \<Rightarrow> time \<Rightarrow> event \<Rightarrow> 'w pipeline \<Rightarrow> 'w pipeline" where
  "mergeEdges ops ts evt p =
     (case mergeLoop ops (deriveEdges ts evt) (plMerger p) (plStore p) of (mw, w) \<Rightarrow> p\<lparr>plMerger := mw, plStore := w\<rparr>)"

definition flushWindow :: "'w store_ops \<Rightarrow> 'w pipeline \<Rightarrow> 'w pipeline" where
  "flushWindow ops p =
     (case mergeFlush (soPutEdge ops) (plMerger p) (plStore p) of (r, mw, w) \<Rightarrow> p\<lparr>plMerger := mw, plStore := w\<rparr>)"

definition onMidPressure :: "'w store_ops \<Rightarrow> 'w pipeline \<Rightarrow> 'w pipeline" where
  "onMidPressure ops p =
     (case EvictColdSync (evictNode ops (plGraph p)) 256 0 (plHotCache p) (plStore p) of (cnt, ok, c, w) \<Rightarrow>
      let p = flushWindow ops (p\<lparr>plHotCache := c, plStore := w\<rparr>)
      in p\<lparr>plStore := snd (soFlush ops (plStore p))\<rparr>)"

definition onHighPressure :: "'w pipeline \<Rightarrow> 'w pipeline option" where
  "onHighPressure p =
     (if plPaused p then Some p
      else if plPauseCh p = 0 then Some (p\<lparr>plPaused := True, plPauseCh := 1\<rparr>) else None)"

definition checkPause :: "'w store_ops \<Rightarrow> 'w pipeline \<Rightarrow> 'w pipeline" where
  "checkPause ops p =
     (if plPaused p then (let p = onMidPressure ops (p\<lparr>plPaused := False\<rparr>) in p\<lparr>plResumeCh := 1\<rparr>) else p)"

definition pipeAddEvent ::
  "(string \<Rightarrow> string option) \<Rightarrow> 'w store_ops \<Rightarrow> time \<Rightarrow> event \<Rightarrow> 'w pipeline \<Rightarrow> 'w pipeline option" where
  "pipeAddEvent rf ops now evt p = (case AddEvent rf evt (plGraph p) of
      None \<Rightarrow> None
    | Some g \<Rightarrow> (case refreshCache ops now evt (p\<lparr>plGraph := g\<rparr>) of
          None \<Rightarrow> None
        | Some p \<Rightarrow> Some (checkPause ops (mergeEdges ops now evt p))))"

definition pressureCheck :: "'w store_ops \<Rightarrow> u64 \<Rightarrow> 'w pipeline \<Rightarrow> 'w pipeline option" where
  "pressureCheck ops alloc p = (case checkPressure alloc (plMaxMem p) of
      High \<Rightarrow> map_option (onMidPressure ops) (onHighPressure p)
    | Mid \<Rightarrow> Some (onMidPressure ops p)
    | _ \<Rightarrow> Some p)"

definition stopPipeline :: "'w store_ops \<Rightarrow> 'w pipeline \<Rightarrow> bool \<times> 'w pipeline" where
  "stopPipeline ops p =
     (if plStopped p then (True, p)
      else let p = onMidPressure ops (p\<lparr>plStopped := True\<rparr>)
           in case soClose ops (plStore p) of (ok, w) \<Rightarrow> (ok, p\<lparr>plStore := w\<rparr>))"

text \<open>The store below: the calls on \<open>DiskStore\<close>, with the number of random strings drawn so far.\<close>

definition diskOps :: "'p pebble \<Rightarrow> (nat \<Rightarrow> bytes option) \<Rightarrow> (nat \<times> 'p disk_store) store_ops" where
  "diskOps b rnd = \<lparr>
     soPutNode = (\<lambda>n (k, s). case PutNode b (rnd k) n s of (err, s) \<Rightarrow> (err = None, k + 1, s)),
     soPutEdge = (\<lambda>e (k, s). case PutEdge b (rnd k) e s of (err, s) \<Rightarrow> (err = None, k + 1, s)),
     soFlush = (\<lambda>(k, s). case FlushStore b s of (err, s) \<Rightarrow> (err = None, k, s)),
     soClose = (\<lambda>(k, s). case CloseStore b s of (err, s) \<Rightarrow> (err = None, k, s))\<rparr>"

text \<open>One step of the pipeline: an event, a tick of the flush timer and a check of the memory (not after \<^verbatim>\<open>Stop\<close>), the end, and the daemon
  taking a token from one of the channels.\<close>

datatype pipe_op = PAdd time event | PTick | PCheck u64 | PStop | PTakePause | PTakeResume

fun pipeStep :: "(string \<Rightarrow> string option) \<Rightarrow> 'w store_ops \<Rightarrow> pipe_op \<Rightarrow> 'w pipeline \<Rightarrow> 'w pipeline option" where
  "pipeStep rf ops (PAdd now evt) p = pipeAddEvent rf ops now evt p"
| "pipeStep rf ops PTick p = Some (if plStopped p then p else flushWindow ops p)"
| "pipeStep rf ops (PCheck alloc) p = (if plStopped p then Some p else pressureCheck ops alloc p)"
| "pipeStep rf ops PStop p = Some (snd (stopPipeline ops p))"
| "pipeStep rf ops PTakePause p = Some (p\<lparr>plPauseCh := 0\<rparr>)"
| "pipeStep rf ops PTakeResume p = Some (p\<lparr>plResumeCh := 0\<rparr>)"

section \<open>What a run does to the store\<close>

text \<open>
  The cache changes the state of the store only through the eviction callback, and the pipeline only through the calls on the store: a
  reflexive and transitive relation that each call keeps holds between the states before and after a run.
\<close>

locale evict_world =
  fixes f :: "'w evict_fn"
    and R :: "'w \<Rightarrow> 'w \<Rightarrow> bool"
  assumes R_refl: "R w w"
    and R_trans: "R w w1 \<Longrightarrow> R w1 w2 \<Longrightarrow> R w w2"
    and R_evict: "R w (snd (f i w))"
begin

lemma evictLocked_R: "evictLocked f c w = (ok, c', w') \<Longrightarrow> R w w'"
  using R_evict [of w "enNodeID (last (chOrder c))"] R_refl [of w]
  by (auto simp: evictLocked_def Let_def split: if_splits prod.splits)

lemma evictLoop_R: "evictLoop f c w = Some (ok, c', w') \<Longrightarrow> R w w'"
proof (induction "length (chOrder c)" arbitrary: c w rule: less_induct)
  case less
  obtain ok1 c1 w1 where e: "evictLocked f c w = (ok1, c1, w1)" by (metis prod_cases3)
  show ?case
  proof (cases "int (length (chOrder c)) < chMaxSize c")
    case True
    then show ?thesis using less.prems R_refl by (simp add: evictLoop.simps [of f c w])
  next
    case False
    then have run: "chOrder c \<noteq> []" "if ok1 then evictLoop f c1 w1 = Some (ok, c', w') else w1 = w'"
      using less.prems by (auto simp: evictLoop.simps [of f c w] e split: if_splits)
    have "ok1 \<Longrightarrow> length (chOrder c1) < length (chOrder c)"
      using e run(1) by (auto simp: evictLocked_def Let_def split: prod.splits if_splits)
    then show ?thesis using run(2) less.hyps [of c1 w1] evictLocked_R [OF e] R_trans by (auto split: if_splits)
  qed
qed

lemma chAdd_R: "chAdd f now i c w = Some (err, c', w') \<Longrightarrow> R w w'"
  using evictLoop_R [of c w] R_refl [of w] by (auto simp: chAdd_def split: option.splits if_splits)

lemma evictCold_R: "EvictColdSync f n k c w = (m, ok, c', w') \<Longrightarrow> R w w'"
proof (induction n arbitrary: k c w)
  case (Suc n)
  obtain ok1 c1 w1 where e: "evictLocked f c w = (ok1, c1, w1)" by (metis prod_cases3)
  show ?case using Suc e evictLocked_R [OF e] R_refl R_trans by (auto split: if_splits)
qed (simp add: R_refl)

end

locale store_world =
  fixes ops :: "'w store_ops"
    and R :: "'w \<Rightarrow> 'w \<Rightarrow> bool"
  assumes S_refl: "R w w"
    and S_trans: "R w w1 \<Longrightarrow> R w1 w2 \<Longrightarrow> R w w2"
    and S_node: "R w (snd (soPutNode ops n w))"
    and S_edge: "R w (snd (soPutEdge ops e w))"
    and S_flush: "R w (snd (soFlush ops w))"
    and S_close: "R w (snd (soClose ops w))"
begin

lemma evictNode_R: "R w (snd (evictNode ops g i w))"
  by (simp add: evictNode_def S_refl S_node split: option.split)

sublocale node_evictions: evict_world "evictNode ops g" R for g
  by unfold_locales (auto intro: S_refl S_trans evictNode_R)

lemma cacheAdd_R: "cacheAdd ops now i p = Some p' \<Longrightarrow> R (plStore p) (plStore p')"
  by (auto simp: cacheAdd_def split: option.splits dest: node_evictions.chAdd_R)

lemma refreshCache_R: "refreshCache ops now evt p = Some p' \<Longrightarrow> R (plStore p) (plStore p')"
  by (auto simp: refreshCache_def split: option.splits if_splits dest: cacheAdd_R intro: S_trans)

lemma mergeLoop_R: "R w (snd (mergeLoop ops es mw w))"
proof (induction es arbitrary: mw w)
  case (Cons e es)
  then show ?case by (auto split: prod.split intro: S_trans [OF S_edge])
qed (simp add: S_refl)

lemma flushEntries_R: "R w (snd (flushEntries (soPutEdge ops) ms n w))"
proof (induction ms arbitrary: n w)
  case (Cons m ms)
  then show ?case using S_edge [of w "toEdge m"] by (auto split: prod.split intro: S_trans)
qed (simp add: S_refl)

lemma mergeEdges_R: "R (plStore p) (plStore (mergeEdges ops ts evt p))"
  using mergeLoop_R by (simp add: mergeEdges_def split_beta)

lemma flushWindow_R: "R (plStore p) (plStore (flushWindow ops p))"
  using flushEntries_R by (simp add: flushWindow_def mergeFlush_def Let_def split_beta S_refl)

lemma onMidPressure_R: "R (plStore p) (plStore (onMidPressure ops p))"
proof -
  obtain n ok c w where e: "EvictColdSync (evictNode ops (plGraph p)) 256 0 (plHotCache p) (plStore p) = (n, ok, c, w)"
    by (metis prod_cases4)
  have "R (plStore p) w" using node_evictions.evictCold_R [OF e] .
  moreover have "R w (plStore (flushWindow ops (p\<lparr>plHotCache := c, plStore := w\<rparr>)))"
    using flushWindow_R [of "p\<lparr>plHotCache := c, plStore := w\<rparr>"] by simp
  ultimately show ?thesis by (auto simp: onMidPressure_def e Let_def intro: S_trans S_flush)
qed

lemma checkPause_R: "R (plStore p) (plStore (checkPause ops p))"
  using onMidPressure_R [of "p\<lparr>plPaused := False\<rparr>"] by (simp add: checkPause_def Let_def S_refl)

lemma pipeStep_R: "pipeStep rf ops op p = Some p' \<Longrightarrow> R (plStore p) (plStore p')"
proof (cases op)
  case (PAdd now evt)
  assume "pipeStep rf ops op p = Some p'"
  then obtain g q where q: "refreshCache ops now evt (p\<lparr>plGraph := g\<rparr>) = Some q" "p' = checkPause ops (mergeEdges ops now evt q)"
    using PAdd by (auto simp: pipeAddEvent_def split: option.splits)
  show ?thesis using refreshCache_R [OF q(1)] mergeEdges_R [of q now evt] checkPause_R [of "mergeEdges ops now evt q"] q(2)
    by (auto intro: S_trans)
next
  case (PCheck alloc)
  assume "pipeStep rf ops op p = Some p'"
  then show ?thesis
    using PCheck onMidPressure_R [of p] onMidPressure_R [of "p\<lparr>plPaused := True, plPauseCh := 1\<rparr>"]
    by (auto simp: pressureCheck_def onHighPressure_def S_refl split: if_splits pressure.splits)
next
  case PStop
  assume "pipeStep rf ops op p = Some p'"
  then show ?thesis
    using PStop onMidPressure_R [of "p\<lparr>plStopped := True\<rparr>"]
    by (auto simp: stopPipeline_def Let_def split_beta S_refl intro: S_trans [OF _ S_close])
qed (auto simp: S_refl flushWindow_R split: if_splits)

lemma pipeRun_R: "runOps (pipeStep rf ops) script p = Some p' \<Longrightarrow> R (plStore p) (plStore p')"
  by (induction script arbitrary: p) (auto simp: S_refl split: option.splits intro: S_trans pipeStep_R)

end

section \<open>What reaches the store\<close>

text \<open>The same store with a log of the edges written to it and whether the write succeeded.\<close>

definition logging :: "'w store_ops \<Rightarrow> ('w \<times> (edge \<times> bool) list) store_ops" where
  "logging ops = \<lparr>
     soPutNode = (\<lambda>n (w, l). case soPutNode ops n w of (ok, w) \<Rightarrow> (ok, w, l)),
     soPutEdge = (\<lambda>e (w, l). case soPutEdge ops e w of (ok, w) \<Rightarrow> (ok, w, l @ [(e, ok)])),
     soFlush = (\<lambda>(w, l). case soFlush ops w of (ok, w) \<Rightarrow> (ok, w, l)),
     soClose = (\<lambda>(w, l). case soClose ops w of (ok, w) \<Rightarrow> (ok, w, l))\<rparr>"

text \<open>Evictions write nodes only and leave the log as it is; every run extends it.\<close>

interpretation quiet: evict_world "evictNode (logging ops) g" "\<lambda>w w'. snd w' = snd w" for ops g
  by unfold_locales (auto simp: evictNode_def logging_def split_beta split: option.split)

interpretation grows: store_world "logging ops" "\<lambda>w w'. \<exists>l. snd w' = snd w @ l" for ops
  by unfold_locales (auto simp: logging_def split_beta)

text \<open>
  The summaries carry an identifier and the first occurrences do not. The balance of a key is the sum of the counts of its summaries
  in the log and of its entry in the window.
\<close>

definition summed :: "string \<Rightarrow> (edge \<times> bool) list \<Rightarrow> int" where
  "summed k l = sum_list (map (\<lambda>(e, ok). if eID e \<noteq> [] \<and> mergeKey e = k then eCount e else 0) l)"

definition pendingCount :: "string \<Rightarrow> merge_window \<Rightarrow> int" where
  "pendingCount k mw = (case map_of (mwEntries mw) k of None \<Rightarrow> 0 | Some m \<Rightarrow> meCount m)"

definition balance :: "string \<Rightarrow> ('w \<times> (edge \<times> bool) list) pipeline \<Rightarrow> int" where
  "balance k p = summed k (snd (plStore p)) + pendingCount k (plMerger p)"

definition occurrences :: "string \<Rightarrow> edge list \<Rightarrow> int" where
  "occurrences k es = int (length (filter (\<lambda>e. mergeKey e = k) es))"

fun derivedBy :: "pipe_op \<Rightarrow> edge list" where
  "derivedBy (PAdd now evt) = deriveEdges now evt"
| "derivedBy _ = []"

definition window_inv :: "merge_window \<Rightarrow> bool" where
  "window_inv mw = (distinct (map fst (mwEntries mw)) \<and> list_all (\<lambda>(k, m). mergeKey (toEdge m) = k) (mwEntries mw))"

lemma edgeID_nonempty [simp]: "edgeID r a b \<noteq> []"
  by (simp add: edgeID_def Let_def)

lemma summed_append [simp]: "summed k (l @ l') = summed k l + summed k l'"
  by (simp add: summed_def)

lemma list_all_update:
  assumes "list_all P al" "P (k, v)" shows "list_all P (AList.update k v al)"
  using assms by (induction al) auto

lemma TryMerge_step:
  assumes "TryMerge e mw = (merged, mw')" "window_inv mw"
  shows "window_inv mw' \<and> pendingCount k mw' = pendingCount k mw + occurrences k [e]"
proof (cases "map_of (mwEntries mw) (mergeKey e)")
  case None
  then show ?thesis
    using assms by (auto simp: TryMerge_def window_inv_def pendingCount_def occurrences_def distinct_update
        update_conv' toEdge_def mergeKey_def intro!: list_all_update)
next
  case (Some m)
  then have "mergeKey (toEdge m) = mergeKey e" using assms(2) map_of_SomeD by (fastforce simp: window_inv_def list_all_iff)
  then show ?thesis
    using assms Some by (auto simp: TryMerge_def Let_def window_inv_def pendingCount_def occurrences_def distinct_update
        update_conv' toEdge_def mergeKey_def intro!: list_all_update)
qed

lemma occurrences_Cons: "occurrences k (e # es) = occurrences k [e] + occurrences k es"
  by (simp add: occurrences_def)

text \<open>The loop over the edges of an event counts each in the window; what it writes are first occurrences.\<close>

lemma logging_putEdge:
  "soPutEdge (logging ops) e w = (case soPutEdge ops e (fst w) of (ok, w') \<Rightarrow> (ok, w', snd w @ [(e, ok)]))"
  by (simp add: logging_def split_beta)

lemma mergeLoop_step:
  assumes "mergeLoop (logging ops) es mw w = (mw', w')" "window_inv mw" "list_all (\<lambda>e. eID e = []) es"
  shows "window_inv mw' \<and> pendingCount k mw' = pendingCount k mw + occurrences k es
    \<and> (\<exists>l. snd w' = snd w @ l \<and> summed k l = 0)"
  using assms
proof (induction es arbitrary: mw w)
  case Nil
  then show ?case by (auto simp: occurrences_def summed_def)
next
  case (Cons e es)
  obtain merged mw1 where t: "TryMerge e mw = (merged, mw1)" by force
  note step = TryMerge_step [OF t Cons.prems(2), of k]
  define w1 where "w1 = (if merged then w else snd (soPutEdge (logging ops) e w))"
  obtain l1 where l1: "snd w1 = snd w @ l1" "summed k l1 = 0"
    using Cons.prems(3) by (cases merged) (auto simp: w1_def logging_putEdge summed_def split_beta)
  have "mergeLoop (logging ops) es mw1 w1 = (mw', w')" using Cons.prems(1) by (auto simp: t w1_def split: if_splits)
  from Cons.IH [OF this] step Cons.prems(3) obtain l where
    "window_inv mw'" "pendingCount k mw' = pendingCount k mw1 + occurrences k es" "snd w' = snd w1 @ l" "summed k l = 0" by auto
  then show ?case using step l1 occurrences_Cons [of k e es] by auto
qed

lemma deriveEdges_plain: "list_all (\<lambda>e. eID e = []) (deriveEdges ts evt)"
  by (simp add: deriveEdges_def Let_def plainEdge_def)

text \<open>A flush without errors moves the counts of the window into the log.\<close>

lemma flushEntries_step:
  assumes "flushEntries (soPutEdge (logging ops)) ms n w = (r, w')" "\<forall>(e, ok) \<in> set (snd w'). ok"
  shows "snd w' = snd w @ map (\<lambda>m. (toEdge m, True)) ms"
  using assms
proof (induction ms arbitrary: n w)
  case (Cons m ms)
  obtain ok w1 where put: "soPutEdge (logging ops) (toEdge m) w = (ok, w1)" by (meson surj_pair)
  then have w1: "snd w1 = snd w @ [(toEdge m, ok)]" by (auto simp: logging_putEdge split: prod.splits)
  show ?case
  proof (cases ok)
    case True
    then show ?thesis using Cons put w1 by simp
  next
    case False
    then show ?thesis using Cons.prems put w1 by auto
  qed
qed simp

lemma summed_entries:
  assumes "window_inv mw"
  shows "summed k (map (\<lambda>m. (toEdge m, True)) (map snd (mwEntries mw))) = pendingCount k mw"
proof -
  have "distinct (map fst es) \<Longrightarrow> list_all (\<lambda>(k, m). mergeKey (toEdge m) = k) es \<Longrightarrow>
     summed k (map (\<lambda>m. (toEdge m, True)) (map snd es)) = (case map_of es k of None \<Rightarrow> 0 | Some m \<Rightarrow> meCount m)" for es
  proof (induction es)
    case (Cons x es)
    obtain j m where x: "x = (j, m)" by (cases x)
    have "k \<notin> fst ` set es \<Longrightarrow> map_of es k = None" by (simp add: map_of_eq_None_iff)
    then show ?case using Cons by (auto simp: x summed_def toEdge_def)
  qed (simp add: summed_def)
  then show ?thesis using assms by (simp add: window_inv_def pendingCount_def)
qed

lemma flushWindow_step:
  assumes "window_inv (plMerger p)" "\<forall>(e, ok) \<in> set (snd (plStore (flushWindow (logging ops) p))). ok"
  shows "balance k (flushWindow (logging ops) p) = balance k p"
proof (cases "mwEntries (plMerger p) = []")
  case True
  then show ?thesis by (simp add: flushWindow_def mergeFlush_def Let_def balance_def pendingCount_def)
next
  case False
  obtain r w' where f: "flushEntries (soPutEdge (logging ops)) (map snd (mwEntries (plMerger p))) 0 (plStore p) = (r, w')"
    by (meson surj_pair)
  then have w': "flushWindow (logging ops) p =
      p\<lparr>plMerger := plMerger p\<lparr>mwEntries := [], mwTickCount := mwTickCount (plMerger p) + 1\<rparr>, plStore := w'\<rparr>"
    using False by (simp add: flushWindow_def mergeFlush_def Let_def)
  have "snd w' = snd (plStore p) @ map (\<lambda>m. (toEdge m, True)) (map snd (mwEntries (plMerger p)))"
    using flushEntries_step [OF f] assms(2) w' by simp
  then show ?thesis using summed_entries [OF assms(1), of k] by (simp add: w' balance_def pendingCount_def)
qed

lemma cacheAdd_step:
  assumes "cacheAdd (logging ops) now i p = Some p'"
  shows "\<exists>c w. p' = p\<lparr>plHotCache := c, plStore := w\<rparr> \<and> snd w = snd (plStore p)"
proof -
  obtain err c w where a: "chAdd (evictNode (logging ops) (plGraph p)) now i (plHotCache p) (plStore p) = Some (err, c, w)"
    and p': "p' = p\<lparr>plHotCache := c, plStore := w\<rparr>"
    using assms by (auto simp: cacheAdd_def split: option.splits)
  with quiet.chAdd_R [OF a] show ?thesis by blast
qed

lemma refreshCache_step:
  assumes "refreshCache (logging ops) now evt p = Some p'"
  shows "plGraph p' = plGraph p \<and> plMerger p' = plMerger p \<and> plStopped p' = plStopped p \<and> snd (plStore p') = snd (plStore p)"
  using assms cacheAdd_step [of ops now _ p] cacheAdd_step [of ops now "fileIDFromEvent evt"]
  by (fastforce simp: refreshCache_def split: option.splits if_splits)

text \<open>
  A part of a step that books \<^verbatim>\<open>d\<close> occurrences of a key: it extends the log, and if all writes so far succeeded it keeps the window in
  order and adds \<^verbatim>\<open>d\<close> to the balance.
\<close>

definition booked ::
  "string \<Rightarrow> int \<Rightarrow> ('w \<times> (edge \<times> bool) list) pipeline \<Rightarrow> ('w \<times> (edge \<times> bool) list) pipeline \<Rightarrow> bool" where
  "booked k d p p' \<longleftrightarrow> (\<exists>l. snd (plStore p') = snd (plStore p) @ l) \<and>
     ((\<forall>(e, ok) \<in> set (snd (plStore p')). ok) \<and> window_inv (plMerger p)
        \<longrightarrow> window_inv (plMerger p') \<and> balance k p' = balance k p + d)"

lemma booked_trans: "booked k d p q \<Longrightarrow> booked k d' q r \<Longrightarrow> booked k (d + d') p r"
  unfolding booked_def by auto

lemma booked_same:
  assumes "snd (plStore p') = snd (plStore p)" "plMerger p' = plMerger p" shows "booked k 0 p p'"
  using assms by (simp add: booked_def balance_def)

lemma booked_refl [simp]: "booked k 0 p p"
  by (rule booked_same) simp_all

lemma booked_trans0: "booked k 0 p q \<Longrightarrow> booked k d q r \<Longrightarrow> booked k d p r"
  using booked_trans [of k 0 p q d r] by simp

lemma flushWindow_empties: "mwEntries (plMerger (flushWindow ops p)) = []"
  by (simp add: flushWindow_def mergeFlush_def Let_def split_beta)

lemma flushWindow_booked: "booked k 0 p (flushWindow (logging ops) p)"
proof -
  have "\<exists>l. snd (plStore (flushWindow (logging ops) p)) = snd (plStore p) @ l"
    by (rule grows.flushWindow_R)
  moreover have "window_inv (plMerger (flushWindow (logging ops) p))" by (simp add: window_inv_def flushWindow_empties)
  ultimately show ?thesis using flushWindow_step [of p ops k] by (auto simp: booked_def)
qed

lemma onMidPressure_booked:
  "booked k 0 p (onMidPressure (logging ops) p) \<and> mwEntries (plMerger (onMidPressure (logging ops) p)) = []
    \<and> plStopped (onMidPressure (logging ops) p) = plStopped p"
proof -
  obtain n ok c w where e: "EvictColdSync (evictNode (logging ops) (plGraph p)) 256 0 (plHotCache p) (plStore p) = (n, ok, c, w)"
    by (metis prod_cases4)
  let ?q = "p\<lparr>plHotCache := c, plStore := w\<rparr>"
  have m: "onMidPressure (logging ops) p = (flushWindow (logging ops) ?q)\<lparr>plStore := snd (soFlush (logging ops) (plStore (flushWindow (logging ops) ?q)))\<rparr>"
    by (simp add: onMidPressure_def e Let_def)
  have f: "snd (snd (soFlush (logging ops) w')) = snd w'" for w' by (simp add: logging_def split_beta)
  have "booked k 0 p ?q" using quiet.evictCold_R [OF e] by (intro booked_same) simp_all
  from booked_trans [OF this booked_trans [OF flushWindow_booked [of k ?q ops] booked_same]]
  have "booked k 0 p (onMidPressure (logging ops) p)" unfolding m using f by simp
  then show ?thesis by (simp add: m flushWindow_empties) (simp add: flushWindow_def split_beta)
qed

lemma checkPause_booked: "booked k 0 p (checkPause (logging ops) p)"
proof -
  let ?q = "p\<lparr>plPaused := False\<rparr>"
  have "booked k 0 p ?q" by (rule booked_same) simp_all
  moreover have "booked k 0 ?q (onMidPressure (logging ops) ?q)" using onMidPressure_booked by blast
  moreover have "booked k 0 (onMidPressure (logging ops) ?q) ((onMidPressure (logging ops) ?q)\<lparr>plResumeCh := 1\<rparr>)"
    by (rule booked_same) simp_all
  ultimately have "booked k 0 p ((onMidPressure (logging ops) ?q)\<lparr>plResumeCh := 1\<rparr>)"
    using booked_trans0 by blast
  then show ?thesis by (simp add: checkPause_def Let_def)
qed

lemma mergeEdges_booked: "booked k (occurrences k (deriveEdges ts evt)) p (mergeEdges (logging ops) ts evt p)"
proof -
  obtain mw w where l: "mergeLoop (logging ops) (deriveEdges ts evt) (plMerger p) (plStore p) = (mw, w)" by (meson surj_pair)
  then have "\<exists>l. snd w = snd (plStore p) @ l" using grows.mergeLoop_R [where w = "plStore p" and es = "deriveEdges ts evt" and mw = "plMerger p" and ops = ops] by simp
  then show ?thesis
    using mergeLoop_step [OF l _ deriveEdges_plain, of k] by (auto simp: booked_def mergeEdges_def l balance_def)
qed

lemma pipeAddEvent_booked:
  assumes "pipeAddEvent rf (logging ops) now evt p = Some p'"
  shows "booked k (occurrences k (deriveEdges now evt)) p p'"
proof -
  obtain g q where q: "refreshCache (logging ops) now evt (p\<lparr>plGraph := g\<rparr>) = Some q"
    and p': "p' = checkPause (logging ops) (mergeEdges (logging ops) now evt q)"
    using assms by (auto simp: pipeAddEvent_def split: option.splits)
  have "booked k 0 p q" using refreshCache_step [OF q] by (intro booked_same) simp_all
  from booked_trans [OF this booked_trans [OF mergeEdges_booked [of k now evt q ops] checkPause_booked [of k _ ops]]]
  show ?thesis by (simp add: p')
qed

lemma pressureCheck_booked:
  assumes "pressureCheck (logging ops) alloc p = Some p'" shows "booked k 0 p p'"
proof (cases "checkPressure alloc (plMaxMem p)")
  case High
  then obtain q where q: "onHighPressure p = Some q" "p' = onMidPressure (logging ops) q"
    using assms by (auto simp: pressureCheck_def)
  then have "booked k 0 p q" by (intro booked_same) (auto simp: onHighPressure_def split: if_splits)
  then show ?thesis using booked_trans0 onMidPressure_booked [of k q ops] q(2) by blast
qed (use assms onMidPressure_booked in \<open>auto simp: pressureCheck_def\<close>)

lemma stopPipeline_booked:
  "booked k 0 p (snd (stopPipeline (logging ops) p))
    \<and> (\<not> plStopped p \<longrightarrow> mwEntries (plMerger (snd (stopPipeline (logging ops) p))) = [])"
proof (cases "plStopped p")
  case False
  let ?q = "onMidPressure (logging ops) (p\<lparr>plStopped := True\<rparr>)"
  have s: "snd (stopPipeline (logging ops) p) = ?q\<lparr>plStore := snd (soClose (logging ops) (plStore ?q))\<rparr>"
    using False by (simp add: stopPipeline_def Let_def split_beta)
  have "snd (snd (soClose (logging ops) w)) = snd w" for w by (simp add: logging_def split_beta)
  then have "booked k 0 ?q (snd (stopPipeline (logging ops) p))" unfolding s by (intro booked_same) simp_all
  moreover have "booked k 0 p (p\<lparr>plStopped := True\<rparr>)" by (rule booked_same) simp_all
  ultimately have "booked k 0 p (snd (stopPipeline (logging ops) p))"
    using onMidPressure_booked [of k "p\<lparr>plStopped := True\<rparr>" ops] booked_trans0 by blast
  then show ?thesis using onMidPressure_booked [of k "p\<lparr>plStopped := True\<rparr>" ops] by (simp add: s)
qed (simp add: stopPipeline_def)

lemma pipeStep_booked:
  assumes "pipeStep rf (logging ops) op p = Some p'" shows "booked k (occurrences k (derivedBy op)) p p'"
proof (cases op)
  case (PAdd now evt)
  then show ?thesis using assms pipeAddEvent_booked by simp
next
  case (PCheck alloc)
  then show ?thesis using assms pressureCheck_booked by (auto simp: occurrences_def split: if_splits)
qed (use assms in \<open>auto simp: occurrences_def intro: booked_same flushWindow_booked conjunct1 [OF stopPipeline_booked]\<close>)

lemma pipeRun_booked:
  "runOps (pipeStep rf (logging ops)) script p = Some p' \<Longrightarrow>
     booked k (sum_list (map (\<lambda>op. occurrences k (derivedBy op)) script)) p p'"
proof (induction script arbitrary: p)
  case Nil
  then show ?case by simp
next
  case (Cons op script)
  then obtain q where "pipeStep rf (logging ops) op p = Some q" "runOps (pipeStep rf (logging ops)) script q = Some p'"
    by (auto split: option.splits)
  then show ?case using booked_trans [OF pipeStep_booked Cons.IH] by fastforce
qed

text \<open>The graph sees the events, and nothing else changes it.\<close>

fun eventOf :: "pipe_op \<Rightarrow> event list" where
  "eventOf (PAdd now evt) = [evt]"
| "eventOf _ = []"

lemma onMidPressure_frame [simp]:
  "plGraph (onMidPressure ops p) = plGraph p" "plStopped (onMidPressure ops p) = plStopped p"
  "plPauseCh (onMidPressure ops p) = plPauseCh p" "plMaxMem (onMidPressure ops p) = plMaxMem p" "plPaused (onMidPressure ops p) = plPaused p"
  by (simp_all add: onMidPressure_def flushWindow_def Let_def split_beta)

lemma mergeEdges_frame [simp]:
  "plGraph (mergeEdges ops ts evt p) = plGraph p" "plStopped (mergeEdges ops ts evt p) = plStopped p"
  "plPauseCh (mergeEdges ops ts evt p) = plPauseCh p" "plMaxMem (mergeEdges ops ts evt p) = plMaxMem p" "plPaused (mergeEdges ops ts evt p) = plPaused p"
  by (simp_all add: mergeEdges_def split_beta)

lemma checkPause_frame [simp]:
  "plGraph (checkPause ops p) = plGraph p" "plStopped (checkPause ops p) = plStopped p"
  "plPauseCh (checkPause ops p) = plPauseCh p" "plMaxMem (checkPause ops p) = plMaxMem p" "\<not> plPaused (checkPause ops p)"
  by (simp_all add: checkPause_def Let_def)

lemma flushWindow_frame [simp]:
  "plGraph (flushWindow ops p) = plGraph p" "plStopped (flushWindow ops p) = plStopped p"
  by (simp_all add: flushWindow_def split_beta)

lemma refreshCache_frame:
  "refreshCache ops now evt p = Some p' \<Longrightarrow> plGraph p' = plGraph p \<and> plStopped p' = plStopped p
    \<and> plPauseCh p' = plPauseCh p \<and> plMaxMem p' = plMaxMem p"
  by (auto simp: refreshCache_def cacheAdd_def split: option.splits if_splits)

lemma onHighPressure_frame:
  "onHighPressure p = Some q \<Longrightarrow> plGraph q = plGraph p \<and> plStopped q = plStopped p"
  by (auto simp: onHighPressure_def split: if_splits)

lemma stopPipeline_frame [simp]: "plGraph (snd (stopPipeline ops p)) = plGraph p"
  by (simp add: stopPipeline_def Let_def split_beta)

lemma pipeStep_graph:
  assumes "pipeStep rf ops op p = Some p'"
  shows "runOps (AddEvent rf) (eventOf op) (plGraph p) = Some (plGraph p') \<and> (op \<noteq> PStop \<longrightarrow> plStopped p' = plStopped p)"
proof (cases op)
  case (PAdd now evt)
  then show ?thesis using assms refreshCache_frame [of ops now evt]
    by (fastforce simp: pipeAddEvent_def split: option.splits)
next
  case (PCheck alloc)
  then show ?thesis using assms onHighPressure_frame [of p]
    by (auto simp: pressureCheck_def split: if_splits pressure.splits)
qed (use assms in \<open>auto split: if_splits\<close>)

lemma pipeRun_graph:
  "runOps (pipeStep rf ops) script p = Some p' \<Longrightarrow>
     runOps (AddEvent rf) (concat (map eventOf script)) (plGraph p) = Some (plGraph p')
     \<and> (PStop \<notin> set script \<longrightarrow> plStopped p' = plStopped p)"
proof (induction script arbitrary: p)
  case (Cons op script)
  then obtain q where q: "pipeStep rf ops op p = Some q" "runOps (pipeStep rf ops) script q = Some p'"
    by (auto split: option.splits)
  then show ?case using Cons.IH [OF q(2)] pipeStep_graph [OF q(1)] by (auto simp: runOps_append)
qed simp

section \<open>Ingestion\<close>

text \<open>
  C17. Run a new pipeline over events, timer ticks and memory checks in any order, with the daemon taking the signals, and stop it.
  If no write of an edge failed, the summaries written for an edge count every event that gave rise to it exactly once,
  across all windows and forced flushes; nothing is left in the window; and the graph is the one that the events alone
  build, in their order.
\<close>

theorem ingest_counts_exact:
  assumes "NewPipeline (logging ops) g cfg (Some (w, [])) = Some p0" and "PStop \<notin> set script"
    and "runOps (pipeStep rf (logging ops)) (script @ [PStop]) p0 = Some p" and "\<forall>(e, ok) \<in> set (snd (plStore p)). ok"
  shows "summed k (snd (plStore p)) = occurrences k (concat (map derivedBy script)) \<and> Pending (plMerger p) = 0
    \<and> runOps (AddEvent rf) (concat (map eventOf script)) g = Some (plGraph p)"
proof -
  have p0: "plStore p0 = (w, [])" "mwEntries (plMerger p0) = []" "\<not> plStopped p0" "plGraph p0 = g"
    using assms(1) by (auto simp: NewPipeline_def NewMergeWindow_def Let_def split: sum.splits)
  obtain q where q: "runOps (pipeStep rf (logging ops)) script p0 = Some q" "p = snd (stopPipeline (logging ops) q)"
    using assms(3) by (auto simp: runOps_append split: option.splits)
  have g: "runOps (AddEvent rf) (concat (map eventOf script)) g = Some (plGraph p)" "\<not> plStopped q"
    using pipeRun_graph [OF q(1)] assms(2) p0 q(2) by auto
  have "booked k (sum_list (map (\<lambda>op. occurrences k (derivedBy op)) script)) p0 p"
    using booked_trans [OF pipeRun_booked [OF q(1), of k]] stopPipeline_booked [of k q ops] q(2) by fastforce
  then have b: "balance k p = balance k p0 + sum_list (map (\<lambda>op. occurrences k (derivedBy op)) script)"
    using assms(4) p0 by (auto simp: booked_def window_inv_def)
  have e: "mwEntries (plMerger p) = []" using stopPipeline_booked [of k q ops] g(2) q(2) by simp
  have "occurrences k (concat (map derivedBy script)) = sum_list (map (\<lambda>op. occurrences k (derivedBy op)) script)"
    by (induction script) (simp_all add: occurrences_def)
  with b e p0 g(1) show ?thesis by (simp add: balance_def pendingCount_def summed_def Pending_def)
qed

definition quietOps :: "unit store_ops" where
  "quietOps = \<lparr>soPutNode = (\<lambda>n w. (True, w)), soPutEdge = (\<lambda>e w. (True, w)), soFlush = (\<lambda>w. (True, w)), soClose = (\<lambda>w. (True, w))\<rparr>"

definition openedFile :: event where
  "openedFile = zeroEvent\<lparr>evType := EventFileOpen, evPID := 7, evInode := 5, evPathname := ''/etc/hosts''\<rparr>"

definition sampleScript :: "pipe_op list" where
  "sampleScript = [PAdd 1 openedFile, PAdd 2 openedFile, PTick, PAdd 3 openedFile]"

definition samplePipeline :: "(unit \<times> (edge \<times> bool) list) pipeline" where
  "samplePipeline = the (NewPipeline (logging quietOps) (NewGraph 0) None (Some ((), [])))"

lemma sampleRun:
  "map_option (\<lambda>p. (snd (plStore p) \<noteq> [], list_all snd (snd (plStore p))))
     (runOps (pipeStep (\<lambda>_. None) (logging quietOps)) (sampleScript @ [PStop]) samplePipeline) = Some (True, True)"
  by code_simp

theorem ingest_counts_exact_witness:
  "\<exists>p. runOps (pipeStep (\<lambda>_. None) (logging quietOps)) (sampleScript @ [PStop]) samplePipeline = Some p
    \<and> summed (mergeKey (plainEdge ''p:7'' ''f:5:0:0'' ProvUsed 0)) (snd (plStore p)) = 3"
proof -
  obtain p where p: "runOps (pipeStep (\<lambda>_. None) (logging quietOps)) (sampleScript @ [PStop]) samplePipeline = Some p"
    "list_all snd (snd (plStore p))"
    using sampleRun by auto
  have new: "NewPipeline (logging quietOps) (NewGraph 0) None (Some ((), [])) = Some samplePipeline"
    by (simp add: samplePipeline_def NewPipeline_def NewCache_def Let_def)
  have "\<forall>(e, ok) \<in> set (snd (plStore p)). ok" using p(2) by (auto simp: list_all_iff)
  moreover have "PStop \<notin> set sampleScript" by (simp add: sampleScript_def)
  moreover have "occurrences (mergeKey (plainEdge ''p:7'' ''f:5:0:0'' ProvUsed 0)) (concat (map derivedBy sampleScript)) = 3"
    by code_simp
  ultimately show ?thesis using ingest_counts_exact [OF new _ p(1)] p(1) by auto
qed

text \<open>
  The store then holds more than the events: a first occurrence is written under its own time and counted again in the summary, which
  is written under the time of the last. Here the three accesses are stored with counts that add up to four.
\<close>

lemma first_occurrence_counted_twice:
  "map_option (\<lambda>p. sum_list (map snd (fold (\<lambda>(e, ok). AList.update (keyOf e) (eCount e)) (snd (plStore p)) [])))
     (runOps (pipeStep (\<lambda>_. None) (logging quietOps)) (sampleScript @ [PStop]) samplePipeline) = Some 4"
  by code_simp

text \<open>A write that fails during a flush loses the entries that were not yet written, which are no longer in the window.\<close>

lemma failed_flush_loses:
  assumes "mwEntries (plMerger p) = (k, m) # rest" "soPutEdge ops (toEdge m) (plStore p) = (False, w)"
  shows "Pending (plMerger (flushWindow ops p)) = 0 \<and> plStore (flushWindow ops p) = w"
  using assms by (simp add: flushWindow_def mergeFlush_def Let_def Pending_def)

text \<open>Deletions link a process to the file in the graph; the store does not get this edge.\<close>

lemma deletions_not_stored: "evType evt = EventFileDelete \<Longrightarrow> deriveEdges ts evt = []"
  by (simp add: deriveEdges_def Let_def)

section \<open>Backpressure\<close>

text \<open>
  Every step returns, except a check that finds high pressure and the signal of an earlier pause still in the channel; a resume
  is signalled by an event only.
\<close>

lemma cacheAdd_total:
  assumes "cache_inv (plHotCache p)"
  shows "\<exists>p'. cacheAdd ops now i p = Some p' \<and> cache_inv (plHotCache p')"
  using chAdd_refines [OF assms, of "evictNode ops (plGraph p)" now i "plStore p"] by (auto simp: cacheAdd_def)

lemma onMidPressure_cache:
  assumes "cache_inv (plHotCache p)" shows "cache_inv (plHotCache (onMidPressure ops p))"
proof -
  obtain n ok c w where e: "EvictColdSync (evictNode ops (plGraph p)) 256 0 (plHotCache p) (plStore p) = (n, ok, c, w)"
    by (metis prod_cases4)
  then show ?thesis
    using EvictColdSync_refines [OF assms e] by (simp add: onMidPressure_def e Let_def flushWindow_def split_beta)
qed

lemma refreshCache_total:
  assumes "cache_inv (plHotCache p)"
  shows "\<exists>p'. refreshCache ops now evt p = Some p' \<and> cache_inv (plHotCache p')"
proof -
  obtain q where q: "cacheAdd ops now (NodeIDProcess (evPID evt)) p = Some q" "cache_inv (plHotCache q)"
    using cacheAdd_total [OF assms] by blast
  then show ?thesis using cacheAdd_total [OF q(2), of ops now "fileIDFromEvent evt"] by (auto simp: refreshCache_def)
qed

lemma pipeStep_returns:
  assumes "cache_inv (plHotCache p)"
  shows "(\<exists>p'. pipeStep (\<lambda>_. None) ops op p = Some p' \<and> cache_inv (plHotCache p')) \<longleftrightarrow>
    \<not> (\<exists>alloc. op = PCheck alloc \<and> checkPressure alloc (plMaxMem p) = High \<and> \<not> plStopped p \<and> \<not> plPaused p \<and> plPauseCh p \<noteq> 0)"
proof (cases op)
  case (PAdd now evt)
  obtain g where g: "AddEvent (\<lambda>_. None) evt (plGraph p) = Some g" using AddEvent_unreadable by blast
  obtain q where "refreshCache ops now evt (p\<lparr>plGraph := g\<rparr>) = Some q" "cache_inv (plHotCache q)"
    using refreshCache_total [of "p\<lparr>plGraph := g\<rparr>" ops now evt] assms by auto
  then show ?thesis
    using PAdd g onMidPressure_cache [of "(mergeEdges ops now evt q)\<lparr>plPaused := False\<rparr>" ops]
    by (auto simp: pipeAddEvent_def checkPause_def Let_def mergeEdges_def split_beta)
next
  case (PCheck alloc)
  have h: "onHighPressure p = Some q \<Longrightarrow> cache_inv (plHotCache q)" for q
    using assms by (auto simp: onHighPressure_def split: if_splits)
  show ?thesis
    using PCheck assms h onMidPressure_cache [of _ ops]
    by (auto simp: pressureCheck_def onHighPressure_def split: if_splits pressure.splits)
next
  case PStop
  then show ?thesis using assms onMidPressure_cache [of "p\<lparr>plStopped := True\<rparr>" ops] by (simp add: stopPipeline_def Let_def split_beta)
qed (use assms in \<open>auto simp: flushWindow_def split_beta\<close>)

lemma resume_only_by_events:
  assumes "pipeStep rf ops op p = Some p'" "plResumeCh p = 0" "plResumeCh p' \<noteq> 0"
  shows "\<exists>now evt. op = PAdd now evt"
  using assms
  by (cases op) (auto simp: pressureCheck_def onHighPressure_def onMidPressure_def flushWindow_def stopPipeline_def Let_def split_beta
      split: if_splits pressure.splits)

lemma pipeAddEvent_frame:
  "pipeAddEvent rf ops now evt p = Some q \<Longrightarrow>
     plStopped q = plStopped p \<and> plPauseCh q = plPauseCh p \<and> plMaxMem q = plMaxMem p \<and> \<not> plPaused q"
  using refreshCache_frame [of ops now evt] by (fastforce simp: pipeAddEvent_def split: option.splits)

lemma unread_pause_blocks:
  assumes "checkPressure alloc (plMaxMem p) = High" "\<not> plStopped p" "\<not> plPaused p" "plPauseCh p = 0"
    and "runOps (pipeStep rf ops) [PCheck alloc, PAdd now evt] p = Some q"
  shows "pipeStep rf ops (PCheck alloc) q = None"
proof -
  let ?p1 = "onMidPressure ops (p\<lparr>plPaused := True, plPauseCh := 1\<rparr>)"
  have "pipeStep rf ops (PCheck alloc) p = Some ?p1"
    using assms(1-4) by (simp add: pressureCheck_def onHighPressure_def)
  then have "pipeAddEvent rf ops now evt ?p1 = Some q" using assms(5) by (simp split: option.splits)
  from pipeAddEvent_frame [OF this] assms(1,2) show ?thesis by (simp add: pressureCheck_def onHighPressure_def)
qed

section \<open>The pipeline on the disk store\<close>

text \<open>While the store is open, a run of the pipeline is a run of operations on the store, and the log lists the edges they put.\<close>

definition edgesOf :: "store_op list \<Rightarrow> edge list" where
  "edgesOf os = concat (map (\<lambda>op. case op of SPutEdge rand e \<Rightarrow> [e] | _ \<Rightarrow> []) os)"

definition randFrom :: "(nat \<Rightarrow> bytes option) \<Rightarrow> store_op \<Rightarrow> bool" where
  "randFrom rnd op = (case op of SPutEdge rand e \<Rightarrow> \<exists>k. rand = rnd k | SPutNode rand n \<Rightarrow> \<exists>k. rand = rnd k | _ \<Rightarrow> True)"

definition diskRun :: "'p pebble \<Rightarrow> (nat \<Rightarrow> bytes option) \<Rightarrow>
    (nat \<times> 'p disk_store) \<times> (edge \<times> bool) list \<Rightarrow> (nat \<times> 'p disk_store) \<times> (edge \<times> bool) list \<Rightarrow> bool" where
  "diskRun b rnd w w' \<longleftrightarrow> (sdClosed (snd (fst w)) \<longrightarrow> sdClosed (snd (fst w'))) \<and>
     (\<not> sdClosed (snd (fst w')) \<longrightarrow> (\<exists>os l. snd (storeRun b os (snd (fst w))) = snd (fst w') \<and> snd w' = snd w @ l
        \<and> map fst l = edgesOf os \<and> (\<forall>op \<in> set os. randFrom rnd op)))"

lemma storeRun_append: "snd (storeRun b (xs @ ys) s) = snd (storeRun b ys (snd (storeRun b xs s)))"
  by (induction xs arbitrary: s) (simp_all add: split_beta)

lemma autoFlush_closed [simp]:
  "sdClosed (snd (storeFlushLocked b s)) = sdClosed s" "sdClosed (snd (autoFlush b s)) = sdClosed s"
  by (simp_all add: storeFlushLocked_def autoFlush_def split_beta)

lemma storeStep_closed: "sdClosed (snd (storeStep b op s)) = sdClosed s"
  by (cases op) (auto simp: PutNode_def PutEdge_def DeleteNode_def FlushStore_def split_beta split: option.split sum.split)

lemma diskRun_step:
  assumes "storeStep b op s = (r, s')" "randFrom rnd op"
  shows "diskRun b rnd ((k, s), l) ((k', s'), l @ (case op of SPutEdge rand e \<Rightarrow> [(e, r = None)] | _ \<Rightarrow> []))"
proof -
  have "sdClosed s' = sdClosed s" using storeStep_closed [of b op s] assms(1) by simp
  then show ?thesis
    using assms by (auto simp: diskRun_def edgesOf_def intro!: exI [of _ "[op]"] split: store_op.split)
qed

lemma diskRun_trans:
  assumes "diskRun b rnd w w1" "diskRun b rnd w1 w2" shows "diskRun b rnd w w2"
proof (cases "sdClosed (snd (fst w2))")
  case False
  then have "\<not> sdClosed (snd (fst w1))" using assms(2) by (auto simp: diskRun_def)
  with False assms obtain os l os' l' where o: "snd (storeRun b os (snd (fst w))) = snd (fst w1)" "snd w1 = snd w @ l" "map fst l = edgesOf os"
    "\<forall>op \<in> set os. randFrom rnd op" "snd (storeRun b os' (snd (fst w1))) = snd (fst w2)" "snd w2 = snd w1 @ l'"
    "map fst l' = edgesOf os'" "\<forall>op \<in> set os'. randFrom rnd op"
    unfolding diskRun_def by blast
  then have "snd (storeRun b (os @ os') (snd (fst w))) = snd (fst w2) \<and> snd w2 = snd w @ (l @ l') \<and> map fst (l @ l') = edgesOf (os @ os')
    \<and> (\<forall>op \<in> set (os @ os'). randFrom rnd op)"
    by (auto simp: storeRun_append edgesOf_def)
  then show ?thesis using assms by (auto simp: diskRun_def)
qed (use assms in \<open>simp add: diskRun_def\<close>)

interpretation disk: store_world "logging (diskOps b rnd)" "diskRun b rnd" for b rnd
proof (unfold_locales, goal_cases)
  case (1 w)
  then show ?case by (auto simp: diskRun_def edgesOf_def intro!: exI [of _ "[]"])
next
  case (2 w w1 w2)
  then show ?case by (rule diskRun_trans)
next
  case (3 w n)
  obtain k s l where w: "w = ((k, s), l)" by (metis surj_pair)
  show ?case
    using diskRun_step [of b "SPutNode (rnd k) n" s _ _ rnd k l "k + 1"] by (auto simp: w logging_def diskOps_def randFrom_def split: prod.split)
next
  case (4 w e)
  obtain k s l where w: "w = ((k, s), l)" by (metis surj_pair)
  show ?case
    using diskRun_step [of b "SPutEdge (rnd k) e" s _ _ rnd k l "k + 1"] by (auto simp: w logging_def diskOps_def randFrom_def split: prod.split)
next
  case (5 w)
  obtain k s l where w: "w = ((k, s), l)" by (metis surj_pair)
  show ?case
    using diskRun_step [of b SFlush s _ _ rnd k l k] by (auto simp: w logging_def diskOps_def randFrom_def split: prod.split)
next
  case (6 w)
  obtain k s l where w: "w = ((k, s), l)" by (metis surj_pair)
  have "sdClosed (snd (CloseStore b s))"
    using autoFlush_closed(1) [of b "s\<lparr>sdClosed := True\<rparr>"]
    by (cases "storeFlushLocked b (s\<lparr>sdClosed := True\<rparr>)") (auto simp: CloseStore_def split_beta split: option.split)
  then show ?case by (auto simp: w logging_def diskOps_def diskRun_def split: prod.split)
qed

lemma opOk_randFrom:
  assumes "randFrom rnd op" "\<forall>k. randOk key (rnd k)" "\<forall>n. \<exists>d. jMarshalNode b n = Some d \<and> jUnmarshalNode b d = Some n"
    "\<forall>e. \<exists>d. jMarshalEdge b e = Some d \<and> jUnmarshalEdge b d = Some e"
  shows "opOk b key op"
proof (cases op)
  case (SPutNode rand n)
  obtain d where "jMarshalNode b n = Some d" "jUnmarshalNode b d = Some n" using assms(3) by blast
  then show ?thesis using SPutNode assms(1,2) by (auto simp: randFrom_def)
next
  case (SPutEdge rand e)
  obtain d where "jMarshalEdge b e = Some d" "jUnmarshalEdge b d = Some e" using assms(4) by blast
  then show ?thesis using SPutEdge assms(1,2) by (auto simp: randFrom_def)
qed simp_all

lemma edgesOf_fold: "fold (edgeAfter f) os m = fold (\<lambda>e m. m(f e \<mapsto> e)) (edgesOf os) m"
proof (induction os arbitrary: m)
  case (Cons op os)
  then show ?case by (cases op) (simp_all add: edgesOf_def)
qed (simp add: edgesOf_def)

text \<open>
  While the store of a working database is open, a query for a time range returns the edges that the pipeline wrote, the last for each
  key.
\<close>

lemma ingested_edges_queryable:
  assumes "workingPebble b view base" "view db = Map.empty" "OpenStore (Some db) key = Inr s0"
    and "\<forall>k. randOk key (rnd k)" "\<forall>n. \<exists>d. jMarshalNode b n = Some d \<and> jUnmarshalNode b d = Some n"
    and "\<forall>e. \<exists>d. jMarshalEdge b e = Some d \<and> jUnmarshalEdge b d = Some e"
    and "NewPipeline (logging (diskOps b rnd)) g cfg (Some ((0, s0), [])) = Some p0"
    and "runOps (pipeStep rf (logging (diskOps b rnd))) script p0 = Some p"
    and "\<not> sdClosed (snd (fst (plStore p)))" "\<forall>(e, ok) \<in> set (snd (plStore p)). plainID (eSource e)"
  shows "\<exists>es. fst (GetEdgesByTimeRange b start stop (snd (fst (plStore p)))) = Inr es \<and> sorted (map edgeTs es)
    \<and> set es = {e \<in> ran (fold (\<lambda>(e, ok) m. m(keyOf e \<mapsto> e)) (snd (plStore p)) Map.empty). start \<le> edgeTs e \<and> edgeTs e < stop}"
proof -
  have "plStore p0 = ((0, s0), [])" using assms(7) by (auto simp: NewPipeline_def Let_def split: sum.splits)
  with disk.pipeRun_R [OF assms(8)] assms(9) obtain os where os: "snd (storeRun b os s0) = snd (fst (plStore p))"
    "map fst (snd (plStore p)) = edgesOf os" "\<forall>op \<in> set os. randFrom rnd op"
    by (auto simp: diskRun_def)
  let ?s = "snd (fst (plStore p))" and ?m = "fold (edgeAfter keyOf) os Map.empty"
  have "\<forall>op \<in> set os. opOk b key op" using os(3) opOk_randFrom assms(4-6) by blast
  then have h: "storeHolds b (view (sdDb ?s)) (sdEncKey ?s) (fold nodeAfter os Map.empty) ?m (fold (edgeAfter reverseOf) os Map.empty)"
    using OpenStore_holds [OF assms(1,2) _ assms(3), of os "fst (storeRun b os s0)" ?s] os(1) by (metis prod.collapse)
  have "keyOf e = k \<and> plainID (eSource e)" if m: "?m k = Some e" for k e
  proof -
    obtain rand where "SPutEdge rand e \<in> set os" "keyOf e = k" using fold_edgeAfter [OF m] by auto
    then have "e \<in> set (edgesOf os)" by (force simp: edgesOf_def)
    then have "e \<in> set (map fst (snd (plStore p)))" by (simp only: os(2))
    then show ?thesis using assms(10) \<open>keyOf e = k\<close> by auto
  qed
  note range = TimeRange_holds [OF assms(1) h this, of start stop]
  have "?m = fold (\<lambda>(e, ok) m. m(keyOf e \<mapsto> e)) (snd (plStore p)) Map.empty"
    by (simp add: edgesOf_fold os(2) [symmetric] fold_map comp_def split_def)
  then show ?thesis using range by metis
qed

end
