(* ===== verification/Bfs.thy ===== *)
theory Bfs
  imports Prelude
begin

text \<open>
  Breadth-first search with a bound on the depth, as the queries over hosts and over the global graph write it: a queue of nodes with
  their depths, nodes marked when they are taken from the queue, successors appended while the depth is below the bound.
  The invariant speaks about the nodes taken so far and the queue; clients show that each turn of their loop is one of
  the steps below.
\<close>

text \<open>A walk of \<open>k\<close> steps is \<open>(E ^^ k) root v\<close>. An entry \<open>(v, d)\<close> is the node and its depth.\<close>

definition bfsInv :: "('n \<Rightarrow> 'n \<Rightarrow> bool) \<Rightarrow> 'n \<Rightarrow> nat \<Rightarrow> ('n \<times> nat) list \<Rightarrow> ('n \<times> nat) list \<Rightarrow> bool" where
  "bfsInv E root limit vis queue \<longleftrightarrow>
     (\<forall>(v, d) \<in> set vis. (E ^^ d) root v \<and> d \<le> limit \<and> (\<forall>k. (E ^^ k) root v \<longrightarrow> d \<le> k)) \<and>
     (\<forall>(v, d) \<in> set queue. (E ^^ d) root v \<and> d \<le> limit) \<and>
     sorted (map snd queue) \<and> (queue \<noteq> [] \<longrightarrow> snd (last queue) \<le> snd (hd queue) + 1) \<and>
     (\<forall>(v, d) \<in> set vis. \<forall>(u, c) \<in> set queue. d \<le> c) \<and>
     (\<exists>d. (root, d) \<in> set vis \<or> (root, 0) \<in> set queue) \<and>
     (\<forall>(u, c) \<in> set vis. c < limit \<longrightarrow> (\<forall>w. E u w \<longrightarrow> (\<exists>d \<le> c + 1. (w, d) \<in> set vis \<or> (w, d) \<in> set queue)))"

lemma bfsInvI:
  assumes "\<And>v d. (v, d) \<in> set vis \<Longrightarrow> (E ^^ d) root v \<and> d \<le> limit"
    and "\<And>v d k. (v, d) \<in> set vis \<Longrightarrow> (E ^^ k) root v \<Longrightarrow> d \<le> k"
    and "\<And>v d. (v, d) \<in> set queue \<Longrightarrow> (E ^^ d) root v \<and> d \<le> limit"
    and "sorted (map snd queue)" "queue \<noteq> [] \<Longrightarrow> snd (last queue) \<le> snd (hd queue) + 1"
    and "\<And>v d u c. (v, d) \<in> set vis \<Longrightarrow> (u, c) \<in> set queue \<Longrightarrow> d \<le> c"
    and "\<exists>d. (root, d) \<in> set vis \<or> (root, 0) \<in> set queue"
    and "\<And>u c w. (u, c) \<in> set vis \<Longrightarrow> c < limit \<Longrightarrow> E u w \<Longrightarrow> \<exists>d \<le> c + 1. (w, d) \<in> set vis \<or> (w, d) \<in> set queue"
  shows "bfsInv E root limit vis queue"
  unfolding bfsInv_def
proof (intro conjI)
  show "\<forall>(v, d) \<in> set vis. (E ^^ d) root v \<and> d \<le> limit \<and> (\<forall>k. (E ^^ k) root v \<longrightarrow> d \<le> k)" using assms(1,2) by blast
  show "\<forall>(v, d) \<in> set queue. (E ^^ d) root v \<and> d \<le> limit" using assms(3) by blast
  show "\<forall>(v, d) \<in> set vis. \<forall>(u, c) \<in> set queue. d \<le> c" using assms(6) by blast
  show "\<forall>(u, c) \<in> set vis. c < limit \<longrightarrow> (\<forall>w. E u w \<longrightarrow> (\<exists>d \<le> c + 1. (w, d) \<in> set vis \<or> (w, d) \<in> set queue))"
    using assms(8) by blast
qed (use assms in simp_all)

lemma bfsInvD:
  assumes "bfsInv E root limit vis queue"
  shows "(v, d) \<in> set vis \<Longrightarrow> (E ^^ d) root v \<and> d \<le> limit"
    and "(v, d) \<in> set vis \<Longrightarrow> (E ^^ k) root v \<Longrightarrow> d \<le> k"
    and "(v, d) \<in> set queue \<Longrightarrow> (E ^^ d) root v \<and> d \<le> limit"
    and "sorted (map snd queue)" "queue \<noteq> [] \<Longrightarrow> snd (last queue) \<le> snd (hd queue) + 1"
    and "(v, d) \<in> set vis \<Longrightarrow> (u, c) \<in> set queue \<Longrightarrow> d \<le> c"
    and "\<exists>d. (root, d) \<in> set vis \<or> (root, 0) \<in> set queue"
    and "(u, c) \<in> set vis \<Longrightarrow> c < limit \<Longrightarrow> E u w \<Longrightarrow> \<exists>d \<le> c + 1. (w, d) \<in> set vis \<or> (w, d) \<in> set queue"
  using assms unfolding bfsInv_def by fast+

lemma sorted_le_last: "sorted xs \<Longrightarrow> x \<in> set xs \<Longrightarrow> x \<le> last xs"
  by (induction xs) auto

lemma bfsInv_start: "bfsInv E root limit [] [(root, 0)]"
  by (rule bfsInvI) auto

text \<open>The end of every short walk has been taken, or the queue holds something at least as near.\<close>

lemma bfs_frontier:
  assumes inv: "bfsInv E root limit vis queue"
  shows "(E ^^ k) root v \<Longrightarrow> k \<le> limit \<Longrightarrow> (\<exists>d \<le> k. (v, d) \<in> set vis) \<or> (\<exists>u c. (u, c) \<in> set queue \<and> c \<le> k)"
proof (induction k arbitrary: v)
  case 0
  then show ?case using bfsInvD(7) [OF inv] bfsInvD(2) [OF inv, of root _ 0] by auto
next
  case (Suc k)
  then obtain u where u: "(E ^^ k) root u" "E u v" by auto
  have "k \<le> limit" "k < limit" using Suc.prems(2) by simp_all
  from Suc.IH [OF u(1) this(1)] consider d where "d \<le> k" "(u, d) \<in> set vis" | w c where "(w, c) \<in> set queue" "c \<le> k" by blast
  then show ?case
  proof cases
    case (1 d)
    then obtain c where "c \<le> d + 1" "(v, c) \<in> set vis \<or> (v, c) \<in> set queue"
      using bfsInvD(8) [OF inv, of u d v] u(2) \<open>k < limit\<close> by force
    moreover have "d + 1 \<le> Suc k" using 1 by simp
    ultimately show ?thesis using order_trans by metis
  next
    case (2 w c)
    then show ?thesis by (meson le_SucI)
  qed
qed

lemma bfs_skip:
  assumes inv: "bfsInv E root limit vis ((v, d) # queue)" and "v \<in> fst ` set vis"
  shows "bfsInv E root limit vis queue"
proof (rule bfsInvI)
  obtain c where c: "(v, c) \<in> set vis" using assms(2) by auto
  then have cd: "c \<le> d" using bfsInvD(6) [OF inv c, of v d] by simp
  show "queue \<noteq> [] \<Longrightarrow> snd (last queue) \<le> snd (hd queue) + 1"
    using bfsInvD(4,5) [OF inv] by (cases queue) (auto split: if_splits)
  show "\<exists>d. (root, d) \<in> set vis \<or> (root, 0) \<in> set queue" using bfsInvD(7) [OF inv] c by auto
  show "\<exists>d' \<le> b + 1. (w, d') \<in> set vis \<or> (w, d') \<in> set queue" if b: "(u, b) \<in> set vis" "b < limit" "E u w" for u b w
  proof -
    obtain d' where "d' \<le> b + 1" "(w, d') \<in> set vis \<or> (w, d') \<in> set ((v, d) # queue)"
      using bfsInvD(8) [OF inv b] by blast
    then show ?thesis using c cd by (auto intro: order_trans)
  qed
  show "sorted (map snd queue)" using bfsInvD(4) [OF inv] by simp
  show "\<And>u b. (u, b) \<in> set vis \<Longrightarrow> (E ^^ b) root u \<and> b \<le> limit" using bfsInvD(1) [OF inv] .
  show "\<And>u b k. (u, b) \<in> set vis \<Longrightarrow> (E ^^ k) root u \<Longrightarrow> b \<le> k" using bfsInvD(2) [OF inv] .
  show "\<And>u b. (u, b) \<in> set queue \<Longrightarrow> (E ^^ b) root u \<and> b \<le> limit" using bfsInvD(3) [OF inv] by (meson list.set_intros(2))
  show "\<And>u b w c. (u, b) \<in> set vis \<Longrightarrow> (w, c) \<in> set queue \<Longrightarrow> b \<le> c" using bfsInvD(6) [OF inv] by (meson list.set_intros(2))
qed

lemma bfs_visit_min:
  assumes inv: "bfsInv E root limit vis ((v, d) # queue)" and "v \<notin> fst ` set vis" "(E ^^ k) root v"
  shows "d \<le> k"
proof (rule ccontr)
  assume "\<not> d \<le> k"
  then have "k < d" "k \<le> limit" using bfsInvD(3) [OF inv, of v d] by auto
  then obtain u c where "(u, c) \<in> set ((v, d) # queue)" "c \<le> k"
    using bfs_frontier [OF inv assms(3)] assms(2) by force
  then show False using bfsInvD(4) [OF inv] \<open>k < d\<close> by auto
qed

lemma bfs_visit:
  assumes inv: "bfsInv E root limit vis ((v, d) # queue)" and nv: "v \<notin> fst ` set vis"
    and new: "\<And>w c. (w, c) \<in> set new \<Longrightarrow> c = d + 1 \<and> E v w \<and> d < limit"
    and all: "\<And>w. d < limit \<Longrightarrow> E v w \<Longrightarrow> w \<in> fst ` set ((v, d) # vis) \<or> w \<in> fst ` set new"
  shows "bfsInv E root limit ((v, d) # vis) (queue @ new)"
proof (rule bfsInvI)
  have vd: "(E ^^ d) root v" "d \<le> limit" using bfsInvD(3) [OF inv, of v d] by auto
  have near: "b \<le> d" if "(u, b) \<in> set ((v, d) # vis)" for u b using that bfsInvD(6) [OF inv, of u b v d] by auto
  have far: "d \<le> c \<and> c \<le> d + 1" if "(u, c) \<in> set queue" for u c
  proof -
    have "sorted (map snd ((v, d) # queue))" "snd (last ((v, d) # queue)) \<le> d + 1" using bfsInvD(4,5) [OF inv] by simp_all
    moreover have "c \<le> snd (last ((v, d) # queue))"
      using that sorted_le_last [of "map snd queue" c] bfsInvD(4) [OF inv] by (force simp: last_map)
    ultimately show ?thesis using that by force
  qed
  show "(E ^^ b) root w \<and> b \<le> limit" if wb: "(w, b) \<in> set (queue @ new)" for w b
  proof (cases "(w, b) \<in> set queue")
    case True
    then show ?thesis using bfsInvD(3) [OF inv] by (meson list.set_intros(2))
  next
    case False
    then have "b = Suc d" "E v w" "d < limit" using wb new [of w b] by auto
    then show ?thesis using vd(1) by auto
  qed
  have "map snd new = replicate (length new) (d + 1)" using new by (intro replicate_eqI) auto
  then show "sorted (map snd (queue @ new))"
    using bfsInvD(4) [OF inv] far by (auto simp: sorted_append)
  show "queue @ new \<noteq> [] \<Longrightarrow> snd (last (queue @ new)) \<le> snd (hd (queue @ new)) + 1"
  proof -
    assume ne: "queue @ new \<noteq> []"
    have "d \<le> snd x \<and> snd x \<le> d + 1" if "x \<in> set (queue @ new)" for x
      using that far [of "fst x" "snd x"] new [of "fst x" "snd x"] by auto
    from this [OF last_in_set [OF ne]] this [OF hd_in_set [OF ne]] show ?thesis by linarith
  qed
  show "\<And>u b w c. (u, b) \<in> set ((v, d) # vis) \<Longrightarrow> (w, c) \<in> set (queue @ new) \<Longrightarrow> b \<le> c"
    using near far new by (metis Un_iff le_add1 order_trans set_append)
  show "\<exists>b. (root, b) \<in> set ((v, d) # vis) \<or> (root, 0) \<in> set (queue @ new)" using bfsInvD(7) [OF inv] by auto
  show "\<exists>d' \<le> b + 1. (w, d') \<in> set ((v, d) # vis) \<or> (w, d') \<in> set (queue @ new)"
    if b: "(u, b) \<in> set ((v, d) # vis)" "b < limit" "E u w" for u b w
  proof (cases "(u, b) = (v, d)")
    case True
    then consider c where "(w, c) \<in> set ((v, d) # vis)" | c where "(w, c) \<in> set new" using all [of w] b by force
    then show ?thesis
    proof cases
      case (1 c)
      then have "c \<le> b + 1" using near [of w c] True by simp
      with 1 show ?thesis by blast
    next
      case (2 c)
      then have "c = b + 1" using new [of w c] True by simp
      with 2 show ?thesis by auto
    qed
  next
    case False
    then show ?thesis using bfsInvD(8) [OF inv, of u b w] b by auto
  qed
  show "\<And>u b. (u, b) \<in> set ((v, d) # vis) \<Longrightarrow> (E ^^ b) root u \<and> b \<le> limit" using bfsInvD(1) [OF inv] vd by auto
  show "\<And>u b k. (u, b) \<in> set ((v, d) # vis) \<Longrightarrow> (E ^^ k) root u \<Longrightarrow> b \<le> k"
    using bfsInvD(2) [OF inv] bfs_visit_min [OF inv nv] by auto
qed

lemma bfs_done:
  assumes inv: "bfsInv E root limit vis []"
  shows "fst ` set vis = {v. \<exists>k \<le> limit. (E ^^ k) root v}"
proof (intro equalityI subsetI)
  fix v assume "v \<in> {v. \<exists>k \<le> limit. (E ^^ k) root v}"
  then show "v \<in> fst ` set vis" using bfs_frontier [OF inv] by force
qed (use bfsInvD(1) [OF inv] in fastforce)

end
