(* ===== verification/BlastRadius.thy ===== *)
theory BlastRadius
  imports Bfs
begin

text \<open>
  Lateral movement (\<^verbatim>\<open>policy/blastradius/blast.go\<close>, \<^verbatim>\<open>credential.go\<close>, \<^verbatim>\<open>path.go\<close>): the hosts an intrusion can reach,
  credential theft followed by a remote login, and paths over hosts that no template allows. Clock readings are arguments.
\<close>

section \<open>Blast radius\<close>

record lateral_edge =
  leSourceHost :: string
  leTargetHost :: string
  leRelation :: string
  lePID :: u32
  leComm :: string
  leTainted :: bool

record host_impact =
  hiHostID :: string
  hiProcesses :: "string list"
  hiFiles :: "string list"
  hiNetworks :: "string list"
  hiIsCritical :: bool
  hiRiskScore :: int

record blast_result =
  brRootNode :: string
  brRootHost :: string
  brAffectedHosts :: "host_impact list"
  brTotalHosts :: nat
  brTotalAssets :: nat
  brMaxDepth :: nat

record blast_engine =
  beMaxDepth :: nat
  beMaxHosts :: nat

definition NewBlastRadiusEngine :: blast_engine where
  "NewBlastRadiusEngine = \<lparr>beMaxDepth = 10, beMaxHosts = 10\<rparr>"

fun uniqueLoop :: "string set \<Rightarrow> string list \<Rightarrow> string list" where
  "uniqueLoop seen [] = []"
| "uniqueLoop seen (v # s) = (if v \<notin> seen then v # uniqueLoop (insert v seen) s else uniqueLoop seen s)"

definition uniqueStr :: "string list \<Rightarrow> string list" where
  "uniqueStr s = uniqueLoop {} s"

definition pidText :: "lateral_edge \<Rightarrow> string" where
  "pidText e = leComm e @ ''(PID '' @ showU (lePID e) @ '')''"

definition getHostProcesses :: "string \<Rightarrow> lateral_edge list \<Rightarrow> string list" where
  "getHostProcesses hostID edges = uniqueStr (map pidText (filter (\<lambda>e. leSourceHost e = hostID \<and> leComm e \<noteq> []) edges))"

definition getHostFiles :: "string \<Rightarrow> lateral_edge list \<Rightarrow> string list" where
  "getHostFiles hostID edges = uniqueStr (map (\<lambda>e. ''transferred_by_'' @ pidText e)
     (filter (\<lambda>e. leSourceHost e = hostID \<and> leTainted e \<and> leComm e \<noteq> []
        \<and> (leRelation e = ''scp'' \<or> leRelation e = ''rsync'')) edges))"

definition getHostNetworks :: "string \<Rightarrow> lateral_edge list \<Rightarrow> string list" where
  "getHostNetworks hostID edges = uniqueStr (map (\<lambda>e. ''lateral_'' @ leRelation e @ ''_to_'' @ leTargetHost e)
     (filter (\<lambda>e. leSourceHost e = hostID \<and> leTainted e) edges))"

text \<open>The score is a whole number, which a float represents exactly.\<close>

definition calcHostRisk :: "host_impact \<Rightarrow> int" where
  "calcHostRisk impact =
     (let score = int (length (hiProcesses impact) * 10 + length (hiFiles impact) * 5 + length (hiNetworks impact) * 15)
      in if score > 100 then 100 else score)"

definition hostImpact :: "string \<Rightarrow> lateral_edge list \<Rightarrow> host_impact" where
  "hostImpact host edges =
     (let impact = \<lparr>hiHostID = host, hiProcesses = getHostProcesses host edges, hiFiles = getHostFiles host edges,
            hiNetworks = getHostNetworks host edges, hiIsCritical = False, hiRiskScore = 0\<rparr>;
          impact = impact\<lparr>hiRiskScore := calcHostRisk impact\<rparr>
      in impact\<lparr>hiIsCritical := hiRiskScore impact > 50\<rparr>)"

record blast_item =
  biHost :: string
  biDepth :: nat
  biPath :: "string list"

definition followEdges :: "lateral_edge list \<Rightarrow> string list \<Rightarrow> blast_item \<Rightarrow> blast_item list" where
  "followEdges edges visited item =
     map (\<lambda>e. \<lparr>biHost = leTargetHost e, biDepth = biDepth item + 1, biPath = biPath item @ [leTargetHost e]\<rparr>)
       (filter (\<lambda>e. leSourceHost e = biHost item \<and> leTargetHost e \<notin> set visited) edges)"

function blastLoop ::
  "blast_engine \<Rightarrow> lateral_edge list \<Rightarrow> blast_item list \<Rightarrow> string list \<Rightarrow> host_impact list \<Rightarrow> host_impact list" where
  "blastLoop bre edges [] visited hosts = hosts"
| "blastLoop bre edges (item # queue) visited hosts =
     (if biHost item \<in> set visited then blastLoop bre edges queue visited hosts
      else let visited = biHost item # visited; hosts = hosts @ [hostImpact (biHost item) edges]
        in if (beMaxHosts bre > 0 \<and> length hosts \<ge> beMaxHosts bre) \<or> biDepth item \<ge> beMaxDepth bre
           then blastLoop bre edges queue visited hosts
           else blastLoop bre edges (queue @ followEdges edges visited item) visited hosts)"
  by pat_completeness auto
termination
proof (relation "measures [\<lambda>(bre, edges, queue, visited, hosts). card ((biHost ` set queue \<union> leTargetHost ` set edges) - set visited),
    \<lambda>(bre, edges, queue, visited, hosts). length queue]", goal_cases)
  case (2 bre edges item queue visited hosts)
  then have "(biHost ` set queue \<union> leTargetHost ` set edges) - set visited
      = (biHost ` set (item # queue) \<union> leTargetHost ` set edges) - set visited" by auto
  then show ?case by simp
next
  case (3 bre edges item queue visited hosts v h)
  have "(biHost ` set queue \<union> leTargetHost ` set edges) - set (biHost item # visited)
      \<subset> (biHost ` set (item # queue) \<union> leTargetHost ` set edges) - set visited" using 3 by auto
  then show ?case using 3 by (simp add: psubset_card_mono)
next
  case (4 bre edges item queue visited hosts v h)
  have "(biHost ` set (queue @ followEdges edges v item) \<union> leTargetHost ` set edges) - set (biHost item # visited)
      \<subset> (biHost ` set (item # queue) \<union> leTargetHost ` set edges) - set visited" using 4 by (auto simp: followEdges_def)
  then show ?case using 4 by (simp add: psubset_card_mono)
qed simp

definition CalculateBlast :: "string \<Rightarrow> string \<Rightarrow> lateral_edge list \<Rightarrow> blast_engine \<Rightarrow> blast_result" where
  "CalculateBlast rootNode rootHost lateralEdges bre =
     (let hosts = blastLoop bre lateralEdges [\<lparr>biHost = rootHost, biDepth = 0, biPath = [rootHost]\<rparr>] [] []
      in \<lparr>brRootNode = rootNode, brRootHost = rootHost, brAffectedHosts = hosts, brTotalHosts = length hosts,
          brTotalAssets = sum_list (map (\<lambda>h. length (hiProcesses h) + length (hiFiles h) + length (hiNetworks h)) hosts),
          brMaxDepth = beMaxDepth bre\<rparr>)"

section \<open>Credential theft\<close>

record lsass_event =
  lsID :: string
  lsHostID :: string
  lsPID :: u32
  lsComm :: string
  lsTimestamp :: time

record remote_login =
  rlID :: string
  rlSourceHost :: string
  rlTargetHost :: string
  rlIdentity :: string
  rlPID :: u32
  rlComm :: string
  rlTimestamp :: time

record cred_incident =
  ciID :: string
  ciLSASSEvent :: lsass_event
  ciRemoteLogins :: "remote_login list"
  ciIdentity :: string
  ciFirstSeen :: time
  ciLastSeen :: time
  ciAlerted :: bool

record cred_correlator =
  ccLsass :: "lsass_event list"
  ccLogins :: "remote_login list"
  ccIncidents :: "cred_incident list"
  ccWindow :: int

definition NewCredentialCorrelator :: cred_correlator where
  "NewCredentialCorrelator = \<lparr>ccLsass = [], ccLogins = [], ccIncidents = [], ccWindow = 3600000000000\<rparr>"

definition RecordLSASS :: "time \<Rightarrow> time \<Rightarrow> time \<Rightarrow> string \<Rightarrow> u32 \<Rightarrow> string \<Rightarrow> cred_correlator \<Rightarrow> cred_incident \<times> cred_correlator" where
  "RecordLSASS now1 now2 now3 hostID pid comm cc =
     (let evt = \<lparr>lsID = ''LSASS-'' @ showInt now1, lsHostID = hostID, lsPID = pid, lsComm = comm, lsTimestamp = now2\<rparr>;
          inc = \<lparr>ciID = ''CRED-'' @ showInt now3, ciLSASSEvent = evt, ciRemoteLogins = [], ciIdentity = ''unknown'',
            ciFirstSeen = now2, ciLastSeen = now2, ciAlerted = False\<rparr>
      in (inc, cc\<lparr>ccLsass := ccLsass cc @ [evt], ccIncidents := ccIncidents cc @ [inc]\<rparr>))"

text \<open>The loop over the incidents updates the first that matches.\<close>

fun correlateLogin :: "int \<Rightarrow> remote_login \<Rightarrow> cred_incident list \<Rightarrow> cred_incident option \<times> cred_incident list" where
  "correlateLogin window evt [] = (None, [])"
| "correlateLogin window evt (inc # incs) =
     (if \<not> ciAlerted inc \<and> \<not> (timeSub (rlTimestamp evt) (ciFirstSeen inc) > window) \<and> lsHostID (ciLSASSEvent inc) = rlSourceHost evt
      then (let inc = inc\<lparr>ciRemoteLogins := ciRemoteLogins inc @ [evt], ciIdentity := rlIdentity evt,
                  ciLastSeen := rlTimestamp evt, ciAlerted := True\<rparr> in (Some inc, inc # incs))
      else (case correlateLogin window evt incs of (m, incs) \<Rightarrow> (m, inc # incs)))"

definition RecordRemoteLogin ::
  "time \<Rightarrow> time \<Rightarrow> string \<Rightarrow> string \<Rightarrow> string \<Rightarrow> u32 \<Rightarrow> string \<Rightarrow> cred_correlator \<Rightarrow> cred_incident option \<times> cred_correlator" where
  "RecordRemoteLogin now1 now2 sourceHost targetHost identity pid comm cc =
     (let evt = \<lparr>rlID = ''LOGIN-'' @ showInt now1, rlSourceHost = sourceHost, rlTargetHost = targetHost, rlIdentity = identity,
            rlPID = pid, rlComm = comm, rlTimestamp = now2\<rparr>;
          (m, incs) = correlateLogin (ccWindow cc) evt (ccIncidents cc)
      in (m, cc\<lparr>ccLogins := ccLogins cc @ [evt], ccIncidents := incs\<rparr>))"

section \<open>Anomalous paths\<close>

record path_template =
  ptName :: string
  ptSegments :: "string list"

definition DefaultPathTemplates :: "path_template list" where
  "DefaultPathTemplates =
    [\<lparr>ptName = ''user>>eb>>pi>>b'', ptSegments = [''user-pc'', ''web-server'', ''api-server'', ''database'']\<rparr>,
     \<lparr>ptName = ''dev>>est>>rod'', ptSegments = [''developer-pc'', ''test-server'', ''production-server'']\<rparr>,
     \<lparr>ptName = ''admin>>ump>>arget'', ptSegments = [''admin-pc'', ''jump-server'', ''target-server'']\<rparr>,
     \<lparr>ptName = ''monitoring>>arget'', ptSegments = [''monitoring-server'', ''target-server'']\<rparr>]"

record path_alert =
  paID :: string
  paPath :: "string list"
  paDescription :: string
  paSuspected :: string
  paSeverity :: string
  paTimestamp :: time

record path_detector =
  pdTemplates :: "path_template list"
  pdAlerts :: "path_alert list"

definition NewAnomalousPathDetector :: path_detector where
  "NewAnomalousPathDetector = \<lparr>pdTemplates = DefaultPathTemplates, pdAlerts = []\<rparr>"

fun describeJumps :: "string list \<Rightarrow> string list \<Rightarrow> string list" where
  "describeJumps (h # path) (r # roles) = (h @ ''('' @ r @ '')'') # describeJumps path roles"
| "describeJumps path roles = path"

definition matchTemplate :: "string list \<Rightarrow> string list \<Rightarrow> bool" where
  "matchTemplate roles template = (length roles = length template \<and> list_all2 (=) roles template)"

fun classifyAnomaly :: "string list \<Rightarrow> string" where
  "classifyAnomaly [] = ''unexpected_path''"
| "classifyAnomaly (role # roles) =
     (if role = ''jump-server'' \<or> role = ''bastion'' then ''jump''
      else if role = ''production-server'' \<or> role = ''database'' then ''escalation''
      else classifyAnomaly roles)"

definition CheckPath :: "time \<Rightarrow> time \<Rightarrow> string list \<Rightarrow> string list \<Rightarrow> path_detector \<Rightarrow> path_alert option \<times> path_detector" where
  "CheckPath now1 now2 path roles apd =
     (if length path < 2 then (None, apd)
      else if list_ex (\<lambda>t. matchTemplate roles (ptSegments t)) (pdTemplates apd) then (None, apd)
      else let alert = \<lparr>paID = ''PATH-'' @ showInt now1, paPath = path,
                 paDescription = ''Anomalous path: '' @ joinWith '' -> '' (describeJumps path roles),
                 paSuspected = classifyAnomaly roles, paSeverity = ''HIGH'', paTimestamp = now2\<rparr>
           in (Some alert, apd\<lparr>pdAlerts := pdAlerts apd @ [alert]\<rparr>))"

section \<open>Reachable hosts\<close>

definition lateral :: "lateral_edge list \<Rightarrow> string \<Rightarrow> string \<Rightarrow> bool" where
  "lateral edges a b = (\<exists>e \<in> set edges. leSourceHost e = a \<and> leTargetHost e = b)"

lemma length_blastLoop: "length hosts \<le> length (blastLoop bre edges queue visited hosts)"
proof (induction bre edges queue visited hosts rule: blastLoop.induct)
  case (2 bre edges item queue visited hosts)
  show ?case
  proof (cases "biHost item \<in> set visited")
    case False
    then show ?thesis using 2(2,3) [OF False refl refl] by (auto simp: Let_def dest!: Suc_leD)
  qed (use 2(1) in simp)
qed simp

lemma hiHostID_hostImpact [simp]: "hiHostID (hostImpact host edges) = host"
  by (simp add: hostImpact_def Let_def)

lemma blastLoop_bfs:
  assumes "length (blastLoop bre edges queue visited hosts) < beMaxHosts bre"
    and "bfsInv (lateral edges) root (beMaxDepth bre) vis (map (\<lambda>i. (biHost i, biDepth i)) queue)"
    and "visited = map fst vis" "map hiHostID hosts = rev visited" "distinct visited"
  shows "\<exists>vis'. bfsInv (lateral edges) root (beMaxDepth bre) vis' [] \<and> distinct (map fst vis')
    \<and> map hiHostID (blastLoop bre edges queue visited hosts) = rev (map fst vis')"
  using assms
proof (induction bre edges queue visited hosts arbitrary: vis rule: blastLoop.induct)
  case (1 bre edges visited hosts)
  then show ?case by auto
next
  case (2 bre edges item queue visited hosts)
  let ?h = "biHost item" and ?d = "biDepth item" and ?new = "followEdges edges (biHost item # visited) item"
  let ?hosts = "hosts @ [hostImpact ?h edges]"
  show ?case
  proof (cases "?h \<in> set visited")
    case True
    then show ?thesis using 2(1) [OF True, of vis] 2(4-) bfs_skip [OF 2(5) [simplified list.map]] by force
  next
    case False
    have nv: "?h \<notin> fst ` set vis" using False 2(6) by simp
    have inv: "bfsInv (lateral edges) root (beMaxDepth bre) vis ((?h, ?d) # map (\<lambda>i. (biHost i, biDepth i)) queue)"
      using 2(5) by simp
    have "length ?hosts \<le> length (blastLoop bre edges (item # queue) visited hosts)"
      using False length_blastLoop [of ?hosts bre edges _ "?h # visited"] by (simp add: Let_def)
    then have len: "length ?hosts < beMaxHosts bre" using 2(4) by linarith
    show ?thesis
    proof (cases "?d \<ge> beMaxDepth bre")
      case True
      have "bfsInv (lateral edges) root (beMaxDepth bre) ((?h, ?d) # vis) (map (\<lambda>i. (biHost i, biDepth i)) queue @ [])"
        using True by (intro bfs_visit [OF inv nv]) auto
      then show ?thesis using 2(2) [OF False refl refl, of "(?h, ?d) # vis"] True False 2(4-) len by (simp add: Let_def)
    next
      case deep: False
      have "bfsInv (lateral edges) root (beMaxDepth bre) ((?h, ?d) # vis)
          (map (\<lambda>i. (biHost i, biDepth i)) queue @ map (\<lambda>i. (biHost i, biDepth i)) ?new)"
        using deep 2(6) by (intro bfs_visit [OF inv nv]) (auto simp: followEdges_def lateral_def image_iff)
      then show ?thesis using 2(3) [OF False refl refl, of "(?h, ?d) # vis"] deep False 2(4-) len by (simp add: Let_def)
    qed
  qed
qed

declare blastLoop.simps(2) [simp del]

text \<open>While fewer hosts than the limit are found, the report lists exactly the hosts within reach, each once.\<close>

lemma blast_radius_exact:
  assumes "brTotalHosts (CalculateBlast rootNode rootHost edges bre) < beMaxHosts bre"
  shows "distinct (map hiHostID (brAffectedHosts (CalculateBlast rootNode rootHost edges bre)))
    \<and> hiHostID ` set (brAffectedHosts (CalculateBlast rootNode rootHost edges bre))
      = {h. \<exists>k \<le> beMaxDepth bre. (lateral edges ^^ k) rootHost h}"
proof -
  let ?hosts = "blastLoop bre edges [\<lparr>biHost = rootHost, biDepth = 0, biPath = [rootHost]\<rparr>] [] []"
  obtain vis where v: "bfsInv (lateral edges) rootHost (beMaxDepth bre) vis []" "distinct (map fst vis)"
    "map hiHostID ?hosts = rev (map fst vis)"
    using blastLoop_bfs [of bre edges "[\<lparr>biHost = rootHost, biDepth = 0, biPath = [rootHost]\<rparr>]" "[]" "[]" rootHost "[]"]
      assms bfsInv_start [of "lateral edges" rootHost "beMaxDepth bre"] by (auto simp: CalculateBlast_def Let_def)
  have "set (map hiHostID ?hosts) = set (rev (map fst vis))" by (simp only: v(3))
  then have "hiHostID ` set ?hosts = fst ` set vis" by simp
  then show ?thesis using v bfs_done [OF v(1)] by (simp add: CalculateBlast_def Let_def)
qed

text \<open>Hosts that were queued before the limit was reached are reported all the same: here are thirteen, with a limit of ten.\<close>

lemma blast_radius_over_limit:
  "brTotalHosts (CalculateBlast ''n'' ''r'' (map (\<lambda>i. \<lparr>leSourceHost = ''r'', leTargetHost = showNat i, leRelation = ''ssh'', lePID = 1,
     leComm = ''sshd'', leTainted = True\<rparr>) [0..<12]) NewBlastRadiusEngine) = 13"
  by code_simp

section \<open>Incidents and paths\<close>

text \<open>The first open incident of the host within the window takes the login, and only that one.\<close>

definition loginMatches :: "int \<Rightarrow> remote_login \<Rightarrow> cred_incident \<Rightarrow> bool" where
  "loginMatches window evt inc \<longleftrightarrow> \<not> ciAlerted inc \<and> timeSub (rlTimestamp evt) (ciFirstSeen inc) \<le> window
     \<and> lsHostID (ciLSASSEvent inc) = rlSourceHost evt"

lemma correlateLogin_spec:
  "correlateLogin window evt incs = (m, incs') \<Longrightarrow>
     (case m of
        None \<Rightarrow> list_all (\<lambda>inc. \<not> loginMatches window evt inc) incs \<and> incs' = incs
      | Some inc' \<Rightarrow> \<exists>pre inc post. incs = pre @ inc # post \<and> list_all (\<lambda>inc. \<not> loginMatches window evt inc) pre \<and> loginMatches window evt inc
          \<and> inc' = inc\<lparr>ciRemoteLogins := ciRemoteLogins inc @ [evt], ciIdentity := rlIdentity evt, ciLastSeen := rlTimestamp evt, ciAlerted := True\<rparr>
          \<and> incs' = pre @ inc' # post)"
proof (induction incs arbitrary: m incs')
  case (Cons inc incs)
  show ?case
  proof (cases "loginMatches window evt inc")
    case True
    then show ?thesis using Cons.prems by (auto simp: loginMatches_def Let_def intro!: exI [of _ "[]"])
  next
    case False
    obtain m1 incs1 where r: "correlateLogin window evt incs = (m1, incs1)" by force
    then have e: "m = m1" "incs' = inc # incs1" using Cons.prems False by (auto simp: loginMatches_def)
    show ?thesis
    proof (cases m1)
      case None
      then show ?thesis using Cons.IH [OF r] e False by simp
    next
      case (Some i)
      then obtain pre x post where "incs = pre @ x # post" "list_all (\<lambda>inc. \<not> loginMatches window evt inc) pre" "loginMatches window evt x"
        "i = x\<lparr>ciRemoteLogins := ciRemoteLogins x @ [evt], ciIdentity := rlIdentity evt, ciLastSeen := rlTimestamp evt, ciAlerted := True\<rparr>"
        "incs1 = pre @ i # post"
        using Cons.IH [OF r] by auto
      then show ?thesis using e False Some by (auto intro!: exI [of _ "inc # pre"])
    qed
  qed
qed simp

text \<open>An incident never holds more than one login, since the first closes it.\<close>

definition openOrSingle :: "cred_incident \<Rightarrow> bool" where
  "openOrSingle inc = (length (ciRemoteLogins inc) = (if ciAlerted inc then 1 else 0))"

definition singleLogin :: "cred_correlator \<Rightarrow> bool" where
  "singleLogin cc = list_all openOrSingle (ccIncidents cc)"

lemma openOrSingle_new: "openOrSingle inc \<Longrightarrow> \<not> ciAlerted inc \<Longrightarrow> openOrSingle
    (inc\<lparr>ciRemoteLogins := ciRemoteLogins inc @ [evt], ciIdentity := i, ciLastSeen := t, ciAlerted := True\<rparr>)"
  by (simp add: openOrSingle_def)

lemma incidents_single_login:
  "singleLogin NewCredentialCorrelator"
  "singleLogin cc \<Longrightarrow> singleLogin (snd (RecordLSASS t1 t2 t3 host pid comm cc))"
  "singleLogin cc \<Longrightarrow> singleLogin (snd (RecordRemoteLogin t1 t2 src tgt identity pid comm cc))"
proof -
  show "singleLogin NewCredentialCorrelator" by (simp add: singleLogin_def NewCredentialCorrelator_def)
  show "singleLogin cc \<Longrightarrow> singleLogin (snd (RecordLSASS t1 t2 t3 host pid comm cc))"
    by (simp add: singleLogin_def openOrSingle_def RecordLSASS_def Let_def)
  assume s: "singleLogin cc"
  define evt where "evt = \<lparr>rlID = ''LOGIN-'' @ showInt t1, rlSourceHost = src, rlTargetHost = tgt, rlIdentity = identity,
    rlPID = pid, rlComm = comm, rlTimestamp = t2\<rparr>"
  obtain m incs where c: "correlateLogin (ccWindow cc) evt (ccIncidents cc) = (m, incs)" by force
  then have "snd (RecordRemoteLogin t1 t2 src tgt identity pid comm cc) = cc\<lparr>ccLogins := ccLogins cc @ [evt], ccIncidents := incs\<rparr>"
    by (simp add: RecordRemoteLogin_def evt_def)
  moreover have "list_all openOrSingle incs"
    using correlateLogin_spec [OF c] s openOrSingle_new by (cases m) (auto simp: singleLogin_def loginMatches_def)
  ultimately show "singleLogin (snd (RecordRemoteLogin t1 t2 src tgt identity pid comm cc))" by (simp add: singleLogin_def)
qed

text \<open>A path raises an alert exactly when it has at least two hosts and its roles are not those of a template.\<close>

lemma CheckPath_alerts:
  "fst (CheckPath t1 t2 path roles apd) \<noteq> None \<longleftrightarrow> 2 \<le> length path \<and> roles \<notin> ptSegments ` set (pdTemplates apd)"
proof -
  have "matchTemplate roles t \<longleftrightarrow> roles = t" for t by (auto simp: matchTemplate_def list.rel_eq)
  then show ?thesis by (auto simp: CheckPath_def Let_def list_ex_iff)
qed

lemma CheckPath_records:
  "pdAlerts (snd (CheckPath t1 t2 path roles apd)) = pdAlerts apd @ (case fst (CheckPath t1 t2 path roles apd) of None \<Rightarrow> [] | Some a \<Rightarrow> [a])"
  by (simp add: CheckPath_def Let_def)

end
