(* ===== verification/GlobalGraph.thy ===== *)
theory GlobalGraph
  imports Bfs
begin

text \<open>
  The global graph of the central server (\<^verbatim>\<open>storage/graphdb/graphdb.go\<close>, \<^verbatim>\<open>index.go\<close>, \<^verbatim>\<open>lifecycle.go\<close>): the in-memory graph
  database with its search for paths, the indexes by host, address and identity, and the tiers of retained data. Property values are
  strings, integers and booleans. Clock readings are arguments.
\<close>

section \<open>Graph database\<close>

datatype prop_val = PropStr string | PropInt int | PropBool bool

type_synonym props = "(string \<times> prop_val) list"

fun sprintVal :: "prop_val \<Rightarrow> string" where
  "sprintVal (PropStr s) = s"
| "sprintVal (PropInt i) = showInt i"
| "sprintVal (PropBool b) = (if b then ''true'' else ''false'')"

text \<open>The type assertion \<^verbatim>\<open>props[key].(string)\<close>.\<close>

definition strProp :: "string \<Rightarrow> props \<Rightarrow> string option" where
  "strProp key props = (case map_of props key of Some (PropStr s) \<Rightarrow> Some s | _ \<Rightarrow> None)"

record global_node =
  gnID :: string
  gnType :: string
  gnLabel :: string
  gnHostID :: string
  gnAgentID :: string
  gnProps :: props
  gnCreatedAt :: time

record global_edge =
  geSource :: string
  geTarget :: string
  geRelation :: string
  geHostID :: string
  geProps :: props
  geTime :: time

record mem_graph_db =
  mdNodes :: "(string \<times> global_node) list"
  mdEdges :: "global_edge list"

definition NewMemGraphDB :: mem_graph_db where
  "NewMemGraphDB = \<lparr>mdNodes = [], mdEdges = []\<rparr>"

definition CreateNode :: "time \<Rightarrow> string \<Rightarrow> string \<Rightarrow> string \<Rightarrow> props \<Rightarrow> mem_graph_db \<Rightarrow> string \<times> mem_graph_db" where
  "CreateNode now nodeType i label props db =
     (let node = \<lparr>gnID = i, gnType = nodeType, gnLabel = label, gnHostID = [], gnAgentID = [], gnProps = props, gnCreatedAt = now\<rparr>;
          node = (case strProp ''host_id'' props of Some h \<Rightarrow> node\<lparr>gnHostID := h\<rparr> | None \<Rightarrow> node);
          node = (case strProp ''agent_id'' props of Some a \<Rightarrow> node\<lparr>gnAgentID := a\<rparr> | None \<Rightarrow> node)
      in (i, db\<lparr>mdNodes := AList.update i node (mdNodes db)\<rparr>))"

definition CreateEdge :: "time \<Rightarrow> string \<Rightarrow> string \<Rightarrow> string \<Rightarrow> props \<Rightarrow> mem_graph_db \<Rightarrow> string \<times> mem_graph_db" where
  "CreateEdge now sourceID targetID relation props db =
     (let edge = \<lparr>geSource = sourceID, geTarget = targetID, geRelation = relation, geHostID = [], geProps = props, geTime = now\<rparr>;
          edge = (case strProp ''host_id'' props of Some h \<Rightarrow> edge\<lparr>geHostID := h\<rparr> | None \<Rightarrow> edge)
      in (''e:'' @ sourceID @ ''-'' @ targetID @ ''-'' @ relation, db\<lparr>mdEdges := mdEdges db @ [edge]\<rparr>))"

definition matchProps :: "props \<Rightarrow> props \<Rightarrow> bool" where
  "matchProps nodeProps query =
     list_all (\<lambda>(k, v). case map_of nodeProps k of None \<Rightarrow> False | Some nodeVal \<Rightarrow> sprintVal nodeVal = sprintVal v) query"

record node_row =
  nrID :: string
  nrType :: string
  nrLabel :: string
  nrHostID :: string
  nrAgentID :: string

definition QueryNodes :: "string \<Rightarrow> props \<Rightarrow> mem_graph_db \<Rightarrow> node_row list" where
  "QueryNodes label props db =
     map (\<lambda>(i, n). \<lparr>nrID = gnID n, nrType = gnType n, nrLabel = gnLabel n, nrHostID = gnHostID n, nrAgentID = gnAgentID n\<rparr>)
       (filter (\<lambda>(i, n). (equalFold (gnType n) label \<or> label = []) \<and> matchProps (gnProps n) props) (mdNodes db))"

record path_item =
  piID :: string
  piPath :: "string list"
  piDepth :: nat

text \<open>The loop over the edges of one node: the path when the target is next, otherwise what is appended to the queue.\<close>

fun stepEdges :: "string \<Rightarrow> int \<Rightarrow> string list \<Rightarrow> path_item \<Rightarrow> global_edge list \<Rightarrow> string list + path_item list" where
  "stepEdges target maxHops visited cur [] = Inr []"
| "stepEdges target maxHops visited cur (e # es) =
     (case (if geSource e = piID cur then Some (geTarget e) else if geTarget e = piID cur then Some (geSource e) else None) of
        None \<Rightarrow> stepEdges target maxHops visited cur es
      | Some next \<Rightarrow>
          if next = target then Inl (piPath cur @ [next])
          else map_sum id (\<lambda>new. if int (piDepth cur) < maxHops \<and> next \<notin> set visited
                 then \<lparr>piID = next, piPath = piPath cur @ [next], piDepth = piDepth cur + 1\<rparr> # new else new)
               (stepEdges target maxHops visited cur es))"

text \<open>Edges are followed in both directions.\<close>

definition linked :: "global_edge list \<Rightarrow> string \<Rightarrow> string \<Rightarrow> bool" where
  "linked es a b = list_ex (\<lambda>e. geSource e = a \<and> geTarget e = b \<or> geTarget e = a \<and> geSource e = b) es"

lemma stepEdges_found:
  "stepEdges target maxHops visited cur es = Inl p \<Longrightarrow> p = piPath cur @ [target] \<and> linked es (piID cur) target"
proof (induction es)
  case (Cons e es)
  then show ?case
    by (cases "stepEdges target maxHops visited cur es") (auto simp: linked_def split: if_splits)
qed simp

lemma stepEdges_item:
  "stepEdges target maxHops visited cur es = Inr new \<Longrightarrow> x \<in> set new \<Longrightarrow>
     piDepth x = piDepth cur + 1 \<and> piPath x = piPath cur @ [piID x] \<and> linked es (piID cur) (piID x) \<and> int (piDepth cur) < maxHops"
proof (induction es arbitrary: new)
  case (Cons e es)
  then show ?case
    by (cases "stepEdges target maxHops visited cur es") (auto simp: linked_def split: if_splits)
qed simp

lemma stepEdges_ends:
  assumes "stepEdges target maxHops visited cur es = Inr new" "x \<in> set new"
  shows "piID x \<in> geSource ` set es \<or> piID x \<in> geTarget ` set es"
proof -
  have "linked es (piID cur) (piID x)" using stepEdges_item [OF assms] by blast
  then show ?thesis by (force simp: linked_def list_ex_iff)
qed

lemma stepEdges_all:
  "stepEdges target maxHops visited cur es = Inr new \<Longrightarrow> linked es (piID cur) w \<Longrightarrow>
     w \<noteq> target \<and> (int (piDepth cur) < maxHops \<longrightarrow> w \<in> set visited \<or> w \<in> piID ` set new)"
proof (induction es arbitrary: new)
  case (Cons e es)
  then show ?case
    by (cases "stepEdges target maxHops visited cur es") (auto simp: linked_def split: if_splits)
qed (simp add: linked_def)

function hopLoop :: "global_edge list \<Rightarrow> string \<Rightarrow> int \<Rightarrow> path_item list \<Rightarrow> string list \<Rightarrow> string list option" where
  "hopLoop edges target maxHops [] visited = None"
| "hopLoop edges target maxHops (cur # queue) visited =
     (if piID cur \<in> set visited then hopLoop edges target maxHops queue visited
      else let visited = piID cur # visited in
        case stepEdges target maxHops visited cur edges of
          Inl path \<Rightarrow> Some path
        | Inr new \<Rightarrow> hopLoop edges target maxHops (queue @ new) visited)"
  by pat_completeness auto
termination
proof (relation "measures [\<lambda>(edges, t, m, queue, visited). card ((piID ` set queue \<union> geSource ` set edges \<union> geTarget ` set edges) - set visited),
    \<lambda>(edges, t, m, queue, visited). length queue]", goal_cases)
  case (2 edges t m cur queue visited)
  then have "(piID ` set queue \<union> geSource ` set edges \<union> geTarget ` set edges) - set visited
      = (piID ` set (cur # queue) \<union> geSource ` set edges \<union> geTarget ` set edges) - set visited" by auto
  then show ?case by simp
next
  case (3 edges t m cur queue visited v new)
  have "(piID ` set (queue @ new) \<union> geSource ` set edges \<union> geTarget ` set edges) - set (piID cur # visited)
      \<subset> (piID ` set (cur # queue) \<union> geSource ` set edges \<union> geTarget ` set edges) - set visited"
    using 3 stepEdges_ends [of t m v cur edges new] by auto
  then show ?case using 3 by (simp add: psubset_card_mono)
qed simp

text \<open>The result holds the path and its number of nodes.\<close>

definition QueryPaths :: "string \<Rightarrow> string \<Rightarrow> int \<Rightarrow> mem_graph_db \<Rightarrow> (string list \<times> nat) list" where
  "QueryPaths sourceID targetID maxHops db =
     (case hopLoop (mdEdges db) targetID maxHops [\<lparr>piID = sourceID, piPath = [sourceID], piDepth = 0\<rparr>] [] of
        None \<Rightarrow> [] | Some path \<Rightarrow> [(path, length path)])"

text \<open>\<^verbatim>\<open>InsertSubgraph\<close> on this database, whose operations do not fail; the reported properties override the identifiers of host and agent.\<close>

definition InsertSubgraph :: "time \<Rightarrow> global_node list \<Rightarrow> global_edge list \<Rightarrow> mem_graph_db \<Rightarrow> mem_graph_db" where
  "InsertSubgraph now nodes edges db =
     (let db = fold (\<lambda>n db. snd (CreateNode now (gnType n) (gnID n) (gnLabel n)
            (fold (\<lambda>(k, v). AList.update k v) (gnProps n) [(''host_id'', PropStr (gnHostID n)), (''agent_id'', PropStr (gnAgentID n))]) db)) nodes db
      in fold (\<lambda>e db. snd (CreateEdge now (geSource e) (geTarget e) (geRelation e)
            (fold (\<lambda>(k, v). AList.update k v) (geProps e) [(''host_id'', PropStr (geHostID e))]) db)) edges db)"

section \<open>Global index\<close>

record index_entry =
  ieNodeID :: string
  ieNodeType :: string
  ieLabel :: string
  ieHostID :: string
  ieAgentID :: string
  ieTimestamp :: time

type_synonym index = "(string \<times> (string \<times> index_entry) list) list"

record global_index =
  giByHostID :: index
  giByIP :: index
  giByIdent :: index

definition NewGlobalIndex :: global_index where
  "NewGlobalIndex = \<lparr>giByHostID = [], giByIP = [], giByIdent = []\<rparr>"

definition extractIPs :: "global_node \<Rightarrow> string list" where
  "extractIPs node =
     (if containsStr (gnLabel node) ''.'' \<and> \<not> containsStr (gnLabel node) ''/'' then [gnLabel node] else []) @
     List.map_filter (\<lambda>key. case strProp key (gnProps node) of Some v \<Rightarrow> if v \<noteq> [] then Some v else None | None \<Rightarrow> None)
       [''ip'', ''src_ip'', ''dst_ip'', ''addr'']"

definition putIndex :: "string \<Rightarrow> string \<Rightarrow> index_entry \<Rightarrow> index \<Rightarrow> index" where
  "putIndex key i entry ix =
     AList.update key (AList.update i entry (case map_of ix key of None \<Rightarrow> [] | Some m \<Rightarrow> m)) ix"

definition IndexNode :: "time \<Rightarrow> global_node \<Rightarrow> global_index \<Rightarrow> global_index" where
  "IndexNode now node gi =
     (let entry = \<lparr>ieNodeID = gnID node, ieNodeType = gnType node, ieLabel = gnLabel node, ieHostID = gnHostID node,
            ieAgentID = gnAgentID node, ieTimestamp = now\<rparr>;
          gi = (if gnHostID node \<noteq> [] then gi\<lparr>giByHostID := putIndex (gnHostID node) (gnID node) entry (giByHostID gi)\<rparr> else gi);
          gi = (case strProp ''identity'' (gnProps node) of
                  Some ident \<Rightarrow> if ident \<noteq> [] then gi\<lparr>giByIdent := putIndex ident (gnID node) entry (giByIdent gi)\<rparr> else gi
                | None \<Rightarrow> gi)
      in gi\<lparr>giByIP := fold (\<lambda>ip. putIndex ip (gnID node) entry) (extractIPs node) (giByIP gi)\<rparr>)"

definition collectEntries :: "(string \<times> index_entry) list option \<Rightarrow> index_entry list" where
  "collectEntries m = (case m of None \<Rightarrow> [] | Some es \<Rightarrow> map snd es)"

definition QueryByHostID :: "string \<Rightarrow> global_index \<Rightarrow> index_entry list" where
  "QueryByHostID hostID gi = collectEntries (map_of (giByHostID gi) hostID)"

definition QueryByIP :: "string \<Rightarrow> global_index \<Rightarrow> index_entry list" where
  "QueryByIP ip gi = collectEntries (map_of (giByIP gi) ip)"

definition QueryByIdentity :: "string \<Rightarrow> global_index \<Rightarrow> index_entry list" where
  "QueryByIdentity identity gi = collectEntries (map_of (giByIdent gi) identity)"

definition GlobalBacktrack :: "string \<Rightarrow> global_index \<Rightarrow> string list" where
  "GlobalBacktrack nodeID gi =
     (case List.find (\<lambda>(hostID, entries). map_of entries nodeID \<noteq> None) (giByHostID gi) of None \<Rightarrow> [] | Some (hostID, _) \<Rightarrow> [hostID])"

section \<open>Data lifecycle\<close>

datatype data_tier = TierHot | TierWarm | TierCold

record lifecycle_config =
  lcHotRetention :: int
  lcWarmRetention :: int
  lcColdArchivePath :: string
  lcEnableAutoArchival :: bool
  lcDryRun :: bool

definition DefaultLifecycleConfig :: lifecycle_config where
  "DefaultLifecycleConfig = \<lparr>lcHotRetention = 7, lcWarmRetention = 30, lcColdArchivePath = [], lcEnableAutoArchival = True, lcDryRun = True\<rparr>"

record data_record =
  drID :: string
  drTier :: data_tier
  drCreatedAt :: time
  drIsAlert :: bool
  drSizeBytes :: int

record lifecycle_manager =
  lmCfg :: lifecycle_config
  lmHotToWarm :: nat
  lmWarmToCold :: nat
  lmAlertOnly :: nat
  lmTotalSize :: int

definition NewLifecycleManager :: "lifecycle_config option \<Rightarrow> lifecycle_manager" where
  "NewLifecycleManager cfg = \<lparr>lmCfg = (case cfg of None \<Rightarrow> DefaultLifecycleConfig | Some c \<Rightarrow> c),
     lmHotToWarm = 0, lmWarmToCold = 0, lmAlertOnly = 0, lmTotalSize = 0\<rparr>"

definition day :: int where
  "day = 24 * 3600 * 1000000000"

definition ClassifyTier :: "time \<Rightarrow> time \<Rightarrow> bool \<Rightarrow> lifecycle_manager \<Rightarrow> data_tier" where
  "ClassifyTier now createdAt isAlert lm =
     (let age = timeSub now createdAt
      in if age < lcHotRetention (lmCfg lm) * day then TierHot
         else if age < lcWarmRetention (lmCfg lm) * day then TierWarm
         else TierCold)"

definition ShouldPrune :: "time \<Rightarrow> time \<Rightarrow> bool \<Rightarrow> lifecycle_manager \<Rightarrow> bool" where
  "ShouldPrune now createdAt isAlert lm =
     (let age = timeSub now createdAt; coldThreshold = lcWarmRetention (lmCfg lm) * day
      in if age \<le> coldThreshold then False else if isAlert then False else True)"

definition ArchiveRecord :: "time \<Rightarrow> data_record \<Rightarrow> lifecycle_manager \<Rightarrow> data_tier \<times> data_record \<times> lifecycle_manager" where
  "ArchiveRecord now record lm =
     (let newTier = ClassifyTier now (drCreatedAt record) (drIsAlert record) lm
      in if newTier = drTier record then (newTier, record, lm)
         else let lm = (case newTier of
                    TierWarm \<Rightarrow> lm\<lparr>lmHotToWarm := lmHotToWarm lm + 1\<rparr>
                  | TierCold \<Rightarrow> (if drIsAlert record then lm\<lparr>lmAlertOnly := lmAlertOnly lm + 1\<rparr>
                      else lm\<lparr>lmWarmToCold := lmWarmToCold lm + 1\<rparr>)
                  | TierHot \<Rightarrow> lm)
              in (newTier, record\<lparr>drTier := newTier\<rparr>, lm\<lparr>lmTotalSize := lmTotalSize lm + drSizeBytes record\<rparr>))"

section \<open>Shortest paths\<close>

text \<open>A path in the database: the nodes of a walk.\<close>

definition isPath :: "global_edge list \<Rightarrow> string list \<Rightarrow> bool" where
  "isPath es p = (\<forall>i < length p - 1. linked es (p ! i) (p ! (i + 1)))"

lemma isPath_snoc: "p \<noteq> [] \<Longrightarrow> isPath es p \<Longrightarrow> linked es (last p) b \<Longrightarrow> isPath es (p @ [b])"
  unfolding isPath_def
proof (intro allI impI)
  fix i assume p: "p \<noteq> []" "\<forall>i < length p - 1. linked es (p ! i) (p ! (i + 1))" "linked es (last p) b" "i < length (p @ [b]) - 1"
  show "linked es ((p @ [b]) ! i) ((p @ [b]) ! (i + 1))"
  proof (cases "i + 1 < length p")
    case True
    then show ?thesis using p by (simp add: nth_append)
  next
    case False
    then have "i = length p - 1" using p by simp
    then show ?thesis using p by (simp add: nth_append last_conv_nth)
  qed
qed

definition itemOk :: "global_edge list \<Rightarrow> string \<Rightarrow> path_item \<Rightarrow> bool" where
  "itemOk es source i \<longleftrightarrow> piPath i \<noteq> [] \<and> hd (piPath i) = source \<and> last (piPath i) = piID i \<and> length (piPath i) = piDepth i + 1
     \<and> isPath es (piPath i)"

lemma hopLoop_correct:
  assumes "bfsInv (linked edges) source (nat maxHops) vis (map (\<lambda>i. (piID i, piDepth i)) queue)"
    and "visited = map fst vis" "list_all (itemOk edges source) queue" "\<forall>(u, c) \<in> set vis. \<not> linked edges u target"
  shows "case hopLoop edges target maxHops queue visited of
      None \<Rightarrow> \<forall>k \<le> nat maxHops. \<not> (linked edges ^^ Suc k) source target
    | Some p \<Rightarrow> hd p = source \<and> last p = target \<and> isPath edges p \<and> 2 \<le> length p \<and> length p \<le> nat maxHops + 2
        \<and> (\<forall>k. (linked edges ^^ Suc k) source target \<longrightarrow> length p \<le> k + 2)"
  using assms
proof (induction edges target maxHops queue visited arbitrary: vis rule: hopLoop.induct)
  case (1 edges target maxHops visited)
  have "\<not> (linked edges ^^ Suc k) source target" if "k \<le> nat maxHops" for k
  proof
    assume "(linked edges ^^ Suc k) source target"
    then obtain u where "(linked edges ^^ k) source u" "linked edges u target" by auto
    then show False using bfs_frontier [OF 1(1) _ that] 1(4) by auto
  qed
  then show ?case by simp
next
  case (2 edges target maxHops cur queue visited)
  show ?case
  proof (cases "piID cur \<in> set visited")
    case True
    then show ?thesis using 2(1) [OF True, of vis] 2(3-) bfs_skip [OF 2(3) [simplified list.map]] by force
  next
    case False
    let ?d = "piDepth cur" and ?v = "piID cur # visited"
    have inv: "bfsInv (linked edges) source (nat maxHops) vis ((piID cur, ?d) # map (\<lambda>i. (piID i, piDepth i)) queue)"
      using 2(3) by simp
    have nv: "piID cur \<notin> fst ` set vis" using False 2(4) by simp
    have ok: "itemOk edges source cur" using 2(5) by simp
    have d: "?d \<le> nat maxHops" using bfsInvD(3) [OF inv, of "piID cur" ?d] by simp
    show ?thesis
    proof (cases "stepEdges target maxHops ?v cur edges")
      case (Inl p)
      then have p: "p = piPath cur @ [target]" "linked edges (piID cur) target" using stepEdges_found by blast+
      have "?d \<le> k" if w: "(linked edges ^^ Suc k) source target" for k
      proof (rule ccontr)
        assume k: "\<not> ?d \<le> k"
        obtain u where u: "(linked edges ^^ k) source u" "linked edges u target" using w by auto
        have "(\<exists>c \<le> k. (u, c) \<in> set vis) \<or> (\<exists>w c. (w, c) \<in> set ((piID cur, ?d) # map (\<lambda>i. (piID i, piDepth i)) queue) \<and> c \<le> k)"
          using bfs_frontier [OF inv u(1)] d k by simp
        moreover have "?d \<le> c" if "(w, c) \<in> set ((piID cur, ?d) # map (\<lambda>i. (piID i, piDepth i)) queue)" for w c
          using that bfsInvD(4) [OF inv] by force
        ultimately show False using k u(2) 2(6) by fastforce
      qed
      then show ?thesis using Inl False p ok d isPath_snoc [of "piPath cur" edges target] by (auto simp: itemOk_def Let_def)
    next
      case (Inr new)
      have "bfsInv (linked edges) source (nat maxHops) ((piID cur, ?d) # vis)
          (map (\<lambda>i. (piID i, piDepth i)) queue @ map (\<lambda>i. (piID i, piDepth i)) new)"
      proof (rule bfs_visit [OF inv nv])
        fix w c assume "(w, c) \<in> set (map (\<lambda>i. (piID i, piDepth i)) new)"
        then show "c = ?d + 1 \<and> linked edges (piID cur) w \<and> ?d < nat maxHops" using stepEdges_item [OF Inr]
          by (fastforce simp: zless_nat_eq_int_zless)
      next
        fix w assume "?d < nat maxHops" "linked edges (piID cur) w"
        then show "w \<in> fst ` set ((piID cur, ?d) # vis) \<or> w \<in> fst ` set (map (\<lambda>i. (piID i, piDepth i)) new)"
          using stepEdges_all [OF Inr, of w] 2(4) by (force simp: image_iff)
      qed
      moreover have "itemOk edges source x" if "x \<in> set new" for x
        using stepEdges_item [OF Inr that] ok isPath_snoc [of "piPath cur" edges "piID x"] by (simp add: itemOk_def)
      then have "list_all (itemOk edges source) (queue @ new)" using 2(5) by (auto simp: list_all_iff)
      moreover have "\<not> linked edges (piID cur) target" using stepEdges_all [OF Inr, of target] by blast
      ultimately show ?thesis
        using 2(2) [OF False refl Inr, of "(piID cur, ?d) # vis"] 2(4,6) False Inr by (simp add: Let_def)
    qed
  qed
qed

declare hopLoop.simps(2) [simp del]


definition chainEdge :: "string \<Rightarrow> string \<Rightarrow> global_edge" where
  "chainEdge a b = \<lparr>geSource = a, geTarget = b, geRelation = ''r'', geHostID = [], geProps = [], geTime = 0\<rparr>"


text \<open>A path of one edge more than the allowed hops is returned.\<close>

lemma path_over_limit:
  "QueryPaths ''a'' ''c'' 1 \<lparr>mdNodes = [], mdEdges = [chainEdge ''a'' ''b'', chainEdge ''b'' ''c'']\<rparr> = [([''a'', ''b'', ''c''], 3)]"
  by code_simp

section \<open>Indexes and tiers\<close>

text \<open>Looking up a host finds the node last indexed under it; but a node that moved to another host is still found under the old one.\<close>

lemma map_of_putIndex:
  "map_of (putIndex key i entry ix) k = (if k = key then Some (AList.update i entry (case map_of ix key of None \<Rightarrow> [] | Some m \<Rightarrow> m)) else map_of ix k)"
  by (simp add: putIndex_def update_conv')

lemma IndexNode_hosts:
  "giByHostID (IndexNode now node gi) = (if gnHostID node = [] then giByHostID gi else
     putIndex (gnHostID node) (gnID node) \<lparr>ieNodeID = gnID node, ieNodeType = gnType node, ieLabel = gnLabel node,
       ieHostID = gnHostID node, ieAgentID = gnAgentID node, ieTimestamp = now\<rparr> (giByHostID gi))"
  by (simp add: IndexNode_def Let_def split: option.split)

lemma indexed_node_found:
  assumes "gnHostID node \<noteq> []"
  shows "\<exists>e \<in> set (QueryByHostID (gnHostID node) (IndexNode now node gi)). ieNodeID e = gnID node \<and> ieLabel e = gnLabel node \<and> ieTimestamp e = now"
proof -
  have "(k, v) \<in> set (AList.update k v al)" for k and v :: index_entry and al by (rule map_of_SomeD) (simp add: update_conv')
  then have mem: "v \<in> snd ` set (AList.update k v al)" for k and v :: index_entry and al by (metis image_eqI snd_conv)
  let ?e = "\<lparr>ieNodeID = gnID node, ieNodeType = gnType node, ieLabel = gnLabel node, ieHostID = gnHostID node,
    ieAgentID = gnAgentID node, ieTimestamp = now\<rparr>"
  have "?e \<in> set (QueryByHostID (gnHostID node) (IndexNode now node gi))"
    using assms mem by (simp add: QueryByHostID_def IndexNode_hosts map_of_putIndex collectEntries_def)
  then show ?thesis by (rule bexI [rotated]) simp
qed

lemma stale_host_entry:
  assumes "gnHostID node \<noteq> []" "h \<noteq> gnHostID node"
  shows "QueryByHostID h (IndexNode now node gi) = QueryByHostID h gi"
  using assms by (simp add: QueryByHostID_def IndexNode_hosts map_of_putIndex)

lemma file_name_indexed_as_address:
  "QueryByIP ''report.txt'' (IndexNode 0 \<lparr>gnID = ''f:1'', gnType = ''file'', gnLabel = ''report.txt'', gnHostID = ''h'', gnAgentID = [],
     gnProps = [], gnCreatedAt = 0\<rparr> NewGlobalIndex) \<noteq> []"
  by code_simp

text \<open>Only cold data without an alert is pruned, and data never moves to a hotter tier as time goes by.\<close>

fun tierRank :: "data_tier \<Rightarrow> nat" where
  "tierRank TierHot = 0"
| "tierRank TierWarm = 1"
| "tierRank TierCold = 2"

lemma pruned_is_cold:
  assumes "ShouldPrune now createdAt isAlert lm" "lcHotRetention (lmCfg lm) \<le> lcWarmRetention (lmCfg lm)"
  shows "ClassifyTier now createdAt isAlert lm = TierCold \<and> \<not> isAlert"
proof -
  have "lcHotRetention (lmCfg lm) * day \<le> lcWarmRetention (lmCfg lm) * day" using assms(2) by (simp add: day_def)
  then show ?thesis using assms(1) by (auto simp: ShouldPrune_def ClassifyTier_def Let_def split: if_splits)
qed

lemma tiers_cool_down:
  assumes "timeSub now createdAt \<le> timeSub later createdAt"
  shows "tierRank (ClassifyTier now createdAt a lm) \<le> tierRank (ClassifyTier later createdAt a lm)
    \<or> lcWarmRetention (lmCfg lm) < lcHotRetention (lmCfg lm)"
proof (cases "lcWarmRetention (lmCfg lm) < lcHotRetention (lmCfg lm)")
  case False
  then have "lcHotRetention (lmCfg lm) * day \<le> lcWarmRetention (lmCfg lm) * day" by (simp add: day_def)
  then show ?thesis using assms by (auto simp: ClassifyTier_def Let_def)
qed simp

lemma archive_books_transition:
  assumes "ArchiveRecord now r lm = (t, r', lm')"
  shows "drTier r' = t \<and> t = ClassifyTier now (drCreatedAt r) (drIsAlert r) lm
    \<and> lmTotalSize lm' = lmTotalSize lm + (if t = drTier r then 0 else drSizeBytes r)
    \<and> lmHotToWarm lm' + lmWarmToCold lm' + lmAlertOnly lm' =
      lmHotToWarm lm + lmWarmToCold lm + lmAlertOnly lm + (if t = drTier r \<or> t = TierHot then 0 else 1)"
  using assms by (auto simp: ArchiveRecord_def Let_def split: if_splits data_tier.splits)

end
