(* ===== verification/Spec2Isabelle.thy ===== *)
theory Spec2Isabelle
  imports Analyzer QueryTheorems RateLimit TaintTheorems LruCache Merkle StreamEngine
    Backtrace LockFree ControlPlane AlertFlow EdgeReduce EventQueue Stitch Adaptive EventFilter EventFold SelfHeal TlsFingerprint Anonymize Ingest
    BlastRadius GlobalGraph
begin

text \<open>
  ProvidAPT is a host agent against advanced persistent threats. An eBPF program in the kernel writes a
  record for every process, file, memory and network event into a ring buffer; the agent decodes the
  records, builds a provenance graph in the style of W3C PROV from them, matches attack patterns against
  the stream, follows tainted data, protects its audit trail with hashes, and answers queries over the
  graph. This development models that core, file by file, and proves what the parts promise.

  \<^bold>\<open>How the parts work together.\<close> \<^verbatim>\<open>collector.ParseRawEvent\<close> turns a ring-buffer record into an event; the rate
  limiter may drop it and the filter suppresses what it has learned to be benign; the streaming engine collects events in micro-batches and feeds each to the graph
  (\<^verbatim>\<open>Graph.AddEvent\<close>), the rolling snapshot and the pattern matcher. The graph keeps one node per process and
  one per file version, and merges repeated edges. \<^verbatim>\<open>Graph.Prune\<close> bounds its size; ProvQL queries read it. The
  taint engine marks processes and files reached from the network. The analyzer scans snapshots of the graph: it
  propagates suspicion from known seeds, checks patterns and Sigma rules, and raises alerts. The hash chain and the Merkle tree make
  the recorded events tamper-evident, and the node cache decides which nodes stay in memory. A backtracer walks the
  graph and the store from a node to its causes. The lock-free ring hands events from the reader to the pipeline,
  and the edge reducer merges repeated edges before they are stored. Around the agents, the control plane elects a leader
  among its nodes, the central server joins the two ends of a connection between hosts, and the alert workflow
  deduplicates, silences and closes what the detectors report. Alerts also raise the monitoring level of a process, which
  the adaptive controller writes to a map the kernel programs read, and a self-healing monitor reloads these programs when
  they are missing.

  \<^bold>\<open>Theories.\<close> Each opens with the source files it models.
  \<^item> \<open>Prelude\<close>: Go strings, numerals, UTF-8, times; \<open>GoTime\<close>: RFC 3339 text and \<^verbatim>\<open>time.ParseDuration\<close>;
    \<open>Interfaces\<close>: the locales \<open>kv_store\<close> (a Go map), \<open>guarded_system\<close> and \<open>total_system\<close> (a component whose operations
    keep an invariant, and never panic) and \<open>client_protocol\<close> (operations that keep the invariant if the caller keeps
    a precondition) and \<open>ledger\<close> (such operations that also keep books), interpreted on association lists and on the components' own operations.
  \<^item> \<open>Events\<close> (\<^verbatim>\<open>engine/syscall/syscall_table.go\<close>, \<^verbatim>\<open>engine/collector/ringbuf.go\<close>): event types, the event and its
    decoder. C1 is the round trip with the layout the kernel writes.
  \<^item> \<open>ProvIds\<close> (\<^verbatim>\<open>engine/provenance/prov.go\<close>, \<^verbatim>\<open>node.go\<close>, \<^verbatim>\<open>edge.go\<close>, \<^verbatim>\<open>version.go\<close>, \<^verbatim>\<open>credential.go\<close>,
    \<^verbatim>\<open>identity.go\<close>): identifiers, nodes, edges, the version tracker, credentials, process parents. \<open>ProvGraph\<close>
    (\<^verbatim>\<open>graph.go\<close>, \<^verbatim>\<open>memory.go\<close>, and the graph methods of \<^verbatim>\<open>version.go\<close> and \<^verbatim>\<open>identity.go\<close>): the graph and every
    event handler. \<open>Pruner\<close> (\<^verbatim>\<open>pruner.go\<close>). \<open>ProvGraphInv\<close> and \<open>ProvGraphProps\<close> hold the preservation lemmas,
    \<open>GraphTheorems\<close> the properties C2 to C5 and C7: well-formedness of every run, reads linked to the last write,
    fresh versions, pruning as connected components, identifiers that do not clash. \<open>GraphTypes\<close>: C12, nodes and
    relations are typed.
  \<^item> \<open>Sigma\<close> (\<^verbatim>\<open>internal/policy/sigma/sigma.go\<close>): C19, a rule for file accesses reports exactly the accesses it
    describes; wildcards, which the code turns into regular expressions, are globs. \<open>GoPath\<close> is \<^verbatim>\<open>filepath.Match\<close>.
  \<^item> \<open>GraphTaint\<close> (\<^verbatim>\<open>engine/analyzer/taint.go\<close>), \<open>GraphTaintInv\<close> (the locale \<open>taint_flow\<close> of what the worklist loop
    needs) and \<open>GraphTaintTheorems\<close>: C11, propagation ends; C18 and C32, it computes the best taint any walk from a seed
    gives a node, and a path that explains it. \<open>Analyzer\<close> (\<^verbatim>\<open>patterns.go\<close>, \<^verbatim>\<open>alert.go\<close>, \<^verbatim>\<open>analyzer.go\<close>): C27, a scan
    reports each detection once.
  \<^item> \<open>Query\<close> (\<^verbatim>\<open>engine/query/ast.go\<close>, \<^verbatim>\<open>parser.go\<close>), \<open>QueryExec\<close> (\<^verbatim>\<open>executor.go\<close>), \<open>QueryPrint\<close> (a printer, the
    inverse of the parser) and \<open>QueryTheorems\<close>: C8 and C9, parsing inverts printing and execution returns
    exactly the matching walks.
  \<^item> \<open>RateLimit\<close> (\<^verbatim>\<open>engine/ratelimit/ratelimit.go\<close>): levels, hysteresis and counters. \<open>Taint\<close> and \<open>TaintTheorems\<close>
    (\<^verbatim>\<open>engine/taint/taint.go\<close>): C13 and C14, and when actions raise alerts. \<open>LruCache\<close> (\<^verbatim>\<open>storage/cache/lru.go\<close>): a bounded least-recently-used list.
  \<^item> \<open>Sha256\<close> writes out SHA-256, HMAC and hexadecimal text; \<open>HashChain\<close> (\<^verbatim>\<open>engine/chain/chain.go\<close>,
    \<^verbatim>\<open>verify.go\<close>): chains verify, and C22; \<open>Merkle\<close> (\<^verbatim>\<open>pkg/secure/merkle.go\<close>): C23, anchors, and that the two agree on roots.
  \<^item> \<open>Snapshot\<close> (\<^verbatim>\<open>engine/stream/snapshot.go\<close>): C26, the ring buffer implements a bounded queue; its
    lookups agree with a scan. \<open>Nfa\<close> (\<^verbatim>\<open>engine/stream/nfa.go\<close>): C28 and C30. \<open>StreamEngine\<close>
    (\<^verbatim>\<open>engine/stream/engine.go\<close>): C31, every interleaving of the goroutines equals a sequential run.
  \<^item> \<open>Backtrace\<close> (\<^verbatim>\<open>engine/backtrace/backtrace.go\<close>): C33 and C34, a trace finds the ancestors at their distances, and
    when it fails. \<open>LockFree\<close> (\<^verbatim>\<open>engine/pipeline/lockfree.go\<close>): C35, the ring is a queue under every interleaving of the
    atomic accesses of one producer and one consumer.
  \<^item> \<open>ControlPlane\<close> (\<^verbatim>\<open>pkg/controlplaneha/coordinator.go\<close>): C36 and C37, one leader per timeout and what a failing
    backend does. \<open>AlertFlow\<close> (\<^verbatim>\<open>pkg/alertflow/manager.go\<close>): C38, the store and its index stay consistent and
    notifications are spaced. \<open>EdgeReduce\<close> (\<^verbatim>\<open>engine/edgereduce/reducer.go\<close>): C40, no event is lost or counted twice.
  \<^item> \<open>GoHeap\<close> is Go's \<^verbatim>\<open>container/heap\<close> with the locale \<open>heap_interface\<close> of what its clients owe; \<open>EventQueue\<close>
    (\<^verbatim>\<open>stitcher/server/queue.go\<close>, \<^verbatim>\<open>throttle.go\<close>) interprets it: C6, the most urgent event comes first. \<open>Stitch\<close>
    (\<^verbatim>\<open>stitcher/stitch/stitch.go\<close>, \<^verbatim>\<open>taint_prop.go\<close>, \<^verbatim>\<open>server.go\<close>): C21, flows seen from both ends are joined.
  \<^item> \<open>Adaptive\<close> (\<^verbatim>\<open>policy/adaptive/levels.go\<close>, \<^verbatim>\<open>controller.go\<close>): C29, the kernel map holds the levels the controller
    decides, and ticks lower them in time. \<open>EventFilter\<close> (\<^verbatim>\<open>engine/filter/baseline.go\<close>, \<^verbatim>\<open>repute.go\<close>, \<^verbatim>\<open>engine.go\<close>): C24, only
    behaviour learned in training is suppressed. \<open>EventFold\<close> (\<^verbatim>\<open>engine/fold/ioagg.go\<close>, \<^verbatim>\<open>dedup.go\<close>, \<^verbatim>\<open>throttle.go\<close>): C16,
    folding loses no operation and no byte; repeated results are suppressed, the window follows the load.
  \<^item> \<open>SelfHeal\<close> (\<^verbatim>\<open>policy/selfheal/selfheal.go\<close>, \<^verbatim>\<open>circuitbreaker.go\<close>, \<^verbatim>\<open>bpf_types.go\<close>): C10, three failed reloads open the
    circuit breaker, and while it is open nothing is reloaded.
  \<^item> \<open>TlsFingerprint\<close> (\<^verbatim>\<open>engine/ja3/ja3.go\<close>, \<^verbatim>\<open>correlate.go\<close>): C25, the parser of TLS greetings returns what was laid out;
    when it panics; clusters summarise their records.
  \<^item> \<open>Aes\<close> writes out AES and its Galois counter mode; \<open>Anonymize\<close> (\<^verbatim>\<open>pkg/anonymize/anonymize.go\<close>): C15, paths leave as
    pseudonyms and the encrypted store recovers exactly their originals.
  \<^item> \<open>DiskStore\<close> (\<^verbatim>\<open>storage/store/store.go\<close>, \<^verbatim>\<open>pkg/secure/crypto.go\<close>): C20, nodes read back as they were put and time ranges
    return their edges in order; the database below is an argument with its documented behaviour as a hypothesis.
  \<^item> \<open>Ingest\<close> (\<^verbatim>\<open>engine/pipeline/pipeline.go\<close>, \<^verbatim>\<open>merger.go\<close>, \<^verbatim>\<open>backpressure.go\<close>) composes graph, cache, merge window and store: C17, no
    event is lost or counted twice in the summaries of its edge; what is written can be queried; which checks block. Its locales \<open>evict_world\<close> and
    \<open>store_world\<close> say what a run can do to the store below.
  \<^item> \<open>Bfs\<close> holds the invariant of a breadth-first search with a bound, for its two clients: \<open>GlobalGraph\<close>
    (\<^verbatim>\<open>storage/graphdb/graphdb.go\<close>, \<^verbatim>\<open>index.go\<close>, \<^verbatim>\<open>lifecycle.go\<close>), C39, paths between nodes of the global graph are shortest, with its indexes
    and data tiers; and \<open>BlastRadius\<close> (\<^verbatim>\<open>policy/blastradius/blast.go\<close>, \<^verbatim>\<open>credential.go\<close>, \<^verbatim>\<open>path.go\<close>), the hosts an intrusion reaches,
    thefts of credentials joined to logins, anomalous paths.

  \<^bold>\<open>Conventions.\<close> A struct is a record with the fields in the order of the source, a map an association list
  with distinct keys whose order stands for the unspecified iteration order, a slice a list, a channel the
  list of its queued values. A Go panic is \<^const>\<open>None\<close>, an error value \<^const>\<open>Inl\<close>. Words keep their width where
  the code depends on it; Go \<^verbatim>\<open>int\<close> counters that a 64-bit machine cannot exhaust are \<^typ>\<open>int\<close> or \<^typ>\<open>nat\<close>.
  Clock readings, file contents, the eviction and flush callbacks, JSON encoding, \<^verbatim>\<open>time.Parse\<close>, the anchor store and the
  shared state of the control plane are arguments of the operations that use them. Cached edges, which a map and a list
  share by pointer, live in an explicit heap. Mutexes make each exported operation atomic, so an operation is
  one step; the goroutines of the streaming engine are interleaved explicitly. Log lines and metrics are
  left out.

  \<^bold>\<open>Bounds and fuel.\<close> Loops are structural recursion or \<^theory_text>\<open>function\<close> with a measure (the search of the pruner, the
  parser over the remaining input, the traversal over the remaining pattern, Merkle levels over the number of
  hashes, the backward search over a multiset of the remaining depths). Taint propagation and its walk back are partial functions that C11 shows to return. Only the two loops that walk the snapshot ring take fuel, the size of the ring; \<open>evictLoopS_spec\<close> and
  \<open>recentLoop_spec\<close> show that they end within it, and C26 and \<open>snapshot_lookups\<close> state that they return.

  \<^bold>\<open>Not modelled.\<close> Kernel programs, database, network servers, configuration, machine learning and everything whose
  body is input and output. Collision resistance of SHA-256 is never assumed globally: theorems about
  tampering carry injectivity on the inputs at hand as a hypothesis. Case mapping is that of ASCII.
  Floating-point ratios of the rate limiter are real numbers.

  \<^bold>\<open>Next.\<close> Serialisation and walks of the graph, and the configuration checks.
\<close>

end
